(* ===== verification/Prelude.thy ===== *)
theory Prelude
  imports Main "HOL-Library.Word"
begin

unbundle bit_operations_syntax

text \<open>
  Shared material of the development: the machine types of the source (\<open>u8\<close> .. \<open>u64\<close> and \<open>i64\<close> as words,
  byte slices as byte lists), Rust's \<open>Result\<close> as a sum type, the checked slice access
  \<open>slice::get\<close>, the little-endian conversions \<open>to_le_bytes\<close>/\<open>from_le_bytes\<close> of the standard
  library with their round trips, and the generic list and word lemmas the components use.
  The collection \<open>codec_simps\<close> holds the round-trip equations of the codecs.
\<close>

named_theorems codec_simps \<open>round-trip and length equations of the byte codecs\<close>
named_theorems wf_intros \<open>preservation of well-formedness by the operations\<close>

type_synonym byte = "8 word"
type_synonym u16 = "16 word"
type_synonym u32 = "32 word"
type_synonym u64 = "64 word"
type_synonym i64 = "64 word"
type_synonym bytes = "8 word list"

abbreviation Ok :: "'a \<Rightarrow> 'e + 'a" where "Ok \<equiv> Inr"
abbreviation Err :: "'e \<Rightarrow> 'e + 'a" where "Err \<equiv> Inl"

text \<open>The \<open>?\<close> operator: continue with the value of an \<open>Ok\<close>, return an \<open>Err\<close> unchanged.\<close>

fun rbind :: "'e + 'a \<Rightarrow> ('a \<Rightarrow> 'e + 'b) \<Rightarrow> 'e + 'b" where
  "rbind (Inl e) f = Inl e"
| "rbind (Inr a) f = f a"

lemma rbind_Ok: "rbind r f = Ok y \<longleftrightarrow> (\<exists>x. r = Ok x \<and> f x = Ok y)"
  by (cases r) auto

text \<open>\<open>Option::ok_or\<close>.\<close>

fun ok_or :: "'a option \<Rightarrow> 'e \<Rightarrow> 'e + 'a" where
  "ok_or None e = Inl e"
| "ok_or (Some x) e = Inr x"

lemma ok_or_Ok: "ok_or r e = Ok x \<longleftrightarrow> r = Some x"
  by (cases r) auto

text \<open>\<open>usize::checked_add\<close> on a 64-bit target.\<close>

definition checked_add_usize :: "nat \<Rightarrow> nat \<Rightarrow> nat option" where
  "checked_add_usize a b = (if a + b < 2 ^ 64 then Some (a + b) else None)"

lemma checked_add_usize_Some: "checked_add_usize a b = Some c \<longleftrightarrow> a + b < 2 ^ 64 \<and> c = a + b"
  by (auto simp: checked_add_usize_def)

text \<open>Sequencing of calls that may panic (\<open>None\<close>) or return an error.\<close>

fun pbind :: "('e + 'a) option \<Rightarrow> ('a \<Rightarrow> ('e + 'b) option) \<Rightarrow> ('e + 'b) option" where
  "pbind None f = None"
| "pbind (Some (Inl e)) f = Some (Inl e)"
| "pbind (Some (Inr a)) f = f a"

lemma pbind_Ok: "pbind r f = Some (Ok y) \<longleftrightarrow> (\<exists>x. r = Some (Ok x) \<and> f x = Some (Ok y))"
  by (cases "(r, f)" rule: pbind.cases) auto

lemma pbind_None: "pbind r f = None \<longleftrightarrow> r = None \<or> (\<exists>x. r = Some (Ok x) \<and> f x = None)"
  by (cases "(r, f)" rule: pbind.cases) auto

section \<open>Slices\<close>

text \<open>\<open>xs.get(i)\<close>, and \<open>xs[i]\<close>, where \<open>None\<close> is a panic.\<close>

definition index_at :: "'a list \<Rightarrow> nat \<Rightarrow> 'a option" where
  "index_at xs i = (if i < length xs then Some (xs ! i) else None)"

lemma index_at_nth [simp]: "i < length xs \<Longrightarrow> index_at xs i = Some (xs ! i)"
  by (simp add: index_at_def)

text \<open>\<open>bs.get(i..j)\<close>: \<open>None\<close> when the range does not lie inside the slice.\<close>

definition get_range :: "'a list \<Rightarrow> nat \<Rightarrow> nat \<Rightarrow> 'a list option" where
  "get_range bs i j = (if i \<le> j \<and> j \<le> length bs then Some (take (j - i) (drop i bs)) else None)"

text \<open>\<open>&bs[i..j]\<close> where the code has checked the range.\<close>

definition sub_slice :: "'a list \<Rightarrow> nat \<Rightarrow> nat \<Rightarrow> 'a list" where
  "sub_slice bs i j = take (j - i) (drop i bs)"

lemma get_range_Some:
  "get_range bs i j = Some xs \<longleftrightarrow> i \<le> j \<and> j \<le> length bs \<and> xs = sub_slice bs i j"
  by (auto simp: get_range_def sub_slice_def)

lemma get_range_None: "get_range bs i j = None \<longleftrightarrow> \<not> (i \<le> j \<and> j \<le> length bs)"
  by (auto simp: get_range_def)

lemma length_sub_slice [simp]: "length (sub_slice bs i j) = min (j - i) (length bs - i)"
  by (simp add: sub_slice_def min.commute)

lemma sub_slice_append_left: "j \<le> length xs \<Longrightarrow> sub_slice (xs @ ys) i j = sub_slice xs i j"
  by (simp add: sub_slice_def)

lemma get_range_append: "get_range bs i j = Some xs \<Longrightarrow> get_range (bs @ ys) i j = Some xs"
  by (auto simp: get_range_Some sub_slice_append_left)

lemma get_range_prefix [simp]:
  "get_range (xs @ ys @ zs) (length xs) (length xs + length ys) = Some ys"
  by (simp add: get_range_def)

lemma get_range_split:
  "get_range bs i j = Some xs \<Longrightarrow> bs = take i bs @ xs @ drop j bs"
  by (auto simp: get_range_Some sub_slice_def)
    (metis append_take_drop_id drop_drop le_add_diff_inverse2)

lemma length_takeWhile_less: "\<exists>x\<in>set xs. \<not> P x \<Longrightarrow> length (takeWhile P xs) < length xs"
  by (induction xs) auto

lemma takeWhile_take: "takeWhile P (take n xs) = take n (takeWhile P xs)"
  by (induction xs arbitrary: n) (simp_all add: take_Cons')

text \<open>The bytes \<open>xs\<close> stand at offset \<open>at\<close>.\<close>

definition code_at :: "'a list \<Rightarrow> nat \<Rightarrow> 'a list \<Rightarrow> bool" where
  "code_at bs at xs \<longleftrightarrow> (\<exists>rest. drop at bs = xs @ rest)"

lemma code_at_Nil [simp]: "code_at bs at []"
  by (simp add: code_at_def)

lemma code_at_Cons [simp]: "code_at bs at (x # xs) \<longleftrightarrow> at < length bs \<and> bs ! at = x \<and> code_at bs (Suc at) xs"
proof (cases "at < length bs")
  case True
  then have "drop at bs = bs ! at # drop (Suc at) bs" by (simp add: Cons_nth_drop_Suc)
  then show ?thesis using True by (auto simp: code_at_def)
qed (auto simp: code_at_def)

lemma code_at_append [simp]: "code_at bs at (xs @ ys) \<longleftrightarrow> code_at bs at xs \<and> code_at bs (at + length xs) ys"
proof (induction xs arbitrary: at)
  case (Cons x xs)
  show ?case by (auto simp: Cons)
qed simp

lemma code_at_take: "code_at bs at xs \<Longrightarrow> take (length xs) (drop at bs) = xs"
  by (auto simp: code_at_def)

lemma code_at_le: "code_at bs at xs \<Longrightarrow> xs \<noteq> [] \<or> at \<le> length bs \<Longrightarrow> at + length xs \<le> length bs"
  by (induction xs arbitrary: at) (force simp: Suc_le_eq)+

lemma code_at_self: "code_at bs at (take n (drop at bs))"
  unfolding code_at_def by (rule exI [of _ "drop n (drop at bs)"]) (simp only: append_take_drop_id)

lemma code_at_whole: "code_at bs 0 xs \<Longrightarrow> length bs = length xs \<Longrightarrow> bs = xs"
  by (auto simp: code_at_def)

lemma code_at_unique:
  "code_at bs at xs \<Longrightarrow> code_at bs at ys \<Longrightarrow> length xs = length ys \<Longrightarrow> xs = ys"
  by (auto simp: code_at_def)

section \<open>Little-endian bytes\<close>

text \<open>
  The low \<open>n\<close> bytes of a word, least significant first: \<open>v.to_le_bytes()[..n]\<close>, and the word a
  little-endian byte sequence denotes (\<open>from_le_bytes\<close> of the bytes zero-extended).
\<close>

primrec le_bytes :: "nat \<Rightarrow> 'a::len word \<Rightarrow> bytes" where
  "le_bytes 0 v = []"
| "le_bytes (Suc n) v = ucast v # le_bytes n (drop_bit 8 v)"

primrec of_le_bytes :: "bytes \<Rightarrow> 'a::len word" where
  "of_le_bytes [] = 0"
| "of_le_bytes (b # bs) = ucast b OR push_bit 8 (of_le_bytes bs)"

lemma length_le_bytes [simp, codec_simps]: "length (le_bytes n v) = n"
  by (induction n arbitrary: v) auto

lemma of_le_bytes_le_bytes_take: "of_le_bytes (le_bytes n v) = take_bit (8 * n) (v :: 'a::len word)"
proof (induction n arbitrary: v)
  case 0
  then show ?case by simp
next
  case (Suc n)
  show ?case
    by (rule bit_word_eqI)
      (auto simp: Suc.IH bit_or_iff bit_take_bit_iff bit_push_bit_iff bit_drop_bit_eq
        unsigned_ucast_eq bit_ucast_iff)
qed

lemma of_le_bytes_le_bytes [codec_simps]:
  "LENGTH('a) \<le> 8 * n \<Longrightarrow> of_le_bytes (le_bytes n v) = (v :: 'a::len word)"
  by (simp add: of_le_bytes_le_bytes_take take_bit_word_eq_self)

lemma of_le_bytes_le_bytes_small [codec_simps]:
  "unat v < 2 ^ (8 * n) \<Longrightarrow> of_le_bytes (le_bytes n v) = (v :: 'a::len word)"
  by (simp add: of_le_bytes_le_bytes_take word_unat_eq_iff unsigned_take_bit_eq take_bit_nat_eq_self)

lemma bit_of_le_bytes_bound:
  "bit (of_le_bytes bs :: 'a::len word) k \<Longrightarrow> k < 8 * length bs"
proof (induction bs arbitrary: k)
  case Nil
  then show ?case by simp
next
  case (Cons b bs)
  then show ?case
    by (cases "k < 8")
      (auto simp: bit_or_iff bit_push_bit_iff bit_ucast_iff dest: bit_imp_le_length Cons.IH)
qed

lemma le_bytes_of_le_bytes [codec_simps]:
  assumes "length bs = n" and "8 * n \<le> LENGTH('a)"
  shows "le_bytes n (of_le_bytes bs :: 'a::len word) = bs"
  using assms
proof (induction bs arbitrary: n)
  case Nil
  then show ?case by simp
next
  case (Cons b bs)
  then obtain m where m: "n = Suc m" "length bs = m" by auto
  have low: "(ucast (ucast b OR push_bit 8 (of_le_bytes bs :: 'a word)) :: byte) = b"
    using Cons.prems m
    by (intro bit_word_eqI) (auto simp: bit_ucast_iff bit_or_iff bit_push_bit_iff)
  have high: "drop_bit 8 (ucast b OR push_bit 8 (of_le_bytes bs :: 'a word)) = of_le_bytes bs"
    using Cons.prems m
    by (intro bit_word_eqI)
      (auto simp: bit_drop_bit_eq bit_or_iff bit_push_bit_iff bit_ucast_iff
        dest: bit_imp_le_length bit_of_le_bytes_bound)
  show ?case using Cons low high m by simp
qed

section \<open>Words\<close>

text \<open>Numeral masks as bit predicates: the simplifier reads a bit of a numeral word as a bit of
  the integer numeral.\<close>

lemma bit_mask_7F [simp]: "bit (0x7F :: int) k \<longleftrightarrow> k < 7"
proof -
  have "(0x7F :: int) = mask 7" by (simp add: mask_eq_exp_minus_1)
  then show ?thesis by (simp only: bit_mask_iff) simp
qed

lemma bit_mask_FF [simp]: "bit (0xFF :: int) k \<longleftrightarrow> k < 8"
proof -
  have "(0xFF :: int) = mask 8" by (simp add: mask_eq_exp_minus_1)
  then show ?thesis by (simp only: bit_mask_iff) simp
qed

lemma bit_exp_80 [simp]: "bit (0x80 :: int) k \<longleftrightarrow> k = 7"
proof -
  have "(0x80 :: int) = 2 ^ 7" by simp
  then show ?thesis by (simp only: bit_exp_iff) auto
qed

lemma unat_drop_bit_div: "unat (drop_bit n (w :: 'a::len word)) = unat w div 2 ^ n"
  by (subst unat_drop_bit_eq) (simp add: drop_bit_eq_div)

lemma div_exp_less: "n div 2 ^ a < 2 ^ b \<Longrightarrow> (n::nat) < 2 ^ (a + b)"
  by (simp add: power_add div_less_iff_less_mult mult.commute)

lemma less_exp_div: "(n::nat) < 2 ^ (a + b) \<Longrightarrow> n div 2 ^ a < 2 ^ b"
  by (simp add: power_add div_less_iff_less_mult mult.commute)

lemma unat_ucast_byte_u64: "unat (ucast (b :: byte) :: u64) = unat b"
proof -
  have "unat b < 2 ^ LENGTH(8)" by (rule unsigned_less)
  then show ?thesis by (simp add: unsigned_ucast_eq take_bit_nat_eq_self)
qed

lemma bit_less_of_drop:
  assumes "drop_bit n (x :: 'a::len word) = 0" and "bit x i"
  shows "i < n"
proof (rule ccontr)
  assume "\<not> i < n"
  with assms(2) have "bit (drop_bit n x) (i - n)" by (simp add: bit_drop_bit_eq)
  with assms(1) show False by simp
qed

lemma xor_cancel_right: "a XOR c = b XOR c \<longleftrightarrow> a = (b :: 'a::len word)"
  by (metis xor.assoc xor.right_neutral xor_self_eq)

lemma xor_cancel_left: "c XOR a = c XOR b \<longleftrightarrow> a = (b :: 'a::len word)"
  by (metis xor.commute xor_cancel_right)

lemma byte_bit_less: "bit (b :: byte) k \<Longrightarrow> k < 8"
  using bit_imp_le_length by fastforce

lemma u64_bit_less: "bit (b :: u64) k \<Longrightarrow> k < 64"
  using bit_imp_le_length by fastforce

lemma unat_of_nat_byte: "n < 256 \<Longrightarrow> unat (of_nat n :: byte) = n"
  by (simp add: unat_of_nat take_bit_nat_eq_self)

lemma unat_of_nat_u64: "m < 2 ^ 64 \<Longrightarrow> unat (of_nat m :: u64) = m"
  by (simp add: unat_of_nat take_bit_nat_eq_self)

lemma unat_of_nat_u32: "m < 2 ^ 32 \<Longrightarrow> unat (of_nat m :: u32) = m"
  by (simp add: unat_of_nat take_bit_nat_eq_self)

lemma unat_less_u64: "unat (x :: u64) < 2 ^ 64"
  using unsigned_less [where w = x] by simp

lemma unat_less_u32: "unat (x :: u32) < 2 ^ 32"
  using unsigned_less [where w = x] by simp

lemma unat_exp_u64: "k < 64 \<Longrightarrow> unat (2 ^ k :: u64) = 2 ^ k"
  using unat_of_nat_u64 [of "2 ^ k"] power_strict_increasing [of k 64 "2 :: nat"] by simp

end
