(* ===== verification/Varint.thy ===== *)
theory Varint
  imports Prelude
begin

text \<open>
  \<^verbatim>\<open>crates/inf-foundation/src/varint.rs\<close>: the canonical LEB128 codec of the log and the fabric.
  \<open>encode_u64\<close> is the encoder's loop; \<open>decode_u64\<close> is the decoder's loop over at most ten bytes,
  with its two refusals (bits beyond 64, non-minimal encodings). The theory proves both round
  trips, so that one value has exactly one accepted encoding.
\<close>

section \<open>Model\<close>

lemma drop_bit_7_less: "drop_bit 7 v \<noteq> 0 \<Longrightarrow> unat (drop_bit 7 v) < unat (v :: u64)"
  by (rule ccontr) (simp add: unat_drop_bit_div word_unat_eq_iff)

function encode_u64 :: "u64 \<Rightarrow> bytes" where
  "encode_u64 v =
     (let byte = ucast (v AND 0x7F) :: byte; v' = drop_bit 7 v
      in if v' = 0 then [byte] else (byte OR 0x80) # encode_u64 v')"
  by pat_completeness auto
termination
  by (relation "measure unat") (auto intro: drop_bit_7_less)

declare encode_u64.simps [simp del]

fun decode_loop :: "nat \<Rightarrow> u64 \<Rightarrow> bytes \<Rightarrow> (u64 \<times> nat) option" where
  "decode_loop i value [] = None"
| "decode_loop i value (byte # bs) =
     (if i \<ge> 10 then None
      else let value' = value OR push_bit (7 * i) (ucast (byte AND 0x7F))
      in if byte AND 0x80 = 0 then
           (if i = 9 \<and> byte > 0x01 then None
            else if i > 0 \<and> byte = 0 then None
            else Some (value', i + 1))
         else decode_loop (Suc i) value' bs)"

definition decode_u64 :: "bytes \<Rightarrow> (u64 \<times> nat) option" where
  "decode_u64 buf = decode_loop 0 0 buf"

section \<open>Bits of one group\<close>

text \<open>A byte of the encoding is a seven-bit group and a continuation flag.\<close>

lemmas group_bits = bit_and_iff bit_or_iff bit_push_bit_iff bit_drop_bit_eq bit_ucast_iff

lemma no_cont_iff: "byte AND 0x80 = (0 :: byte) \<longleftrightarrow> \<not> bit byte 7"
proof
  assume "byte AND 0x80 = (0 :: byte)"
  then have "\<not> bit (byte AND 0x80) 7" by simp
  then show "\<not> bit byte 7" by (simp add: group_bits)
qed (intro bit_word_eqI, auto simp: group_bits)

lemma group_low:
  "(ucast (v AND 0x7F :: u64) OR 0x80 :: byte) AND 0x7F = ucast (v AND 0x7F :: u64)"
  by (rule bit_word_eqI) (auto simp: group_bits)

lemma group_cont: "(ucast (v AND 0x7F :: u64) OR 0x80 :: byte) AND 0x80 \<noteq> 0"
  by (simp add: no_cont_iff group_bits)

lemma group_no_cont: "(ucast (v AND 0x7F :: u64) :: byte) AND 0x80 = 0"
  by (simp add: no_cont_iff group_bits)

lemma group_id: "(ucast (v AND 0x7F :: u64) :: byte) AND 0x7F = ucast (v AND 0x7F :: u64)"
  by (rule bit_word_eqI) (auto simp: group_bits)

lemma ucast_group: "(ucast (ucast (v AND 0x7F :: u64) :: byte) :: u64) = v AND 0x7F"
  by (rule bit_word_eqI) (auto simp: group_bits)

lemma group_join:
  "(a OR push_bit (7 * i) (v AND 0x7F)) OR push_bit (7 * Suc i) (drop_bit 7 v) =
   a OR push_bit (7 * i) (v :: u64)"
proof (rule bit_word_eqI)
  fix n assume "n < LENGTH(64)"
  moreover have "7 + (n - (7 + 7 * i)) = n - 7 * i" if "7 + 7 * i \<le> n"
    using that by simp
  ultimately show "bit ((a OR push_bit (7 * i) (v AND 0x7F)) OR push_bit (7 * Suc i) (drop_bit 7 v)) n
    \<longleftrightarrow> bit (a OR push_bit (7 * i) v) n"
    by (cases "7 + 7 * i \<le> n") (auto simp: group_bits)
qed

lemma drop_7_zero_iff: "drop_bit 7 (v :: u64) = 0 \<longleftrightarrow> unat v < 128"
  by (simp add: word_unat_eq_iff unat_drop_bit_div div_eq_0_iff)

lemma small_group: "unat v < 128 \<Longrightarrow> v AND 0x7F = (v :: u64)"
proof (rule bit_word_eqI)
  fix n assume v: "unat v < 128" and "n < LENGTH(64)"
  have "n < 7" if "bit v n"
    using that v by (intro bit_less_of_drop) (simp_all add: drop_7_zero_iff)
  then show "bit (v AND 0x7F) n = bit v n" by (auto simp: group_bits)
qed

lemma unat_group: "unat (v :: u64) < 128 \<Longrightarrow> unat (ucast (v AND 0x7F) :: byte) = unat v"
  by (metis small_group ucast_group unat_ucast_byte_u64)

section \<open>Round trips\<close>

lemma decode_loop_cont:
  "i < 10 \<Longrightarrow> byte AND 0x80 \<noteq> 0 \<Longrightarrow> decode_loop i a (byte # bs) =
     decode_loop (Suc i) (a OR push_bit (7 * i) (ucast (byte AND 0x7F))) bs"
  by simp

lemma encode_u64_cont:
  "drop_bit 7 v \<noteq> 0 \<Longrightarrow> encode_u64 v = (ucast (v AND 0x7F) OR 0x80) # encode_u64 (drop_bit 7 v)"
  by (simp add: encode_u64.simps [of v])

lemma decode_loop_encode:
  assumes "unat v < 2 ^ (64 - 7 * i)" and "i \<le> 9" and "i > 0 \<longrightarrow> v \<noteq> 0"
  shows "decode_loop i a (encode_u64 v @ rest) =
    Some (a OR push_bit (7 * i) v, i + length (encode_u64 v))"
  using assms
proof (induction v arbitrary: i a rule: encode_u64.induct)
  case (1 v)
  show ?case
  proof (cases "drop_bit 7 v = 0")
    case True
    then have small: "unat v < 128" by (simp add: drop_7_zero_iff)
    have "\<not> (i = 9 \<and> (ucast (v AND 0x7F) :: byte) > 1)"
      using "1.prems"(1) small by (auto simp: word_less_nat_alt unat_group)
    moreover have "\<not> (i > 0 \<and> (ucast (v AND 0x7F) :: byte) = 0)"
      using "1.prems"(3) small by (auto simp: word_unat_eq_iff unat_group)
    moreover have e: "push_bit (7 * i) v AND push_bit (7 * i) 0x7F = push_bit (7 * i) v"
      using small_group [OF small] by (metis push_bit_and)
    ultimately show ?thesis
      using True "1.prems"(2) small
      by (simp add: encode_u64.simps [of v] Let_def group_no_cont group_id ucast_group e)
  next
    case False
    then have big: "128 \<le> unat v" by (simp add: drop_7_zero_iff)
    have i8: "i < 9"
    proof (rule ccontr)
      assume "\<not> i < 9"
      with "1.prems" have "unat v < 2" by simp
      with big show False by simp
    qed
    have eq: "64 - 7 * i = 7 + (64 - 7 * Suc i)" using i8 by simp
    have lt: "unat (drop_bit 7 v) < 2 ^ (64 - 7 * Suc i)"
      unfolding unat_drop_bit_div by (rule less_exp_div) (use "1.prems"(1) in \<open>simp only: eq\<close>)
    have "decode_loop (Suc i) (a OR push_bit (7 * i) (v AND 0x7F)) (encode_u64 (drop_bit 7 v) @ rest)
        = Some ((a OR push_bit (7 * i) (v AND 0x7F)) OR push_bit (7 * Suc i) (drop_bit 7 v),
            Suc i + length (encode_u64 (drop_bit 7 v)))"
      by (rule "1.IH") (use False i8 lt in auto)
    moreover have "i < 10" using i8 by simp
    ultimately show ?thesis
      by (simp only: encode_u64_cont [OF False] append_Cons decode_loop_cont group_cont
          group_low ucast_group group_join not_False_eq_True list.size add_Suc_right add_Suc add_0_right)
  qed
qed

lemma encode_u64_bound: "length (encode_u64 v) \<ge> 1"
  by (subst encode_u64.simps) (simp add: Let_def)

lemma decode_encode_u64 [codec_simps]:
  "decode_u64 (encode_u64 v @ rest) = Some (v, length (encode_u64 v))"
proof -
  have "unat v < 2 ^ LENGTH(64)" by (rule unsigned_less)
  then show ?thesis
    unfolding decode_u64_def by (subst decode_loop_encode) auto
qed

lemma byte_bit_less_7: "\<not> bit (b :: byte) 7 \<Longrightarrow> bit b n \<Longrightarrow> n < 7"
  by (cases "n = 7") (auto dest!: byte_bit_less)

lemma ucast_low_u64: "\<not> bit (b :: byte) 7 \<Longrightarrow> (ucast (b AND 0x7F) :: u64) = ucast b"
  by (rule bit_word_eqI) (auto simp: group_bits dest: byte_bit_less_7)

lemma encode_final:
  assumes "\<not> bit (b :: byte) 7"
  shows "encode_u64 (ucast b) = [b]" and "unat (ucast b :: u64) < 128"
proof -
  have "drop_bit 7 (ucast b :: u64) = 0"
    by (rule bit_word_eqI) (use assms in \<open>auto simp: group_bits dest: byte_bit_less_7\<close>)
  moreover have "(ucast ((ucast b :: u64) AND 0x7F) :: byte) = b"
    by (rule bit_word_eqI) (use assms in \<open>auto simp: group_bits dest: byte_bit_less_7\<close>)
  ultimately show "encode_u64 (ucast b) = [b]" "unat (ucast b :: u64) < 128"
    by (simp_all add: encode_u64.simps drop_7_zero_iff)
qed

lemma encode_cont:
  assumes "bit (b :: byte) 7" and "v \<noteq> 0" and "unat (v :: u64) < 2 ^ 57"
  defines "w \<equiv> ucast (b AND 0x7F) OR push_bit 7 v"
  shows "encode_u64 w = b # encode_u64 v" and "drop_bit 7 w = v"
    and "push_bit (7 * i) w = push_bit (7 * i) (ucast (b AND 0x7F)) OR push_bit (7 * Suc i) v"
proof -
  have "drop_bit 57 v = 0"
    using assms(3) by (simp add: word_unat_eq_iff unat_drop_bit_div)
  then have hi: "n < 57" if "bit v n" for n
    using that by (rule bit_less_of_drop)
  show d: "drop_bit 7 w = v"
    unfolding w_def
    by (rule bit_word_eqI) (auto simp: group_bits dest: hi)
  have low: "w AND 0x7F = ucast (b AND 0x7F)"
    unfolding w_def by (rule bit_word_eqI) (auto simp: group_bits)
  have "(ucast (w AND 0x7F) OR 0x80 :: byte) = b"
    unfolding w_def
    by (rule bit_word_eqI) (use assms(1) in \<open>auto simp: group_bits less_Suc_eq\<close>)
  with d assms(2) show "encode_u64 w = b # encode_u64 v"
    by (simp add: encode_u64.simps [of w])
  show "push_bit (7 * i) w = push_bit (7 * i) (ucast (b AND 0x7F)) OR push_bit (7 * Suc i) v"
    using group_join [of 0 i w] d low by (simp only: or.left_neutral)
qed

lemma decode_loop_sound:
  assumes "decode_loop i a bs = Some (w, n)"
  shows "\<exists>v. w = a OR push_bit (7 * i) v \<and> unat v < 2 ^ (64 - 7 * i) \<and> (i > 0 \<longrightarrow> v \<noteq> 0) \<and>
    i < n \<and> n - i \<le> length bs \<and> encode_u64 v = take (n - i) bs"
  using assms
proof (induction i a bs rule: decode_loop.induct)
  case (1 i a)
  then show ?case by simp
next
  case (2 i a b bs)
  let ?a = "a OR push_bit (7 * i) (ucast (b AND 0x7F))"
  from "2.prems" have i: "i < 10" by (simp split: if_splits)
  show ?case
  proof (cases "b AND 0x80 = 0")
    case True
    then have b7: "\<not> bit b 7" by (simp add: no_cont_iff)
    from True "2.prems" have n: "n = Suc i" and w: "w = ?a"
      and top: "i = 9 \<longrightarrow> \<not> b > 1" and nz: "i > 0 \<longrightarrow> b \<noteq> 0"
      by (auto simp: Let_def split: if_splits)
    have "unat (ucast b :: u64) < 2 ^ (64 - 7 * i)"
    proof (cases "i = 9")
      case True
      with top show ?thesis by (simp add: unat_ucast_byte_u64 word_less_nat_alt)
    next
      case False
      then have "(2::nat) ^ 8 \<le> 2 ^ (64 - 7 * i)" using i by (intro power_increasing) auto
      with encode_final(2) [OF b7] show ?thesis by simp
    qed
    moreover have "i > 0 \<longrightarrow> (ucast b :: u64) \<noteq> 0"
      using nz by (auto simp: word_unat_eq_iff unat_ucast_byte_u64)
    ultimately show ?thesis
      using n w by (intro exI [of _ "ucast b"]) (simp add: encode_final [OF b7] ucast_low_u64 [OF b7])
  next
    case False
    then have b7: "bit b 7" by (simp add: no_cont_iff)
    from False "2.prems" i have rec: "decode_loop (Suc i) ?a bs = Some (w, n)"
      by (simp add: Let_def)
    from "2.IH" [OF _ refl False rec] i obtain v where v: "w = ?a OR push_bit (7 * Suc i) v"
      "unat v < 2 ^ (64 - 7 * Suc i)" "v \<noteq> 0" "Suc i < n" "n - Suc i \<le> length bs"
      "encode_u64 v = take (n - Suc i) bs"
      by auto
    define V :: u64 where "V = ucast (b AND 0x7F) OR push_bit 7 v"
    have "(2::nat) ^ (64 - 7 * Suc i) \<le> 2 ^ 57" by (intro power_increasing) auto
    with v(2) have v57: "unat v < 2 ^ 57" by linarith
    note e = encode_cont [OF b7 v(3) v57, folded V_def]
    have lt: "unat V < 2 ^ (64 - 7 * i)"
    proof (cases "i \<le> 8")
      case True
      then have eq: "64 - 7 * i = 7 + (64 - 7 * Suc i)" by simp
      have "unat (drop_bit 7 V) < 2 ^ (64 - 7 * Suc i)" by (simp only: e(2) v(2))
      then show ?thesis
        unfolding eq by (intro div_exp_less) (simp only: unat_drop_bit_div)
    next
      case False
      with v(2,3) i show ?thesis by (simp add: word_unat_eq_iff)
    qed
    have "w = a OR push_bit (7 * i) V" by (simp only: v(1) e(3) or.assoc)
    moreover have "V \<noteq> 0" using e(2) v(3) by force
    moreover have "encode_u64 V = take (n - i) (b # bs)"
      using v(4,6) e(1) by (simp add: take_Cons' Suc_diff_Suc)
    ultimately show ?thesis
      using lt v(4,5) by (intro exI [of _ V]) auto
  qed
qed

lemma encode_decode_u64:
  assumes "decode_u64 buf = Some (v, n)"
  shows "0 < n" and "n \<le> length buf" and "encode_u64 v = take n buf"
  using decode_loop_sound [OF assms [unfolded decode_u64_def]] by auto

lemma decode_loop_bound: "decode_loop i acc bs = Some (v, n) \<Longrightarrow> n \<le> 10"
  by (induction i acc bs rule: decode_loop.induct) (auto simp: Let_def split: if_splits)

lemma decode_u64_append:
  assumes "decode_u64 buf = Some (v, n)"
  shows "decode_u64 (buf @ rest) = Some (v, n)"
proof -
  note e = encode_decode_u64 [OF assms]
  have "buf @ rest = encode_u64 v @ (drop n buf @ rest)"
    by (simp only: e(3) append_assoc [symmetric] append_take_drop_id)
  moreover have "length (encode_u64 v) = n" using e(2,3) by simp
  ultimately show ?thesis by (simp only: decode_encode_u64)
qed

text \<open>
  C9: decoding is exactly the inverse of encoding. A buffer decodes to a value and a length if and only
  if its first bytes, that many, are the value's encoding; so every value has one encoding, of one to
  ten bytes, and padded or overlong forms are rejected whatever follows them.
\<close>

theorem varint_canonical:
  "(decode_u64 buf = Some (v, n) \<longleftrightarrow> take n buf = encode_u64 v \<and> n = length (encode_u64 v)) \<and>
   1 \<le> length (encode_u64 v) \<and> length (encode_u64 v) \<le> 10"
proof (intro conjI iffI)
  assume dec: "decode_u64 buf = Some (v, n)"
  show "take n buf = encode_u64 v" and "n = length (encode_u64 v)"
    using encode_decode_u64 [OF dec] by simp_all
next
  assume "take n buf = encode_u64 v \<and> n = length (encode_u64 v)"
  then show "decode_u64 buf = Some (v, n)"
    by (metis append_take_drop_id decode_encode_u64)
next
  show "1 \<le> length (encode_u64 v)" by (rule encode_u64_bound)
  show "length (encode_u64 v) \<le> 10"
    using decode_encode_u64 [of v "[]"] decode_loop_bound by (simp add: decode_u64_def)
qed

end
