(* ===== verification/LogRecord.thy ===== *)
theory LogRecord
  imports Varint
begin

text \<open>
  \<^verbatim>\<open>crates/inf-log/src/record.rs\<close>: the log record format v1. A record is a canonical varint length
  and a body of a type tag, a flag byte, a namespace varint and a payload. The model has the
  record vocabulary as a datatype, the size computation \<open>body_len\<close>, the encoder \<open>encode_into\<close> and
  the decoder \<open>decode_record\<close> with every error of the source. The theory proves that the sizes
  are exact and that encoding and decoding are inverse in both directions, for every record type.
\<close>

section \<open>Model\<close>

datatype RecordType = TStringPostImage | TDelete | TExpireAt | TNsOp | TCkptBegin | TDocDelta
  | TDocFull | TColdDisplace | TStringExtentRef

fun record_tag :: "RecordType \<Rightarrow> byte" where
  "record_tag TStringPostImage = 1"
| "record_tag TDelete = 2"
| "record_tag TExpireAt = 3"
| "record_tag TNsOp = 4"
| "record_tag TCkptBegin = 5"
| "record_tag TDocDelta = 6"
| "record_tag TDocFull = 7"
| "record_tag TColdDisplace = 8"
| "record_tag TStringExtentRef = 9"

definition from_u8 :: "byte \<Rightarrow> RecordType option" where
  "from_u8 tag =
     (if tag = 1 then Some TStringPostImage
      else if tag = 2 then Some TDelete
      else if tag = 3 then Some TExpireAt
      else if tag = 4 then Some TNsOp
      else if tag = 5 then Some TCkptBegin
      else if tag = 6 then Some TDocDelta
      else if tag = 7 then Some TDocFull
      else if tag = 8 then Some TColdDisplace
      else if tag = 9 then Some TStringExtentRef
      else None)"

definition RECORD_FLAGS_V1 :: byte where "RECORD_FLAGS_V1 = 0"

text \<open>\<open>DocLineage\<close> wraps a \<open>NonZeroU64\<close>; the constructor refuses zero.\<close>

definition DocLineage_new :: "u64 \<Rightarrow> u64 option" where
  "DocLineage_new raw = (if raw = 0 then None else Some raw)"

text \<open>\<open>RecordView\<close>, each variant with its fields in the source's order (\<open>ns\<close> first).\<close>

datatype RecordView =
    StringPostImage u32 bytes bytes \<comment> \<open>\<open>ns, key, value\<close>\<close>
  | Delete u32 bytes \<comment> \<open>\<open>ns, key\<close>\<close>
  | ExpireAt u32 u64 bytes \<comment> \<open>\<open>ns, at_unix_ms, key\<close>\<close>
  | NsOp u32 bytes \<comment> \<open>\<open>ns, payload\<close>\<close>
  | CkptBegin u32 u64 \<comment> \<open>\<open>ns, ckpt_id\<close>\<close>
  | DocDelta u32 bytes u64 u32 u32 u32 byte bytes bytes
      \<comment> \<open>\<open>ns, key, lineage, base_version, match_count, post_len, opcode, program, operand\<close>\<close>
  | DocFull u32 bytes u64 u32 bytes \<comment> \<open>\<open>ns, key, lineage, version, idoc\<close>\<close>
  | ColdDisplace u32 u64 \<comment> \<open>\<open>ns, old_addr\<close>\<close>
  | StringExtentRef u32 bytes u64 u64 u64 \<comment> \<open>\<open>ns, key, extent_id, offset, len\<close>\<close>

text \<open>\<open>u64::leading_zeros\<close> and the closed form of the encoded varint length.\<close>

definition leading_zeros :: "u64 \<Rightarrow> nat" where
  "leading_zeros v = length (takeWhile (\<lambda>i. \<not> bit v i) (rev [0..<64]))"

definition varint_len :: "u64 \<Rightarrow> nat" where
  "varint_len v = (if v = 0 then 1 else (64 - leading_zeros v + 6) div 7)"

fun body_len :: "RecordView \<Rightarrow> nat" where
  "body_len (StringPostImage ns key val) =
     2 + (varint_len (ucast ns) + varint_len (of_nat (length key)) + length key + length val)"
| "body_len (Delete ns key) = 2 + (varint_len (ucast ns) + length key)"
| "body_len (ExpireAt ns at_unix_ms key) =
     2 + (varint_len (ucast ns) + varint_len at_unix_ms + length key)"
| "body_len (NsOp ns payload) = 2 + (varint_len (ucast ns) + length payload)"
| "body_len (CkptBegin ns ckpt_id) = 2 + (varint_len (ucast ns) + varint_len ckpt_id)"
| "body_len (DocDelta ns key _ _ _ _ _ program operand) =
     2 + (varint_len (ucast ns) + varint_len (of_nat (length key)) + length key
       + 8 + 3 + 4 + 3 + 1 + varint_len (of_nat (length program)) + length program + length operand)"
| "body_len (DocFull ns key _ _ idoc) =
     2 + (varint_len (ucast ns) + varint_len (of_nat (length key)) + length key + 8 + 3 + length idoc)"
| "body_len (ColdDisplace ns _) = 2 + (varint_len (ucast ns) + 6)"
| "body_len (StringExtentRef ns key _ _ _) =
     2 + (varint_len (ucast ns) + varint_len (of_nat (length key)) + length key + 24)"

definition encoded_len :: "RecordView \<Rightarrow> nat" where
  "encoded_len r = varint_len (of_nat (body_len r)) + body_len r"

text \<open>What \<open>encode_into\<close> appends after the length prefix.\<close>

definition record_head :: "RecordType \<Rightarrow> u32 \<Rightarrow> bytes" where
  "record_head t ns = record_tag t # RECORD_FLAGS_V1 # encode_u64 (ucast ns)"

fun encode_body :: "RecordView \<Rightarrow> bytes" where
  "encode_body (StringPostImage ns key val) =
     record_head TStringPostImage ns @ encode_u64 (of_nat (length key)) @ key @ val"
| "encode_body (Delete ns key) = record_head TDelete ns @ key"
| "encode_body (ExpireAt ns at_unix_ms key) =
     record_head TExpireAt ns @ encode_u64 at_unix_ms @ key"
| "encode_body (NsOp ns payload) = record_head TNsOp ns @ payload"
| "encode_body (CkptBegin ns ckpt_id) = record_head TCkptBegin ns @ encode_u64 ckpt_id"
| "encode_body (DocDelta ns key lineage base_version match_count post_len opcode program operand) =
     record_head TDocDelta ns @ encode_u64 (of_nat (length key)) @ key
     @ le_bytes 8 lineage @ le_bytes 3 base_version @ le_bytes 4 match_count @ le_bytes 3 post_len
     @ [opcode] @ encode_u64 (of_nat (length program)) @ program @ operand"
| "encode_body (DocFull ns key lineage version idoc) =
     record_head TDocFull ns @ encode_u64 (of_nat (length key)) @ key
     @ le_bytes 8 lineage @ le_bytes 3 version @ idoc"
| "encode_body (ColdDisplace ns old_addr) = record_head TColdDisplace ns @ le_bytes 6 old_addr"
| "encode_body (StringExtentRef ns key extent_id offset len) =
     record_head TStringExtentRef ns @ encode_u64 (of_nat (length key)) @ key
     @ le_bytes 8 extent_id @ le_bytes 8 offset @ le_bytes 8 len"

definition encode_into :: "RecordView \<Rightarrow> bytes" where
  "encode_into r = encode_u64 (of_nat (body_len r)) @ encode_body r"

datatype RecordDecodeError = Truncated | VarintErr | UnknownType byte | UnknownFlags byte
  | NsOutOfRange u64 | KeyOverrun | ProgramOverrun | InvalidDocLineage | InvalidDocBounds
  | InvalidExtentBounds | TrailingBytes

text \<open>\<open>varint::decode_u64(b).ok_or(if b.is_empty() { Truncated } else { Varint })\<close>.\<close>

definition varint_field :: "bytes \<Rightarrow> RecordDecodeError + u64 \<times> nat" where
  "varint_field buf = ok_or (decode_u64 buf) (if buf = [] then Truncated else VarintErr)"

definition decode_key :: "bytes \<Rightarrow> RecordDecodeError + bytes \<times> bytes" where
  "decode_key payload =
     rbind (varint_field payload) (\<lambda>(key_len, used).
     rbind (ok_or (checked_add_usize used (unat key_len)) KeyOverrun) (\<lambda>key_end.
     rbind (ok_or (get_range payload used key_end) KeyOverrun) (\<lambda>key.
     Ok (key, drop key_end payload))))"

definition decode_u24 :: "bytes \<Rightarrow> u32 option" where
  "decode_u24 bs = map_option of_le_bytes (get_range bs 0 3)"

definition decode_doc_lineage :: "bytes \<Rightarrow> RecordDecodeError + u64" where
  "decode_doc_lineage bs =
     rbind (ok_or (get_range bs 0 8) Truncated) (\<lambda>raw.
     ok_or (DocLineage_new (of_le_bytes raw)) InvalidDocLineage)"

definition decode_doc_delta :: "u32 \<Rightarrow> bytes \<Rightarrow> RecordDecodeError + RecordView" where
  "decode_doc_delta ns payload =
     rbind (decode_key payload) (\<lambda>(key, rest).
     rbind (decode_doc_lineage rest) (\<lambda>lineage.
     rbind (ok_or (decode_u24 (drop 8 rest)) Truncated) (\<lambda>version.
     rbind (ok_or (get_range rest 11 15) Truncated) (\<lambda>mc.
     rbind (ok_or (decode_u24 (drop 15 rest)) Truncated) (\<lambda>post_len.
     if of_le_bytes mc = (0 :: u32) \<or> post_len = 0 then Err InvalidDocBounds
     else
     rbind (ok_or (if 18 < length rest then Some (rest ! 18) else None) Truncated) (\<lambda>opcode.
     let fields = drop 19 rest in
     rbind (varint_field fields) (\<lambda>(program_len, used).
     rbind (ok_or (checked_add_usize used (unat program_len)) ProgramOverrun) (\<lambda>program_end.
     rbind (ok_or (get_range fields used program_end) ProgramOverrun) (\<lambda>program.
     Ok (DocDelta ns key lineage version (of_le_bytes mc) post_len opcode program
          (drop program_end fields)))))))))))"

definition decode_extent_ref :: "u32 \<Rightarrow> bytes \<Rightarrow> RecordDecodeError + RecordView" where
  "decode_extent_ref ns payload =
     rbind (decode_key payload) (\<lambda>(key, rest).
     if length rest \<noteq> 24 then Err (if length rest < 24 then Truncated else TrailingBytes)
     else let extent_id = of_le_bytes (sub_slice rest 0 8); offset = of_le_bytes (sub_slice rest 8 16);
              len = of_le_bytes (sub_slice rest 16 24)
       in if len = 0 then Err InvalidExtentBounds
          else Ok (StringExtentRef ns key extent_id offset len))"

fun decode_payload :: "RecordType \<Rightarrow> u32 \<Rightarrow> bytes \<Rightarrow> RecordDecodeError + RecordView" where
  "decode_payload TStringPostImage ns payload =
     rbind (decode_key payload) (\<lambda>(key, val). Ok (StringPostImage ns key val))"
| "decode_payload TDelete ns payload = Ok (Delete ns payload)"
| "decode_payload TExpireAt ns payload =
     rbind (varint_field payload) (\<lambda>(at_unix_ms, at_len). Ok (ExpireAt ns at_unix_ms (drop at_len payload)))"
| "decode_payload TNsOp ns payload = Ok (NsOp ns payload)"
| "decode_payload TCkptBegin ns payload =
     rbind (varint_field payload) (\<lambda>(ckpt_id, id_len).
     if id_len \<noteq> length payload then Err TrailingBytes else Ok (CkptBegin ns ckpt_id))"
| "decode_payload TDocDelta ns payload = decode_doc_delta ns payload"
| "decode_payload TDocFull ns payload =
     rbind (decode_key payload) (\<lambda>(key, rest).
     rbind (decode_doc_lineage rest) (\<lambda>lineage.
     rbind (ok_or (decode_u24 (drop 8 rest)) Truncated) (\<lambda>version.
     Ok (DocFull ns key lineage version (drop 11 rest)))))"
| "decode_payload TColdDisplace ns payload =
     (if length payload \<noteq> 6 then Err (if length payload < 6 then Truncated else TrailingBytes)
      else Ok (ColdDisplace ns (of_le_bytes (payload @ [0, 0]))))"
| "decode_payload TStringExtentRef ns payload = decode_extent_ref ns payload"

definition decode_body :: "bytes \<Rightarrow> RecordDecodeError + RecordView" where
  "decode_body body =
     (case body of
        tag # flags # fields \<Rightarrow>
          rbind (ok_or (from_u8 tag) (UnknownType tag)) (\<lambda>record_type.
          if flags \<noteq> RECORD_FLAGS_V1 then Err (UnknownFlags flags)
          else
          rbind (varint_field fields) (\<lambda>(ns_raw, ns_len).
          if unat ns_raw \<ge> 2 ^ 32 then Err (NsOutOfRange ns_raw)
          else decode_payload record_type (ucast ns_raw) (drop ns_len fields)))
      | _ \<Rightarrow> Err Truncated)"

definition decode_record :: "bytes \<Rightarrow> RecordDecodeError + RecordView \<times> nat" where
  "decode_record buf =
     rbind (varint_field buf) (\<lambda>(body_len, prefix_len).
     rbind (ok_or (checked_add_usize prefix_len (unat body_len)) Truncated) (\<lambda>end.
     rbind (ok_or (get_range buf prefix_len end) Truncated) (\<lambda>body.
     rbind (decode_body body) (\<lambda>view. Ok (view, end)))))"

section \<open>Exact sizes\<close>

lemma encode_u64_length_bounds:
  "v \<noteq> 0 \<Longrightarrow> 2 ^ (7 * (length (encode_u64 v) - 1)) \<le> unat v \<and> unat v < 2 ^ (7 * length (encode_u64 v))"
proof (induction v rule: encode_u64.induct)
  case (1 v)
  show ?case
  proof (cases "drop_bit 7 v = 0")
    case True
    then have "unat v < 128" by (simp add: drop_7_zero_iff)
    with True "1.prems" show ?thesis
      by (simp add: encode_u64.simps [of v] Suc_le_eq unat_gt_0)
  next
    case False
    let ?w = "drop_bit 7 v"
    from encode_u64_bound [of ?w] obtain k where k: "length (encode_u64 ?w) = Suc k"
      by (cases "length (encode_u64 ?w)") auto
    from "1.IH" [OF refl refl False False] k
    have "2 ^ (7 * k) \<le> unat v div 2 ^ 7" and "unat v div 2 ^ 7 < 2 ^ (7 * Suc k)"
      by (simp_all add: unat_drop_bit_div)
    then have "2 ^ (7 * Suc k) \<le> unat v" and "unat v < 2 ^ (7 * Suc (Suc k))"
      using div_exp_less [of "unat v" 7 "7 * Suc k"]
      by (simp_all add: power_add less_eq_div_iff_mult_less_eq mult.commute)
    then show ?thesis
      by (simp only: encode_u64_cont [OF False] list.size k) simp
  qed
qed

lemma leading_zeros_bounds:
  assumes "v \<noteq> 0"
  shows "leading_zeros v < 64" and "2 ^ (63 - leading_zeros v) \<le> unat v"
    and "unat v < 2 ^ (64 - leading_zeros v)"
proof -
  let ?P = "\<lambda>i. \<not> bit v i" and ?xs = "rev [0..<64]"
  let ?n = "leading_zeros v"
  from assms obtain i where "bit v i" "i < 64"
    by (metis bit_word_eqI bit_0_eq bot_apply bot_bool_def u64_bit_less)
  then have ex: "\<exists>x\<in>set ?xs. \<not> ?P x" by auto
  then have n: "?n < length ?xs"
    unfolding leading_zeros_def by (rule length_takeWhile_less)
  then show lz: "?n < 64" by simp
  have "bit v (?xs ! ?n)"
    using nth_length_takeWhile [of ?P ?xs] n by (simp add: leading_zeros_def)
  then have top: "bit v (63 - ?n)" using lz by (simp add: rev_nth)
  have zero: "\<not> bit v i" if "64 - ?n \<le> i" "i < 64" for i
  proof -
    have "63 - i < ?n" using that lz by auto
    then have "?xs ! (63 - i) \<in> set (takeWhile ?P ?xs)"
      by (metis leading_zeros_def nth_mem takeWhile_nth)
    then have "?P (?xs ! (63 - i))" by (blast dest: set_takeWhileD)
    then show ?thesis using that by (simp add: rev_nth)
  qed
  have "drop_bit (64 - ?n) v = 0"
    by (rule bit_word_eqI) (use zero u64_bit_less in \<open>force simp: bit_drop_bit_eq\<close>)
  then show "unat v < 2 ^ (64 - ?n)"
    by (simp add: word_unat_eq_iff unat_drop_bit_div div_eq_0_iff)
  have "drop_bit (63 - ?n) v \<noteq> 0"
    using bit_less_of_drop [OF _ top, of "63 - ?n"] by auto
  then show "2 ^ (63 - ?n) \<le> unat v"
    by (simp add: word_unat_eq_iff unat_drop_bit_div div_eq_0_iff)
qed

lemma varint_len_encode: "varint_len v = length (encode_u64 v)"
proof (cases "v = 0")
  case True
  then show ?thesis by (simp add: varint_len_def encode_u64.simps)
next
  case False
  let ?b = "64 - leading_zeros v" and ?k = "length (encode_u64 v)"
  note e = encode_u64_length_bounds [OF False] and z = leading_zeros_bounds [OF False]
  have "(2::nat) ^ (7 * (?k - 1)) < 2 ^ ?b"
    using conjunct1 [OF e] z(3) by (rule le_less_trans)
  moreover have "(2::nat) ^ (63 - leading_zeros v) < 2 ^ (7 * ?k)"
    using z(2) conjunct2 [OF e] by (rule le_less_trans)
  ultimately have "7 * (?k - 1) < ?b" and "?b - 1 < 7 * ?k" by simp_all
  moreover have "?k \<ge> 1" by (rule encode_u64_bound)
  ultimately have "(?b + 6) div 7 = ?k" by auto
  with False show ?thesis by (simp add: varint_len_def)
qed

lemma body_len_encode: "body_len r = length (encode_body r)"
  by (cases r) (simp_all add: record_head_def varint_len_encode)

section \<open>Field codecs\<close>

lemma varint_field_encode [codec_simps]:
  "varint_field (encode_u64 v @ rest) = Ok (v, length (encode_u64 v))"
  by (simp add: varint_field_def decode_encode_u64)

lemma varint_field_encode_end [codec_simps]:
  "varint_field (encode_u64 v) = Ok (v, length (encode_u64 v))"
  using varint_field_encode [of v "[]"] by simp

lemma varint_field_Ok:
  assumes "varint_field buf = Ok (v, n)"
  shows "length (encode_u64 v) = n" and "n \<le> length buf" and "buf = encode_u64 v @ drop n buf"
proof -
  from assms have "decode_u64 buf = Some (v, n)" by (simp add: varint_field_def ok_or_Ok)
  note e = encode_decode_u64 [OF this]
  from e show "length (encode_u64 v) = n" "n \<le> length buf" "buf = encode_u64 v @ drop n buf"
    by simp_all
qed

lemma of_nat_unat_len: "(of_nat (unat (v :: u64)) :: u64) = v"
  by simp

text \<open>A varint length, that many bytes, and the rest: the shape of a key and of a path program.\<close>

lemma counted_get:
  "get_range (encode_u64 v @ xs @ rest) (length (encode_u64 v)) (length (encode_u64 v) + length xs) = Some xs"
  by (rule get_range_prefix)

lemma counted_split:
  assumes "varint_field buf = Ok (v, used)" and "get_range buf used (used + unat v) = Some xs"
  shows "buf = encode_u64 (of_nat (length xs)) @ xs @ drop (used + unat v) buf"
proof -
  note f = varint_field_Ok [OF assms(1)]
  from assms(2) have "length xs = unat v" by (auto simp: get_range_Some)
  then have "encode_u64 (of_nat (length xs)) = take used buf"
    using f by (metis append_eq_conv_conj of_nat_unat_len)
  then show ?thesis using get_range_split [OF assms(2)] by simp
qed

lemma decode_key_encode [codec_simps]:
  assumes "length (encode_u64 (of_nat (length key))) + length key < 2 ^ 64"
  shows "decode_key (encode_u64 (of_nat (length key)) @ key @ rest) = Ok (key, rest)"
proof -
  have "unat (of_nat (length key) :: u64) = length key"
    using assms by (intro unat_of_nat_u64) simp
  then show ?thesis
    using assms by (simp add: decode_key_def varint_field_encode checked_add_usize_def counted_get)
qed

lemma decode_key_Ok:
  assumes "decode_key payload = Ok (key, rest)"
  shows "payload = encode_u64 (of_nat (length key)) @ key @ rest"
  using assms
  by (auto simp: decode_key_def rbind_Ok ok_or_Ok checked_add_usize_Some intro!: counted_split)

lemma get_range_take: "get_range bs 0 n = Some xs \<longleftrightarrow> n \<le> length bs \<and> xs = take n bs"
  by (auto simp: get_range_def)

lemma decode_u24_le [codec_simps]: "unat v < 2 ^ 24 \<Longrightarrow> decode_u24 (le_bytes 3 v @ rest) = Some v"
  by (simp add: decode_u24_def get_range_def of_le_bytes_le_bytes_small)

lemma unat_of_le_bytes: "8 * length bs \<le> n \<Longrightarrow> unat (of_le_bytes bs :: 'a::len word) < 2 ^ n"
proof -
  assume n: "8 * length bs \<le> n"
  have "drop_bit n (of_le_bytes bs :: 'a word) = 0"
    by (rule bit_word_eqI) (use n in \<open>auto simp: bit_drop_bit_eq dest!: bit_of_le_bytes_bound\<close>)
  then show ?thesis by (simp add: word_unat_eq_iff unat_drop_bit_div div_eq_0_iff)
qed

lemma decode_u24_Some:
  assumes "decode_u24 bs = Some v"
  shows "bs = le_bytes 3 v @ drop 3 bs" and "unat v < 2 ^ 24" and "3 \<le> length bs"
  using assms unat_of_le_bytes [of "take 3 bs" 24, where ?'a = 32]
  by (auto simp: decode_u24_def get_range_take le_bytes_of_le_bytes)

lemma decode_doc_lineage_le [codec_simps]:
  "lineage \<noteq> 0 \<Longrightarrow> decode_doc_lineage (le_bytes 8 lineage @ rest) = Ok lineage"
  by (simp add: decode_doc_lineage_def get_range_def DocLineage_new_def of_le_bytes_le_bytes)

lemma decode_doc_lineage_Ok:
  assumes "decode_doc_lineage bs = Ok lineage"
  shows "bs = le_bytes 8 lineage @ drop 8 bs" and "lineage \<noteq> 0" and "8 \<le> length bs"
  using assms
  by (auto simp: decode_doc_lineage_def rbind_Ok ok_or_Ok get_range_take DocLineage_new_def
      le_bytes_of_le_bytes split: if_splits)

section \<open>Round trips\<close>

text \<open>
  What the types and the debug assertions of the source promise of a record handed to the
  encoder: a non-zero lineage, 24-bit versions and sizes, 48-bit addresses, non-empty bounds.
\<close>

fun wf_record :: "RecordView \<Rightarrow> bool" where
  "wf_record (DocDelta ns key lineage base_version match_count post_len opcode program operand) \<longleftrightarrow>
     lineage \<noteq> 0 \<and> unat base_version < 2 ^ 24 \<and> match_count \<noteq> 0 \<and> post_len \<noteq> 0 \<and>
     unat post_len < 2 ^ 24"
| "wf_record (DocFull ns key lineage version idoc) \<longleftrightarrow> lineage \<noteq> 0 \<and> unat version < 2 ^ 24"
| "wf_record (ColdDisplace ns old_addr) \<longleftrightarrow> unat old_addr < 2 ^ 48"
| "wf_record (StringExtentRef ns key extent_id offset len) \<longleftrightarrow> len \<noteq> 0"
| "wf_record _ \<longleftrightarrow> True"

lemma ucast_ns: "(ucast (ucast (ns :: u32) :: u64) :: u32) = ns"
  by (rule bit_word_eqI) (auto simp: bit_ucast_iff)

lemma unat_ns: "unat (ucast (ns :: u32) :: u64) < 2 ^ 32"
proof -
  have "unat ns < 2 ^ LENGTH(32)" by (rule unsigned_less)
  then show ?thesis by (simp add: unsigned_ucast_eq take_bit_nat_eq_self)
qed

lemma from_u8_tag [simp]: "from_u8 (record_tag t) = Some t"
  by (cases t) (simp_all add: from_u8_def)

lemma from_u8_Some: "from_u8 tag = Some t \<Longrightarrow> record_tag t = tag"
  by (auto simp: from_u8_def split: if_splits)

lemma decode_body_head:
  "decode_body (record_head t ns @ payload) = decode_payload t ns payload"
  using unat_ns [of ns]
  by (simp add: decode_body_def record_head_def varint_field_encode ucast_ns)

lemma cold_addr_pad:
  assumes "length bs = 6"
  shows "(of_le_bytes (bs @ [0, 0]) :: u64) = of_le_bytes bs"
proof -
  have "(of_le_bytes (xs @ [0, 0]) :: u64) = of_le_bytes xs" for xs
    by (induction xs) auto
  then show ?thesis .
qed

lemma decode_doc_delta_encode:
  assumes "wf_record (DocDelta ns key lineage base_version match_count post_len opcode program operand)"
    and "length (encode_u64 (of_nat (length key))) + length key < 2 ^ 64"
    and "length (encode_u64 (of_nat (length program))) + length program < 2 ^ 64"
  shows "decode_doc_delta ns (encode_u64 (of_nat (length key)) @ key
     @ le_bytes 8 lineage @ le_bytes 3 base_version @ le_bytes 4 match_count @ le_bytes 3 post_len
     @ [opcode] @ encode_u64 (of_nat (length program)) @ program @ operand) =
     Ok (DocDelta ns key lineage base_version match_count post_len opcode program operand)"
proof -
  have u: "unat (of_nat (length program) :: u64) = length program"
    using assms(3) by (intro unat_of_nat_u64) simp
  have mc: "get_range (le_bytes 8 lineage @ le_bytes 3 base_version @ le_bytes 4 match_count @ xs) 11 15
      = Some (le_bytes 4 match_count)" for xs
    by (simp add: get_range_def)
  show ?thesis
    using assms u
    unfolding decode_doc_delta_def
    by (simp add: decode_key_encode decode_doc_lineage_le decode_u24_le mc of_le_bytes_le_bytes
        nth_append varint_field_encode checked_add_usize_def counted_get)
qed

lemma decode_body_encode:
  assumes "wf_record r" and "length (encode_body r) < 2 ^ 64"
  shows "decode_body (encode_body r) = Ok r"
proof (cases r)
  case (StringPostImage ns key val)
  then show ?thesis using assms
    by (simp add: decode_body_head decode_key_encode)
next
  case (Delete ns key)
  then show ?thesis by (simp add: decode_body_head)
next
  case (ExpireAt ns at key)
  then show ?thesis by (simp add: decode_body_head varint_field_encode)
next
  case (NsOp ns payload)
  then show ?thesis by (simp add: decode_body_head)
next
  case (CkptBegin ns ckpt_id)
  then show ?thesis by (simp add: decode_body_head varint_field_encode_end)
next
  case (DocDelta ns key lineage base_version match_count post_len opcode program operand)
  then show ?thesis using assms
    by (simp add: decode_body_head decode_doc_delta_encode [simplified])
next
  case (DocFull ns key lineage version idoc)
  then show ?thesis using assms
    by (simp add: decode_body_head decode_key_encode decode_doc_lineage_le decode_u24_le)
next
  case (ColdDisplace ns old_addr)
  then show ?thesis using assms
    by (simp add: decode_body_head cold_addr_pad of_le_bytes_le_bytes_small)
next
  case (StringExtentRef ns key extent_id offset len)
  then show ?thesis using assms
    by (simp add: decode_body_head decode_extent_ref_def decode_key_encode sub_slice_def
        of_le_bytes_le_bytes)
qed

lemma le_bytes_get:
  assumes "get_range bs i j = Some xs" and "8 * (j - i) \<le> LENGTH('a)"
  shows "le_bytes (j - i) (of_le_bytes xs :: 'a::len word) = take (j - i) (drop i bs)"
  using assms by (auto simp: get_range_def le_bytes_of_le_bytes split: if_splits)

lemma decode_doc_delta_Ok:
  assumes "decode_doc_delta ns payload = Ok r"
  shows "encode_body r = record_head TDocDelta ns @ payload \<and> wf_record r"
proof -
  from assms obtain key rest lineage version mc post_len program_len used program
    where key: "decode_key payload = Ok (key, rest)"
      and lineage: "decode_doc_lineage rest = Ok lineage"
      and version: "decode_u24 (drop 8 rest) = Some version"
      and mc: "get_range rest 11 15 = Some mc"
      and post: "decode_u24 (drop 15 rest) = Some post_len"
      and nz: "of_le_bytes mc \<noteq> (0 :: u32)" "post_len \<noteq> 0"
      and op: "18 < length rest"
      and prog: "varint_field (drop 19 rest) = Ok (program_len, used)"
        "get_range (drop 19 rest) used (used + unat program_len) = Some program"
      and r: "r = DocDelta ns key lineage version (of_le_bytes mc) post_len (rest ! 18) program
        (drop (used + unat program_len) (drop 19 rest))"
    by (auto simp: decode_doc_delta_def rbind_Ok ok_or_Ok checked_add_usize_Some Let_def
        split: if_splits)
  let ?tail = "encode_u64 (of_nat (length program)) @ program @ drop (used + unat program_len) (drop 19 rest)"
  have p: "drop 19 rest = ?tail" by (rule counted_split [OF prog])
  have o: "drop 18 rest = rest ! 18 # drop 19 rest"
    using op by (metis Cons_nth_drop_Suc numeral_eq_Suc eval_nat_numeral(3) semiring_norm(28))
  have "drop 15 rest = le_bytes 3 post_len @ drop 18 rest"
    using decode_u24_Some(1) [OF post] by simp
  moreover have "drop 11 rest = le_bytes 4 (of_le_bytes mc :: u32) @ drop 15 rest"
    using le_bytes_get [OF mc, where ?'a = 32] append_take_drop_id [of 4 "drop 11 rest"] by simp
  moreover have "drop 8 rest = le_bytes 3 version @ drop 11 rest"
    using decode_u24_Some(1) [OF version] by simp
  moreover have "rest = le_bytes 8 lineage @ drop 8 rest"
    by (rule decode_doc_lineage_Ok(1) [OF lineage])
  ultimately have rest: "rest = le_bytes 8 lineage @ le_bytes 3 version @
      le_bytes 4 (of_le_bytes mc :: u32) @ le_bytes 3 post_len @ [rest ! 18] @ ?tail"
    using o p by (metis append_Cons append_Nil)
  have "encode_body r = record_head TDocDelta ns @ payload"
    unfolding r decode_key_Ok [OF key] using rest by simp
  moreover have "wf_record r"
    using r nz decode_doc_lineage_Ok(2) [OF lineage] decode_u24_Some(2) [OF version]
      decode_u24_Some(2) [OF post] by simp
  ultimately show ?thesis ..
qed

lemma decode_extent_ref_Ok:
  assumes "decode_extent_ref ns payload = Ok r"
  shows "encode_body r = record_head TStringExtentRef ns @ payload \<and> wf_record r"
proof -
  from assms obtain key rest where key: "decode_key payload = Ok (key, rest)"
      and len: "length rest = 24" and nz: "of_le_bytes (sub_slice rest 16 24) \<noteq> (0 :: u64)"
      and r: "r = StringExtentRef ns key (of_le_bytes (sub_slice rest 0 8))
        (of_le_bytes (sub_slice rest 8 16)) (of_le_bytes (sub_slice rest 16 24))"
    by (auto simp: decode_extent_ref_def rbind_Ok Let_def split: if_splits)
  have "rest = sub_slice rest 0 8 @ sub_slice rest 8 16 @ sub_slice rest 16 24"
    using len append_take_drop_id [of 8 rest] append_take_drop_id [of 8 "drop 8 rest"]
    by (simp add: sub_slice_def)
  then show ?thesis
    unfolding r decode_key_Ok [OF key] using len nz by (simp add: le_bytes_of_le_bytes)
qed

lemma decode_payload_Ok:
  assumes "decode_payload t ns payload = Ok r"
  shows "encode_body r = record_head t ns @ payload \<and> wf_record r"
proof (cases t)
  case TStringPostImage
  then show ?thesis using assms by (auto simp: rbind_Ok dest: decode_key_Ok)
next
  case TExpireAt
  then show ?thesis using assms by (auto simp: rbind_Ok dest: varint_field_Ok(3))
next
  case TCkptBegin
  then show ?thesis using assms varint_field_Ok(3) by (fastforce simp: rbind_Ok split: if_splits)
next
  case TDocFull
  then obtain key rest lineage version where key: "decode_key payload = Ok (key, rest)"
      and lineage: "decode_doc_lineage rest = Ok lineage"
      and version: "decode_u24 (drop 8 rest) = Some version"
      and r: "r = DocFull ns key lineage version (drop 11 rest)"
    using assms by (auto simp: rbind_Ok ok_or_Ok)
  have "rest = le_bytes 8 lineage @ le_bytes 3 version @ drop 11 rest"
    using decode_doc_lineage_Ok(1) [OF lineage] decode_u24_Some(1) [OF version] by simp
  then show ?thesis
    unfolding TDocFull r decode_key_Ok [OF key]
    using decode_doc_lineage_Ok(2) [OF lineage] decode_u24_Some(2) [OF version] by simp
next
  case TColdDisplace
  then show ?thesis using assms unat_of_le_bytes [of payload 48, where ?'a = 64]
    by (auto simp: cold_addr_pad le_bytes_of_le_bytes split: if_splits)
qed (use assms in \<open>auto simp: decode_doc_delta_Ok decode_extent_ref_Ok\<close>)

lemma decode_body_Ok:
  assumes "decode_body body = Ok r"
  shows "encode_body r = body \<and> wf_record r"
proof -
  from assms obtain tag flags fields t ns_raw ns_len where body: "body = tag # flags # fields"
      and t: "from_u8 tag = Some t" and flags: "flags = RECORD_FLAGS_V1"
      and ns: "varint_field fields = Ok (ns_raw, ns_len)" "unat ns_raw < 2 ^ 32"
      and p: "decode_payload t (ucast ns_raw) (drop ns_len fields) = Ok r"
    by (auto simp: decode_body_def rbind_Ok ok_or_Ok split: list.splits if_splits)
  have "(ucast (ucast ns_raw :: u32) :: u64) = ns_raw"
    using ns(2)
    by (simp add: word_unat_eq_iff unsigned_ucast_eq unsigned_take_bit_eq take_bit_nat_eq_self)
  then have "record_head t (ucast ns_raw) @ drop ns_len fields = body"
    using varint_field_Ok(3) [OF ns(1)] from_u8_Some [OF t] body flags
    by (simp add: record_head_def)
  then show ?thesis using decode_payload_Ok [OF p] by simp
qed

lemma decode_encode_record [codec_simps]:
  assumes "wf_record r" and "length (encode_into r) < 2 ^ 64"
  shows "decode_record (encode_into r @ rest) = Ok (r, length (encode_into r))"
proof -
  have b: "length (encode_body r) < 2 ^ 64"
    using assms(2) by (simp add: encode_into_def)
  then have "unat (of_nat (length (encode_body r)) :: u64) = length (encode_body r)"
    by (rule unat_of_nat_u64)
  then show ?thesis
    using assms b
    by (simp add: decode_record_def encode_into_def body_len_encode varint_field_encode
        checked_add_usize_def counted_get decode_body_encode)
qed

lemma encode_decode_record:
  assumes "decode_record buf = Ok (r, n)"
  shows "wf_record r" and "n \<le> length buf" and "encode_into r = take n buf"
proof -
  from assms obtain body_len prefix_len body where
      v: "varint_field buf = Ok (body_len, prefix_len)"
      and g: "get_range buf prefix_len (prefix_len + unat body_len) = Some body"
      and d: "decode_body body = Ok r" and n: "n = prefix_len + unat body_len"
    by (auto simp: decode_record_def rbind_Ok ok_or_Ok checked_add_usize_Some)
  show "wf_record r" using decode_body_Ok [OF d] ..
  show le: "n \<le> length buf" using g n by (simp add: get_range_Some)
  have split: "buf = encode_u64 (of_nat (length body)) @ body @ drop n buf"
    unfolding n by (rule counted_split [OF v g])
  have "encode_body r = body" using decode_body_Ok [OF d] ..
  then have "encode_into r @ drop n buf = buf"
    using split by (simp add: encode_into_def body_len_encode)
  then show "encode_into r = take n buf"
    using le by (metis append_take_drop_id append_same_eq)
qed

section \<open>Properties\<close>

text \<open>
  C5: every record the encoder can be given (of any of the nine types) is read back exactly from
  the front of a buffer, whatever follows it, and the decoder consumes exactly its bytes, which are
  as many as \<open>encoded_len\<close> accounts.
\<close>

theorem record_decodes_back:
  assumes "wf_record r" and "encoded_len r < 2 ^ 64"
  shows "decode_record (encode_into r @ rest) = Ok (r, encoded_len r)"
proof -
  have "encoded_len r = length (encode_into r)"
    by (simp add: encoded_len_def encode_into_def varint_len_encode body_len_encode)
  then show ?thesis using decode_encode_record [OF assms(1), of rest] assms(2) by simp
qed

theorem record_decodes_back_witness:
  "decode_record (encode_into (DocDelta 7 [1, 2, 3] 9 4 1 64 2 [5, 6] [8]) @ [0xFF]) =
   Ok (DocDelta 7 [1, 2, 3] 9 4 1 64 2 [5, 6] [8], 31)"
proof -
  have "encoded_len (DocDelta 7 [1, 2, 3] 9 4 1 64 2 [5, 6] [8]) = 31"
    by (simp add: encoded_len_def varint_len_encode encode_u64.simps)
  then show ?thesis
    using record_decodes_back [of "DocDelta 7 [1, 2, 3] 9 4 1 64 2 [5, 6] [8]" "[0xFF]"] by simp
qed

text \<open>
  C6: one value, one encoding: whenever \<open>decode_record\<close> accepts a buffer, the record it returns is
  well formed and re-encoding it reproduces exactly the bytes consumed, so no second byte string
  decodes to the same record.
\<close>

theorem record_encoding_canonical:
  assumes "decode_record buf = Ok (r, n)"
  shows "wf_record r \<and> n \<le> length buf \<and> encode_into r = take n buf \<and>
    (\<forall>buf' n'. decode_record buf' = Ok (r, n') \<longrightarrow> n' = n \<and> take n' buf' = take n buf)"
proof (intro conjI allI impI)
  show "wf_record r" "n \<le> length buf" and e: "encode_into r = take n buf"
    using encode_decode_record [OF assms] by auto
  fix buf' n' assume d: "decode_record buf' = Ok (r, n')"
  show "take n' buf' = take n buf" using e encode_decode_record(3) [OF d] by simp
  then have "length (take n' buf') = length (take n buf)" by simp
  then show "n' = n" using encode_decode_record(2) [OF d] \<open>n \<le> length buf\<close> by simp
qed

theorem record_encoding_canonical_witness:
  "wf_record (Delete 3 [0x6B]) \<and> encode_into (Delete 3 [0x6B]) = [4, 2, 0, 3, 0x6B]"
proof -
  have "decode_record [4, 2, 0, 3, 0x6B, 9] = Ok (Delete 3 [0x6B], 5)"
    by (simp add: decode_record_def varint_field_def decode_u64_def checked_add_usize_def
        get_range_def decode_body_def from_u8_def RECORD_FLAGS_V1_def)
  then show ?thesis using record_encoding_canonical [of "[4, 2, 0, 3, 0x6B, 9]"] by simp
qed

end
