(* ===== verification/Lsn.thy ===== *)
theory Lsn
  imports Prelude
begin

text \<open>
  \<^verbatim>\<open>crates/inf-log/src/lsn.rs\<close>: log sequence numbers. An \<open>Lsn\<close> is a segment and an offset, ordered
  lexicographically (the derived \<open>Ord\<close>, here an instance of \<open>linorder\<close>); \<open>to_u64\<close> packs it. The
  panics of \<open>SegmentId::next\<close> and \<open>Lsn::advance\<close> are \<open>None\<close>.
\<close>

section \<open>Model\<close>

datatype Lsn = Lsn (segment: u32) (offset: u32)

definition MAX_SEGMENT_LEN :: nat where "MAX_SEGMENT_LEN = 2 ^ 32 - 1"

definition segment_next :: "u32 \<Rightarrow> u32 option" where
  "segment_next s = (if unat s + 1 < 2 ^ 32 then Some (s + 1) else None)"

definition lsn_advance :: "Lsn \<Rightarrow> u32 \<Rightarrow> Lsn option" where
  "lsn_advance l bytes =
     (if unat (offset l) + unat bytes < 2 ^ 32 then Some (Lsn (segment l) (offset l + bytes)) else None)"

definition to_u64 :: "Lsn \<Rightarrow> u64" where
  "to_u64 l = push_bit 32 (ucast (segment l)) OR ucast (offset l)"

definition from_u64 :: "u64 \<Rightarrow> Lsn" where
  "from_u64 packed = Lsn (ucast (drop_bit 32 packed)) (ucast packed)"

definition check_segment_len :: "nat \<Rightarrow> bool" where
  "check_segment_len len \<longleftrightarrow> \<not> len > MAX_SEGMENT_LEN"

instantiation Lsn :: linorder
begin

definition less_eq_Lsn :: "Lsn \<Rightarrow> Lsn \<Rightarrow> bool" where
  "less_eq_Lsn a b \<longleftrightarrow> segment a < segment b \<or> segment a = segment b \<and> offset a \<le> offset b"

definition less_Lsn :: "Lsn \<Rightarrow> Lsn \<Rightarrow> bool" where
  "less_Lsn a b \<longleftrightarrow> segment a < segment b \<or> segment a = segment b \<and> offset a < offset b"

instance
  by standard (auto simp: less_eq_Lsn_def less_Lsn_def Lsn.expand)

end

section \<open>Packing\<close>

lemma bit_to_u64: "bit (to_u64 l) n \<longleftrightarrow>
    (if n < 32 then bit (offset l) n else bit (segment l) (n - 32))"
  using bit_imp_le_length [of "offset l" n] bit_imp_le_length [of "segment l" "n - 32"]
  by (auto simp: to_u64_def bit_or_iff bit_push_bit_iff bit_ucast_iff)

lemma from_to_u64 [codec_simps]: "from_u64 (to_u64 l) = l"
  by (cases l) (auto simp: from_u64_def bit_to_u64 bit_drop_bit_eq bit_ucast_iff intro!: bit_word_eqI)

lemma to_from_u64 [codec_simps]: "to_u64 (from_u64 x) = x"
  by (rule bit_word_eqI) (auto simp: bit_to_u64 from_u64_def bit_drop_bit_eq bit_ucast_iff)

lemma unat_to_u64: "unat (to_u64 l) = unat (segment l) * 2 ^ 32 + unat (offset l)"
proof -
  let ?hi = "push_bit 32 (ucast (segment l)) :: u64" and ?lo = "ucast (offset l) :: u64"
  have s: "unat (segment l) < 2 ^ 32" and o: "unat (offset l) < 2 ^ 32"
    using unsigned_less [where w = "segment l"] unsigned_less [where w = "offset l"] by auto
  have "?hi AND ?lo = 0"
    by (rule bit_word_eqI)
      (auto simp: bit_and_iff bit_push_bit_iff bit_ucast_iff dest: bit_imp_le_length)
  then have "to_u64 l = ?hi + ?lo"
    unfolding to_u64_def by (simp add: disjunctive_add_eq_or)
  moreover have hi: "unat ?hi = unat (segment l) * 2 ^ 32"
    using s by (subst unsigned_push_bit_eq)
      (simp add: unsigned_ucast_eq push_bit_eq_mult take_bit_nat_eq_self)
  moreover have "unat ?lo = unat (offset l)"
    using o by (simp add: unsigned_ucast_eq take_bit_nat_eq_self)
  ultimately show ?thesis
    using s o by (simp add: unat_plus_if')
qed

lemma to_u64_le_iff: "to_u64 a \<le> to_u64 b \<longleftrightarrow> a \<le> b"
proof -
  have "unat (offset a) < 2 ^ 32" "unat (offset b) < 2 ^ 32"
    using unsigned_less [where w = "offset a"] unsigned_less [where w = "offset b"] by auto
  then show ?thesis
    unfolding word_le_nat_alt word_less_nat_alt less_eq_Lsn_def unat_to_u64 word_unat_eq_iff
    by auto
qed

lemma to_u64_inject: "to_u64 a = to_u64 b \<longleftrightarrow> a = b"
  by (metis from_to_u64)

lemma lsn_advance_Some:
  "lsn_advance l n = Some l' \<longleftrightarrow>
     segment l' = segment l \<and> unat (offset l') = unat (offset l) + unat n"
proof -
  have "unat (offset l') < 2 ^ 32"
    using unsigned_less [where w = "offset l'"] by auto
  then show ?thesis
    by (auto simp: lsn_advance_def Lsn.expand unat_plus_if' word_unat_eq_iff split: if_splits)
qed

section \<open>Properties\<close>

text \<open>
  C10: packing an LSN is an order isomorphism onto the 64-bit integers: both directions of the
  packing are inverse, and the packed order is exactly append order (segment first, then offset),
  so a watermark comparison on packed values agrees with the log.
\<close>

theorem lsn_packing_order_iso:
  "from_u64 (to_u64 l) = l \<and> to_u64 (from_u64 x) = x \<and> (to_u64 a \<le> to_u64 b \<longleftrightarrow> a \<le> b) \<and>
   (to_u64 a < to_u64 b \<longleftrightarrow> a < b)"
  by (simp add: from_to_u64 to_from_u64 to_u64_le_iff less_le to_u64_inject)

end
