(* ===== verification/Crc32c.thy ===== *)
theory Crc32c
  imports Prelude
begin

text \<open>
  \<^verbatim>\<open>crates/inf-simd/src/crc32c.rs\<close>: the checksum of the log's frames. The model is the portable
  slicing-by-8 implementation with its tables (the path the hardware instructions are tested
  against). It is proved equal to the bitwise definition of the reflected Castagnoli CRC, to
  compose over any split of the input, and to notice every change within four consecutive bytes.
\<close>

section \<open>Model\<close>

definition POLY :: u32 where "POLY = 0x82F63B78"

text \<open>One turn of the inner \<open>while bit < 8\<close> loop of \<open>build_tables\<close>.\<close>

definition crc_shift :: "u32 \<Rightarrow> u32" where
  "crc_shift crc = (if crc AND 1 \<noteq> 0 then drop_bit 1 crc XOR POLY else drop_bit 1 crc)"

text \<open>\<open>TABLES[0][i]\<close> and \<open>TABLES[k][i]\<close>, for an index below 256.\<close>

definition table0 :: "u32 \<Rightarrow> u32" where
  "table0 i = (crc_shift ^^ 8) i"

primrec tables :: "nat \<Rightarrow> u32 \<Rightarrow> u32" where
  "tables 0 i = table0 i"
| "tables (Suc k) i = (let prev = tables k i in drop_bit 8 prev XOR table0 (prev AND 0xFF))"

text \<open>The word loop (one turn per \<open>chunks_exact(8)\<close> chunk) and the byte tail.\<close>

definition crc_word_step :: "u32 \<Rightarrow> bytes \<Rightarrow> u32" where
  "crc_word_step state chunk =
     (let lo = of_le_bytes (take 4 chunk) XOR state; hi = of_le_bytes (take 4 (drop 4 chunk))
      in tables 7 (lo AND 0xFF)
         XOR tables 6 (drop_bit 8 lo AND 0xFF)
         XOR tables 5 (drop_bit 16 lo AND 0xFF)
         XOR tables 4 (drop_bit 24 lo)
         XOR tables 3 (hi AND 0xFF)
         XOR tables 2 (drop_bit 8 hi AND 0xFF)
         XOR tables 1 (drop_bit 16 hi AND 0xFF)
         XOR tables 0 (drop_bit 24 hi))"

definition crc_byte_step :: "u32 \<Rightarrow> byte \<Rightarrow> u32" where
  "crc_byte_step state byte = drop_bit 8 state XOR tables 0 ((state XOR ucast byte) AND 0xFF)"

function crc_loop :: "u32 \<Rightarrow> bytes \<Rightarrow> u32" where
  "crc_loop state data =
     (if 8 \<le> length data then crc_loop (crc_word_step state (take 8 data)) (drop 8 data)
      else foldl crc_byte_step state data)"
  by pat_completeness auto
termination by (relation "measure (length \<circ> snd)") auto

declare crc_loop.simps [simp del]

definition scalar_crc32c_update :: "u32 \<Rightarrow> bytes \<Rightarrow> u32" where
  "scalar_crc32c_update crc data = NOT (crc_loop (NOT crc) data)"

definition crc32c :: "bytes \<Rightarrow> u32" where
  "crc32c data = scalar_crc32c_update 0 data"

section \<open>The bitwise reference\<close>

text \<open>The checksum register after one more byte, by eight single-bit divisions.\<close>

definition ref_byte :: "u32 \<Rightarrow> byte \<Rightarrow> u32" where
  "ref_byte state byte = (crc_shift ^^ 8) (state XOR ucast byte)"

definition ref_crc32c_update :: "u32 \<Rightarrow> bytes \<Rightarrow> u32" where
  "ref_crc32c_update crc data = NOT (foldl ref_byte (NOT crc) data)"

section \<open>Linearity\<close>

lemma and_one_iff: "x AND 1 \<noteq> (0 :: u32) \<longleftrightarrow> bit x 0"
  by (simp add: and_one_eq odd_iff_mod_2_eq_one bit_0)

lemma crc_shift_alt: "crc_shift x = (if bit x 0 then drop_bit 1 x XOR POLY else drop_bit 1 x)"
  unfolding crc_shift_def and_one_iff ..

lemma crc_shift_xor: "crc_shift (x XOR y) = crc_shift x XOR crc_shift y"
  by (rule bit_word_eqI) (auto simp: crc_shift_alt bit_xor_iff bit_drop_bit_eq)

abbreviation crc8 :: "u32 \<Rightarrow> u32" where "crc8 \<equiv> crc_shift ^^ 8"

lemma funpow_crc_xor: "(crc_shift ^^ n) (x XOR y) = (crc_shift ^^ n) x XOR (crc_shift ^^ n) y"
  by (induction n) (auto simp: crc_shift_xor)

lemma funpow8_xor: "(crc8 ^^ n) (x XOR y) = (crc8 ^^ n) x XOR (crc8 ^^ n) y"
  by (induction n) (auto simp: funpow_crc_xor)

lemma crc_shift_low_zero:
  "(\<And>i. i < n \<Longrightarrow> \<not> bit x i) \<Longrightarrow> (crc_shift ^^ n) x = drop_bit n x"
proof (induction n arbitrary: x)
  case 0
  then show ?case by simp
next
  case (Suc n)
  from Suc.prems [of 0] have "crc_shift x = drop_bit 1 x" by (simp add: crc_shift_alt)
  moreover have "(crc_shift ^^ n) (drop_bit 1 x) = drop_bit n (drop_bit 1 x)"
    by (rule Suc.IH) (use Suc.prems in \<open>auto simp: bit_drop_bit_eq\<close>)
  ultimately show ?case
    by (simp add: funpow_Suc_right drop_bit_drop_bit del: funpow.simps)
qed

lemma crc8_split: "crc8 x = crc8 (x AND 0xFF) XOR drop_bit 8 x"
proof -
  let ?high = "push_bit 8 (drop_bit 8 x)"
  have "x = (x AND 0xFF) XOR ?high"
    by (rule bit_word_eqI) (auto simp: bit_xor_iff bit_and_iff bit_push_bit_iff bit_drop_bit_eq)
  then have "crc8 x = crc8 (x AND 0xFF) XOR crc8 ?high"
    by (metis funpow_crc_xor)
  also have "crc8 ?high = drop_bit 8 ?high"
    by (rule crc_shift_low_zero) (auto simp: bit_push_bit_iff)
  also have "drop_bit 8 ?high = drop_bit 8 x"
    by (rule bit_word_eqI)
      (auto simp: bit_drop_bit_eq bit_push_bit_iff dest: bit_imp_le_length)
  finally show ?thesis .
qed

lemma crc8_push:
  assumes "drop_bit 24 x = 0"
  shows "crc8 (push_bit 8 x) = x"
proof -
  have "crc8 (push_bit 8 x) = drop_bit 8 (push_bit 8 x)"
    by (rule crc_shift_low_zero) (auto simp: bit_push_bit_iff)
  also have "\<dots> = x"
    by (rule bit_word_eqI)
      (auto simp: bit_drop_bit_eq bit_push_bit_iff dest: bit_less_of_drop [OF assms])
  finally show ?thesis .
qed

lemma tables_crc8: "tables k i = (crc8 ^^ Suc k) i"
proof (induction k)
  case 0
  then show ?case by (simp add: table0_def)
next
  case (Suc k)
  have "tables (Suc k) i = crc8 (tables k i)"
    by (subst crc8_split) (simp add: Let_def xor.commute table0_def)
  then show ?case by (simp add: Suc.IH)
qed

declare tables.simps [simp del]

lemma crc_byte_step_ref: "crc_byte_step state byte = ref_byte state byte"
proof -
  have "drop_bit 8 (state XOR ucast byte) = drop_bit 8 state"
    by (rule bit_word_eqI) (auto simp: bit_drop_bit_eq bit_xor_iff bit_ucast_iff dest: byte_bit_less)
  then show ?thesis
    unfolding crc_byte_step_def ref_byte_def
    by (subst crc8_split) (simp add: tables_crc8 xor.commute)
qed

section \<open>Slicing by eight\<close>

lemma crc8_pow_split: "(crc8 ^^ Suc n) x = (crc8 ^^ Suc n) (x AND 0xFF) XOR (crc8 ^^ n) (drop_bit 8 x)"
proof -
  have "(crc8 ^^ Suc n) x = (crc8 ^^ n) (crc8 (x AND 0xFF) XOR drop_bit 8 x)"
    by (simp only: funpow_Suc_right comp_apply crc8_split [symmetric])
  then show ?thesis by (simp only: funpow8_xor funpow_Suc_right comp_apply)
qed

lemma tables_word:
  "tables (n + 3) (x AND 0xFF) XOR tables (n + 2) (drop_bit 8 x AND 0xFF)
   XOR tables (n + 1) (drop_bit 16 x AND 0xFF) XOR tables n (drop_bit 24 x) = (crc8 ^^ (n + 4)) x"
proof -
  have "(crc8 ^^ (n + 4)) x = (crc8 ^^ Suc (n + 3)) x" by (simp only: add_Suc_right [symmetric]) simp
  also have "\<dots> = tables (n + 3) (x AND 0xFF) XOR (crc8 ^^ Suc (n + 2)) (drop_bit 8 x)"
    by (subst crc8_pow_split) (simp only: tables_crc8 eval_nat_numeral add_Suc_right)
  also have "(crc8 ^^ Suc (n + 2)) (drop_bit 8 x) =
      tables (n + 2) (drop_bit 8 x AND 0xFF) XOR (crc8 ^^ Suc (n + 1)) (drop_bit 16 x)"
    by (subst crc8_pow_split) (simp add: tables_crc8 drop_bit_drop_bit)
  also have "(crc8 ^^ Suc (n + 1)) (drop_bit 16 x) =
      tables (n + 1) (drop_bit 16 x AND 0xFF) XOR tables n (drop_bit 24 x)"
    by (subst crc8_pow_split) (simp add: tables_crc8 drop_bit_drop_bit)
  finally show ?thesis by (simp only: xor.assoc)
qed

lemma tables_word_lo:
  "tables 7 (x AND 0xFF) XOR tables 6 (drop_bit 8 x AND 0xFF) XOR tables 5 (drop_bit 16 x AND 0xFF)
   XOR tables 4 (drop_bit 24 x) = (crc8 ^^ 8) x"
  using tables_word [of 4 x] by simp

lemma tables_word_hi:
  "tables 3 (x AND 0xFF) XOR tables 2 (drop_bit 8 x AND 0xFF) XOR tables 1 (drop_bit 16 x AND 0xFF)
   XOR tables 0 (drop_bit 24 x) = (crc8 ^^ 4) x"
  using tables_word [of 0 x] by (simp add: numeral_2_eq_2)

lemma foldl_ref_byte_short:
  "length bs \<le> 4 \<Longrightarrow> foldl ref_byte s bs = (crc8 ^^ length bs) (s XOR of_le_bytes bs)"
proof (induction bs arbitrary: s)
  case Nil
  then show ?case by simp
next
  case (Cons b bs)
  let ?m = "length bs" and ?le = "of_le_bytes bs :: u32"
  have "drop_bit 24 ?le = 0"
    by (rule bit_word_eqI)
      (use Cons.prems in \<open>auto simp: bit_drop_bit_eq dest!: bit_of_le_bytes_bound\<close>)
  then have push: "crc8 (push_bit 8 ?le) = ?le" by (rule crc8_push)
  have "(of_le_bytes (b # bs) :: u32) = ucast b XOR push_bit 8 ?le"
    by (rule bit_word_eqI)
      (auto simp: bit_or_iff bit_xor_iff bit_push_bit_iff bit_ucast_iff dest: byte_bit_less)
  then have "(crc8 ^^ Suc ?m) (s XOR of_le_bytes (b # bs)) =
      (crc8 ^^ ?m) (crc8 (s XOR ucast b) XOR ?le)"
    by (simp only: funpow_Suc_right comp_apply xor.assoc [symmetric] funpow_crc_xor push)
  also have "\<dots> = foldl ref_byte (ref_byte s b) bs"
    using Cons.IH [of "ref_byte s b"] Cons.prems by (simp add: ref_byte_def [of s b])
  finally show ?case by simp
qed

lemma crc_word_step_ref:
  assumes "length chunk = 8"
  shows "crc_word_step state chunk = foldl ref_byte state chunk"
proof -
  let ?lo = "of_le_bytes (take 4 chunk) :: u32" and ?hi = "of_le_bytes (take 4 (drop 4 chunk)) :: u32"
  have "chunk = take 4 chunk @ take 4 (drop 4 chunk)" using assms by simp
  then have "foldl ref_byte state chunk =
      foldl ref_byte (foldl ref_byte state (take 4 chunk)) (take 4 (drop 4 chunk))"
    by (metis foldl_append)
  also have "\<dots> = (crc8 ^^ 4) ((crc8 ^^ 4) (state XOR ?lo) XOR ?hi)"
    using assms by (simp add: foldl_ref_byte_short)
  also have "\<dots> = (crc8 ^^ 8) (?lo XOR state) XOR (crc8 ^^ 4) ?hi"
    by (simp only: funpow8_xor funpow_add [symmetric, THEN fun_cong, unfolded comp_apply])
      (simp add: xor.commute)
  also have "\<dots> = crc_word_step state chunk"
    by (simp only: crc_word_step_def Let_def tables_word_lo [symmetric] tables_word_hi [symmetric] xor.assoc)
  finally show ?thesis by simp
qed

lemma crc_loop_ref: "crc_loop state data = foldl ref_byte state data"
proof (induction state data rule: crc_loop.induct)
  case (1 state data)
  show ?case
  proof (cases "8 \<le> length data")
    case True
    then have "crc_loop state data = foldl ref_byte (crc_word_step state (take 8 data)) (drop 8 data)"
      using "1.IH" by (simp add: crc_loop.simps [of state data])
    also have "\<dots> = foldl ref_byte (foldl ref_byte state (take 8 data)) (drop 8 data)"
      using True by (simp add: crc_word_step_ref)
    also have "\<dots> = foldl ref_byte state data" by (metis append_take_drop_id foldl_append)
    finally show ?thesis .
  next
    case False
    moreover have "crc_byte_step = ref_byte" by (intro ext) (rule crc_byte_step_ref)
    ultimately show ?thesis by (simp add: crc_loop.simps [of state data])
  qed
qed

lemma crc32c_alt: "crc32c data = ref_crc32c_update 0 data"
  by (simp add: crc32c_def scalar_crc32c_update_def ref_crc32c_update_def crc_loop_ref)

section \<open>Composition and detection\<close>

lemma bit_POLY_31: "bit POLY 31"
  by (simp add: POLY_def)

lemma inj_crc_shift: "inj crc_shift"
proof (rule injI)
  fix x y assume eq: "crc_shift x = crc_shift y"
  have top: "bit (crc_shift z) 31 \<longleftrightarrow> bit z 0" for z
    by (auto simp: crc_shift_alt bit_xor_iff bit_drop_bit_eq bit_POLY_31 dest: bit_imp_le_length)
  from eq top [of x] top [of y] have low: "bit x 0 \<longleftrightarrow> bit y 0" by simp
  with eq have "drop_bit 1 x = drop_bit 1 y"
    by (auto simp: crc_shift_alt xor_cancel_right split: if_splits)
  then have "bit x (Suc n) \<longleftrightarrow> bit y (Suc n)" for n
    by (metis bit_drop_bit_eq comp_apply plus_1_eq_Suc)
  with low show "x = y"
    by (intro bit_word_eqI) (metis not0_implies_Suc)
qed

lemma inj_crc8_pow: "inj (crc8 ^^ n)"
  by (intro inj_fn inj_crc_shift)

lemma inj_ref_byte: "inj (\<lambda>state. ref_byte state byte)"
proof (rule injI)
  fix x y assume "ref_byte x byte = ref_byte y byte"
  then have "x XOR ucast byte = y XOR ucast byte"
    unfolding ref_byte_def by (rule inj_fn [OF inj_crc_shift, THEN injD])
  then show "x = y" by (simp only: xor_cancel_right)
qed

lemma inj_foldl_ref_byte: "inj (\<lambda>state. foldl ref_byte state bs)"
proof (induction bs)
  case Nil
  then show ?case by simp
next
  case (Cons b bs)
  have "(\<lambda>state. foldl ref_byte state (b # bs)) =
      (\<lambda>state. foldl ref_byte state bs) \<circ> (\<lambda>state. ref_byte state b)"
    by (simp add: comp_def)
  then show ?case using inj_compose [OF Cons.IH inj_ref_byte [of b]] by simp
qed

lemma foldl_ref_byte_inj_short:
  assumes "length xs = length ys" and "length xs \<le> 4"
    and "foldl ref_byte s xs = foldl ref_byte s ys"
  shows "xs = ys"
proof -
  from assms have "(of_le_bytes xs :: u32) = of_le_bytes ys"
    by (simp add: foldl_ref_byte_short inj_eq [OF inj_crc8_pow] xor_cancel_left)
  then have "le_bytes (length xs) (of_le_bytes xs :: u32) = le_bytes (length ys) (of_le_bytes ys :: u32)"
    using assms(1) by simp
  then show ?thesis using assms(1,2) by (simp add: le_bytes_of_le_bytes)
qed

text \<open>
  C7: the slicing-by-8 table implementation computes the CRC32C defined by single-bit polynomial
  division, and extending a checksum is the same as checksumming the concatenation, at whatever
  byte boundary the input is split.
\<close>

theorem crc32c_update_correct:
  "scalar_crc32c_update crc data = ref_crc32c_update crc data \<and>
   scalar_crc32c_update (scalar_crc32c_update crc a) b = scalar_crc32c_update crc (a @ b)"
  by (simp add: scalar_crc32c_update_def ref_crc32c_update_def crc_loop_ref)

lemma crc32c_burst_neq:
  assumes "length xs = length ys" and "length xs \<le> 4" and "xs \<noteq> ys"
  shows "crc32c (pre @ xs @ post) \<noteq> crc32c (pre @ ys @ post)"
proof
  assume "crc32c (pre @ xs @ post) = crc32c (pre @ ys @ post)"
  then have "foldl ref_byte (foldl ref_byte (NOT 0) pre) xs = foldl ref_byte (foldl ref_byte (NOT 0) pre) ys"
    by (simp add: crc32c_alt ref_crc32c_update_def inj_eq [OF inj_foldl_ref_byte])
  with assms show False using foldl_ref_byte_inj_short by blast
qed

text \<open>
  A block that ends with its own checksum, little-endian. All such blocks leave the same residue in
  the register, so a burst is detected also where it reaches into the stored checksum.
\<close>

definition crc_sealed :: "bytes \<Rightarrow> bool" where
  "crc_sealed block \<longleftrightarrow>
     of_le_bytes (drop (length block - 4) block) = crc32c (take (length block - 4) block)"

lemma crc_sealed_residue:
  assumes "4 \<le> length block"
  shows "crc_sealed block \<longleftrightarrow> foldl ref_byte (NOT 0) block = (crc8 ^^ 4) (NOT 0)"
proof -
  let ?data = "take (length block - 4) block" and ?tr = "drop (length block - 4) block"
  define s where "s = foldl ref_byte (NOT 0) ?data"
  have "foldl ref_byte (NOT 0) block = foldl ref_byte s ?tr"
    unfolding s_def by (metis append_take_drop_id foldl_append)
  also have "\<dots> = (crc8 ^^ 4) (s XOR of_le_bytes ?tr)"
    using assms by (simp add: foldl_ref_byte_short)
  finally have "foldl ref_byte (NOT 0) block = (crc8 ^^ 4) (NOT 0) \<longleftrightarrow> s XOR of_le_bytes ?tr = NOT 0"
    by (simp only: inj_eq [OF inj_crc8_pow])
  also have "\<dots> \<longleftrightarrow> of_le_bytes ?tr = NOT s"
    by (auto simp: bit_eq_iff bit_xor_iff bit_not_iff)
  finally show ?thesis
    by (simp add: crc_sealed_def crc32c_alt ref_crc32c_update_def s_def)
qed

lemma crc_sealed_burst:
  assumes "crc_sealed (pre @ xs @ post)" and "4 \<le> length (pre @ xs @ post)"
    and "length xs = length ys" and "length xs \<le> 4" and "xs \<noteq> ys"
  shows "\<not> crc_sealed (pre @ ys @ post)"
proof
  assume ys: "crc_sealed (pre @ ys @ post)"
  let ?s = "foldl ref_byte (NOT 0) pre"
  have "foldl ref_byte (foldl ref_byte ?s xs) post = foldl ref_byte (foldl ref_byte ?s ys) post"
    using crc_sealed_residue [of "pre @ xs @ post"] crc_sealed_residue [of "pre @ ys @ post"] ys assms(1-3)
    by (simp only: foldl_append length_append) simp
  then have "foldl ref_byte ?s xs = foldl ref_byte ?s ys"
    by (rule inj_foldl_ref_byte [THEN injD])
  with assms(3-5) show False using foldl_ref_byte_inj_short by blast
qed

text \<open>
  C8: a corruption confined to four consecutive bytes always changes the checksum: two inputs of
  the same length that differ only inside such a window never share a CRC32C.
\<close>

theorem crc32c_detects_burst:
  assumes "length xs = length ys" and "length xs \<le> 4" and "xs \<noteq> ys"
  shows "crc32c (pre @ xs @ post) \<noteq> crc32c (pre @ ys @ post)"
  using assms by (rule crc32c_burst_neq)

theorem crc32c_detects_burst_witness:
  "crc32c ([1, 2] @ [0x10, 0x20, 0x30, 0x40] @ [7]) \<noteq> crc32c ([1, 2] @ [0x10, 0x21, 0x30, 0xC0] @ [7])"
  by (rule crc32c_detects_burst) simp_all

end
