(* ===== verification/LogFrame.thy ===== *)
theory LogFrame
  imports LogRecord Lsn Crc32c
begin

text \<open>
  \<^verbatim>\<open>crates/inf-log/src/frame.rs\<close>: batch frames v1, v2 and v3. The model has the \<open>FrameBuilder\<close> with
  its whole life cycle (\<open>with_capacity\<close>, \<open>append\<close>, \<open>finalize\<close>, \<open>reset\<close>), the frame decoder with
  its checks in the source's order, the record iterator inside a frame and the frame iterator over
  a segment image. Panics (assertions, \<open>expect\<close>, LSN overflow) are \<open>None\<close>. The theory proves that
  a finalised frame decodes to the records that were appended, at the LSNs the append order gives,
  that an accepted frame can never make the record iterator panic, and that both iterators stop.
\<close>

section \<open>Model: constants, stamps and layouts\<close>

definition FRAME_MAGIC_V1 :: bytes where "FRAME_MAGIC_V1 = [0x49, 0x46, 0x52, 0x31]"
definition FRAME_MAGIC :: bytes where "FRAME_MAGIC = [0x49, 0x46, 0x52, 0x32]"
definition FRAME_MAGIC_V3 :: bytes where "FRAME_MAGIC_V3 = [0x49, 0x46, 0x52, 0x33]"
definition FRAME_ALIGN :: nat where "FRAME_ALIGN = 4096"
definition FRAME_HEADER_LEN_V1 :: nat where "FRAME_HEADER_LEN_V1 = 20"
definition FRAME_HEADER_LEN :: nat where "FRAME_HEADER_LEN = 40"
definition FRAME_TRAILER_LEN :: nat where "FRAME_TRAILER_LEN = 4"
definition MIN_FRAME_LEN_V1 :: nat where "MIN_FRAME_LEN_V1 = 28"
definition MIN_FRAME_LEN :: nat where "MIN_FRAME_LEN = 48"
definition DEFAULT_MAX_FRAME_LEN :: u32 where "DEFAULT_MAX_FRAME_LEN = 0x4000000"

record FrameStamp =
  epoch :: u32
  seq :: u64
  covered_lsn :: u64

definition frame_header_len :: "bool \<Rightarrow> nat" where
  "frame_header_len has_stamp = (if has_stamp then FRAME_HEADER_LEN else FRAME_HEADER_LEN_V1)"

text \<open>\<open>u32::checked_next_multiple_of(FRAME_ALIGN)\<close>.\<close>

definition checked_next_multiple :: "u32 \<Rightarrow> u32 option" where
  "checked_next_multiple len =
     (let r = unat len mod FRAME_ALIGN
      in if r = 0 then Some len
         else if unat len + (FRAME_ALIGN - r) < 2 ^ 32 then Some (of_nat (unat len + (FRAME_ALIGN - r)))
         else None)"

definition align_up_frame :: "u32 \<Rightarrow> u32" where
  "align_up_frame len = (case checked_next_multiple len of Some padded \<Rightarrow> padded | None \<Rightarrow> - 1)"

datatype FrameLayout = Packed | Aligned

fun layout_padded_len :: "FrameLayout \<Rightarrow> u32 \<Rightarrow> u32" where
  "layout_padded_len Packed frame_len = frame_len"
| "layout_padded_len Aligned frame_len = align_up_frame frame_len"

section \<open>Model: the builder\<close>

text \<open>
  \<open>fb_buf\<close> starts with \<open>fb_at\<close> bytes of slack, so that the frame base is aligned in memory; the
  offset comes from the allocator (\<open>align_offset\<close>) and is an argument of \<open>with_capacity\<close>.
\<close>

record FrameBuilder =
  fb_buf :: bytes
  fb_at :: nat
  fb_record_count :: u32
  fb_sealed :: bool
  fb_sealed_len :: nat

definition with_capacity :: "nat \<Rightarrow> FrameBuilder" where
  "with_capacity at = \<lparr>fb_buf = replicate at 0 @ replicate FRAME_HEADER_LEN 0, fb_at = at,
     fb_record_count = 0, fb_sealed = False, fb_sealed_len = 0\<rparr>"

definition builder_frame_len :: "FrameBuilder \<Rightarrow> u32 option" where
  "builder_frame_len fb =
     (let n = length (fb_buf fb) - fb_at fb + FRAME_TRAILER_LEN
      in if n < 2 ^ 32 then Some (of_nat n) else None)"

definition append :: "FrameBuilder \<Rightarrow> RecordView \<Rightarrow> FrameBuilder option" where
  "append fb record =
     (if fb_sealed fb then None
      else Some (fb\<lparr>fb_buf := fb_buf fb @ encode_into record, fb_record_count := fb_record_count fb + 1\<rparr>))"

definition header_bytes :: "bytes \<Rightarrow> u32 \<Rightarrow> u32 \<Rightarrow> Lsn \<Rightarrow> FrameStamp \<Rightarrow> bytes" where
  "header_bytes magic frame_len record_count first_lsn stamp =
     magic @ le_bytes 4 frame_len @ le_bytes 4 record_count
     @ le_bytes 4 (segment first_lsn) @ le_bytes 4 (offset first_lsn)
     @ le_bytes 4 (epoch stamp) @ le_bytes 8 (seq stamp) @ le_bytes 8 (covered_lsn stamp)"

fun layout_magic :: "FrameLayout \<Rightarrow> bytes" where
  "layout_magic Packed = FRAME_MAGIC"
| "layout_magic Aligned = FRAME_MAGIC_V3"

text \<open>\<open>Vec::resize(n, 0)\<close>.\<close>

definition resize_zero :: "bytes \<Rightarrow> nat \<Rightarrow> bytes" where
  "resize_zero bs n = take n bs @ replicate (n - length bs) 0"

definition finalize ::
  "FrameBuilder \<Rightarrow> Lsn \<Rightarrow> FrameStamp \<Rightarrow> FrameLayout \<Rightarrow> (bytes \<times> FrameBuilder) option" where
  "finalize fb first_record_lsn stamp layout =
     (if fb_record_count fb = 0 \<or> fb_sealed fb \<or> epoch stamp = 0 \<or> seq stamp = 0
         \<or> covered_lsn stamp > to_u64 first_record_lsn then None
      else case builder_frame_len fb of
        None \<Rightarrow> None
      | Some frame_len \<Rightarrow>
          let at = fb_at fb;
              body = drop (at + FRAME_HEADER_LEN) (fb_buf fb);
              covered = header_bytes (layout_magic layout) frame_len (fb_record_count fb)
                first_record_lsn stamp @ body;
              buf = take at (fb_buf fb) @ covered @ le_bytes 4 (crc32c covered);
              padded = unat (layout_padded_len layout frame_len);
              buf' = resize_zero buf (at + padded)
          in Some (drop at buf', fb\<lparr>fb_buf := buf', fb_sealed := True, fb_sealed_len := padded\<rparr>))"

definition sealed_frame :: "FrameBuilder \<Rightarrow> bytes option" where
  "sealed_frame fb =
     (if fb_sealed fb then Some (take (fb_sealed_len fb) (drop (fb_at fb) (fb_buf fb))) else None)"

definition reset :: "FrameBuilder \<Rightarrow> FrameBuilder" where
  "reset fb = fb\<lparr>fb_buf := take (fb_at fb) (fb_buf fb) @ replicate FRAME_HEADER_LEN 0,
     fb_record_count := 0, fb_sealed := False, fb_sealed_len := 0\<rparr>"

section \<open>Model: the decoder\<close>

datatype FrameDecodeError =
    FrameTruncated nat nat \<comment> \<open>\<open>needed, available\<close>\<close>
  | ZeroMagic
  | BadMagic bytes
  | BadLength u32
  | ZeroRecordCount
  | BadStamp
  | CrcMismatch u32 u32 \<comment> \<open>\<open>stored, computed\<close>\<close>
  | BadFirstLsn u32

record FrameRef =
  fr_first_lsn :: Lsn
  fr_record_count :: u32
  fr_stamp :: "FrameStamp option"
  fr_layout :: FrameLayout
  fr_frame_len :: u32
  fr_body :: bytes

definition fr_padded_len :: "FrameRef \<Rightarrow> u32" where
  "fr_padded_len f = layout_padded_len (fr_layout f) (fr_frame_len f)"

definition fr_header_len :: "FrameRef \<Rightarrow> nat" where
  "fr_header_len f = frame_header_len (fr_stamp f \<noteq> None)"

record FrameShape =
  sh_header_len :: nat
  sh_min_frame_len :: nat
  sh_has_stamp :: bool
  sh_layout :: FrameLayout

definition frame_shape :: "bytes \<Rightarrow> FrameDecodeError + FrameShape option" where
  "frame_shape magic =
     (if magic = [0, 0, 0, 0] then Ok None
      else if magic = FRAME_MAGIC then
        Ok (Some \<lparr>sh_header_len = FRAME_HEADER_LEN, sh_min_frame_len = MIN_FRAME_LEN,
             sh_has_stamp = True, sh_layout = Packed\<rparr>)
      else if magic = FRAME_MAGIC_V3 then
        Ok (Some \<lparr>sh_header_len = FRAME_HEADER_LEN, sh_min_frame_len = MIN_FRAME_LEN,
             sh_has_stamp = True, sh_layout = Aligned\<rparr>)
      else if magic = FRAME_MAGIC_V1 then
        Ok (Some \<lparr>sh_header_len = FRAME_HEADER_LEN_V1, sh_min_frame_len = MIN_FRAME_LEN_V1,
             sh_has_stamp = False, sh_layout = Packed\<rparr>)
      else Err (BadMagic magic))"

fun layout_extent :: "FrameLayout \<Rightarrow> u32 \<Rightarrow> u32 option" where
  "layout_extent Packed frame_len = Some frame_len"
| "layout_extent Aligned frame_len = checked_next_multiple frame_len"

definition fits_segment :: "u32 \<Rightarrow> nat \<Rightarrow> u32 \<Rightarrow> bool" where
  "fits_segment off header_len extent \<longleftrightarrow>
     header_len \<le> unat off \<and> unat off - header_len + unat extent \<le> 2 ^ 32 - 1"

definition decode_stamp :: "bool \<Rightarrow> bytes \<Rightarrow> Lsn \<Rightarrow> FrameDecodeError + FrameStamp option" where
  "decode_stamp has_stamp frame first_lsn =
     (if has_stamp then
        let stamp = \<lparr>epoch = of_le_bytes (sub_slice frame 20 24), seq = of_le_bytes (sub_slice frame 24 32),
              covered_lsn = of_le_bytes (sub_slice frame 32 40)\<rparr>
        in if epoch stamp = 0 \<or> seq stamp = 0 \<or> covered_lsn stamp > to_u64 first_lsn
           then Err BadStamp else Ok (Some stamp)
      else Ok None)"

text \<open>The checks after the frame's bytes are known to be present: CRC, count, LSN, stamp.\<close>

definition decode_checked :: "FrameShape \<Rightarrow> u32 \<Rightarrow> u32 \<Rightarrow> bytes \<Rightarrow> FrameDecodeError + FrameRef \<times> nat" where
  "decode_checked shape frame_len extent frame =
     (let split = length frame - FRAME_TRAILER_LEN;
          covered = take split frame; trailer = drop split frame;
          stored = of_le_bytes trailer; computed = crc32c covered
      in if stored \<noteq> computed then Err (CrcMismatch stored computed)
      else let record_count = of_le_bytes (sub_slice frame 8 12)
      in if record_count = (0 :: u32) then Err ZeroRecordCount
      else let first_lsn = Lsn (of_le_bytes (sub_slice frame 12 16)) (of_le_bytes (sub_slice frame 16 20))
      in if \<not> fits_segment (offset first_lsn) (sh_header_len shape) extent
         then Err (BadFirstLsn (offset first_lsn))
      else rbind (decode_stamp (sh_has_stamp shape) frame first_lsn) (\<lambda>stamp.
        Ok (\<lparr>fr_first_lsn = first_lsn, fr_record_count = record_count, fr_stamp = stamp,
              fr_layout = sh_layout shape, fr_frame_len = frame_len,
              fr_body = drop (sh_header_len shape) covered\<rparr>, unat frame_len)))"

definition decode_frame :: "bytes \<Rightarrow> u32 \<Rightarrow> FrameDecodeError + FrameRef \<times> nat" where
  "decode_frame buf max_frame_len =
     (if length buf < 4 then
        (if list_all (\<lambda>b. b = 0) buf then Err ZeroMagic else Err (FrameTruncated 4 (length buf)))
      else rbind (frame_shape (take 4 buf)) (\<lambda>sh.
        case sh of
          None \<Rightarrow> Err ZeroMagic
        | Some shape \<Rightarrow>
            if length buf < sh_header_len shape
            then Err (FrameTruncated (sh_header_len shape) (length buf))
            else let frame_len = of_le_bytes (sub_slice buf 4 8) :: u32
            in if unat frame_len < sh_min_frame_len shape \<or> frame_len > max_frame_len
            then Err (BadLength frame_len)
            else case layout_extent (sh_layout shape) frame_len of
              None \<Rightarrow> Err (BadLength frame_len)
            | Some extent \<Rightarrow>
                if length buf < unat frame_len then Err (FrameTruncated (unat frame_len) (length buf))
                else decode_checked shape frame_len extent (take (unat frame_len) buf)))"

section \<open>Model: the iterators\<close>

datatype FrameRecordError =
    FRecord RecordDecodeError
  | FTrailingBytes nat
  | MissingRecords u32 u32 \<comment> \<open>\<open>decoded, declared\<close>\<close>

record RecordIter =
  ri_body :: bytes
  ri_offset :: nat
  ri_declared :: u32
  ri_remaining :: u32
  ri_next_lsn :: Lsn
  ri_failed :: bool

definition records :: "FrameRef \<Rightarrow> RecordIter" where
  "records f = \<lparr>ri_body = fr_body f, ri_offset = 0, ri_declared = fr_record_count f,
     ri_remaining = fr_record_count f, ri_next_lsn = fr_first_lsn f, ri_failed = False\<rparr>"

text \<open>\<open>RecordIter::next\<close>: \<open>None\<close> is the panic of \<open>Lsn::advance\<close>, otherwise the item and the state.\<close>

definition record_next ::
  "RecordIter \<Rightarrow> ((FrameRecordError + Lsn \<times> RecordView) option \<times> RecordIter) option" where
  "record_next it =
     (if ri_failed it then Some (None, it)
      else if ri_remaining it = 0 then
        (if ri_offset it \<noteq> length (ri_body it)
         then Some (Some (Err (FTrailingBytes (ri_offset it))), it\<lparr>ri_failed := True\<rparr>)
         else Some (None, it))
      else if ri_offset it = length (ri_body it) then
        Some (Some (Err (MissingRecords (ri_declared it - ri_remaining it) (ri_declared it))),
          it\<lparr>ri_failed := True\<rparr>)
      else case decode_record (drop (ri_offset it) (ri_body it)) of
        Inr (view, consumed) \<Rightarrow>
          (case lsn_advance (ri_next_lsn it) (of_nat consumed) of
             None \<Rightarrow> None
           | Some next_lsn \<Rightarrow>
               Some (Some (Ok (ri_next_lsn it, view)),
                 it\<lparr>ri_offset := ri_offset it + consumed, ri_next_lsn := next_lsn,
                    ri_remaining := ri_remaining it - 1\<rparr>))
      | Inl err \<Rightarrow> Some (Some (Err (FRecord err)), it\<lparr>ri_failed := True\<rparr>))"

record FrameIter =
  fi_buf :: bytes
  fi_offset :: nat
  fi_max_frame_len :: u32
  fi_done :: bool

definition frame_iter_new :: "bytes \<Rightarrow> u32 \<Rightarrow> FrameIter" where
  "frame_iter_new buf max_frame_len =
     \<lparr>fi_buf = buf, fi_offset = 0, fi_max_frame_len = max_frame_len, fi_done = False\<rparr>"

definition saturating_add_usize :: "nat \<Rightarrow> nat \<Rightarrow> nat" where
  "saturating_add_usize a b = min (a + b) (2 ^ 64 - 1)"

definition frame_next ::
  "FrameIter \<Rightarrow> (FrameDecodeError + nat \<times> FrameRef) option \<times> FrameIter" where
  "frame_next it =
     (if fi_done it \<or> fi_offset it \<ge> length (fi_buf it) then (None, it\<lparr>fi_done := True\<rparr>)
      else case decode_frame (drop (fi_offset it) (fi_buf it)) (fi_max_frame_len it) of
        Inr (frame, _) \<Rightarrow>
          (Some (Ok (fi_offset it, frame)),
           it\<lparr>fi_offset := saturating_add_usize (fi_offset it) (unat (fr_padded_len frame))\<rparr>)
      | Inl err \<Rightarrow>
          (if err = ZeroMagic then (None, it\<lparr>fi_done := True\<rparr>)
           else (Some (Err err), it\<lparr>fi_done := True\<rparr>)))"

text \<open>
  Draining the iterators, as a \<open>for\<close> loop does. \<open>record_items\<close> is \<open>None\<close> when a call panics; its
  recursion ends because each call either consumes a declared record or sets \<open>ri_failed\<close>. The loop
  over a segment image has fuel, and \<open>None\<close> is running out of it.
\<close>

function record_items :: "RecordIter \<Rightarrow> (FrameRecordError + Lsn \<times> RecordView) list option" where
  "record_items it =
     (case record_next it of
        None \<Rightarrow> None
      | Some (None, _) \<Rightarrow> Some []
      | Some (Some x, it') \<Rightarrow> map_option (Cons x) (record_items it'))"
  by pat_completeness auto

lemma record_next_measure:
  assumes "record_next it = Some (Some x, it')"
  shows "unat (ri_remaining it') + (if ri_failed it' then 0 else 1) <
         unat (ri_remaining it) + (if ri_failed it then 0 else 1)"
proof -
  have "ri_remaining it \<noteq> 0 \<Longrightarrow> unat (ri_remaining it - 1) < unat (ri_remaining it)"
    by (rule measure_unat)
  with assms show ?thesis
    by (auto simp: record_next_def split: if_splits sum.splits prod.splits option.splits)
qed

termination record_items
  by (relation "measure (\<lambda>it. unat (ri_remaining it) + (if ri_failed it then 0 else 1))", simp)
    (metis in_measure record_next_measure)

declare record_items.simps [simp del]

fun frame_items :: "nat \<Rightarrow> FrameIter \<Rightarrow> (FrameDecodeError + nat \<times> FrameRef) list option" where
  "frame_items 0 it = None"
| "frame_items (Suc fuel) it =
     (case frame_next it of
        (None, _) \<Rightarrow> Some []
      | (Some x, it') \<Rightarrow> map_option (Cons x) (frame_items fuel it'))"

section \<open>The builder\<close>

text \<open>
  \<open>builder_holds fb recs\<close>: the open builder \<open>fb\<close> has staged exactly the records \<open>recs\<close>. The frame that
  sealing it produces is \<open>frame_bytes\<close>, followed under \<open>Aligned\<close> by \<open>frame_padding\<close>.
\<close>

definition builder_holds :: "FrameBuilder \<Rightarrow> RecordView list \<Rightarrow> bool" where
  "builder_holds fb recs \<longleftrightarrow>
     \<not> fb_sealed fb \<and> fb_at fb \<le> length (fb_buf fb) \<and> fb_record_count fb = of_nat (length recs) \<and>
     drop (fb_at fb) (fb_buf fb) = replicate FRAME_HEADER_LEN 0 @ concat (map encode_into recs)"

definition records_len :: "RecordView list \<Rightarrow> nat" where
  "records_len recs = FRAME_HEADER_LEN + length (concat (map encode_into recs)) + FRAME_TRAILER_LEN"

definition covered_bytes :: "FrameLayout \<Rightarrow> Lsn \<Rightarrow> FrameStamp \<Rightarrow> RecordView list \<Rightarrow> bytes" where
  "covered_bytes layout lsn stamp recs =
     header_bytes (layout_magic layout) (of_nat (records_len recs)) (of_nat (length recs)) lsn stamp
     @ concat (map encode_into recs)"

definition frame_bytes :: "FrameLayout \<Rightarrow> Lsn \<Rightarrow> FrameStamp \<Rightarrow> RecordView list \<Rightarrow> bytes" where
  "frame_bytes layout lsn stamp recs =
     (let covered = covered_bytes layout lsn stamp recs in covered @ le_bytes 4 (crc32c covered))"

definition frame_padding :: "FrameLayout \<Rightarrow> RecordView list \<Rightarrow> bytes" where
  "frame_padding layout recs =
     replicate (unat (layout_padded_len layout (of_nat (records_len recs))) - records_len recs) 0"

definition wf_stamp :: "FrameStamp \<Rightarrow> Lsn \<Rightarrow> bool" where
  "wf_stamp stamp lsn \<longleftrightarrow> epoch stamp \<noteq> 0 \<and> seq stamp \<noteq> 0 \<and> covered_lsn stamp \<le> to_u64 lsn"

lemma with_capacity_holds [wf_intros]: "builder_holds (with_capacity at) []"
  by (simp add: builder_holds_def with_capacity_def)

lemma append_holds [wf_intros]:
  assumes "builder_holds fb recs"
  obtains fb' where "append fb r = Some fb'" and "builder_holds fb' (recs @ [r])"
  using assms by (auto simp: append_def builder_holds_def)

lemma reset_holds [wf_intros]:
  "fb_at fb \<le> length (fb_buf fb) \<Longrightarrow> builder_holds (reset fb) []"
  by (simp add: builder_holds_def reset_def)

lemma length_layout_magic [simp]: "length (layout_magic layout) = 4"
  by (cases layout) (simp_all add: FRAME_MAGIC_def FRAME_MAGIC_V3_def)

lemma length_header_bytes [simp]: "length magic = 4 \<Longrightarrow> length (header_bytes magic l c lsn st) = 40"
  by (simp add: header_bytes_def)

lemma length_frame_bytes [simp]: "length (frame_bytes layout lsn stamp recs) = records_len recs"
  by (simp add: frame_bytes_def covered_bytes_def records_len_def Let_def
      FRAME_HEADER_LEN_def FRAME_TRAILER_LEN_def)

lemma length_encode_into_min: "4 \<le> length (encode_into r)"
proof -
  have v: "1 \<le> length (encode_u64 x)" for x
    by (subst encode_u64.simps) (simp add: Let_def)
  have "3 \<le> length (record_head t ns)" for t ns
    using v by (simp add: record_head_def)
  then have "3 \<le> length (encode_body r)"
    by (cases r) (auto intro: trans_le_add1)
  then show ?thesis
    using v [of "of_nat (body_len r)"] by (simp add: encode_into_def)
qed

lemma length_concat_encode: "4 * length recs \<le> length (concat (map encode_into recs))"
proof (induction recs)
  case (Cons r recs)
  then show ?case using length_encode_into_min [of r] by simp
qed simp

lemma records_len_min: "44 + 4 * length recs \<le> records_len recs"
  using length_concat_encode [of recs]
  by (simp add: records_len_def FRAME_HEADER_LEN_def FRAME_TRAILER_LEN_def)

lemma checked_next_multiple_unat:
  assumes "checked_next_multiple n = Some m"
  shows "unat m = unat n + (if unat n mod FRAME_ALIGN = 0 then 0 else FRAME_ALIGN - unat n mod FRAME_ALIGN)"
proof -
  define k where "k = unat n + (FRAME_ALIGN - unat n mod FRAME_ALIGN)"
  have "k < 2 ^ 32 \<Longrightarrow> unat (of_nat k :: u32) = k"
    by (simp add: unat_of_nat take_bit_nat_eq_self)
  then show ?thesis using assms
    unfolding checked_next_multiple_def Let_def k_def [symmetric]
    by (auto simp: k_def split: if_splits)
qed

lemma checked_next_multiple_ge: "checked_next_multiple n = Some m \<Longrightarrow> n \<le> m"
  by (simp add: word_le_nat_alt checked_next_multiple_unat)

lemma layout_padded_len_ge: "n \<le> layout_padded_len layout n"
  by (cases layout) (auto simp: align_up_frame_def checked_next_multiple_ge split: option.splits)

lemma finalize_holds:
  assumes "builder_holds fb recs" and "recs \<noteq> []" and "records_len recs < 2 ^ 32" and "wf_stamp stamp lsn"
  obtains fb' where "finalize fb lsn stamp layout =
      Some (frame_bytes layout lsn stamp recs @ frame_padding layout recs, fb')"
    and "sealed_frame fb' = Some (frame_bytes layout lsn stamp recs @ frame_padding layout recs)"
    and "builder_holds (reset fb') []"
proof -
  let ?body = "concat (map encode_into recs)"
  let ?padded = "unat (layout_padded_len layout (of_nat (records_len recs)))"
  have lt: "length recs < 2 ^ 32"
    using records_len_min [of recs] assms(3) by simp
  then have rc: "fb_record_count fb \<noteq> 0"
    using assms(1,2) by (simp add: builder_holds_def word_unat_eq_iff unat_of_nat take_bit_nat_eq_self)
  have buf: "fb_buf fb = take (fb_at fb) (fb_buf fb) @ replicate FRAME_HEADER_LEN 0 @ ?body"
    using assms(1) by (metis append_take_drop_id builder_holds_def)
  have at: "length (take (fb_at fb) (fb_buf fb)) = fb_at fb"
    using assms(1) by (simp add: builder_holds_def)
  have flen: "builder_frame_len fb = Some (of_nat (records_len recs))"
  proof -
    have "length (fb_buf fb) - fb_at fb = FRAME_HEADER_LEN + length ?body"
      by (subst buf) (simp only: length_append at length_replicate diff_add_inverse)
    then show ?thesis using assms(3) by (simp add: builder_frame_len_def records_len_def Let_def)
  qed
  have body: "drop (fb_at fb + FRAME_HEADER_LEN) (fb_buf fb) = ?body"
    using assms(1) by (simp add: builder_holds_def add.commute [of "fb_at fb"] flip: drop_drop)
  have "records_len recs = unat (of_nat (records_len recs) :: u32)"
    using assms(3) by (simp add: unat_of_nat take_bit_nat_eq_self)
  also have "\<dots> \<le> ?padded"
    using layout_padded_len_ge by (simp add: word_le_nat_alt)
  finally have padded: "records_len recs \<le> ?padded" .
  let ?out = "frame_bytes layout lsn stamp recs @ frame_padding layout recs"
  let ?fb = "fb\<lparr>fb_buf := take (fb_at fb) (fb_buf fb) @ ?out, fb_sealed := True, fb_sealed_len := ?padded\<rparr>"
  have cov: "header_bytes (layout_magic layout) (of_nat (records_len recs)) (fb_record_count fb) lsn stamp
      @ ?body = covered_bytes layout lsn stamp recs"
    using assms(1) by (simp add: covered_bytes_def builder_holds_def)
  have res: "resize_zero (take (fb_at fb) (fb_buf fb) @ frame_bytes layout lsn stamp recs)
      (fb_at fb + ?padded) = take (fb_at fb) (fb_buf fb) @ ?out"
    using at padded by (simp add: resize_zero_def frame_padding_def)
  have fr: "covered_bytes layout lsn stamp recs @ le_bytes 4 (crc32c (covered_bytes layout lsn stamp recs))
      = frame_bytes layout lsn stamp recs"
    by (simp add: frame_bytes_def Let_def)
  have guards: "(fb_record_count fb = 0 \<or> fb_sealed fb \<or> epoch stamp = 0 \<or> seq stamp = 0
      \<or> covered_lsn stamp > to_u64 lsn) = False"
    using assms(1,4) rc by (auto simp: builder_holds_def wf_stamp_def)
  have "drop (fb_at fb) (take (fb_at fb) (fb_buf fb) @ ?out) = ?out"
    using at by simp
  then have "finalize fb lsn stamp layout = Some (?out, ?fb)"
    unfolding finalize_def
    by (simp only: guards flen body Let_def cov fr res if_False option.case)
  moreover have "sealed_frame ?fb = Some ?out"
    using at padded by (simp add: sealed_frame_def frame_padding_def)
  moreover have "builder_holds (reset ?fb) []"
    using at by (intro reset_holds) simp
  ultimately show thesis using that by blast
qed

section \<open>Decoding a sealed frame\<close>

lemma header_fields:
  fixes len cnt :: u32 and rest :: bytes
  assumes "length magic = 4"
  and "h = header_bytes magic len cnt lsn st @ rest"
  shows "take 4 h = magic" and "sub_slice h 4 8 = le_bytes 4 len" and "sub_slice h 8 12 = le_bytes 4 cnt"
    and "sub_slice h 12 16 = le_bytes 4 (segment lsn)" and "sub_slice h 16 20 = le_bytes 4 (offset lsn)"
    and "sub_slice h 20 24 = le_bytes 4 (epoch st)" and "sub_slice h 24 32 = le_bytes 8 (seq st)"
    and "sub_slice h 32 40 = le_bytes 8 (covered_lsn st)" and "drop 40 h = rest"
  using assms(1) unfolding assms(2) header_bytes_def
  by (simp_all add: sub_slice_def)

definition layout_shape :: "FrameLayout \<Rightarrow> FrameShape" where
  "layout_shape layout = \<lparr>sh_header_len = FRAME_HEADER_LEN, sh_min_frame_len = MIN_FRAME_LEN,
     sh_has_stamp = True, sh_layout = layout\<rparr>"

lemma frame_shape_layout [simp]: "frame_shape (layout_magic layout) = Ok (Some (layout_shape layout))"
  by (cases layout) (simp_all add: frame_shape_def layout_shape_def FRAME_MAGIC_def FRAME_MAGIC_V3_def)

definition frame_ref :: "FrameLayout \<Rightarrow> Lsn \<Rightarrow> FrameStamp \<Rightarrow> RecordView list \<Rightarrow> FrameRef" where
  "frame_ref layout lsn stamp recs = \<lparr>fr_first_lsn = lsn, fr_record_count = of_nat (length recs),
     fr_stamp = Some stamp, fr_layout = layout, fr_frame_len = of_nat (records_len recs),
     fr_body = concat (map encode_into recs)\<rparr>"

text \<open>What a writer guarantees of a frame before it seals it at \<open>lsn\<close> in a segment.\<close>

definition wf_frame :: "FrameLayout \<Rightarrow> Lsn \<Rightarrow> FrameStamp \<Rightarrow> RecordView list \<Rightarrow> bool" where
  "wf_frame layout lsn stamp recs \<longleftrightarrow>
     recs \<noteq> [] \<and> list_all wf_record recs \<and> wf_stamp stamp lsn \<and> records_len recs < 2 ^ 32 \<and>
     (case layout_extent layout (of_nat (records_len recs)) of
        None \<Rightarrow> False
      | Some extent \<Rightarrow> fits_segment (offset lsn) FRAME_HEADER_LEN extent)"

lemma decode_frame_bytes:
  assumes wf: "wf_frame layout lsn stamp recs" and max: "records_len recs \<le> unat max_len"
  shows "decode_frame (frame_bytes layout lsn stamp recs @ rest) max_len =
    Ok (frame_ref layout lsn stamp recs, records_len recs)"
proof -
  let ?len = "of_nat (records_len recs) :: u32" and ?body = "concat (map encode_into recs)"
  let ?covered = "covered_bytes layout lsn stamp recs"
  let ?tail = "le_bytes 4 (crc32c ?covered) :: bytes"
  have ulen: "unat ?len = records_len recs"
    using wf by (simp add: wf_frame_def unat_of_nat take_bit_nat_eq_self)
  have frame: "frame_bytes layout lsn stamp recs = header_bytes (layout_magic layout) ?len
      (of_nat (length recs)) lsn stamp @ ?body @ ?tail"
    by (simp add: frame_bytes_def covered_bytes_def Let_def)
  let ?frame = "frame_bytes layout lsn stamp recs"
  note fields = header_fields [OF length_layout_magic frame]
  obtain extent where ext: "layout_extent layout ?len = Some extent"
      and fits: "fits_segment (offset lsn) 40 extent"
    using wf by (auto simp: wf_frame_def FRAME_HEADER_LEN_def split: option.splits)
  have len48: "48 \<le> records_len recs"
    using records_len_min [of recs] wf by (cases recs) (auto simp: wf_frame_def)
  have cnt: "(of_nat (length recs) :: u32) \<noteq> 0"
    using wf records_len_min [of recs]
    by (simp add: wf_frame_def word_unat_eq_iff unat_of_nat take_bit_nat_eq_self)
  have split: "length (frame_bytes layout lsn stamp recs) - 4 = length ?covered"
    by (simp add: frame_bytes_def Let_def del: length_frame_bytes)
  have cov: "take (length ?covered) (frame_bytes layout lsn stamp recs) = ?covered"
      "drop (length ?covered) (frame_bytes layout lsn stamp recs) = ?tail"
    by (simp_all add: frame_bytes_def Let_def)
  have stamp: "decode_stamp True (frame_bytes layout lsn stamp recs) lsn = Ok (Some stamp)"
    using wf unfolding decode_stamp_def fields
    by (simp add: of_le_bytes_le_bytes wf_frame_def wf_stamp_def not_less)
  have checked: "decode_checked (layout_shape layout) ?len extent ?frame =
      Ok (frame_ref layout lsn stamp recs, records_len recs)"
    unfolding decode_checked_def FRAME_TRAILER_LEN_def split Let_def cov fields
    using cnt fits stamp ulen
    by (simp add: of_le_bytes_le_bytes layout_shape_def FRAME_HEADER_LEN_def
        frame_ref_def covered_bytes_def)
  have "take 4 (?frame @ rest) = layout_magic layout"
      and "sub_slice (?frame @ rest) 4 8 = le_bytes 4 ?len"
    using len48 fields(1,2) by (simp_all add: sub_slice_append_left)
  then show ?thesis
    using ext max len48 ulen checked
    by (simp add: decode_frame_def word_less_nat_alt layout_shape_def FRAME_HEADER_LEN_def
        MIN_FRAME_LEN_def of_le_bytes_le_bytes)
qed

section \<open>Iterating over the records\<close>

text \<open>The records of a frame with the LSN of each: the first one's plus the bytes before it.\<close>

fun with_lsns :: "Lsn \<Rightarrow> RecordView list \<Rightarrow> (Lsn \<times> RecordView) list" where
  "with_lsns lsn [] = []"
| "with_lsns lsn (r # recs) =
     (lsn, r) # with_lsns (Lsn (segment lsn) (offset lsn + of_nat (length (encode_into r)))) recs"

lemma record_items_encoded:
  assumes "list_all wf_record recs" and "length recs < 2 ^ 32" and "\<not> ri_failed it"
    and "ri_offset it \<le> length (ri_body it)"
    and "drop (ri_offset it) (ri_body it) = concat (map encode_into recs)"
    and "ri_remaining it = of_nat (length recs)"
    and "unat (offset (ri_next_lsn it)) + length (concat (map encode_into recs)) < 2 ^ 32"
  shows "record_items it = Some (map Ok (with_lsns (ri_next_lsn it) recs))"
  using assms
proof (induction recs arbitrary: it)
  case Nil
  then show ?case by (simp add: record_items.simps record_next_def)
next
  case (Cons r recs)
  let ?n = "length (encode_into r)"
  let ?lsn = "Lsn (segment (ri_next_lsn it)) (offset (ri_next_lsn it) + of_nat ?n)"
  let ?it = "it\<lparr>ri_offset := ri_offset it + ?n, ri_next_lsn := ?lsn, ri_remaining := ri_remaining it - 1\<rparr>"
  have dec: "decode_record (drop (ri_offset it) (ri_body it)) = Ok (r, ?n)"
    using Cons.prems by (simp add: decode_encode_record)
  have n: "unat (of_nat ?n :: u32) = ?n"
    using Cons.prems(7) by (simp add: unat_of_nat take_bit_nat_eq_self)
  have adv: "lsn_advance (ri_next_lsn it) (of_nat ?n) = Some ?lsn"
    using Cons.prems(7) by (simp add: lsn_advance_def n)
  have rem: "ri_remaining it \<noteq> 0"
    using Cons.prems(2,6) by (simp add: word_unat_eq_iff unat_of_nat take_bit_nat_eq_self del: of_nat_Suc)
  have more: "ri_offset it \<noteq> length (ri_body it)"
    using Cons.prems(5) length_encode_into_min [of r] by auto
  have bound: "ri_offset it + ?n \<le> length (ri_body it)"
    using Cons.prems(4) arg_cong [OF Cons.prems(5), of length] by simp
  have nxt: "record_next it = Some (Some (Ok (ri_next_lsn it, r)), ?it)"
    using Cons.prems(3) dec adv rem more by (simp add: record_next_def)
  have "record_items ?it = Some (map Ok (with_lsns (ri_next_lsn ?it) recs))"
  proof (rule Cons.IH)
    show "drop (ri_offset ?it) (ri_body ?it) = concat (map encode_into recs)"
      using arg_cong [OF Cons.prems(5), of "drop ?n"] by (simp add: add.commute)
    show "unat (offset (ri_next_lsn ?it)) + length (concat (map encode_into recs)) < 2 ^ 32"
      using Cons.prems(7) by (simp add: unat_plus_if' n)
  qed (use Cons.prems bound in auto)
  then show ?case by (simp add: record_items.simps [of it] nxt)
qed

text \<open>The bytes still to be read never reach past the \<open>u32\<close> offset ceiling.\<close>

definition iter_safe :: "RecordIter \<Rightarrow> bool" where
  "iter_safe it \<longleftrightarrow> ri_offset it \<le> length (ri_body it) \<and>
     unat (offset (ri_next_lsn it)) + (length (ri_body it) - ri_offset it) < 2 ^ 32"

lemma record_next_safe:
  assumes "iter_safe it"
  shows "\<exists>x it'. record_next it = Some (x, it') \<and> iter_safe it'"
proof (cases "ri_failed it \<or> ri_remaining it = 0 \<or> ri_offset it = length (ri_body it)")
  case True
  with assms show ?thesis
    by (auto simp: record_next_def iter_safe_def split: if_splits)
next
  case False
  show ?thesis
  proof (cases "decode_record (drop (ri_offset it) (ri_body it))")
    case (Inl err)
    with False assms show ?thesis
      by (auto simp: record_next_def iter_safe_def)
  next
    case (Inr rn)
    obtain r n where rn: "rn = (r, n)" by (cases rn)
    have n: "n \<le> length (ri_body it) - ri_offset it"
      using encode_decode_record(2) Inr rn by fastforce
    then have un: "unat (of_nat n :: u32) = n"
      using assms by (simp add: iter_safe_def unat_of_nat take_bit_nat_eq_self)
    have "unat (offset (ri_next_lsn it)) + n < 2 ^ 32"
      using assms n by (simp add: iter_safe_def)
    with un n assms Inr rn False show ?thesis
      by (auto simp: record_next_def lsn_advance_def iter_safe_def unat_plus_if')
  qed
qed

lemma record_items_safe: "iter_safe it \<Longrightarrow> record_items it \<noteq> None"
proof (induction it rule: record_items.induct)
  case (1 it)
  obtain x it' where "record_next it = Some (x, it')" and "iter_safe it'"
    using record_next_safe [OF "1.prems"] by blast
  then show ?case using "1.IH" by (cases x) (simp_all add: record_items.simps [of it])
qed

section \<open>What an accepted frame guarantees\<close>

lemma frame_shape_Some:
  assumes "frame_shape magic = Ok (Some shape)"
  shows "sh_header_len shape = frame_header_len (sh_has_stamp shape)"
    and "sh_min_frame_len shape = sh_header_len shape + 8" and "magic \<noteq> [0, 0, 0, 0]"
  using assms
  by (auto simp: frame_shape_def frame_header_len_def FRAME_HEADER_LEN_def FRAME_HEADER_LEN_V1_def
      MIN_FRAME_LEN_def MIN_FRAME_LEN_V1_def split: if_splits)

lemma decode_stamp_Ok:
  assumes "decode_stamp has frame lsn = Ok st"
  shows "(st \<noteq> None) = has" and "\<And>x. st = Some x \<Longrightarrow> wf_stamp x lsn"
  using assms by (auto simp: decode_stamp_def Let_def wf_stamp_def split: if_splits)

lemma layout_extent_Some: "layout_extent layout n = Some e \<Longrightarrow> layout_padded_len layout n = e"
  by (cases layout) (simp_all add: align_up_frame_def)

lemma decode_checked_Ok:
  assumes "decode_checked shape len extent frame = Ok (f, n)"
  shows "crc_sealed frame \<and> n = unat len \<and> fr_frame_len f = len \<and> fr_layout f = sh_layout shape \<and>
    fr_record_count f \<noteq> 0 \<and> (fr_stamp f \<noteq> None) = sh_has_stamp shape \<and>
    (\<forall>st. fr_stamp f = Some st \<longrightarrow> wf_stamp st (fr_first_lsn f)) \<and>
    fits_segment (offset (fr_first_lsn f)) (sh_header_len shape) extent \<and>
    fr_body f = drop (sh_header_len shape) (take (length frame - 4) frame)"
  using assms
  by (auto simp: decode_checked_def crc_sealed_def Let_def rbind_Ok FRAME_TRAILER_LEN_def
      dest: decode_stamp_Ok split: if_splits)

lemma decode_frame_Ok:
  assumes "decode_frame buf max_len = Ok (f, n)"
  shows "n = unat (fr_frame_len f) \<and> n \<le> length buf \<and> fr_frame_len f \<le> max_len \<and>
    crc_sealed (take n buf) \<and> fr_record_count f \<noteq> 0 \<and>
    (\<forall>st. fr_stamp f = Some st \<longrightarrow> wf_stamp st (fr_first_lsn f)) \<and>
    fits_segment (offset (fr_first_lsn f)) (fr_header_len f) (fr_padded_len f) \<and>
    length (fr_body f) + fr_header_len f + 4 = n"
proof -
  from assms obtain shape extent where sh: "frame_shape (take 4 buf) = Ok (Some shape)"
      and len: "sh_min_frame_len shape \<le> unat (of_le_bytes (sub_slice buf 4 8) :: u32)"
        "(of_le_bytes (sub_slice buf 4 8) :: u32) \<le> max_len"
        "unat (of_le_bytes (sub_slice buf 4 8) :: u32) \<le> length buf"
      and ext: "layout_extent (sh_layout shape) (of_le_bytes (sub_slice buf 4 8)) = Some extent"
      and chk: "decode_checked shape (of_le_bytes (sub_slice buf 4 8)) extent
        (take (unat (of_le_bytes (sub_slice buf 4 8) :: u32)) buf) = Ok (f, n)"
    by (auto simp: decode_frame_def rbind_Ok Let_def not_less split: if_splits option.splits)
  show ?thesis
    using decode_checked_Ok [OF chk] frame_shape_Some [OF sh] len layout_extent_Some [OF ext]
    by (auto simp: fr_header_len_def fr_padded_len_def)
qed

lemma decode_frame_iter_safe:
  assumes "decode_frame buf max_len = Ok (f, n)"
  shows "iter_safe (records f)"
proof -
  have "fr_frame_len f \<le> fr_padded_len f"
    by (simp add: fr_padded_len_def layout_padded_len_ge)
  then show ?thesis
    using decode_frame_Ok [OF assms]
    by (auto simp: iter_safe_def records_def fits_segment_def word_le_nat_alt)
qed

section \<open>Iterating over a segment image\<close>

type_synonym frame_spec = "FrameLayout \<times> Lsn \<times> FrameStamp \<times> RecordView list"

definition spec_bytes :: "frame_spec \<Rightarrow> bytes" where
  "spec_bytes = (\<lambda>(layout, lsn, stamp, recs). frame_bytes layout lsn stamp recs @ frame_padding layout recs)"

definition spec_ref :: "frame_spec \<Rightarrow> FrameRef" where
  "spec_ref = (\<lambda>(layout, lsn, stamp, recs). frame_ref layout lsn stamp recs)"

definition spec_ok :: "u32 \<Rightarrow> frame_spec \<Rightarrow> bool" where
  "spec_ok max_len = (\<lambda>(layout, lsn, stamp, recs).
     wf_frame layout lsn stamp recs \<and> records_len recs \<le> unat max_len)"

fun spec_items :: "nat \<Rightarrow> frame_spec list \<Rightarrow> (nat \<times> FrameRef) list" where
  "spec_items at [] = []"
| "spec_items at (s # ss) = (at, spec_ref s) # spec_items (at + length (spec_bytes s)) ss"

lemma decode_spec:
  assumes "spec_ok max_len s"
  shows "\<exists>n. decode_frame (spec_bytes s @ rest) max_len = Ok (spec_ref s, n)"
    and "unat (fr_padded_len (spec_ref s)) = length (spec_bytes s)" and "spec_bytes s \<noteq> []"
proof -
  obtain layout lsn stamp recs where s: "s = (layout, lsn, stamp, recs)" by (cases s)
  show "\<exists>n. decode_frame (spec_bytes s @ rest) max_len = Ok (spec_ref s, n)"
    using assms by (simp add: s spec_ok_def spec_bytes_def spec_ref_def decode_frame_bytes)
  have "records_len recs = unat (of_nat (records_len recs) :: u32)"
    using assms by (simp add: s spec_ok_def wf_frame_def unat_of_nat take_bit_nat_eq_self)
  moreover have "\<dots> \<le> unat (layout_padded_len layout (of_nat (records_len recs)))"
    using layout_padded_len_ge word_le_nat_alt by blast
  ultimately show "unat (fr_padded_len (spec_ref s)) = length (spec_bytes s)"
    by (simp add: s spec_ref_def frame_ref_def fr_padded_len_def spec_bytes_def frame_padding_def)
  show "spec_bytes s \<noteq> []"
    using records_len_min [of recs] by (simp add: s spec_bytes_def flip: length_greater_0_conv)
qed

lemma decode_frame_zeros: "decode_frame (replicate n 0) max_len = Err ZeroMagic"
  by (simp add: decode_frame_def list_all_iff frame_shape_def numeral_eq_Suc min_def)

lemma frame_items_specs:
  assumes "list_all (spec_ok max_len) specs" and "\<not> fi_done it" and "fi_max_frame_len it = max_len"
    and "fi_buf it = pre @ concat (map spec_bytes specs) @ replicate zeros 0"
    and "fi_offset it = length pre" and "length (fi_buf it) < 2 ^ 64" and "length specs < fuel"
  shows "frame_items fuel it = Some (map Ok (spec_items (length pre) specs))"
  using assms
proof (induction specs arbitrary: it pre fuel)
  case Nil
  then show ?case
    by (cases fuel) (simp_all add: frame_next_def decode_frame_zeros)
next
  case (Cons s specs)
  obtain fuel' where fuel: "fuel = Suc fuel'" using Cons.prems(7) by (cases fuel) auto
  obtain n where dec: "decode_frame (spec_bytes s @ concat (map spec_bytes specs) @ replicate zeros 0) max_len
      = Ok (spec_ref s, n)"
    using decode_spec(1) Cons.prems(1) by fastforce
  have "spec_ok max_len s" using Cons.prems(1) by simp
  note len = decode_spec(2) [OF this] and ne = decode_spec(3) [OF this]
  let ?it = "it\<lparr>fi_offset := length (pre @ spec_bytes s)\<rparr>"
  have "saturating_add_usize (length pre) (length (spec_bytes s)) = length (pre @ spec_bytes s)"
    using Cons.prems(4,6) by (simp add: saturating_add_usize_def)
  then have nxt: "frame_next it = (Some (Ok (length pre, spec_ref s)), ?it)"
    using Cons.prems dec len ne by (simp add: frame_next_def)
  have "frame_items fuel' ?it = Some (map Ok (spec_items (length (pre @ spec_bytes s)) specs))"
    by (rule Cons.IH) (use Cons.prems fuel in simp_all)
  then show ?case by (simp add: fuel nxt)
qed

section \<open>Properties\<close>

text \<open>Appending a batch, as the owner of the builder does between two seals.\<close>

fun append_all :: "FrameBuilder \<Rightarrow> RecordView list \<Rightarrow> FrameBuilder option" where
  "append_all fb [] = Some fb"
| "append_all fb (r # rs) = Option.bind (append fb r) (\<lambda>fb'. append_all fb' rs)"

lemma append_all_holds:
  assumes "builder_holds fb recs"
  shows "\<exists>fb'. append_all fb rs = Some fb' \<and> builder_holds fb' (recs @ rs)"
  using assms
proof (induction rs arbitrary: fb recs)
  case (Cons r rs)
  obtain fb1 where "append fb r = Some fb1" and "builder_holds fb1 (recs @ [r])"
    using append_holds [OF Cons.prems] .
  then show ?case using Cons.IH [of fb1 "recs @ [r]"] by simp
qed simp

text \<open>
  C1: a batch of records appended to an empty builder and sealed decodes, whatever bytes follow it,
  to the same stamp, layout and first LSN, and its record iterator yields exactly the appended
  records, each at the LSN of the first plus the encoded bytes before it, and then stops without an
  error. The sealed bytes are the extent the decoder reports, and after \<open>reset\<close> the builder is
  empty again.
\<close>

theorem sealed_frame_decodes:
  assumes "builder_holds fb []" and "wf_frame layout lsn stamp recs" and "records_len recs \<le> unat max_len"
  shows "\<exists>fb1 out fb2 f n. append_all fb recs = Some fb1 \<and>
    finalize fb1 lsn stamp layout = Some (out, fb2) \<and> sealed_frame fb2 = Some out \<and>
    decode_frame (out @ rest) max_len = Ok (f, n) \<and> length out = unat (fr_padded_len f) \<and>
    fr_first_lsn f = lsn \<and> fr_stamp f = Some stamp \<and> fr_layout f = layout \<and>
    record_items (records f) = Some (map Ok (with_lsns lsn recs)) \<and> builder_holds (reset fb2) []"
proof -
  obtain fb1 where app: "append_all fb recs = Some fb1" and h: "builder_holds fb1 recs"
    using append_all_holds [OF assms(1), of recs] by auto
  let ?out = "frame_bytes layout lsn stamp recs @ frame_padding layout recs"
  let ?f = "frame_ref layout lsn stamp recs"
  obtain fb2 where fin: "finalize fb1 lsn stamp layout = Some (?out, fb2)" "sealed_frame fb2 = Some ?out"
      "builder_holds (reset fb2) []"
    using finalize_holds [OF h, where stamp = stamp and lsn = lsn and layout = layout] assms(2)
    by (auto simp: wf_frame_def)
  have dec: "decode_frame (?out @ rest) max_len = Ok (?f, records_len recs)"
    using decode_frame_bytes [OF assms(2,3)] by simp
  have len: "length ?out = unat (fr_padded_len ?f)"
    using decode_spec(2) [of max_len "(layout, lsn, stamp, recs)"] assms(2,3)
    by (simp add: spec_ok_def spec_ref_def spec_bytes_def)
  have "iter_safe (records ?f)"
    using decode_frame_iter_safe [OF dec] .
  then have "record_items (records ?f) = Some (map Ok (with_lsns (ri_next_lsn (records ?f)) recs))"
    using assms(2) records_len_min [of recs]
    by (intro record_items_encoded) (simp_all add: records_def frame_ref_def wf_frame_def iter_safe_def)
  then show ?thesis
    using app fin dec len by (intro exI conjI) (assumption | simp add: frame_ref_def records_def)+
qed

theorem sealed_frame_decodes_witness:
  "\<exists>fb1 out fb2 f n. append_all (with_capacity 16) [Delete 3 [0x6B], Delete 3 [0x6C]] = Some fb1 \<and>
    finalize fb1 (Lsn 1 40) \<lparr>epoch = 1, seq = 1, covered_lsn = 0\<rparr> Aligned = Some (out, fb2) \<and>
    sealed_frame fb2 = Some out \<and>
    decode_frame (out @ [7]) DEFAULT_MAX_FRAME_LEN = Ok (f, n) \<and> length out = unat (fr_padded_len f) \<and>
    fr_first_lsn f = Lsn 1 40 \<and> fr_stamp f = Some \<lparr>epoch = 1, seq = 1, covered_lsn = 0\<rparr> \<and>
    fr_layout f = Aligned \<and>
    record_items (records f) = Some (map Ok (with_lsns (Lsn 1 40) [Delete 3 [0x6B], Delete 3 [0x6C]])) \<and>
    builder_holds (reset fb2) []"
proof (rule sealed_frame_decodes [OF with_capacity_holds])
  have len: "records_len [Delete 3 [0x6B], Delete 3 [0x6C]] = 54"
    by (simp add: records_len_def encode_into_def record_head_def varint_len_encode encode_u64.simps
        FRAME_HEADER_LEN_def FRAME_TRAILER_LEN_def)
  show "wf_frame Aligned (Lsn 1 40) \<lparr>epoch = 1, seq = 1, covered_lsn = 0\<rparr> [Delete 3 [0x6B], Delete 3 [0x6C]]"
    by (simp add: wf_frame_def len wf_stamp_def checked_next_multiple_def FRAME_ALIGN_def
        fits_segment_def FRAME_HEADER_LEN_def)
  show "records_len [Delete 3 [0x6B], Delete 3 [0x6C]] \<le> unat DEFAULT_MAX_FRAME_LEN"
    by (simp add: len DEFAULT_MAX_FRAME_LEN_def)
qed

text \<open>
  C2: whatever bytes \<open>decode_frame\<close> accepts, walking the records of the frame never panics and ends;
  the frame base \<open>first_lsn.offset - header_len\<close> does not underflow, the address of the successor
  frame fits a \<open>u32\<close>, the frame has at least one record, and a stamp never attests past it.
\<close>

theorem accepted_frame_safe:
  assumes "decode_frame buf max_len = Ok (f, n)"
  shows "(\<exists>items. record_items (records f) = Some items) \<and> n \<le> length buf \<and> n \<le> unat max_len \<and>
    fr_header_len f \<le> unat (offset (fr_first_lsn f)) \<and>
    unat (offset (fr_first_lsn f)) - fr_header_len f + unat (fr_padded_len f) < 2 ^ 32 \<and>
    fr_record_count f \<noteq> 0 \<and> (\<forall>st. fr_stamp f = Some st \<longrightarrow> wf_stamp st (fr_first_lsn f))"
  using record_items_safe [OF decode_frame_iter_safe [OF assms]] decode_frame_Ok [OF assms]
  by (auto simp: fits_segment_def word_le_nat_alt)

definition tiny_frame :: bytes where
  "tiny_frame = frame_bytes Packed (Lsn 2 40) \<lparr>epoch = 1, seq = 1, covered_lsn = 0\<rparr> [Delete 3 [0x6B]]"

lemma tiny_frame_wf:
  "wf_frame Packed (Lsn 2 40) \<lparr>epoch = 1, seq = 1, covered_lsn = 0\<rparr> [Delete 3 [0x6B]]"
  "records_len [Delete 3 [0x6B]] = 49"
proof -
  show len: "records_len [Delete 3 [0x6B]] = 49"
    by (simp add: records_len_def encode_into_def record_head_def varint_len_encode encode_u64.simps
        FRAME_HEADER_LEN_def FRAME_TRAILER_LEN_def)
  show "wf_frame Packed (Lsn 2 40) \<lparr>epoch = 1, seq = 1, covered_lsn = 0\<rparr> [Delete 3 [0x6B]]"
    by (simp add: wf_frame_def len wf_stamp_def fits_segment_def FRAME_HEADER_LEN_def)
qed

theorem accepted_frame_safe_witness:
  "\<exists>f n items. decode_frame (tiny_frame @ [1, 2]) 64 = Ok (f, n) \<and> record_items (records f) = Some items"
proof -
  have "decode_frame (tiny_frame @ [1, 2]) 64 =
      Ok (frame_ref Packed (Lsn 2 40) \<lparr>epoch = 1, seq = 1, covered_lsn = 0\<rparr> [Delete 3 [0x6B]], 49)"
    unfolding tiny_frame_def using tiny_frame_wf by (simp add: decode_frame_bytes)
  then show ?thesis using accepted_frame_safe by blast
qed

text \<open>
  C3: damage to a sealed frame that is confined to four consecutive bytes after the magic and the
  length field is never accepted: the decoder reports a checksum mismatch, also when the damage
  reaches into the stored checksum.
\<close>

theorem frame_burst_detected:
  assumes "wf_frame layout lsn stamp recs" and "records_len recs \<le> unat max_len"
    and "frame_bytes layout lsn stamp recs = pre @ xs @ post" and "8 \<le> length pre"
    and "length ys = length xs" and "length xs \<le> 4" and "ys \<noteq> xs"
  shows "\<exists>stored computed. decode_frame (pre @ ys @ post @ rest) max_len = Err (CrcMismatch stored computed)"
proof -
  let ?frame = "frame_bytes layout lsn stamp recs" and ?bad = "pre @ ys @ post"
  let ?len = "of_nat (records_len recs) :: u32"
  have frame: "?frame = header_bytes (layout_magic layout) ?len (of_nat (length recs)) lsn stamp @
      concat (map encode_into recs) @ le_bytes 4 (crc32c (covered_bytes layout lsn stamp recs))"
    by (simp add: frame_bytes_def covered_bytes_def Let_def)
  have ulen: "unat ?len = records_len recs"
    using assms(1) by (simp add: wf_frame_def unat_of_nat take_bit_nat_eq_self)
  have len48: "48 \<le> records_len recs"
    using records_len_min [of recs] assms(1) by (cases recs) (auto simp: wf_frame_def)
  have bad: "length ?bad = records_len recs"
    using length_frame_bytes [of layout lsn stamp recs] assms(3,5) by simp
  have "take 4 (?bad @ rest) = take 4 ?frame" and slice: "sub_slice (?bad @ rest) 4 8 = sub_slice ?frame 4 8"
    using assms(4) by (simp_all add: assms(3) sub_slice_append_left)
  then have magic: "take 4 (?bad @ rest) = layout_magic layout"
    using header_fields(1) [OF length_layout_magic frame] by simp
  have lenf: "of_le_bytes (sub_slice (?bad @ rest) 4 8) = ?len"
    using header_fields(2) [OF length_layout_magic frame] by (simp only: slice) (simp add: of_le_bytes_le_bytes)
  have "crc_sealed ?frame"
    using decode_frame_Ok [OF decode_frame_bytes [OF assms(1,2), of "[]"]] by simp
  then have "crc_sealed (pre @ xs @ post)" by (simp only: assms(3))
  then have nseal: "\<not> crc_sealed ?bad"
    by (rule crc_sealed_burst) (use assms(5-7) len48 bad in simp_all)
  obtain extent where "layout_extent layout ?len = Some extent"
    using assms(1) by (auto simp: wf_frame_def split: option.splits)
  moreover have "\<exists>s c. decode_checked (layout_shape layout) ?len extent ?bad = Err (CrcMismatch s c)"
    using nseal by (simp add: decode_checked_def crc_sealed_def Let_def FRAME_TRAILER_LEN_def)
  ultimately show ?thesis
    using magic lenf bad ulen len48 assms(2)
    by (simp add: decode_frame_def layout_shape_def FRAME_HEADER_LEN_def MIN_FRAME_LEN_def
        word_less_nat_alt)
qed

theorem frame_burst_detected_witness:
  "\<exists>stored computed. decode_frame (take 20 tiny_frame @ [0, 1] @ drop 22 tiny_frame @ [9]) 64
     = Err (CrcMismatch stored computed)"
proof -
  let ?st = "\<lparr>epoch = 1, seq = 1, covered_lsn = 0\<rparr>"
  let ?pre = "take 20 tiny_frame" and ?post = "drop 22 tiny_frame"
  have xs: "take 2 (drop 20 tiny_frame) = [1, 0]"
    by (simp add: tiny_frame_def frame_bytes_def covered_bytes_def header_bytes_def FRAME_MAGIC_def
        Let_def numeral_eq_Suc)
  have "take 2 (drop 20 tiny_frame) @ ?post = drop 20 tiny_frame"
    using append_take_drop_id [of 2 "drop 20 tiny_frame"] by simp
  then have split: "tiny_frame = ?pre @ [1, 0] @ ?post"
    unfolding xs by (metis append_take_drop_id)
  show ?thesis
  proof (rule frame_burst_detected [OF tiny_frame_wf(1)])
    show "frame_bytes Packed (Lsn 2 40) ?st [Delete 3 [0x6B]] = ?pre @ [1, 0] @ ?post"
      unfolding tiny_frame_def [symmetric] by (rule split)
    show "8 \<le> length ?pre" by (simp add: tiny_frame_def tiny_frame_wf)
  qed (simp_all add: tiny_frame_wf)
qed

text \<open>
  C4: iterating over a segment image made of sealed frames of either layout, followed by any number of
  preallocated zero bytes, yields every frame at its byte offset, in order, and ends cleanly.
\<close>

theorem segment_image_frames:
  assumes "list_all (spec_ok max_len) specs" and "length specs < fuel"
    and "length (concat (map spec_bytes specs)) + zeros < 2 ^ 64"
  shows "frame_items fuel (frame_iter_new (concat (map spec_bytes specs) @ replicate zeros 0) max_len) =
    Some (map Ok (spec_items 0 specs))"
  using frame_items_specs [OF assms(1), where pre = "[]" and zeros = zeros and fuel = fuel and
      it = "frame_iter_new (concat (map spec_bytes specs) @ replicate zeros 0) max_len"] assms(2,3)
  by (simp add: frame_iter_new_def)

theorem segment_image_frames_witness:
  "frame_items 3 (frame_iter_new (tiny_frame @ tiny_frame @ replicate 100 0) 64) =
   Some [Ok (0, spec_ref (Packed, Lsn 2 40, \<lparr>epoch = 1, seq = 1, covered_lsn = 0\<rparr>, [Delete 3 [0x6B]])),
         Ok (49, spec_ref (Packed, Lsn 2 40, \<lparr>epoch = 1, seq = 1, covered_lsn = 0\<rparr>, [Delete 3 [0x6B]]))]"
proof -
  let ?s = "(Packed, Lsn 2 40, \<lparr>epoch = 1, seq = 1, covered_lsn = 0\<rparr>, [Delete 3 [0x6B]])"
  have b: "spec_bytes ?s = tiny_frame"
    by (simp add: spec_bytes_def tiny_frame_def frame_padding_def tiny_frame_wf)
  have len: "length tiny_frame = 49" by (simp add: tiny_frame_def tiny_frame_wf)
  have ok: "spec_ok 64 ?s"
    using tiny_frame_wf by (simp add: spec_ok_def)
  show ?thesis
    using segment_image_frames [of 64 "[?s, ?s]" 3 100] by (simp add: b ok len)
qed

end
