(* ===== verification/Fifo.thy ===== *)
theory Fifo
  imports Prelude
begin

text \<open>
  The contract of the bounded first-in first-out queues of the source: a provider accepts a value
  while it has room and hands it back otherwise, and takes values out in batches from the front.
  \<open>fifo_run\<close> executes a sequence of calls against a provider; the locale \<open>bounded_fifo\<close> states the laws
  of one call and proves that every sequence of calls answers as the bounded list queue does.
\<close>

type_synonym usize = u64

datatype 'a fifo_op = Put 'a | Get usize
datatype 'a fifo_out = Accepted | Refused 'a | Got "'a list"

fun fifo_run :: "('a \<Rightarrow> 's \<Rightarrow> ('a + unit) \<times> 's) \<Rightarrow> (usize \<Rightarrow> 's \<Rightarrow> 'a list \<times> 's) \<Rightarrow>
    'a fifo_op list \<Rightarrow> 's \<Rightarrow> 'a fifo_out list \<times> 's" where
  "fifo_run put get [] s = ([], s)"
| "fifo_run put get (Put v # ops) s =
     (let (r, s1) = put v s; (outs, s2) = fifo_run put get ops s1
      in ((case r of Inl w \<Rightarrow> Refused w | Inr _ \<Rightarrow> Accepted) # outs, s2))"
| "fifo_run put get (Get n # ops) s =
     (let (vs, s1) = get n s; (outs, s2) = fifo_run put get ops s1 in (Got vs # outs, s2))"

text \<open>The abstract queue: a list and a bound on its length.\<close>

definition list_put :: "nat \<Rightarrow> 'a \<Rightarrow> 'a list \<Rightarrow> ('a + unit) \<times> 'a list" where
  "list_put bound v xs = (if length xs < bound then (Ok (), xs @ [v]) else (Err v, xs))"

definition list_get :: "usize \<Rightarrow> 'a list \<Rightarrow> 'a list \<times> 'a list" where
  "list_get n xs = (take (unat n) xs, drop (unat n) xs)"

locale bounded_fifo =
  fixes invar :: "'s \<Rightarrow> bool" and items :: "'s \<Rightarrow> 'a list" and room :: "'s \<Rightarrow> nat"
    and put :: "'a \<Rightarrow> 's \<Rightarrow> ('a + unit) \<times> 's" and get :: "usize \<Rightarrow> 's \<Rightarrow> 'a list \<times> 's"
  assumes put_law: "\<And>s v r s'. invar s \<Longrightarrow> put v s = (r, s') \<Longrightarrow>
      invar s' \<and> room s' = room s \<and> (r, items s') = list_put (room s) v (items s)"
    and get_law: "\<And>s n vs s'. invar s \<Longrightarrow> get n s = (vs, s') \<Longrightarrow>
      invar s' \<and> room s' = room s \<and> (vs, items s') = list_get n (items s)"
begin

lemma run_refines:
  assumes "invar s" and "fifo_run put get ops s = (outs, s')"
  shows "invar s' \<and> room s' = room s \<and>
    fifo_run (list_put (room s)) list_get ops (items s) = (outs, items s')"
  using assms
proof (induction ops arbitrary: s outs s')
  case Nil
  then show ?case by simp
next
  case (Cons op ops)
  show ?case
  proof (cases op)
    case (Put v)
    obtain r s1 where 1: "put v s = (r, s1)" by fastforce
    obtain outs2 s2 where 2: "fifo_run put get ops s1 = (outs2, s2)" by fastforce
    note law = put_law [OF Cons.prems(1) 1]
    note IH = Cons.IH [OF _ 2]
    show ?thesis
      using Cons.prems(2) law IH by (auto simp: Put 1 2 split: prod.splits)
  next
    case (Get n)
    obtain vs s1 where 1: "get n s = (vs, s1)" by fastforce
    obtain outs2 s2 where 2: "fifo_run put get ops s1 = (outs2, s2)" by fastforce
    note law = get_law [OF Cons.prems(1) 1]
    note IH = Cons.IH [OF _ 2]
    show ?thesis
      using Cons.prems(2) law IH by (auto simp: Get 1 2 split: prod.splits)
  qed
qed

text \<open>What comes out, in order, is a prefix of what was accepted.\<close>

lemma items_bounded:
  assumes "invar s" and "length (items s) \<le> room s" and "fifo_run put get ops s = (outs, s')"
  shows "length (items s') \<le> room s"
proof -
  have "fifo_run (list_put b) list_get ops xs = (outs', ys) \<Longrightarrow> length xs \<le> b \<Longrightarrow> length ys \<le> b"
    for b and xs ys :: "'a list" and outs'
  proof (induction ops arbitrary: xs outs')
    case (Cons op ops)
    then show ?case
      by (cases op) (auto simp: list_put_def list_get_def Let_def split: prod.splits if_splits)
  qed simp
  then show ?thesis using run_refines [OF assms(1,3)] assms(2) by blast
qed

end

end
