(* ===== verification/SpscRing.thy ===== *)
theory SpscRing
  imports Fifo
begin

text \<open>
  \<^verbatim>\<open>crates/inf-fabric/src/ring.rs\<close>: the single-producer single-consumer ring between two cells. The
  shared words \<open>head\<close> and \<open>tail\<close>, the slots, and both handles' local indices and caches are one
  state; indices are free-running \<open>usize\<close> words that wrap. Every access to shared memory is one
  operation (\<open>free_slots\<close> and \<open>refresh_tail\<close> read one shared index, \<open>write_slot\<close> and \<open>read_slot\<close> touch
  one slot, \<open>publish\<close> and \<open>release\<close> store one index), the methods are compositions of them, and the
  concurrent behaviour is the step relation \<open>ring_step\<close> that interleaves them, the
  release/acquire pairs of the source being read as one order of these accesses.

  A slot is an option: \<open>None\<close> is \<open>MaybeUninit::uninit\<close> or moved out. Reading a vacant slot or
  overwriting a live one sets the flag \<open>ub\<close>, which the safety contracts of \<open>read_slot\<close> and \<open>write_slot\<close>
  exclude. The theory proves that no interleaving sets it and that the consumer receives exactly
  the published values in order.
\<close>

section \<open>Model: shared state and handles\<close>

record 'a ring_state =
  rs_head :: usize
  rs_tail :: usize
  rs_mask :: usize
  rs_slots :: "'a option list"
  p_tail :: usize
  p_head_cache :: usize
  c_head :: usize
  c_tail_cache :: usize
  ub :: bool

definition is_power_of_two :: "usize \<Rightarrow> bool" where
  "is_power_of_two n \<longleftrightarrow> n \<noteq> 0 \<and> n AND (n - 1) = 0"

definition ring :: "usize \<Rightarrow> 'a ring_state option" where
  "ring capacity =
     (if is_power_of_two capacity then
        Some \<lparr>rs_head = 0, rs_tail = 0, rs_mask = capacity - 1, rs_slots = replicate (unat capacity) None,
          p_tail = 0, p_head_cache = 0, c_head = 0, c_tail_cache = 0, ub = False\<rparr>
      else None)"

definition capacity :: "'a ring_state \<Rightarrow> usize" where
  "capacity s = rs_mask s + 1"

subsection \<open>The producer\<close>

definition free_slots :: "usize \<Rightarrow> 'a ring_state \<Rightarrow> usize \<times> 'a ring_state" where
  "free_slots want s =
     (let cap = rs_mask s + 1; free = cap - (p_tail s - p_head_cache s)
      in if free \<ge> want then (free, s)
         else let s' = s\<lparr>p_head_cache := rs_head s\<rparr> in (cap - (p_tail s' - p_head_cache s'), s'))"

definition write_slot :: "usize \<Rightarrow> 'a \<Rightarrow> 'a ring_state \<Rightarrow> 'a ring_state" where
  "write_slot index val s =
     (let i = unat (index AND rs_mask s)
      in s\<lparr>rs_slots := (rs_slots s)[i := Some val], ub := (ub s \<or> rs_slots s ! i \<noteq> None)\<rparr>)"

definition publish :: "usize \<Rightarrow> 'a ring_state \<Rightarrow> 'a ring_state" where
  "publish n s = s\<lparr>p_tail := p_tail s + n, rs_tail := p_tail s + n\<rparr>"

definition try_push :: "'a \<Rightarrow> 'a ring_state \<Rightarrow> ('a + unit) \<times> 'a ring_state" where
  "try_push val s =
     (let (free, s') = free_slots 1 s
      in if free = 0 then (Err val, s') else (Ok (), publish 1 (write_slot (p_tail s') val s')))"

text \<open>The loop of \<open>publish_batch\<close>: the count so far, the items left in the iterator.\<close>

fun batch_loop :: "usize \<Rightarrow> usize \<Rightarrow> 'a list \<Rightarrow> 'a ring_state \<Rightarrow> usize \<times> 'a list \<times> 'a ring_state" where
  "batch_loop free n [] s = (n, [], s)"
| "batch_loop free n (val # it) s =
     (if n < free then batch_loop free (n + 1) it (write_slot (p_tail s + n) val s)
      else (n, val # it, s))"

definition publish_batch :: "'a list \<Rightarrow> 'a ring_state \<Rightarrow> usize \<times> 'a list \<times> 'a ring_state" where
  "publish_batch it s =
     (let (free, s1) = free_slots (- 1) s; (n, rest, s2) = batch_loop free 0 it s1
      in (n, rest, if n > 0 then publish n s2 else s2))"

subsection \<open>The consumer\<close>

definition refresh_tail :: "usize \<Rightarrow> 'a ring_state \<Rightarrow> usize \<times> 'a ring_state" where
  "refresh_tail max_items s =
     (let available = c_tail_cache s - c_head s
      in if available < max_items then
           let s' = s\<lparr>c_tail_cache := rs_tail s\<rparr> in (c_tail_cache s' - c_head s', s')
         else (available, s))"

text \<open>\<open>read_slot\<close> and the advance of the local \<open>head\<close> past it.\<close>

definition read_slot :: "'a ring_state \<Rightarrow> 'a option \<times> 'a ring_state" where
  "read_slot s =
     (let i = unat (c_head s AND rs_mask s)
      in (rs_slots s ! i,
          s\<lparr>rs_slots := (rs_slots s)[i := None], c_head := c_head s + 1, ub := (ub s \<or> rs_slots s ! i = None)\<rparr>))"

text \<open>\<open>AdvanceGuard::drop\<close>.\<close>

definition release :: "'a ring_state \<Rightarrow> 'a ring_state" where
  "release s = s\<lparr>rs_head := c_head s\<rparr>"

fun drain_loop :: "nat \<Rightarrow> 'a ring_state \<Rightarrow> 'a list \<times> 'a ring_state" where
  "drain_loop 0 s = ([], s)"
| "drain_loop (Suc n) s =
     (let (val, s1) = read_slot s; (vals, s2) = drain_loop n s1
      in (case val of Some v \<Rightarrow> v # vals | None \<Rightarrow> vals, s2))"

text \<open>\<open>consume_batch\<close> with the values handed to the callback.\<close>

definition consume_batch :: "usize \<Rightarrow> 'a ring_state \<Rightarrow> 'a list \<times> usize \<times> 'a ring_state" where
  "consume_batch max_items s =
     (let (available, s1) = refresh_tail max_items s
      in if available = 0 then ([], 0, s1)
         else let n = min available max_items; (vals, s2) = drain_loop (unat n) s1
              in (vals, n, release s2))"

text \<open>\<open>Shared::drop\<close>: the values dropped, from \<open>head\<close> up to \<open>tail\<close>.\<close>

function drop_loop :: "usize \<Rightarrow> 'a ring_state \<Rightarrow> 'a list" where
  "drop_loop index s =
     (if index = rs_tail s then []
      else (case rs_slots s ! unat (index AND rs_mask s) of Some v \<Rightarrow> [v] | None \<Rightarrow> [])
           @ drop_loop (index + 1) s)"
  by pat_completeness auto
termination
proof (relation "measure (\<lambda>(index, s). unat (rs_tail s - index))")
  fix index :: usize and s :: "'a ring_state"
  assume "index \<noteq> rs_tail s"
  then have "rs_tail s - index \<noteq> 0" by simp
  then have "unat (rs_tail s - index - 1) < unat (rs_tail s - index)" by (rule measure_unat)
  moreover have "rs_tail s - (index + 1) = rs_tail s - index - 1" by simp
  ultimately show "((index + 1, s), index, s) \<in> measure (\<lambda>(index, s). unat (rs_tail s - index))"
    by (simp only: in_measure case_prod_conv)
qed simp

declare drop_loop.simps [simp del]

definition drop_shared :: "'a ring_state \<Rightarrow> 'a list" where
  "drop_shared s = drop_loop (rs_head s) s"

section \<open>Model: interleaving\<close>

text \<open>
  Program counters of the two threads: the producer is outside a call, in the write loop of
  \<open>publish_batch\<close> (count, room, items left) or about to write or publish the value of \<open>try_push\<close>; the
  consumer is outside a call or has \<open>n\<close> more slots to read.
\<close>

datatype 'a producer_pc = P_idle | P_batch usize usize "'a list" | P_push 'a | P_pushed
datatype consumer_pc = C_idle | C_drain nat

record 'a config =
  ring_of :: "'a ring_state"
  p_pc :: "'a producer_pc"
  c_pc :: consumer_pc
  sent :: "'a list" \<comment> \<open>every value written to a slot, in order\<close>
  received :: "'a list" \<comment> \<open>every value handed to the callback, in order\<close>

inductive ring_step :: "'a config \<Rightarrow> 'a config \<Rightarrow> bool" where
  push_begin: "p_pc c = P_idle \<Longrightarrow> free_slots 1 (ring_of c) = (free, s') \<Longrightarrow>
    ring_step c (c\<lparr>ring_of := s', p_pc := (if free = 0 then P_idle else P_push v)\<rparr>)"
| push_write: "p_pc c = P_push v \<Longrightarrow>
    ring_step c (c\<lparr>ring_of := write_slot (p_tail (ring_of c)) v (ring_of c), p_pc := P_pushed,
      sent := sent c @ [v]\<rparr>)"
| push_publish: "p_pc c = P_pushed \<Longrightarrow>
    ring_step c (c\<lparr>ring_of := publish 1 (ring_of c), p_pc := P_idle\<rparr>)"
| batch_begin: "p_pc c = P_idle \<Longrightarrow> free_slots (- 1) (ring_of c) = (free, s') \<Longrightarrow>
    ring_step c (c\<lparr>ring_of := s', p_pc := P_batch 0 free it\<rparr>)"
| batch_write: "p_pc c = P_batch n free (v # it) \<Longrightarrow> n < free \<Longrightarrow>
    ring_step c (c\<lparr>ring_of := write_slot (p_tail (ring_of c) + n) v (ring_of c),
      p_pc := P_batch (n + 1) free it, sent := sent c @ [v]\<rparr>)"
| batch_publish: "p_pc c = P_batch n free it \<Longrightarrow> it = [] \<or> \<not> n < free \<Longrightarrow>
    ring_step c (c\<lparr>ring_of := (if n > 0 then publish n (ring_of c) else ring_of c), p_pc := P_idle\<rparr>)"
| consume_begin: "c_pc c = C_idle \<Longrightarrow> refresh_tail max_items (ring_of c) = (available, s') \<Longrightarrow>
    ring_step c (c\<lparr>ring_of := s',
      c_pc := (if available = 0 then C_idle else C_drain (unat (min available max_items)))\<rparr>)"
| consume_read: "c_pc c = C_drain (Suc n) \<Longrightarrow> read_slot (ring_of c) = (val, s') \<Longrightarrow>
    ring_step c (c\<lparr>ring_of := s', c_pc := C_drain n,
      received := received c @ (case val of Some v \<Rightarrow> [v] | None \<Rightarrow> [])\<rparr>)"
| consume_release: "c_pc c = C_drain n \<Longrightarrow>
    ring_step c (c\<lparr>ring_of := release (ring_of c), c_pc := C_idle\<rparr>)"

text \<open>
  The last rule covers both the end of the loop and the unwinding of a panicking callback, which
  drops the guard early.
\<close>

inductive_cases ring_stepE: "ring_step c c'"

definition initial :: "'a ring_state \<Rightarrow> 'a config" where
  "initial s = \<lparr>ring_of = s, p_pc = P_idle, c_pc = C_idle, sent = [], received = []\<rparr>"

inductive reachable :: "usize \<Rightarrow> 'a config \<Rightarrow> bool" for cap where
  reach_init: "ring cap = Some s \<Longrightarrow> reachable cap (initial s)"
| reach_step: "reachable cap c \<Longrightarrow> ring_step c c' \<Longrightarrow> reachable cap c'"

section \<open>Index arithmetic\<close>

lemma bit_top:
  fixes x :: usize
  assumes "2 ^ k \<le> unat x" and "unat x < 2 ^ (k + 1)"
  shows "bit x k"
proof -
  have "unat x div 2 ^ k = 1"
    using assms by (intro div_nat_eqI) (simp_all add: mult.commute)
  then have "bit (unat x) k" by (simp add: bit_iff_odd)
  then show ?thesis by (simp add: bit_unsigned_iff)
qed

lemma is_power_of_two_obtain:
  assumes "is_power_of_two n"
  obtains k where "k < 64" and "n = 2 ^ k"
proof -
  have n: "n \<noteq> 0" "n AND (n - 1) = 0" using assms by (auto simp: is_power_of_two_def)
  then have "1 \<le> unat n" by (simp add: unat_gt_0 Suc_le_eq)
  then obtain k where k: "2 ^ k \<le> unat n" "unat n < 2 ^ (k + 1)"
    using ex_power_ivl1 [of 2 "unat n"] by auto
  have pred: "unat (n - 1) = unat n - 1"
    using n(1) by (simp add: unat_minus_one)
  have "unat n = 2 ^ k"
  proof (rule ccontr)
    assume "unat n \<noteq> 2 ^ k"
    with k pred have "bit (n - 1) k" and "bit n k" by (auto intro!: bit_top)
    then have "bit (n AND (n - 1)) k" by (simp add: bit_and_iff)
    with n(2) show False by simp
  qed
  moreover have "unat n < 2 ^ LENGTH(64)" by (rule unsigned_less)
  ultimately have "(2 :: nat) ^ k < 2 ^ 64" by simp
  then have "k < 64" by (simp only: power_strict_increasing_iff one_less_numeral_iff semiring_norm)
  moreover from this have "n = 2 ^ k"
    using \<open>unat n = 2 ^ k\<close> by (simp add: word_unat_eq_iff unat_exp_u64)
  ultimately show thesis by (rule that)
qed

lemma index_mod:
  assumes "k < 64"
  shows "unat (of_nat i AND (2 ^ k - 1) :: usize) = i mod 2 ^ k"
proof -
  have "of_nat i AND (2 ^ k - 1) = (take_bit k (of_nat i) :: usize)"
    by (simp add: take_bit_eq_mask mask_eq_exp_minus_1)
  also have "unat \<dots> = take_bit k (take_bit LENGTH(64) i)"
    by (simp only: unsigned_take_bit_eq unat_of_nat take_bit_eq_mod [of "LENGTH(64)" i])
  also have "\<dots> = take_bit k i"
    using assms by (simp only: take_bit_take_bit) (simp add: min_def)
  also have "\<dots> = i mod 2 ^ k" by (simp add: take_bit_eq_mod)
  finally show ?thesis .
qed

lemma of_nat_diff_unat:
  assumes "a \<le> b" and "b - a < 2 ^ 64"
  shows "unat (of_nat b - of_nat a :: usize) = b - a"
proof -
  have "of_nat b - of_nat a = (of_nat (b - a) :: usize)" using assms(1) by (simp add: of_nat_diff)
  then show ?thesis using assms(2) by (simp add: unat_of_nat take_bit_nat_eq_self)
qed

lemma mod_near_neq:
  assumes "i < j" and "j - i < (m :: nat)"
  shows "i mod m \<noteq> j mod m"
proof
  assume "i mod m = j mod m"
  then have "m dvd j - i" using assms(1) by (metis less_imp_le_nat mod_eq_dvd_iff_nat)
  with assms show False using dvd_imp_le by fastforce
qed

section \<open>The ownership protocol\<close>

text \<open>
  The positions behind the wrapping indices, as unbounded counts: \<open>hc \<le> hd \<le> rd \<le> tc \<le> tl\<close> are the
  producer's cached head, the stored head, the consumer's local head, its cached tail and the
  stored tail. All of \<open>vals\<close> is written; slots from \<open>rd\<close> to \<open>length vals\<close> are live, the rest vacant.
\<close>

record 'a position =
  vals :: "'a list"
  hc :: nat
  hd_pos :: nat
  rd :: nat
  tc :: nat
  tl_pos :: nat

definition slots_ok :: "nat \<Rightarrow> 'a option list \<Rightarrow> 'a list \<Rightarrow> nat \<Rightarrow> bool" where
  "slots_ok cap slots vs r \<longleftrightarrow> length slots = cap \<and>
     (\<forall>i. r \<le> i \<longrightarrow> i < length vs \<longrightarrow> slots ! (i mod cap) = Some (vs ! i)) \<and>
     (\<forall>i. length vs \<le> i \<longrightarrow> i < r + cap \<longrightarrow> slots ! (i mod cap) = None)"

definition ring_rep :: "nat \<Rightarrow> 'a ring_state \<Rightarrow> 'a position \<Rightarrow> bool" where
  "ring_rep k s p \<longleftrightarrow> k < 64 \<and> rs_mask s = 2 ^ k - 1 \<and> \<not> ub s \<and>
     hc p \<le> hd_pos p \<and> hd_pos p \<le> rd p \<and> rd p \<le> tc p \<and> tc p \<le> tl_pos p \<and> tl_pos p \<le> length (vals p) \<and>
     length (vals p) \<le> hc p + 2 ^ k \<and>
     rs_head s = of_nat (hd_pos p) \<and> rs_tail s = of_nat (tl_pos p) \<and> p_tail s = of_nat (tl_pos p) \<and>
     p_head_cache s = of_nat (hc p) \<and> c_head s = of_nat (rd p) \<and> c_tail_cache s = of_nat (tc p) \<and>
     slots_ok (2 ^ k) (rs_slots s) (vals p) (rd p)"

lemma slots_ok_write:
  assumes "slots_ok cap slots vs r" and "length vs < r + cap" and "r \<le> length vs"
  shows "slots ! (length vs mod cap) = None"
    and "slots_ok cap (slots[length vs mod cap := Some v]) (vs @ [v]) r"
proof -
  have cap: "0 < cap" using assms by linarith
  show "slots ! (length vs mod cap) = None"
    using assms by (simp add: slots_ok_def)
  show "slots_ok cap (slots[length vs mod cap := Some v]) (vs @ [v]) r"
    unfolding slots_ok_def
  proof (intro conjI allI impI)
    show "length (slots[length vs mod cap := Some v]) = cap"
      using assms(1) by (simp add: slots_ok_def)
  next
    fix i assume i: "r \<le> i" "i < length (vs @ [v])"
    show "slots[length vs mod cap := Some v] ! (i mod cap) = Some ((vs @ [v]) ! i)"
    proof (cases "i = length vs")
      case True
      then show ?thesis using assms(1) cap by (simp add: slots_ok_def)
    next
      case False
      then have "i mod cap \<noteq> length vs mod cap"
        using i assms(2) by (intro mod_near_neq) auto
      then show ?thesis
        using assms(1) i False by (simp add: slots_ok_def nth_append)
    qed
  next
    fix i assume i: "length (vs @ [v]) \<le> i" "i < r + cap"
    then have "length vs mod cap \<noteq> i mod cap"
      using assms(3) by (intro mod_near_neq) auto
    then show "slots[length vs mod cap := Some v] ! (i mod cap) = None"
      using assms(1) i by (simp add: slots_ok_def)
  qed
qed

lemma slots_ok_read:
  assumes "slots_ok cap slots vs r" and "r < length vs" and "length vs \<le> r + cap" and "0 < cap"
  shows "slots ! (r mod cap) = Some (vs ! r)"
    and "slots_ok cap (slots[r mod cap := None]) vs (Suc r)"
proof -
  show "slots ! (r mod cap) = Some (vs ! r)"
    using assms by (simp add: slots_ok_def)
  show "slots_ok cap (slots[r mod cap := None]) vs (Suc r)"
    unfolding slots_ok_def
  proof (intro conjI allI impI)
    show "length (slots[r mod cap := None]) = cap"
      using assms(1) by (simp add: slots_ok_def)
  next
    fix i assume i: "Suc r \<le> i" "i < length vs"
    then have "r mod cap \<noteq> i mod cap"
      using assms(3) by (intro mod_near_neq) auto
    then show "slots[r mod cap := None] ! (i mod cap) = Some (vs ! i)"
      using assms(1) i by (simp add: slots_ok_def)
  next
    fix i assume i: "length vs \<le> i" "i < Suc r + cap"
    show "slots[r mod cap := None] ! (i mod cap) = None"
    proof (cases "i = r + cap")
      case True
      then show ?thesis using assms(1,4) by (simp add: slots_ok_def)
    next
      case False
      then have "r mod cap \<noteq> i mod cap"
        using i assms(2) by (intro mod_near_neq) auto
      then show ?thesis
        using assms(1) i False by (simp add: slots_ok_def)
    qed
  qed
qed

lemma pow2_less_u64: "k < 64 \<Longrightarrow> (2 :: nat) ^ k < 2 ^ 64"
  by (rule power_strict_increasing) simp_all

lemma free_unat:
  assumes "k < 64" and "h \<le> t" and "t \<le> h + 2 ^ k"
  shows "unat (2 ^ k - (of_nat t - of_nat h) :: usize) = h + 2 ^ k - t"
proof -
  have "(2 ^ k - (of_nat t - of_nat h) :: usize) = of_nat (2 ^ k - (t - h))"
    using assms(2,3) by (simp add: of_nat_diff)
  moreover have "2 ^ k - (t - h) < 2 ^ 64"
    using pow2_less_u64 [OF assms(1)] by linarith
  ultimately show ?thesis
    using assms(2,3) by (simp only: unat_of_nat_u64)
qed

lemma free_slots_rep:
  assumes rep: "ring_rep k s p" and tl: "tl_pos p = length (vals p)" and free: "free_slots want s = (free, s')"
  shows "\<exists>h. ring_rep k s' (p\<lparr>hc := h\<rparr>) \<and> unat free = h + 2 ^ k - length (vals p) \<and>
    (free < want \<longrightarrow> h = hd_pos p)"
proof -
  have k: "k < 64" and mask: "rs_mask s + 1 = 2 ^ k" using rep by (auto simp: ring_rep_def)
  have pos: "hc p \<le> length (vals p)" "hd_pos p \<le> length (vals p)" "length (vals p) \<le> hc p + 2 ^ k"
    "hc p \<le> hd_pos p"
    using rep tl by (auto simp: ring_rep_def)
  have idx: "p_tail s = of_nat (length (vals p))" "p_head_cache s = of_nat (hc p)"
    "rs_head s = of_nat (hd_pos p)"
    using rep tl by (auto simp: ring_rep_def)
  show ?thesis
  proof (cases "2 ^ k - (p_tail s - p_head_cache s) \<ge> want")
    case True
    then show ?thesis
      using free rep free_unat [OF k pos(1,3)]
      by (intro exI [of _ "hc p"]) (auto simp: free_slots_def Let_def mask idx)
  next
    case False
    then have s': "s' = s\<lparr>p_head_cache := rs_head s\<rparr>"
        and f: "free = 2 ^ k - (p_tail s - rs_head s)"
      using free by (auto simp: free_slots_def Let_def mask)
    have "ring_rep k s' (p\<lparr>hc := hd_pos p\<rparr>)"
      using rep pos by (auto simp: s' ring_rep_def)
    then show ?thesis
      using free_unat [OF k pos(2)] pos by (intro exI [of _ "hd_pos p"]) (auto simp: f idx)
  qed
qed

lemma slot_index: "ring_rep k s p \<Longrightarrow> unat (of_nat i AND rs_mask s) = i mod 2 ^ k"
  by (simp add: ring_rep_def index_mod)

lemma write_slot_rep:
  assumes rep: "ring_rep k s p" and n: "index = of_nat (length (vals p))"
    and room: "length (vals p) < hc p + 2 ^ k"
  shows "ring_rep k (write_slot index v s) (p\<lparr>vals := vals p @ [v]\<rparr>)"
proof -
  have "slots_ok (2 ^ k) (rs_slots s) (vals p) (rd p)" "length (vals p) < rd p + 2 ^ k"
    "rd p \<le> length (vals p)"
    using rep room by (auto simp: ring_rep_def)
  note w = slots_ok_write [OF this]
  show ?thesis
    using rep w room unfolding write_slot_def n Let_def slot_index [OF rep]
    by (auto simp: ring_rep_def)
qed

lemma publish_rep:
  assumes "ring_rep k s p" and "n = of_nat (length (vals p) - tl_pos p)"
  shows "ring_rep k (publish n s) (p\<lparr>tl_pos := length (vals p)\<rparr>)"
  using assms by (auto simp: ring_rep_def publish_def of_nat_diff)

lemma refresh_tail_rep:
  assumes rep: "ring_rep k s p" and r: "refresh_tail max_items s = (available, s')"
  shows "\<exists>t. ring_rep k s' (p\<lparr>tc := t\<rparr>) \<and> unat available = t - rd p \<and> (available < max_items \<longrightarrow> t = tl_pos p)"
proof -
  have k: "k < 64" and pos: "rd p \<le> tc p" "tc p \<le> tl_pos p" "tl_pos p \<le> rd p + 2 ^ k"
    using rep by (auto simp: ring_rep_def)
  have idx: "c_tail_cache s = of_nat (tc p)" "rs_tail s = of_nat (tl_pos p)" "c_head s = of_nat (rd p)"
    using rep by (auto simp: ring_rep_def)
  have u: "unat (of_nat t - of_nat (rd p) :: usize) = t - rd p" if "rd p \<le> t" "t \<le> tl_pos p" for t
    using that pos pow2_less_u64 [OF k] by (intro of_nat_diff_unat) auto
  show ?thesis
  proof (cases "c_tail_cache s - c_head s < max_items")
    case True
    then have "s' = s\<lparr>c_tail_cache := rs_tail s\<rparr>" and "available = rs_tail s - c_head s"
      using r by (auto simp: refresh_tail_def Let_def)
    then show ?thesis
      using rep pos u by (intro exI [of _ "tl_pos p"]) (auto simp: ring_rep_def)
  next
    case False
    then show ?thesis
      using r rep pos u [of "tc p"] by (intro exI [of _ "tc p"]) (auto simp: refresh_tail_def Let_def idx)
  qed
qed

lemma read_slot_rep:
  assumes rep: "ring_rep k s p" and more: "rd p < tc p"
  shows "\<exists>s'. read_slot s = (Some (vals p ! rd p), s') \<and> ring_rep k s' (p\<lparr>rd := Suc (rd p)\<rparr>)"
proof -
  have "slots_ok (2 ^ k) (rs_slots s) (vals p) (rd p)" "rd p < length (vals p)"
    "length (vals p) \<le> rd p + 2 ^ k" "(0 :: nat) < 2 ^ k"
    using rep more by (auto simp: ring_rep_def)
  note r = slots_ok_read [OF this]
  have i: "unat (c_head s AND rs_mask s) = rd p mod 2 ^ k"
    using rep slot_index [OF rep] by (simp add: ring_rep_def)
  show ?thesis
    using rep r more unfolding read_slot_def Let_def i
    by (auto simp: ring_rep_def)
qed

lemma release_rep: "ring_rep k s p \<Longrightarrow> ring_rep k (release s) (p\<lparr>hd_pos := rd p\<rparr>)"
  by (auto simp: ring_rep_def release_def)

lemmas ring_reps = free_slots_rep write_slot_rep publish_rep refresh_tail_rep read_slot_rep release_rep

section \<open>Every interleaving\<close>

definition producer_ok :: "nat \<Rightarrow> 'a producer_pc \<Rightarrow> 'a position \<Rightarrow> bool" where
  "producer_ok k pc p = (case pc of
       P_idle \<Rightarrow> tl_pos p = length (vals p)
     | P_push v \<Rightarrow> tl_pos p = length (vals p) \<and> length (vals p) < hc p + 2 ^ k
     | P_pushed \<Rightarrow> length (vals p) = Suc (tl_pos p)
     | P_batch n free it \<Rightarrow> unat n = length (vals p) - tl_pos p \<and> unat free = hc p + 2 ^ k - tl_pos p)"

definition consumer_ok :: "consumer_pc \<Rightarrow> 'a position \<Rightarrow> bool" where
  "consumer_ok pc p = (case pc of C_idle \<Rightarrow> hd_pos p = rd p | C_drain n \<Rightarrow> rd p + n \<le> tc p)"

definition config_ok :: "nat \<Rightarrow> 'a config \<Rightarrow> 'a position \<Rightarrow> bool" where
  "config_ok k c p \<longleftrightarrow> ring_rep k (ring_of c) p \<and> sent c = vals p \<and> received c = take (rd p) (vals p) \<and>
     producer_ok k (p_pc c) p \<and> consumer_ok (c_pc c) p"

lemmas config_oks = config_ok_def producer_ok_def consumer_ok_def

lemma ring_init_rep:
  assumes "ring cap = Some s"
  obtains k where "cap = 2 ^ k" and "ring_rep k s \<lparr>vals = [], hc = 0, hd_pos = 0, rd = 0, tc = 0, tl_pos = 0\<rparr>"
proof -
  from assms have "is_power_of_two cap" by (simp add: ring_def split: if_splits)
  then obtain k where k: "k < 64" "cap = 2 ^ k" by (rule is_power_of_two_obtain)
  then have "ring_rep k s \<lparr>vals = [], hc = 0, hd_pos = 0, rd = 0, tc = 0, tl_pos = 0\<rparr>"
    using assms by (auto simp: ring_def ring_rep_def slots_ok_def unat_exp_u64 split: if_splits)
  with k show thesis by (intro that)
qed

lemma producer_step_ok:
  assumes ok: "config_ok k c p"
  shows "p_pc c = P_idle \<Longrightarrow> free_slots want (ring_of c) = (free, s') \<Longrightarrow> 0 < want \<Longrightarrow>
      \<exists>p'. config_ok k (c\<lparr>ring_of := s', p_pc := (if free = 0 then P_idle else P_push v)\<rparr>) p'"
    and "p_pc c = P_idle \<Longrightarrow> free_slots want (ring_of c) = (free, s') \<Longrightarrow>
      \<exists>p'. config_ok k (c\<lparr>ring_of := s', p_pc := P_batch 0 free it\<rparr>) p'"
proof -
  assume idle: "p_pc c = P_idle" and free: "free_slots want (ring_of c) = (free, s')"
  then obtain h where h: "ring_rep k s' (p\<lparr>hc := h\<rparr>)" "unat free = h + 2 ^ k - length (vals p)"
    using ok free_slots_rep [of k "ring_of c" p want free s'] by (auto simp: config_oks)
  have "0 < unat free \<longleftrightarrow> free \<noteq> 0" by (simp add: unat_gt_0)
  with h idle ok show "\<exists>p'. config_ok k (c\<lparr>ring_of := s', p_pc := (if free = 0 then P_idle else P_push v)\<rparr>) p'"
    by (intro exI [of _ "p\<lparr>hc := h\<rparr>"]) (auto simp: config_oks split: consumer_pc.splits)
  show "\<exists>p'. config_ok k (c\<lparr>ring_of := s', p_pc := P_batch 0 free it\<rparr>) p'"
    using h idle ok by (intro exI [of _ "p\<lparr>hc := h\<rparr>"]) (auto simp: config_oks split: consumer_pc.splits)
qed

lemma write_step_ok:
  assumes ok: "config_ok k c p" and "index = of_nat (length (vals p))" and "length (vals p) < hc p + 2 ^ k"
    and "producer_ok k pc (p\<lparr>vals := vals p @ [v]\<rparr>)"
  shows "config_ok k (c\<lparr>ring_of := write_slot index v (ring_of c), p_pc := pc, sent := sent c @ [v]\<rparr>)
    (p\<lparr>vals := vals p @ [v]\<rparr>)"
proof -
  have "rd p \<le> length (vals p)" using ok by (auto simp: config_ok_def ring_rep_def)
  then show ?thesis
    using ok write_slot_rep [OF _ assms(2,3)] assms(4)
    by (auto simp: config_ok_def consumer_ok_def split: consumer_pc.splits)
qed

lemma publish_step_ok:
  assumes "config_ok k c p" and "n = of_nat (length (vals p) - tl_pos p)"
  shows "config_ok k (c\<lparr>ring_of := publish n (ring_of c), p_pc := P_idle\<rparr>) (p\<lparr>tl_pos := length (vals p)\<rparr>)"
  using assms publish_rep by (auto simp: config_oks split: consumer_pc.splits)

lemma unat_eq_of_nat: "unat (n :: usize) = m \<Longrightarrow> n = of_nat m"
  by auto

lemma batch_write_ok:
  assumes ok: "config_ok k c p" and pc: "p_pc c = P_batch n free (v # it)" and lt: "n < free"
  shows "\<exists>p'. config_ok k (c\<lparr>ring_of := write_slot (p_tail (ring_of c) + n) v (ring_of c),
      p_pc := P_batch (n + 1) free it, sent := sent c @ [v]\<rparr>) p'"
proof -
  have n: "unat n = length (vals p) - tl_pos p" and free: "unat free = hc p + 2 ^ k - tl_pos p"
    and tl: "tl_pos p \<le> length (vals p)" "p_tail (ring_of c) = of_nat (tl_pos p)"
    using ok pc by (auto simp: config_oks ring_rep_def)
  have lt': "unat n < unat free" using lt by (simp add: word_less_nat_alt)
  have idx: "p_tail (ring_of c) + n = of_nat (length (vals p))"
    using tl unat_eq_of_nat [OF n] by (simp add: of_nat_diff)
  have "unat (n + 1) = Suc (unat n)"
    using lt' unat_less_u64 [of free] by (simp add: unat_plus_if')
  then have "producer_ok k (P_batch (n + 1) free it) (p\<lparr>vals := vals p @ [v]\<rparr>)"
    using n free tl by (simp add: producer_ok_def)
  moreover have "length (vals p) < hc p + 2 ^ k" using lt' n free tl by linarith
  ultimately show ?thesis using write_step_ok [OF ok idx] by blast
qed

lemma consumer_step_ok:
  assumes ok: "config_ok k c p"
  shows "c_pc c = C_idle \<Longrightarrow> refresh_tail max_items (ring_of c) = (available, s') \<Longrightarrow>
      \<exists>p'. config_ok k (c\<lparr>ring_of := s',
        c_pc := (if available = 0 then C_idle else C_drain (unat (min available max_items)))\<rparr>) p'"
    and "c_pc c = C_drain (Suc n) \<Longrightarrow> read_slot (ring_of c) = (val, s') \<Longrightarrow>
      \<exists>p'. config_ok k (c\<lparr>ring_of := s', c_pc := C_drain n,
        received := received c @ (case val of Some v \<Rightarrow> [v] | None \<Rightarrow> [])\<rparr>) p'"
    and "c_pc c = C_drain n \<Longrightarrow> \<exists>p'. config_ok k (c\<lparr>ring_of := release (ring_of c), c_pc := C_idle\<rparr>) p'"
proof -
  assume idle: "c_pc c = C_idle" and r: "refresh_tail max_items (ring_of c) = (available, s')"
  then obtain t where t: "ring_rep k s' (p\<lparr>tc := t\<rparr>)" "unat available = t - rd p"
    using ok refresh_tail_rep [OF _ r] by (auto simp: config_ok_def)
  have "unat (min available max_items) \<le> unat available"
    by (simp add: word_le_nat_alt [symmetric])
  moreover have "rd p \<le> t" using t(1) by (simp add: ring_rep_def)
  ultimately have "rd p + unat (min available max_items) \<le> t" using t(2) by linarith
  then show "\<exists>p'. config_ok k (c\<lparr>ring_of := s',
        c_pc := (if available = 0 then C_idle else C_drain (unat (min available max_items)))\<rparr>) p'"
    using t ok idle by (intro exI [of _ "p\<lparr>tc := t\<rparr>"]) (auto simp: config_oks split: producer_pc.splits)
next
  assume d: "c_pc c = C_drain (Suc n)" and r: "read_slot (ring_of c) = (val, s')"
  then have "rd p < tc p" "tc p \<le> length (vals p)" using ok by (auto simp: config_oks ring_rep_def)
  moreover obtain s'' where "read_slot (ring_of c) = (Some (vals p ! rd p), s'')"
      "ring_rep k s'' (p\<lparr>rd := Suc (rd p)\<rparr>)"
    using read_slot_rep [OF _ \<open>rd p < tc p\<close>] ok by (auto simp: config_ok_def)
  ultimately show "\<exists>p'. config_ok k (c\<lparr>ring_of := s', c_pc := C_drain n,
        received := received c @ (case val of Some v \<Rightarrow> [v] | None \<Rightarrow> [])\<rparr>) p'"
    using ok d r by (intro exI [of _ "p\<lparr>rd := Suc (rd p)\<rparr>"])
      (auto simp: config_oks take_Suc_conv_app_nth split: producer_pc.splits)
next
  assume "c_pc c = C_drain n"
  then show "\<exists>p'. config_ok k (c\<lparr>ring_of := release (ring_of c), c_pc := C_idle\<rparr>) p'"
    using ok release_rep [of k "ring_of c" p] by (intro exI [of _ "p\<lparr>hd_pos := rd p\<rparr>"])
      (auto simp: config_oks split: producer_pc.splits)
qed

lemma ring_step_ok:
  assumes "ring_step c c'" and "config_ok k c p"
  shows "\<exists>p'. config_ok k c' p'"
  using assms(1)
proof (cases rule: ring_step.cases)
  case (push_begin free s' v)
  then show ?thesis using producer_step_ok(1) [OF assms(2), of 1] by simp
next
  case (push_write v)
  then have "producer_ok k P_pushed (p\<lparr>vals := vals p @ [v]\<rparr>)" "length (vals p) < hc p + 2 ^ k"
    "p_tail (ring_of c) = of_nat (length (vals p))"
    using assms(2) by (auto simp: config_oks ring_rep_def)
  then show ?thesis using write_step_ok [OF assms(2)] push_write by blast
next
  case push_publish
  then have "1 = (of_nat (length (vals p) - tl_pos p) :: usize)"
    using assms(2) by (auto simp: config_oks)
  then show ?thesis using publish_step_ok [OF assms(2)] push_publish by blast
next
  case (batch_begin free s' it)
  then show ?thesis using producer_step_ok(2) [OF assms(2)] by simp
next
  case (batch_write n free v it)
  then show ?thesis using batch_write_ok [OF assms(2)] by simp
next
  case (batch_publish n free it)
  then have n: "unat n = length (vals p) - tl_pos p" using assms(2) by (auto simp: config_oks)
  show ?thesis
  proof (cases "n > 0")
    case True
    then show ?thesis using publish_step_ok [OF assms(2) unat_eq_of_nat [OF n]] batch_publish by auto
  next
    case False
    then have "length (vals p) - tl_pos p = 0" using n by (simp add: word_gt_0)
    then show ?thesis using False batch_publish assms(2)
      by (intro exI [of _ p]) (auto simp: config_oks ring_rep_def)
  qed
next
  case (consume_begin max_items available s')
  then show ?thesis using consumer_step_ok(1) [OF assms(2)] by simp
next
  case (consume_read n val s')
  then show ?thesis using consumer_step_ok(2) [OF assms(2)] by simp
next
  case (consume_release n)
  then show ?thesis using consumer_step_ok(3) [OF assms(2)] by simp
qed

lemma reachable_ok:
  assumes "reachable cap c"
  shows "\<exists>k p. cap = 2 ^ k \<and> config_ok k c p"
  using assms
proof induction
  case (reach_init s)
  then show ?case
    by (elim ring_init_rep) (auto simp: config_oks initial_def intro!: exI)
next
  case (reach_step c c')
  then show ?case using ring_step_ok by blast
qed

text \<open>
  C11: in every interleaving of the producer's and the consumer's accesses, from a ring of any
  power-of-two capacity and however often the indices wrap, no slot is read before it is written or
  overwritten while it holds a value, the values handed to the consumer are the first values the producer
  sent, in order, and at most \<open>capacity\<close> values are in flight.
\<close>

theorem ring_fifo_safe:
  assumes "reachable cap c"
  shows "\<not> ub (ring_of c) \<and> (\<exists>rest. sent c = received c @ rest \<and> length rest \<le> unat cap)"
proof -
  obtain k p where k: "cap = 2 ^ k" and ok: "config_ok k c p"
    using reachable_ok [OF assms] by blast
  then have "k < 64" "rd p \<le> length (vals p)" "length (vals p) \<le> rd p + 2 ^ k" "\<not> ub (ring_of c)"
    by (auto simp: config_ok_def ring_rep_def)
  then have "length (drop (rd p) (vals p)) \<le> unat cap"
    by (simp add: k unat_exp_u64)
  moreover have "sent c = received c @ drop (rd p) (vals p)"
    using ok by (simp add: config_ok_def)
  ultimately show ?thesis using \<open>\<not> ub (ring_of c)\<close> by blast
qed

theorem ring_fifo_safe_witness:
  "\<exists>c :: nat config. reachable 2 c \<and> sent c = [7] \<and> \<not> ub (ring_of c) \<and>
     (\<exists>rest. sent c = received c @ rest \<and> length rest \<le> unat (2 :: usize))"
proof -
  let ?s0 = "\<lparr>rs_head = 0, rs_tail = 0, rs_mask = 1, rs_slots = [None, None],
    p_tail = 0, p_head_cache = 0, c_head = 0, c_tail_cache = 0, ub = False\<rparr> :: nat ring_state"
  have "replicate 2 None = [None, None :: nat option]" by (simp add: numeral_2_eq_2)
  then have "ring 2 = Some ?s0" by (simp add: ring_def is_power_of_two_def)
  then have r0: "reachable 2 (initial ?s0)" by (rule reach_init)
  have "free_slots 1 ?s0 = (2, ?s0)" by (simp add: free_slots_def)
  then have "ring_step (initial ?s0) ((initial ?s0)\<lparr>ring_of := ?s0, p_pc := P_push 7\<rparr>)"
    using push_begin [of "initial ?s0" 2 ?s0 7] by (simp add: initial_def)
  with r0 have r1: "reachable 2 ((initial ?s0)\<lparr>ring_of := ?s0, p_pc := P_push 7\<rparr>)" (is "reachable 2 ?c1")
    by (rule reach_step)
  have "ring_step ?c1 (?c1\<lparr>ring_of := write_slot (p_tail (ring_of ?c1)) 7 (ring_of ?c1),
      p_pc := P_pushed, sent := sent ?c1 @ [7]\<rparr>)"
    by (rule push_write) simp
  with r1 have r2: "reachable 2 (?c1\<lparr>ring_of := write_slot (p_tail (ring_of ?c1)) 7 (ring_of ?c1),
      p_pc := P_pushed, sent := sent ?c1 @ [7]\<rparr>)" (is "reachable 2 ?c2")
    by (rule reach_step)
  have "sent ?c2 = [7]" by (simp add: initial_def)
  with r2 ring_fifo_safe [OF r2] show ?thesis by blast
qed

section \<open>The methods as a bounded queue\<close>

text \<open>Between calls: everything read is released, everything written is published.\<close>

definition ring_idle :: "'a ring_state \<Rightarrow> bool" where
  "ring_idle s \<longleftrightarrow> (\<exists>k p. ring_rep k s p \<and> hd_pos p = rd p \<and> tl_pos p = length (vals p))"

lemma drop_loop_rep:
  assumes "ring_rep k s p" and "rd p \<le> i" and "i \<le> tl_pos p"
  shows "drop_loop (of_nat i) s = drop i (take (tl_pos p) (vals p))"
  using assms(2,3)
proof (induction "tl_pos p - i" arbitrary: i)
  case 0
  then show ?case using assms(1) by (simp add: drop_loop.simps ring_rep_def)
next
  case (Suc n)
  have len: "tl_pos p \<le> length (vals p)" "length (vals p) \<le> rd p + 2 ^ k" "k < 64"
      "rs_tail s = of_nat (tl_pos p)"
    using assms(1) by (auto simp: ring_rep_def)
  then have "unat (of_nat (tl_pos p) - of_nat i :: usize) = tl_pos p - i"
    using Suc.prems pow2_less_u64 [OF len(3)] by (intro of_nat_diff_unat) auto
  then have "of_nat i \<noteq> rs_tail s" using Suc(2) len(4) by auto
  moreover have "rs_slots s ! (i mod 2 ^ k) = Some (vals p ! i)"
    using assms(1) Suc len by (auto simp: ring_rep_def slots_ok_def)
  moreover have "drop_loop (of_nat (Suc i)) s = drop (Suc i) (take (tl_pos p) (vals p))"
    using Suc by (intro Suc.hyps(1)) auto
  moreover have "drop i (take (tl_pos p) (vals p)) = vals p ! i # drop (Suc i) (take (tl_pos p) (vals p))"
    using Suc(2) len(1) by (subst Cons_nth_drop_Suc [symmetric]) auto
  ultimately show ?case
    by (subst drop_loop.simps) (simp add: slot_index [OF assms(1)] add.commute)
qed

lemma drop_shared_rep:
  assumes "ring_rep k s p" and "hd_pos p = rd p"
  shows "drop_shared s = drop (rd p) (take (tl_pos p) (vals p))"
proof -
  have "rs_head s = of_nat (rd p)" "rd p \<le> tl_pos p" using assms by (auto simp: ring_rep_def)
  then show ?thesis using drop_loop_rep [OF assms(1), of "rd p"] by (simp add: drop_shared_def)
qed

lemma capacity_rep: "ring_rep k s p \<Longrightarrow> unat (capacity s) = 2 ^ k"
  by (simp add: capacity_def ring_rep_def unat_exp_u64)

lemma try_push_law:
  assumes "ring_idle s" and "try_push v s = (r, s')"
  shows "ring_idle s' \<and> unat (capacity s') = unat (capacity s) \<and>
    (r, drop_shared s') = list_put (unat (capacity s)) v (drop_shared s)"
proof -
  obtain k p where rep: "ring_rep k s p" and hd: "hd_pos p = rd p" and tl: "tl_pos p = length (vals p)"
    using assms(1) by (auto simp: ring_idle_def)
  obtain free s1 where f: "free_slots 1 s = (free, s1)" by fastforce
  obtain h where h: "ring_rep k s1 (p\<lparr>hc := h\<rparr>)" "unat free = h + 2 ^ k - length (vals p)"
      "free < 1 \<longrightarrow> h = hd_pos p"
    using free_slots_rep [OF rep tl f] by blast
  have items: "drop_shared s = drop (rd p) (vals p)"
    using drop_shared_rep [OF rep hd] tl by simp
  have pos: "rd p \<le> length (vals p)" "length (vals p) \<le> rd p + 2 ^ k" "h \<le> rd p"
    using h(1) hd by (auto simp: ring_rep_def)
  show ?thesis
  proof (cases "free = 0")
    case True
    then have full: "length (drop_shared s) = 2 ^ k"
      using h(2,3) hd pos items by simp
    have "ring_idle s1"
      using h(1) hd tl by (auto simp: ring_idle_def intro!: exI [of _ k] exI [of _ "p\<lparr>hc := h\<rparr>"])
    moreover have "drop_shared s1 = drop_shared s"
      using drop_shared_rep [OF h(1)] hd tl items by simp
    ultimately show ?thesis
      using assms(2) f True full capacity_rep [OF rep] capacity_rep [OF h(1)]
      by (simp add: try_push_def list_put_def)
  next
    case False
    let ?p = "p\<lparr>hc := h, vals := vals p @ [v], tl_pos := Suc (length (vals p))\<rparr>"
    have s': "s' = publish 1 (write_slot (p_tail s1) v s1)" "r = Ok ()"
      using assms(2) f False by (auto simp: try_push_def)
    have room: "length (vals p) < h + 2 ^ k"
      using False h(2) by (metis unat_gt_0 zero_less_diff)
    have "p_tail s1 = of_nat (length (vals p))" using h(1) tl by (simp add: ring_rep_def)
    then have "ring_rep k (write_slot (p_tail s1) v s1) (p\<lparr>hc := h, vals := vals p @ [v]\<rparr>)"
      using write_slot_rep [OF h(1)] room by simp
    then have rep': "ring_rep k s' ?p"
      using publish_rep [of k _ "p\<lparr>hc := h, vals := vals p @ [v]\<rparr>" 1] tl s' by simp
    then have "ring_idle s'" using hd by (auto simp: ring_idle_def intro!: exI [of _ k] exI [of _ ?p])
    moreover have "drop_shared s' = drop_shared s @ [v]"
      using drop_shared_rep [OF rep'] hd items pos by simp
    moreover have "length (drop_shared s) < 2 ^ k" using items room pos by simp
    ultimately show ?thesis
      using s' capacity_rep [OF rep] capacity_rep [OF rep'] by (simp add: list_put_def)
  qed
qed

lemma drain_loop_rep:
  assumes "ring_rep k s p" and "rd p + n \<le> tc p" and "drain_loop n s = (vs, s')"
  shows "vs = take n (drop (rd p) (vals p)) \<and> ring_rep k s' (p\<lparr>rd := rd p + n\<rparr>)"
  using assms
proof (induction n arbitrary: s p vs s')
  case 0
  then show ?case by simp
next
  case (Suc n)
  obtain s1 where 1: "read_slot s = (Some (vals p ! rd p), s1)" "ring_rep k s1 (p\<lparr>rd := Suc (rd p)\<rparr>)"
    using read_slot_rep [OF Suc.prems(1)] Suc.prems(2) by auto
  obtain vs2 s2 where 2: "drain_loop n s1 = (vs2, s2)" by fastforce
  have "rd p < length (vals p)" using Suc.prems(1,2) by (auto simp: ring_rep_def)
  then have "drop (rd p) (vals p) = vals p ! rd p # drop (Suc (rd p)) (vals p)"
    by (rule Cons_nth_drop_Suc [symmetric])
  then show ?case
    using Suc.IH [OF 1(2) _ 2] Suc.prems(2,3) 1(1) 2 by simp
qed

definition ring_get :: "usize \<Rightarrow> 'a ring_state \<Rightarrow> 'a list \<times> 'a ring_state" where
  "ring_get n s = (let (vs, _, s') = consume_batch n s in (vs, s'))"

lemma consume_batch_law:
  assumes "ring_idle s" and "consume_batch m s = (vs, n, s')"
  shows "ring_idle s' \<and> unat (capacity s') = unat (capacity s) \<and>
    (vs, drop_shared s') = list_get m (drop_shared s) \<and> unat n = length vs"
proof -
  obtain k p where rep: "ring_rep k s p" and hd: "hd_pos p = rd p" and tl: "tl_pos p = length (vals p)"
    using assms(1) by (auto simp: ring_idle_def)
  obtain available s1 where f: "refresh_tail m s = (available, s1)" by fastforce
  obtain t where t: "ring_rep k s1 (p\<lparr>tc := t\<rparr>)" "unat available = t - rd p"
      "available < m \<longrightarrow> t = tl_pos p"
    using refresh_tail_rep [OF rep f] by blast
  have items: "drop_shared s = drop (rd p) (vals p)"
    using drop_shared_rep [OF rep hd] tl by simp
  have pos: "rd p \<le> t" "t \<le> length (vals p)" using t(1) by (auto simp: ring_rep_def)
  define c where "c = unat (min available m)"
  have c: "rd p + c \<le> t"
    using t(2) pos by (auto simp: c_def min_def word_le_nat_alt)
  have "c = unat m \<or> c = length (drop_shared s) \<and> c \<le> unat m"
    using t(2,3) tl items by (auto simp: c_def min_def word_le_nat_alt word_less_nat_alt)
  then have take: "take c (drop_shared s) = take (unat m) (drop_shared s)"
      and drop: "drop c (drop_shared s) = drop (unat m) (drop_shared s)"
    by auto
  obtain vs2 s2 where d: "drain_loop c s1 = (vs2, s2)" by fastforce
  have 2: "vs2 = take c (drop_shared s)" "ring_rep k s2 (p\<lparr>tc := t, rd := rd p + c\<rparr>)"
    using drain_loop_rep [OF t(1) _ d] c items by simp_all
  let ?p = "p\<lparr>tc := t, rd := rd p + c, hd_pos := rd p + c\<rparr>"
  have rep': "ring_rep k (release s2) ?p"
    using release_rep [OF 2(2)] by simp
  show ?thesis
  proof (cases "available = 0")
    case True
    then have "c = 0" by (simp add: c_def)
    moreover have "ring_idle s1" "drop_shared s1 = drop_shared s"
      using t(1) hd tl drop_shared_rep [OF t(1)] items
      by (auto simp: ring_idle_def intro!: exI [of _ k] exI [of _ "p\<lparr>tc := t\<rparr>"])
    ultimately show ?thesis
      using assms(2) f True take drop capacity_rep [OF rep] capacity_rep [OF t(1)]
      by (simp add: consume_batch_def list_get_def)
  next
    case False
    have s': "s' = release s2" "vs = vs2" "n = min available m"
      using assms(2) f False d by (auto simp: consume_batch_def c_def Let_def)
    have "ring_idle s'" using rep' tl s' by (auto simp: ring_idle_def intro!: exI [of _ k] exI [of _ ?p])
    moreover have "drop_shared s' = drop c (drop_shared s)"
      using drop_shared_rep [OF rep'] tl items s' by (simp add: add.commute)
    moreover have "unat n = length vs"
      using c pos s' 2(1) items by (simp add: c_def)
    ultimately show ?thesis
      using s' 2(1) take drop capacity_rep [OF rep] capacity_rep [OF rep'] by (simp add: list_get_def)
  qed
qed

interpretation spsc: bounded_fifo ring_idle drop_shared "\<lambda>s. unat (capacity s)" try_push ring_get
proof (unfold_locales, goal_cases)
  case (1 s v r s')
  then show ?case by (rule try_push_law)
next
  case (2 s n vs s')
  then show ?case
    using consume_batch_law [of s n] by (auto simp: ring_get_def split: prod.splits)
qed

lemma ring_init_idle:
  assumes "ring cap = Some s"
  shows "ring_idle s" and "drop_shared s = []" and "unat (capacity s) = unat cap"
proof -
  obtain k where k: "cap = 2 ^ k"
      "ring_rep k s \<lparr>vals = [], hc = 0, hd_pos = 0, rd = 0, tc = 0, tl_pos = 0\<rparr>"
    using ring_init_rep [OF assms] .
  from k(2) show "ring_idle s" "drop_shared s = []"
    using drop_shared_rep [OF k(2)]
    by (auto simp: ring_idle_def intro!: exI)
  show "unat (capacity s) = unat cap"
    using assms by (auto simp: ring_def capacity_def split: if_splits)
qed

lemma batch_loop_rep:
  assumes "ring_rep k s p" and "unat n = length (vals p) - tl_pos p" and "unat free = hc p + 2 ^ k - tl_pos p"
    and "unat n \<le> unat free" and "batch_loop free n it s = (n', rest, s')"
  shows "\<exists>ws. it = ws @ rest \<and> ring_rep k s' (p\<lparr>vals := vals p @ ws\<rparr>) \<and> unat n' = unat n + length ws \<and>
    length ws = min (length it) (unat free - unat n)"
  using assms
proof (induction it arbitrary: n s p)
  case Nil
  then show ?case by (intro exI [of _ "[]"]) auto
next
  case (Cons v it)
  show ?case
  proof (cases "n < free")
    case False
    then show ?thesis using Cons.prems
      by (intro exI [of _ "[]"]) (auto simp: word_less_nat_alt)
  next
    case True
    let ?p = "p\<lparr>vals := vals p @ [v]\<rparr>" and ?s = "write_slot (p_tail s + n) v s"
    have lt: "unat n < unat free" using True by (simp add: word_less_nat_alt)
    have tl: "tl_pos p \<le> length (vals p)" "p_tail s = of_nat (tl_pos p)"
      using Cons.prems(1) by (auto simp: ring_rep_def)
    have idx: "p_tail s + n = of_nat (length (vals p))"
      using tl unat_eq_of_nat [OF Cons.prems(2)] by (simp add: of_nat_diff)
    have rep: "ring_rep k ?s ?p"
      using write_slot_rep [OF Cons.prems(1) idx] lt Cons.prems(2,3) tl by simp
    have n1: "unat (n + 1) = Suc (unat n)"
      using lt unat_less_u64 [of free] by (simp add: unat_plus_if')
    have loop: "batch_loop free (n + 1) it ?s = (n', rest, s')"
      using Cons.prems(5) True by simp
    have "unat (n + 1) = length (vals ?p) - tl_pos ?p" "unat free = hc ?p + 2 ^ k - tl_pos ?p"
        "unat (n + 1) \<le> unat free"
      using Cons.prems(2,3) lt tl(1) by (simp_all add: n1)
    from Cons.IH [OF rep this loop]
    obtain ws where ws: "it = ws @ rest" "ring_rep k s' (?p\<lparr>vals := vals ?p @ ws\<rparr>)"
        "unat n' = unat (n + 1) + length ws" "length ws = min (length it) (unat free - unat (n + 1))"
      by (elim exE conjE) (rule that)
    have "length (v # ws) = min (length (v # it)) (unat free - unat n)"
      using ws(4) lt by (simp add: n1)
    moreover have "v # it = (v # ws) @ rest" using ws(1) by simp
    moreover have "ring_rep k s' (p\<lparr>vals := vals p @ v # ws\<rparr>)" using ws(2) by simp
    moreover have "unat n' = unat n + length (v # ws)" using ws(3) by (simp add: n1)
    ultimately show ?thesis by blast
  qed
qed

text \<open>
  C12: between calls the ring is a bounded queue: any sequence of \<open>try_push\<close> and \<open>consume_batch\<close> calls on a
  new ring gives the answers of a list queue bounded by the capacity (a push is refused, and the
  value handed back, exactly when the queue is full; a drain takes the oldest values, at most as many
  as asked), and what the final \<open>drop\<close> finds in the slots is what the list queue still holds.
\<close>

theorem ring_refines_queue:
  assumes "ring cap = Some s" and "fifo_run try_push ring_get ops s = (outs, s')"
  shows "fifo_run (list_put (unat cap)) list_get ops [] = (outs, drop_shared s') \<and>
    length (drop_shared s') \<le> unat cap"
proof -
  note init = ring_init_idle [OF assms(1)]
  show ?thesis
    using spsc.run_refines [OF init(1) assms(2)] spsc.items_bounded [OF init(1) _ assms(2)]
    by (simp add: init(2,3))
qed

theorem ring_refines_queue_witness:
  "\<exists>s :: nat ring_state. ring 1 = Some s \<and>
     fst (fifo_run try_push ring_get [Put 5, Put 6, Get 3, Get 1] s) = [Accepted, Refused 6, Got [5], Got []]"
proof -
  have "is_power_of_two 1" by (simp add: is_power_of_two_def)
  then obtain s :: "nat ring_state" where s: "ring 1 = Some s" by (simp add: ring_def)
  obtain outs s' where o: "fifo_run try_push ring_get [Put 5, Put 6, Get 3, Get 1] s = (outs, s')"
    by fastforce
  have "fifo_run (list_put 1) list_get [Put 5, Put 6, Get 3, Get 1] [] =
      ([Accepted, Refused 6, Got [5], Got []], [] :: nat list)"
    by (simp add: list_put_def list_get_def)
  then show ?thesis using ring_refines_queue [OF s o] s o by auto
qed

lemma free_slots_max_rep:
  assumes "ring_rep k s p" and "tl_pos p = length (vals p)" and "hd_pos p = rd p" and "free_slots (- 1) s = (free, s1)"
  shows "ring_rep k s1 (p\<lparr>hc := rd p\<rparr>)" and "unat free = rd p + 2 ^ k - length (vals p)"
proof -
  obtain h where h: "ring_rep k s1 (p\<lparr>hc := h\<rparr>)" "unat free = h + 2 ^ k - length (vals p)"
      "free < - 1 \<longrightarrow> h = hd_pos p"
    using free_slots_rep [OF assms(1,2,4)] by blast
  have pos: "h \<le> length (vals p)" "k < 64" using h(1) assms(3) by (auto simp: ring_rep_def)
  have "2 ^ k \<le> (2 :: nat) ^ 63" using pos(2) by (intro power_increasing) auto
  then have "unat free \<le> 2 ^ 63" using h(2) pos(1) by linarith
  then have "free < - 1" by (simp add: word_less_nat_alt unsigned_minus_1_eq_mask mask_eq_exp_minus_1)
  then have "h = rd p" using h(3) assms(3) by simp
  with h show "ring_rep k s1 (p\<lparr>hc := rd p\<rparr>)" "unat free = rd p + 2 ^ k - length (vals p)" by simp_all
qed

lemma batch_publish_rep:
  assumes "ring_rep k s (p\<lparr>vals := vals p @ ws\<rparr>)" and "tl_pos p = length (vals p)" and "unat n = length ws"
  shows "ring_rep k (if n > 0 then publish n s else s) (p\<lparr>vals := vals p @ ws, tl_pos := length (vals p @ ws)\<rparr>)"
proof (cases "n > 0")
  case True
  then show ?thesis using publish_rep [OF assms(1)] unat_eq_of_nat [OF assms(3)] assms(2) by simp
next
  case False
  then have "ws = []" using assms(3) by (simp add: word_gt_0)
  moreover have "p\<lparr>vals := vals p\<rparr> = p\<lparr>vals := vals p, tl_pos := length (vals p)\<rparr>" using assms(2) by simp
  ultimately show ?thesis using assms(1) False by simp
qed

lemma publish_batch_rep:
  assumes "ring_rep k s p" and "tl_pos p = length (vals p)" and "hd_pos p = rd p"
    and "publish_batch it s = (n, rest, s')"
  shows "\<exists>ws. it = ws @ rest \<and> unat n = length ws \<and> length ws = min (length it) (rd p + 2 ^ k - length (vals p)) \<and>
    ring_rep k s' (p\<lparr>hc := rd p, vals := vals p @ ws, tl_pos := length (vals p @ ws)\<rparr>)"
proof -
  obtain free s1 where f: "free_slots (- 1) s = (free, s1)" by fastforce
  note r = free_slots_max_rep [OF assms(1-3) f]
  obtain n' rest' s2 where b: "batch_loop free 0 it s1 = (n', rest', s2)" by (metis prod_cases3)
  have out: "n = n'" "rest = rest'" "s' = (if n > 0 then publish n s2 else s2)"
    using assms(4) f b by (auto simp: publish_batch_def)
  let ?p = "p\<lparr>hc := rd p\<rparr>"
  have "\<exists>ws. it = ws @ rest' \<and> ring_rep k s2 (?p\<lparr>vals := vals ?p @ ws\<rparr>) \<and>
      unat n' = unat (0 :: usize) + length ws \<and> length ws = min (length it) (unat free - unat (0 :: usize))"
    by (rule batch_loop_rep [OF r(1) _ _ _ b]) (simp_all add: assms(2) r(2))
  then obtain ws where ws: "it = ws @ rest'" "ring_rep k s2 (?p\<lparr>vals := vals ?p @ ws\<rparr>)"
      "unat n' = unat (0 :: usize) + length ws" "length ws = min (length it) (unat free - unat (0 :: usize))"
    by (elim exE conjE) (rule that)
  have n: "unat n = length ws" using ws(3) out(1) by simp
  have rep: "ring_rep k s' (?p\<lparr>vals := vals ?p @ ws, tl_pos := length (vals ?p @ ws)\<rparr>)"
    using batch_publish_rep [OF ws(2) _ n] out(3) assms(2) by simp
  have "length ws = min (length it) (rd p + 2 ^ k - length (vals p))"
    using ws(4) r(2) by (simp only: unsigned_0 diff_zero)
  then show ?thesis
    by (intro exI [of _ ws] conjI) (use ws(1) out(2) in blast, rule n, assumption, use rep in simp)
qed

text \<open>
  C13: \<open>publish_batch\<close> sends the first items of the iterator, as many as fit the free slots, with a single
  publication, leaves the others in the iterator, and returns their number.
\<close>

theorem publish_batch_sends_prefix:
  assumes "ring_idle s" and "publish_batch it s = (n, rest, s')"
  shows "ring_idle s' \<and> it = take (unat n) it @ rest \<and>
    unat n = min (length it) (unat (capacity s) - length (drop_shared s)) \<and>
    drop_shared s' = drop_shared s @ take (unat n) it"
proof -
  obtain k p where rep: "ring_rep k s p" and hd: "hd_pos p = rd p" and tl: "tl_pos p = length (vals p)"
    using assms(1) by (auto simp: ring_idle_def)
  obtain ws where ws: "it = ws @ rest" "unat n = length ws"
      "length ws = min (length it) (rd p + 2 ^ k - length (vals p))"
      "ring_rep k s' (p\<lparr>hc := rd p, vals := vals p @ ws, tl_pos := length (vals p @ ws)\<rparr>)" (is "ring_rep k s' ?p")
    using publish_batch_rep [OF rep tl hd assms(2)] by (elim exE conjE) (rule that)
  have pos: "rd p \<le> length (vals p)" using rep hd tl by (auto simp: ring_rep_def)
  have items: "drop_shared s = drop (rd p) (vals p)"
    using drop_shared_rep [OF rep hd] tl by simp
  have "ring_idle s'" using hd ws(4) by (auto simp: ring_idle_def intro!: exI [of _ k] exI [of _ ?p])
  moreover have "drop_shared s' = drop_shared s @ ws"
    using drop_shared_rep [OF ws(4)] hd items pos by simp
  moreover have "unat (capacity s) - length (drop_shared s) = rd p + 2 ^ k - length (vals p)"
    using capacity_rep [OF rep] items pos by simp
  moreover have "take (unat n) it = ws" unfolding ws(1,2) by simp
  ultimately show ?thesis using ws(1-3) by (simp only: min_def)
qed

theorem publish_batch_sends_prefix_witness:
  "\<exists>s :: nat ring_state. ring 2 = Some s \<and> (\<exists>n s'. publish_batch [1, 2, 3] s = (n, [3], s') \<and> unat n = 2)"
proof -
  have "is_power_of_two 2" by (simp add: is_power_of_two_def)
  then obtain s :: "nat ring_state" where s: "ring 2 = Some s" by (simp add: ring_def)
  obtain n rest s' where b: "publish_batch [1, 2, 3] s = (n, rest, s')" by (metis prod_cases3)
  note init = ring_init_idle [OF s]
  have "unat n = 2" "[1, 2, 3] = take (unat n) [1, 2, 3] @ rest"
    using publish_batch_sends_prefix [OF init(1) b] init(2,3) by auto
  then have "rest = [3]" by simp
  with s b \<open>unat n = 2\<close> show ?thesis by blast
qed

end
