(* ===== verification/Utf8.thy ===== *)
theory Utf8
  imports Prelude
begin

text \<open>
  Well-formed UTF-8 as the standard library decides it (\<open>str::from_utf8\<close>): the byte sequences of the Unicode
  standard's table, without overlong forms, surrogates and values above U+10FFFF.
\<close>

definition is_cont :: "byte \<Rightarrow> bool" where "is_cont b \<longleftrightarrow> 0x80 \<le> b \<and> b \<le> 0xBF"

text \<open>The second byte a lead byte of three or four bytes allows.\<close>

definition second_ok :: "byte \<Rightarrow> byte \<Rightarrow> bool" where
  "second_ok lead b \<longleftrightarrow>
     (if lead = 0xE0 then 0xA0 \<le> b \<and> b \<le> 0xBF
      else if lead = 0xED then 0x80 \<le> b \<and> b \<le> 0x9F
      else if lead = 0xF0 then 0x90 \<le> b \<and> b \<le> 0xBF
      else if lead = 0xF4 then 0x80 \<le> b \<and> b \<le> 0x8F
      else is_cont b)"

fun utf8_valid :: "bytes \<Rightarrow> bool" where
  "utf8_valid [] = True"
| "utf8_valid (b # bs) =
     (if b < 0x80 then utf8_valid bs
      else if 0xC2 \<le> b \<and> b \<le> 0xDF then
        (case bs of c # r \<Rightarrow> is_cont c \<and> utf8_valid r | _ \<Rightarrow> False)
      else if 0xE0 \<le> b \<and> b \<le> 0xEF then
        (case bs of c # d # r \<Rightarrow> second_ok b c \<and> is_cont d \<and> utf8_valid r | _ \<Rightarrow> False)
      else if 0xF0 \<le> b \<and> b \<le> 0xF4 then
        (case bs of c # d # e # r \<Rightarrow> second_ok b c \<and> is_cont d \<and> is_cont e \<and> utf8_valid r | _ \<Rightarrow> False)
      else False)"

declare utf8_valid.simps(2) [simp del]

section \<open>Characters\<close>

abbreviation ascii :: "bytes \<Rightarrow> bool" where
  "ascii \<equiv> list_all (\<lambda>b. b < 0x80)"

lemma utf8_Cons_ascii: "b < 0x80 \<Longrightarrow> utf8_valid (b # bs) = utf8_valid bs"
  by (subst utf8_valid.simps) simp

lemma utf8_append: "utf8_valid xs \<Longrightarrow> utf8_valid (xs @ ys) = utf8_valid ys"
proof (induction xs rule: utf8_valid.induct)
  case (2 b bs)
  then show ?case
    by (auto simp: utf8_valid.simps(2) [of b bs] utf8_valid.simps(2) [of b "bs @ ys"] split: if_splits list.splits)
qed simp

lemma ascii_utf8: "ascii xs \<Longrightarrow> utf8_valid xs"
  by (induction xs) (simp_all add: utf8_Cons_ascii)

text \<open>A character of several bytes at the front.\<close>

lemma utf8_Cons_high:
  assumes "utf8_valid (b # bs)" and "\<not> b < 0x80"
  shows "\<exists>cs rest. bs = cs @ rest \<and> list_all (\<lambda>c. \<not> c < 0x80) cs \<and> utf8_valid (b # cs) \<and> utf8_valid rest"
proof -
  have cont: "is_cont c \<Longrightarrow> \<not> c < 0x80" "second_ok b c \<Longrightarrow> \<not> c < 0x80" for c
    by (auto simp: is_cont_def second_ok_def word_le_nat_alt word_less_nat_alt split: if_splits)
  consider c rest where "bs = [c] @ rest" "is_cont c" "utf8_valid rest" "0xC2 \<le> b \<and> b \<le> 0xDF"
    | c d rest where "bs = [c, d] @ rest" "second_ok b c" "is_cont d" "utf8_valid rest" "0xE0 \<le> b \<and> b \<le> 0xEF" "\<not> (0xC2 \<le> b \<and> b \<le> 0xDF)"
    | c d e rest where "bs = [c, d, e] @ rest" "second_ok b c" "is_cont d" "is_cont e" "utf8_valid rest" "0xF0 \<le> b \<and> b \<le> 0xF4"
        "\<not> (0xC2 \<le> b \<and> b \<le> 0xDF)" "\<not> (0xE0 \<le> b \<and> b \<le> 0xEF)"
    using assms by (subst (asm) utf8_valid.simps) (auto split: if_splits list.splits)
  then show ?thesis
  proof cases
    case 1
    moreover have "utf8_valid [b, c]" using 1(2,4) assms(2) by (subst utf8_valid.simps) simp
    ultimately show ?thesis using cont(1) [of c] by (intro exI [of _ "[c]"] exI [of _ rest]) simp
  next
    case 2
    moreover have "utf8_valid [b, c, d]" using 2 assms(2) by (subst utf8_valid.simps) auto
    ultimately show ?thesis using cont(2) [of c] cont(1) [of d] by (intro exI [of _ "[c, d]"] exI [of _ rest]) simp
  next
    case 3
    moreover have "utf8_valid [b, c, d, e]" using 3 assms(2) by (subst utf8_valid.simps) auto
    ultimately show ?thesis using cont(2) [of c] cont(1) [of d] cont(1) [of e] by (intro exI [of _ "[c, d, e]"] exI [of _ rest]) simp
  qed
qed

text \<open>Cutting a text where a class of bytes that holds all the bytes above ASCII ends.\<close>

lemma utf8_takeWhile:
  assumes "utf8_valid xs" and "\<And>b. \<not> b < 0x80 \<Longrightarrow> P b"
  shows "utf8_valid (takeWhile P xs) \<and> utf8_valid (dropWhile P xs)"
  using assms(1)
proof (induction "length xs" arbitrary: xs rule: less_induct)
  case less
  show ?case
  proof (cases xs)
    case (Cons b bs)
    show ?thesis
    proof (cases "b < 0x80")
      case True
      then show ?thesis using less.hyps [of bs] less.prems Cons by (auto simp: utf8_Cons_ascii)
    next
      case False
      then obtain cs rest where r: "bs = cs @ rest" "list_all (\<lambda>c. \<not> c < 0x80) cs" "utf8_valid (b # cs)" "utf8_valid rest"
        using utf8_Cons_high less.prems Cons by metis
      have P: "\<forall>x\<in>set (b # cs). P x" using False r(2) assms(2) by (auto simp: list_all_iff)
      have "takeWhile P xs = (b # cs) @ takeWhile P rest" "dropWhile P xs = dropWhile P rest"
        using P Cons r(1) by (simp_all add: takeWhile_append2 dropWhile_append2)
      then show ?thesis using less.hyps [of rest] r Cons utf8_append [OF r(3)] by auto
    qed
  qed simp
qed

end
