(* ===== verification/Swar.thy ===== *)
theory Swar
  imports Utf8
begin

text \<open>
  \<^verbatim>\<open>crates/inf-simd/src/swar.rs\<close>: parsing an ASCII integer prefix, the first eight digits at once inside
  a 64-bit word. The functions are the source's, over words; an \<open>i64\<close> is an \<open>int\<close>, its range written
  out. \<open>scalar_parse_int\<close> is the reference the repository tests the parser against, a scan of the digits and
  \<open>str::parse\<close>. The theory proves that the word arithmetic computes it, borrows and carries between the bytes
  included, on every input with at most nineteen digits, and that a longer run of digits is refused, whatever its
  value.
\<close>

section \<open>Model\<close>

definition ASCII_ZERO_BROADCAST :: u64 where "ASCII_ZERO_BROADCAST = 0x3030303030303030"
definition DIGIT_OVERFLOW_BIAS :: u64 where "DIGIT_OVERFLOW_BIAS = 0x7676767676767676"
definition BYTE_HIGH_BITS :: u64 where "BYTE_HIGH_BITS = 0x8080808080808080"
definition EVEN_BYTE_MASK :: u64 where "EVEN_BYTE_MASK = 0x00FF00FF00FF00FF"
definition EVEN_HALFWORD_MASK :: u64 where "EVEN_HALFWORD_MASK = 0x0000FFFF0000FFFF"
definition LOW_U32_MASK :: u64 where "LOW_U32_MASK = 0x00000000FFFFFFFF"
definition NON_DIGIT_SENTINEL :: byte where "NON_DIGIT_SENTINEL = 0x3A"
definition I64_MIN_MAGNITUDE :: u64 where "I64_MIN_MAGNITUDE = 0x8000000000000000"
definition MAX_I64_DIGITS :: nat where "MAX_I64_DIGITS = 19"

definition trailing_zeros :: "u64 \<Rightarrow> nat" where
  "trailing_zeros x = length (takeWhile (\<lambda>i. \<not> bit x i) [0..<64])"

definition load_padded_chunk :: "bytes \<Rightarrow> u64" where
  "load_padded_chunk buf =
     (if 8 \<le> length buf then of_le_bytes (take 8 buf)
      else of_le_bytes (buf @ replicate (8 - length buf) NON_DIGIT_SENTINEL))"

definition leading_digit_count :: "u64 \<Rightarrow> nat" where
  "leading_digit_count digit_values =
     (let invalid = (digit_values OR (digit_values + DIGIT_OVERFLOW_BIAS)) AND BYTE_HIGH_BITS
      in if invalid = 0 then 8 else trailing_zeros invalid div 8)"

definition valid_byte_mask :: "nat \<Rightarrow> u64" where
  "valid_byte_mask digit_count =
     (if digit_count = 0 then 0 else if digit_count = 8 then - 1 else push_bit (digit_count * 8) 1 - 1)"

definition parse_chunk_value :: "u64 \<Rightarrow> nat \<Rightarrow> u64" where
  "parse_chunk_value digit_values digit_count =
     (let mask = valid_byte_mask digit_count;
          aligned = push_bit ((8 - digit_count) * 8) (digit_values AND mask);
          even = aligned AND EVEN_BYTE_MASK; odd = drop_bit 8 aligned AND EVEN_BYTE_MASK;
          pairs = even * 10 + odd;
          low_pairs = pairs AND EVEN_HALFWORD_MASK; high_pairs = drop_bit 16 pairs AND EVEN_HALFWORD_MASK;
          quads = low_pairs * 100 + high_pairs;
          low_quad = quads AND LOW_U32_MASK; high_quad = drop_bit 32 quads
      in low_quad * 10000 + high_quad)"

text \<open>\<open>u64::checked_mul\<close> and \<open>u64::checked_add\<close>.\<close>

definition checked_mul_u64 :: "u64 \<Rightarrow> u64 \<Rightarrow> u64 option" where
  "checked_mul_u64 a b = (if unat a * unat b < 2 ^ 64 then Some (a * b) else None)"

definition checked_add_u64 :: "u64 \<Rightarrow> u64 \<Rightarrow> u64 option" where
  "checked_add_u64 a b = (if unat a + unat b < 2 ^ 64 then Some (a + b) else None)"

text \<open>The loop over the digits after the first eight, on the rest of the buffer.\<close>

fun digit_loop :: "nat \<Rightarrow> u64 \<Rightarrow> bytes \<Rightarrow> (u64 \<times> nat) option" where
  "digit_loop consumed val [] = Some (val, consumed)"
| "digit_loop consumed val (b # bs) =
     (let digit = b - 0x30
      in if digit > 9 then Some (val, consumed)
         else if consumed = MAX_I64_DIGITS then None
         else case checked_mul_u64 val 10 of
             None \<Rightarrow> None
           | Some v \<Rightarrow> (case checked_add_u64 v (ucast digit) of
               None \<Rightarrow> None
             | Some v' \<Rightarrow> digit_loop (consumed + 1) v' bs))"

definition parse_unsigned_prefix :: "bytes \<Rightarrow> (u64 \<times> nat) option" where
  "parse_unsigned_prefix buf =
     (let word = load_padded_chunk buf;
          digit_values = word - ASCII_ZERO_BROADCAST;
          digit_count = leading_digit_count digit_values
      in if digit_count = 0 then None
         else let val = parse_chunk_value digit_values digit_count
         in if digit_count < 8 then Some (val, digit_count) else digit_loop 8 val (drop 8 buf))"

definition i64_try_from :: "u64 \<Rightarrow> int option" where
  "i64_try_from m = (if unat m < 2 ^ 63 then Some (int (unat m)) else None)"

definition swar_parse_int :: "bytes \<Rightarrow> (int \<times> nat) option" where
  "swar_parse_int buf =
     (case buf of
        [] \<Rightarrow> None
      | first # _ \<Rightarrow>
          let negative = (first = 0x2D); explicit_plus = (first = 0x2B);
              sign_len = (if negative \<or> explicit_plus then 1 else 0)
          in case parse_unsigned_prefix (drop sign_len buf) of
               None \<Rightarrow> None
             | Some (magnitude, digit_len) \<Rightarrow>
                 let consumed = sign_len + digit_len
                 in if negative then
                      (if magnitude = I64_MIN_MAGNITUDE then Some (- (2 ^ 63), consumed)
                       else map_option (\<lambda>v. (- v, consumed)) (i64_try_from magnitude))
                    else map_option (\<lambda>v. (v, consumed)) (i64_try_from magnitude))"

section \<open>The digit-by-digit specification\<close>

definition is_digit :: "byte \<Rightarrow> bool" where
  "is_digit b \<longleftrightarrow> 0x30 \<le> b \<and> b \<le> 0x39"

definition digit_val :: "byte \<Rightarrow> nat" where
  "digit_val b = unat b - 48"

definition decimal :: "bytes \<Rightarrow> nat" where
  "decimal ds = foldl (\<lambda>n d. n * 10 + digit_val d) 0 ds"

definition sign_len :: "bytes \<Rightarrow> nat" where
  "sign_len buf = (if take 1 buf = [0x2D] \<or> take 1 buf = [0x2B] then 1 else 0)"

text \<open>The run of digits behind the sign, however long.\<close>

definition digit_run :: "bytes \<Rightarrow> bytes" where
  "digit_run buf = takeWhile is_digit (drop (sign_len buf) buf)"

definition in_i64 :: "bool \<Rightarrow> nat \<Rightarrow> bool" where
  "in_i64 negative m \<longleftrightarrow> (if negative then m \<le> 2 ^ 63 else m < 2 ^ 63)"

text \<open>\<open>str::parse\<close> to an \<open>i64\<close>: an optional sign, at least one digit and nothing else, the value in range.\<close>

definition i64_from_str :: "bytes \<Rightarrow> int option" where
  "i64_from_str txt =
     (let negative = (take 1 txt = [0x2D]); ds = drop (sign_len txt) txt
      in if ds \<noteq> [] \<and> list_all is_digit ds \<and> in_i64 negative (decimal ds)
         then Some (if negative then - int (decimal ds) else int (decimal ds)) else None)"

definition I64_MIN_TEXT :: bytes where
  "I64_MIN_TEXT = [0x2D, 0x39, 0x32, 0x32, 0x33, 0x33, 0x37, 0x32, 0x30, 0x33, 0x36, 0x38, 0x35, 0x34, 0x37, 0x37, 0x35, 0x38, 0x30, 0x38]"

definition scalar_parse_int :: "bytes \<Rightarrow> (int \<times> nat) option" where
  "scalar_parse_int buf =
     (case buf of
        [] \<Rightarrow> None
      | first # _ \<Rightarrow>
          let sign_len = (if first = 0x2D \<or> first = 0x2B then 1 else 0); negative = (first = 0x2D);
              stop = sign_len + length (takeWhile is_digit (drop sign_len buf))
          in if stop = sign_len then None
             else let txt = take stop buf
             in if \<not> utf8_valid txt then None
                else case i64_from_str txt of
                    Some v \<Rightarrow> Some (v, stop)
                  | None \<Rightarrow> if negative \<and> txt = I64_MIN_TEXT then Some (- (2 ^ 63), stop) else None)"

section \<open>Bytes of a word\<close>

text \<open>A sum of scaled bytes, some of which may be out of range before a borrow or a carry.\<close>

primrec byte_sum :: "int list \<Rightarrow> int" where
  "byte_sum [] = 0"
| "byte_sum (e # es) = e + 256 * byte_sum es"

lemma of_le_bytes_byte_sum: "(of_le_bytes bs :: u64) = of_int (byte_sum (map uint bs))"
proof (induction bs)
  case Nil
  then show ?case by simp
next
  case (Cons b bs)
  have "(ucast b :: u64) AND push_bit 8 (of_le_bytes bs) = 0"
    by (rule bit_word_eqI) (auto simp: bit_and_iff bit_push_bit_iff bit_ucast_iff dest: bit_imp_le_length)
  then have "(ucast b :: u64) OR push_bit 8 (of_le_bytes bs) = ucast b + push_bit 8 (of_le_bytes bs)"
    by (simp add: disjunctive_add_eq_or)
  also have "\<dots> = of_int (uint b) + 256 * of_le_bytes bs"
    by (simp add: push_bit_eq_mult)
  finally show ?case by (simp add: Cons.IH)
qed

lemma byte_sum_map2:
  "length es = length fs \<Longrightarrow> byte_sum (map2 (+) es fs) = byte_sum es + byte_sum fs"
  by (induction es fs rule: list_induct2) (simp_all add: algebra_simps)

lemma byte_sum_bit:
  assumes "i < length es" and "\<forall>j<i. 0 \<le> es ! j \<and> es ! j < 256" and "b < 8"
  shows "bit (byte_sum es) (8 * i + b) \<longleftrightarrow> bit (es ! i) b"
  using assms
proof (induction es arbitrary: i)
  case Nil
  then show ?case by simp
next
  case (Cons e es)
  show ?case
  proof (cases i)
    case 0
    have "e + 256 * byte_sum es = e + push_bit 8 (byte_sum es)" by (simp add: push_bit_eq_mult)
    then have "take_bit 8 (e + 256 * byte_sum es) = take_bit 8 e"
      by (simp add: take_bit_eq_mod push_bit_eq_mult)
    then have "bit (e + 256 * byte_sum es) b \<longleftrightarrow> bit e b"
      using Cons.prems(3) by (metis bit_take_bit_iff)
    then show ?thesis by (simp add: 0)
  next
    case (Suc i')
    have "0 \<le> e" "e < 256" using Cons.prems(2) Suc by force+
    then have "drop_bit 8 (e + 256 * byte_sum es) = byte_sum es"
      by (simp add: drop_bit_eq_div)
    then have "bit (e + 256 * byte_sum es) (8 + (8 * i' + b)) \<longleftrightarrow> bit (byte_sum es) (8 * i' + b)"
      by (metis bit_drop_bit_eq comp_apply)
    moreover have "bit (byte_sum es) (8 * i' + b) \<longleftrightarrow> bit (es ! i') b"
      using Cons.prems Suc by (intro Cons.IH) force+
    ultimately show ?thesis by (simp add: Suc add.assoc)
  qed
qed

lemma byte_sum_word_bit:
  assumes "length es = 8" and "\<forall>j<i. 0 \<le> es ! j \<and> es ! j < 256" and "i < 8" and "b < 8"
  shows "bit (of_int (byte_sum es) :: u64) (8 * i + b) \<longleftrightarrow> bit (es ! i) b"
proof -
  have "8 * i + b < 64" using assms(3,4) by linarith
  then show ?thesis
    using byte_sum_bit [of i es b] assms by (simp add: bit_of_int_iff)
qed

lemma trailing_zeros_eq:
  assumes "bit x m" and "m < 64" and "\<forall>j<m. \<not> bit x j"
  shows "trailing_zeros x = m"
proof -
  have "[0..<64] = [0..<m] @ [m..<64]"
    using upt_add_eq_append [of 0 m "64 - m"] assms(2) by simp
  moreover have "[m..<64] = m # [Suc m..<64]" using assms(2) by (simp add: upt_conv_Cons)
  ultimately have "[0..<64] = [0..<m] @ m # [Suc m..<64]" by simp
  moreover have "takeWhile (\<lambda>i. \<not> bit x i) ([0..<m] @ m # [Suc m..<64]) = [0..<m]"
    using assms(1,3) by (subst takeWhile_append2) auto
  ultimately show ?thesis by (simp add: trailing_zeros_def)
qed

section \<open>Counting the digits\<close>

lemma is_digit_uint: "is_digit b \<longleftrightarrow> 0 \<le> uint b - 48 \<and> uint b - 48 \<le> 9"
  by (simp add: is_digit_def word_le_def)

lemma bit7_small: "0 \<le> e \<Longrightarrow> e < 128 \<Longrightarrow> \<not> bit (e :: int) 7"
  by (simp add: bit_iff_odd div_pos_pos_trivial)

lemma bit7_high: "128 \<le> e \<Longrightarrow> e < 256 \<Longrightarrow> bit (e :: int) 7"
proof -
  assume "128 \<le> e" "e < 256"
  then have "e div 128 = 1" by (intro int_div_pos_eq [of _ _ _ "e - 128"]) auto
  then show ?thesis by (simp add: bit_iff_odd)
qed

lemma bit7_neg: "- 128 \<le> e \<Longrightarrow> e < 0 \<Longrightarrow> bit (e :: int) 7"
proof -
  assume "- 128 \<le> e" "e < 0"
  then have "e div 128 = - 1" by (intro int_div_pos_eq [of _ _ _ "e + 128"]) auto
  then show ?thesis by (simp add: bit_iff_odd)
qed

lemma non_digit_flag:
  assumes "\<not> is_digit b"
  shows "bit (uint b - 48) 7 \<or> bit (uint b - 48 + 118) 7"
proof -
  have "0 \<le> uint b" "uint b < 256" using uint_lt2p [of b] by simp_all
  moreover have "uint b - 48 < 0 \<or> 9 < uint b - 48" using assms by (auto simp: is_digit_uint)
  ultimately consider "- 128 \<le> uint b - 48 \<and> uint b - 48 < 0"
    | "128 \<le> uint b - 48 + 118 \<and> uint b - 48 + 118 < 256" | "128 \<le> uint b - 48 \<and> uint b - 48 < 256"
    by linarith
  then show ?thesis using bit7_neg bit7_high by cases auto
qed

lemma digit_flag:
  assumes "is_digit b"
  shows "\<not> bit (uint b - 48) 7" and "\<not> bit (uint b - 48 + 118) 7"
    and "0 \<le> uint b - 48 \<and> uint b - 48 < 256" and "0 \<le> uint b - 48 + 118 \<and> uint b - 48 + 118 < 256"
proof -
  have d: "0 \<le> uint b - 48" "uint b - 48 \<le> 9" using assms by (auto simp: is_digit_uint)
  show "\<not> bit (uint b - 48) 7" "\<not> bit (uint b - 48 + 118) 7"
    by (rule bit7_small; use d in linarith)+
  show "0 \<le> uint b - 48 \<and> uint b - 48 < 256" "0 \<le> uint b - 48 + 118 \<and> uint b - 48 + 118 < 256"
    using d by linarith+
qed

lemma list8_obtain:
  assumes "length xs = 8"
  obtains a b c d e f g h where "xs = [a, b, c, d, e, f, g, h]"
  using assms by (auto simp: numeral_eq_Suc length_Suc_conv)

lemma digit_values_sum:
  assumes "length cs = 8"
  shows "of_le_bytes cs - ASCII_ZERO_BROADCAST = of_int (byte_sum (map (\<lambda>b. uint b - 48) cs))"
    and "of_le_bytes cs - ASCII_ZERO_BROADCAST + DIGIT_OVERFLOW_BIAS =
      of_int (byte_sum (map (\<lambda>b. uint b - 48 + 118) cs))"
proof -
  obtain a b c d e f g h where cs: "cs = [a, b, c, d, e, f, g, h]"
    using list8_obtain [OF assms] .
  show "of_le_bytes cs - ASCII_ZERO_BROADCAST = of_int (byte_sum (map (\<lambda>b. uint b - 48) cs))"
    unfolding of_le_bytes_byte_sum by (simp add: cs ASCII_ZERO_BROADCAST_def algebra_simps)
  show "of_le_bytes cs - ASCII_ZERO_BROADCAST + DIGIT_OVERFLOW_BIAS =
      of_int (byte_sum (map (\<lambda>b. uint b - 48 + 118) cs))"
    unfolding of_le_bytes_byte_sum
    by (simp add: cs ASCII_ZERO_BROADCAST_def DIGIT_OVERFLOW_BIAS_def algebra_simps)
qed

lemma bit_BYTE_HIGH_BITS: "i < 8 \<Longrightarrow> b < 8 \<Longrightarrow> bit BYTE_HIGH_BITS (8 * i + b) \<longleftrightarrow> b = 7"
proof -
  assume ib: "i < 8" "b < 8"
  have "BYTE_HIGH_BITS = of_int (byte_sum (replicate 8 128))"
    by (simp add: BYTE_HIGH_BITS_def numeral_eq_Suc)
  moreover have "bit (of_int (byte_sum (replicate 8 128)) :: u64) (8 * i + b) \<longleftrightarrow> bit (128 :: int) b"
    using byte_sum_word_bit [of "replicate 8 128" i b] ib by simp
  moreover have "bit (128 :: int) b \<longleftrightarrow> b = 7"
    using bit_exp_iff [of 7 b, where 'a = int] by simp
  ultimately show ?thesis by simp
qed

lemma leading_digit_count_correct:
  assumes "length cs = 8"
  shows "leading_digit_count (of_le_bytes cs - ASCII_ZERO_BROADCAST) = length (takeWhile is_digit cs)"
proof -
  let ?dv = "of_le_bytes cs - ASCII_ZERO_BROADCAST :: u64"
  define invalid where "invalid = (?dv OR (?dv + DIGIT_OVERFLOW_BIAS)) AND BYTE_HIGH_BITS"
  define n where "n = length (takeWhile is_digit cs)"
  have dig: "is_digit (cs ! i)" if "i < n" for i
    using that set_takeWhileD [of "cs ! i" is_digit cs] nth_mem [of i "takeWhile is_digit cs"]
    by (simp add: n_def takeWhile_nth)
  have n8: "n \<le> 8" using length_takeWhile_le [of is_digit cs] assms by (simp add: n_def)
  have inv: "bit invalid (8 * i + b) \<longleftrightarrow>
      b = 7 \<and> (bit (uint (cs ! i) - 48) 7 \<or> bit (uint (cs ! i) - 48 + 118) 7)"
    if "i \<le> n" "i < 8" "b < 8" for i b
  proof -
    have pre: "\<forall>j<i. is_digit (cs ! j)" using dig that(1) by auto
    have "bit ?dv (8 * i + b) \<longleftrightarrow> bit (uint (cs ! i) - 48) b"
      unfolding digit_values_sum(1) [OF assms]
      by (subst byte_sum_word_bit) (use that pre assms digit_flag(3) in auto)
    moreover have "bit (?dv + DIGIT_OVERFLOW_BIAS) (8 * i + b) \<longleftrightarrow> bit (uint (cs ! i) - 48 + 118) b"
      unfolding digit_values_sum(2) [OF assms]
      by (subst byte_sum_word_bit) (use that pre assms digit_flag(4) in auto)
    ultimately show ?thesis
      using that by (auto simp: invalid_def bit_and_iff bit_or_iff bit_BYTE_HIGH_BITS)
  qed
  have low: "\<not> bit invalid p" if "p < 8 * n + 7" "p < 64" for p
  proof -
    define i b where "i = p div 8" and "b = p mod 8"
    have p: "p = 8 * i + b" and ib: "b < 8" "i < 8" using that by (auto simp: i_def b_def)
    have "i \<le> n" using that p ib by linarith
    moreover have "i = n \<Longrightarrow> b \<noteq> 7" using that p by auto
    ultimately show ?thesis
      unfolding p using inv [of i b] ib dig [of i] digit_flag(1,2) by (cases "i = n") auto
  qed
  show ?thesis
  proof (cases "n = 8")
    case True
    then have "\<not> bit invalid p" for p using low [of p] bit_imp_le_length [of invalid p] by auto
    then have "invalid = 0" by (intro bit_word_eqI) simp
    then show ?thesis using True unfolding leading_digit_count_def Let_def invalid_def [symmetric]
      by (simp add: n_def)
  next
    case False
    then have lt: "n < 8" using n8 by simp
    have nd: "\<not> is_digit (cs ! n)"
      using nth_length_takeWhile [of is_digit cs] lt assms by (simp add: n_def)
    then have top: "bit invalid (8 * n + 7)" using inv [of n 7] lt non_digit_flag by auto
    then have "trailing_zeros invalid = 8 * n + 7"
      using low lt by (intro trailing_zeros_eq) auto
    moreover have "invalid \<noteq> 0" using top by auto
    ultimately show ?thesis unfolding leading_digit_count_def Let_def invalid_def [symmetric]
      by (simp add: n_def)
  qed
qed

section \<open>The value of the digits\<close>

text \<open>A word of eight bytes, and the bytewise effect of masks and shifts on it.\<close>

definition word8 :: "int list \<Rightarrow> u64" where "word8 es = of_int (byte_sum es)"

definition bytes8 :: "int list \<Rightarrow> bool" where
  "bytes8 es \<longleftrightarrow> length es = 8 \<and> (\<forall>e\<in>set es. 0 \<le> e \<and> e < 256)"

lemma bit_word8: "bytes8 es \<Longrightarrow> i < 8 \<Longrightarrow> b < 8 \<Longrightarrow> bit (word8 es) (8 * i + b) \<longleftrightarrow> bit (es ! i) b"
  unfolding word8_def bytes8_def by (rule byte_sum_word_bit) auto

lemma word8_eqI:
  assumes "bytes8 es" and "\<And>i b. i < 8 \<Longrightarrow> b < 8 \<Longrightarrow> bit x (8 * i + b) \<longleftrightarrow> bit (es ! i) b"
  shows "x = word8 es"
proof (rule bit_word_eqI)
  fix p :: nat
  assume "p < LENGTH(64)"
  then have p: "p div 8 < 8" "p mod 8 < 8" "p = 8 * (p div 8) + p mod 8" by auto
  show "bit x p \<longleftrightarrow> bit (word8 es) p"
    by (subst (1 2) p(3)) (simp only: assms(2) [OF p(1,2)] bit_word8 [OF assms(1) p(1,2)])
qed

lemma word8_and:
  assumes "bytes8 es" and "bytes8 fs"
  shows "word8 es AND word8 fs = word8 (map2 (AND) es fs)"
proof (rule word8_eqI)
  have "\<And>e f. (e, f) \<in> set (zip es fs) \<Longrightarrow> 0 \<le> e AND f \<and> e AND f < 256"
    using assms by (auto simp: bytes8_def dest!: set_zip_leftD intro: order.strict_trans1 [OF AND_upper1])
  then show "bytes8 (map2 (AND) es fs)"
    using assms by (auto simp: bytes8_def)
next
  fix i b :: nat
  assume "i < 8" "b < 8"
  then show "bit (word8 es AND word8 fs) (8 * i + b) \<longleftrightarrow> bit (map2 (AND) es fs ! i) b"
    using assms by (simp add: bit_and_iff bit_word8) (simp add: bytes8_def bit_and_iff)
qed

lemma word8_drop:
  assumes "bytes8 (e # es)"
  shows "drop_bit 8 (word8 (e # es)) = word8 (es @ [0])"
proof (rule word8_eqI)
  show "bytes8 (es @ [0])" using assms by (auto simp: bytes8_def)
next
  fix i b :: nat
  assume ib: "i < 8" "b < 8"
  have len: "length es = 7" using assms by (simp add: bytes8_def)
  have d: "bit (drop_bit 8 (word8 (e # es))) (8 * i + b) \<longleftrightarrow> bit (word8 (e # es)) (8 * Suc i + b)"
    by (simp add: bit_drop_bit_eq add.assoc)
  show "bit (drop_bit 8 (word8 (e # es))) (8 * i + b) \<longleftrightarrow> bit ((es @ [0]) ! i) b"
  proof (cases "i = 7")
    case True
    then show ?thesis
      unfolding d using len by (auto simp: nth_append dest!: bit_imp_le_length)
  next
    case False
    then have "Suc i < 8" using ib by simp
    then show ?thesis
      unfolding d bit_word8 [OF assms \<open>Suc i < 8\<close> ib(2)] using len by (simp add: nth_append)
  qed
qed

lemma masks_word8:
  "EVEN_BYTE_MASK = word8 [255, 0, 255, 0, 255, 0, 255, 0]"
  "EVEN_HALFWORD_MASK = word8 [255, 255, 0, 0, 255, 255, 0, 0]"
  by (simp_all add: word8_def EVEN_BYTE_MASK_def EVEN_HALFWORD_MASK_def)

lemma and_255: "0 \<le> e \<Longrightarrow> e < 256 \<Longrightarrow> e AND 255 = (e :: int)"
proof -
  assume "0 \<le> e" "e < 256"
  then have "take_bit 8 e = e" by (simp add: take_bit_int_eq_self)
  then show ?thesis by (simp add: take_bit_eq_mask mask_eq_exp_minus_1)
qed

lemma low_high_quads:
  assumes "0 \<le> q" and "q < 10000" and "0 \<le> r" and "r < 10000"
  shows "(of_int (q + 2 ^ 32 * r) :: u64) AND LOW_U32_MASK = of_int q"
    and "drop_bit 32 (of_int (q + 2 ^ 32 * r) :: u64) = of_int r"
proof -
  have u: "uint (of_int x :: u64) = x" if "0 \<le> x" "x < 2 ^ 64" for x
    using that by (simp add: unsigned_of_int take_bit_int_eq_self)
  have x: "0 \<le> q + 2 ^ 32 * r" "q + 2 ^ 32 * r < 2 ^ 64" using assms by auto
  have t: "take_bit LENGTH(64) (q + 2 ^ 32 * r) = q + 2 ^ 32 * r"
    using x by (simp add: take_bit_int_eq_self)
  have "LOW_U32_MASK = mask 32" by (simp add: LOW_U32_MASK_def mask_eq_exp_minus_1)
  then have "(of_int (q + 2 ^ 32 * r) :: u64) AND LOW_U32_MASK = take_bit 32 (of_int (q + 2 ^ 32 * r))"
    by (simp add: take_bit_eq_mask)
  also have "\<dots> = of_int q"
    unfolding word_uint_eq_iff unsigned_take_bit_eq u [OF x]
    using assms by (subst u) (simp_all add: take_bit_eq_mod)
  finally show "(of_int (q + 2 ^ 32 * r) :: u64) AND LOW_U32_MASK = of_int q" .
  show "drop_bit 32 (of_int (q + 2 ^ 32 * r) :: u64) = of_int r"
    unfolding word_uint_eq_iff unsigned_drop_bit_eq u [OF x] t
    using assms by (subst u) (simp_all add: drop_bit_eq_div)
qed

lemma byte_sum_append: "byte_sum (es @ fs) = byte_sum es + 256 ^ length es * byte_sum fs"
  by (induction es) (simp_all add: algebra_simps)

lemma byte_sum_range:
  "\<forall>e\<in>set es. 0 \<le> e \<and> e < 256 \<Longrightarrow> 0 \<le> byte_sum es \<and> byte_sum es < 256 ^ length es"
proof (induction es)
  case (Cons e es)
  then have "0 \<le> e" "e \<le> 255" "0 \<le> byte_sum es" "byte_sum es \<le> 256 ^ length es - 1" by auto
  then show ?case by simp
qed simp

lemma valid_byte_mask_take: "n \<le> 8 \<Longrightarrow> x AND valid_byte_mask n = take_bit (8 * n) x"
proof (cases "n = 8")
  case True
  then show ?thesis by (simp add: valid_byte_mask_def take_bit_word_eq_self)
next
  case False
  then show ?thesis
    by (auto simp: valid_byte_mask_def take_bit_eq_mask mask_eq_exp_minus_1 push_bit_eq_mult mult.commute)
qed

lemma aligned_digits:
  assumes "length es = 8" and "n \<le> 8" and "\<forall>e\<in>set (take n es). 0 \<le> e \<and> e \<le> 9"
  shows "push_bit ((8 - n) * 8) (word8 es AND valid_byte_mask n) = word8 (replicate (8 - n) 0 @ take n es)"
proof -
  let ?v = "byte_sum (take n es)"
  have r: "0 \<le> ?v" "?v < 256 ^ n"
  proof -
    have "\<forall>e\<in>set (take n es). 0 \<le> e \<and> e < 256" using assms(3) by fastforce
    from byte_sum_range [OF this] show "0 \<le> ?v" "?v < 256 ^ n"
      using assms(1,2) by (simp_all add: min_def)
  qed
  have p: "(256 :: int) ^ n = 2 ^ (8 * n)" by (simp add: power_mult)
  have "byte_sum es = ?v + 256 ^ n * byte_sum (drop n es)"
    using byte_sum_append [of "take n es" "drop n es"] assms(1,2) by (simp add: min_def)
  then have "take_bit (8 * n) (byte_sum es) = ?v"
    using r by (simp add: take_bit_eq_mod p)
  then have "word8 es AND valid_byte_mask n = of_int ?v"
    using assms(2) by (simp add: valid_byte_mask_take word8_def take_bit_of_int)
  then have "push_bit ((8 - n) * 8) (word8 es AND valid_byte_mask n) = of_int (256 ^ (8 - n) * ?v)"
    by (simp add: push_bit_eq_mult power_mult mult.commute)
  moreover have "byte_sum (replicate m 0 @ xs) = 256 ^ m * byte_sum xs" for m xs
    by (induction m) simp_all
  ultimately show ?thesis by (simp add: word8_def)
qed

lemma parse_aligned:
  assumes "list_all (\<lambda>a. 0 \<le> a \<and> a \<le> 9) [a, b, c, d, e, f, g, h]"
  defines "al \<equiv> word8 [a, b, c, d, e, f, g, h]"
  shows "(let even = al AND EVEN_BYTE_MASK; odd = drop_bit 8 al AND EVEN_BYTE_MASK;
          pairs = even * 10 + odd;
          low_pairs = pairs AND EVEN_HALFWORD_MASK; high_pairs = drop_bit 16 pairs AND EVEN_HALFWORD_MASK;
          quads = low_pairs * 100 + high_pairs
      in (quads AND LOW_U32_MASK) * 10000 + drop_bit 32 quads) =
    of_int (foldl (\<lambda>n x. n * 10 + x) 0 [a, b, c, d, e, f, g, h])"
proof -
  have r: "0 \<le> a" "a \<le> 9" "0 \<le> b" "b \<le> 9" "0 \<le> c" "c \<le> 9" "0 \<le> d" "d \<le> 9"
      "0 \<le> e" "e \<le> 9" "0 \<le> f" "f \<le> 9" "0 \<le> g" "g \<le> 9" "0 \<le> h" "h \<le> 9"
    using assms(1) by simp_all
  have b: "bytes8 [a, b, c, d, e, f, g, h]" using r by (simp add: bytes8_def)
  have m: "bytes8 [255, 0, 255, 0, 255, 0, 255, 0]" "bytes8 [255, 255, 0, 0, 255, 255, 0, 0]"
    by (auto simp: bytes8_def)
  have b': "bytes8 [b, c, d, e, f, g, h, 0]" using r by (simp add: bytes8_def)
  have "al AND EVEN_BYTE_MASK = word8 [a, 0, c, 0, e, 0, g, 0]"
    using r by (simp add: al_def masks_word8 word8_and [OF b m(1)] and_255)
  moreover have "drop_bit 8 al AND EVEN_BYTE_MASK = word8 [b, 0, d, 0, f, 0, h, 0]"
    using r by (simp add: al_def masks_word8 word8_drop [OF b] word8_and [OF b' m(1)] and_255)
  ultimately have pairs: "(al AND EVEN_BYTE_MASK) * 10 + (drop_bit 8 al AND EVEN_BYTE_MASK) =
      word8 [10 * a + b, 0, 10 * c + d, 0, 10 * e + f, 0, 10 * g + h, 0]" (is "_ = word8 ?p")
    by (simp add: word8_def algebra_simps)
  have p: "bytes8 ?p" "bytes8 [0, 10 * c + d, 0, 10 * e + f, 0, 10 * g + h, 0, 0]"
      "bytes8 [10 * c + d, 0, 10 * e + f, 0, 10 * g + h, 0, 0, 0]"
    using r by (simp_all add: bytes8_def)
  have "word8 ?p AND EVEN_HALFWORD_MASK = word8 [10 * a + b, 0, 0, 0, 10 * e + f, 0, 0, 0]"
    using p by (simp add: masks_word8 word8_and [OF p(1) m(2)] and_255 bytes8_def)
  moreover have "drop_bit 16 (word8 ?p) AND EVEN_HALFWORD_MASK = word8 [10 * c + d, 0, 0, 0, 10 * g + h, 0, 0, 0]"
  proof -
    have "drop_bit 16 (word8 ?p) = drop_bit 8 (drop_bit 8 (word8 ?p))" by simp
    also have "\<dots> = word8 [10 * c + d, 0, 10 * e + f, 0, 10 * g + h, 0, 0, 0]"
      using word8_drop [OF p(1)] word8_drop [OF p(2)] by simp
    finally show ?thesis
      using p by (simp add: masks_word8 word8_and [OF p(3) m(2)] and_255 bytes8_def)
  qed
  ultimately have quads: "(word8 ?p AND EVEN_HALFWORD_MASK) * 100 + (drop_bit 16 (word8 ?p) AND EVEN_HALFWORD_MASK) =
      of_int (100 * (10 * a + b) + (10 * c + d) + 2 ^ 32 * (100 * (10 * e + f) + (10 * g + h)))"
    by (simp add: word8_def algebra_simps)
  have q: "0 \<le> 100 * (10 * a + b) + (10 * c + d)" "100 * (10 * a + b) + (10 * c + d) < 10000"
      "0 \<le> 100 * (10 * e + f) + (10 * g + h)" "100 * (10 * e + f) + (10 * g + h) < 10000"
    using r by simp_all
  show ?thesis
    unfolding Let_def pairs quads low_high_quads [OF q] by (simp add: algebra_simps)
qed

lemma foldl_decimal_zeros: "foldl (\<lambda>n x. n * 10 + x) 0 (replicate m 0 @ es) = foldl (\<lambda>n x. n * 10 + x) (0 :: int) es"
  by (induction m) simp_all

lemma decimal_int:
  "list_all is_digit ds \<Longrightarrow> foldl (\<lambda>n x. n * 10 + x) (int m) (map (\<lambda>b. uint b - 48) ds) =
     int (foldl (\<lambda>n d. n * 10 + digit_val d) m ds)"
proof (induction ds arbitrary: m)
  case (Cons d ds)
  have "48 \<le> unat d" using Cons.prems by (simp add: is_digit_def word_le_nat_alt)
  then have "uint d - 48 = int (digit_val d)"
    unfolding digit_val_def uint_nat by (simp only: of_nat_diff of_nat_numeral)
  then have "int m * 10 + (uint d - 48) = int (m * 10 + digit_val d)" by simp
  then show ?case using Cons by (simp del: of_nat_add of_nat_mult)
qed simp

lemma parse_chunk_value_correct:
  assumes "length cs = 8" and "n = length (takeWhile is_digit cs)"
  shows "parse_chunk_value (of_le_bytes cs - ASCII_ZERO_BROADCAST) n = of_nat (decimal (takeWhile is_digit cs))"
proof -
  let ?es = "map (\<lambda>b. uint b - 48) cs" and ?ds = "takeWhile is_digit cs"
  have n8: "n \<le> 8" using assms length_takeWhile_le [of is_digit cs] by simp
  have tk: "take n cs = ?ds" unfolding assms(2) by (rule takeWhile_eq_take [symmetric])
  have dig: "list_all is_digit ?ds" by (auto simp: list_all_iff dest: set_takeWhileD)
  have dv: "of_le_bytes cs - ASCII_ZERO_BROADCAST = word8 ?es"
    using digit_values_sum(1) [OF assms(1)] by (simp add: word8_def)
  have es: "\<forall>e\<in>set (take n ?es). 0 \<le> e \<and> e \<le> 9"
    using dig by (auto simp: take_map tk list_all_iff is_digit_uint)
  let ?as = "replicate (8 - n) 0 @ take n ?es"
  have len: "length ?as = 8" using n8 assms(1) by simp
  then obtain a b c d e f g h where as: "?as = [a, b, c, d, e, f, g, h]"
    by (rule list8_obtain)
  have "list_all (\<lambda>a. 0 \<le> a \<and> a \<le> 9) ?as"
    using es by (auto simp: list_all_iff)
  then have digits: "list_all (\<lambda>a. 0 \<le> a \<and> a \<le> 9) [a, b, c, d, e, f, g, h]" by (simp only: as)
  have "parse_chunk_value (of_le_bytes cs - ASCII_ZERO_BROADCAST) n =
      of_int (foldl (\<lambda>n x. n * 10 + x) 0 ?as)"
    using parse_aligned [OF digits] aligned_digits [OF _ n8 es] assms(1)
    unfolding parse_chunk_value_def dv by (simp only: Let_def as length_map)
  also have "foldl (\<lambda>n x. n * 10 + x) 0 ?as = int (decimal ?ds)"
    unfolding foldl_decimal_zeros take_map tk decimal_def
    using decimal_int [OF dig, of 0] by simp
  finally show ?thesis by simp
qed

lemma decimal_snoc: "decimal (ds @ [d]) = decimal ds * 10 + digit_val d"
  by (simp add: decimal_def)

lemma decimal_bound: "list_all is_digit ds \<Longrightarrow> decimal ds < 10 ^ length ds"
proof (induction ds rule: rev_induct)
  case (snoc d ds)
  have "digit_val d \<le> 9" using snoc.prems by (auto simp: is_digit_def digit_val_def word_le_nat_alt)
  then show ?case using snoc by (simp add: decimal_snoc)
qed (simp add: decimal_def)

lemma digit_sub: "is_digit b \<longleftrightarrow> \<not> b - 0x30 > 9"
proof -
  have "unat b < 256" using unsigned_less [where w = b] by simp
  then show ?thesis by (auto simp: is_digit_def word_le_nat_alt word_less_nat_alt unat_sub_if')
qed

lemma digit_val_sub:
  assumes "is_digit b"
  shows "unat (ucast (b - 0x30) :: u64) = digit_val b"
proof -
  have "48 \<le> unat b" using assms by (simp add: is_digit_def word_le_nat_alt)
  then show ?thesis by (simp only: unat_ucast_byte_u64) (simp add: digit_val_def unat_sub_if')
qed

lemma digit_loop_correct:
  assumes "list_all is_digit ds" and "8 \<le> length ds" and "length ds \<le> 19" and "unat val = decimal ds"
  shows "digit_loop (length ds) val bs =
    (let all = ds @ takeWhile is_digit bs
     in if 19 < length all then None else Some (of_nat (decimal all), length all))"
  using assms
proof (induction bs arbitrary: ds val)
  case Nil
  then show ?case by (simp flip: Nil(4))
next
  case (Cons b bs)
  show ?case
  proof (cases "is_digit b")
    case False
    then have "b - 0x30 > 9" by (simp add: digit_sub)
    then show ?thesis using Cons.prems(3) False by (simp add: Let_def flip: Cons.prems(4))
  next
    case True
    show ?thesis
    proof (cases "length ds = 19")
      case True
      with \<open>is_digit b\<close> show ?thesis
        by (simp add: Let_def MAX_I64_DIGITS_def) (simp add: digit_sub)
    next
      case False
      then have len: "length (ds @ [b]) \<le> 19" using Cons.prems(3) by simp
      have all: "list_all is_digit (ds @ [b])" using Cons.prems(1) True by simp
      have "decimal (ds @ [b]) < 10 ^ 19"
        using decimal_bound [OF all] len power_increasing [OF len, of "10 :: nat"] by linarith
      then have lt: "unat val * 10 + digit_val b < 2 ^ 64"
        using Cons.prems(4) by (simp add: decimal_snoc)
      have u: "unat (val * 10) = unat val * 10" using lt by (simp add: unat_mult_lem [THEN iffD1])
      have m: "checked_mul_u64 val 10 = Some (val * 10)" using lt by (simp add: checked_mul_u64_def)
      have a: "checked_add_u64 (val * 10) (ucast (b - 0x30)) = Some (val * 10 + ucast (b - 0x30))"
        using lt u digit_val_sub [OF True] by (simp add: checked_add_u64_def)
      have v: "unat (val * 10 + ucast (b - 0x30)) = decimal (ds @ [b])"
        using lt u digit_val_sub [OF True] Cons.prems(4) by (simp add: unat_plus_if' decimal_snoc)
      have "digit_loop (length ds) val (b # bs) = digit_loop (length (ds @ [b])) (val * 10 + ucast (b - 0x30)) bs"
        using True False m a by (simp add: Let_def MAX_I64_DIGITS_def) (simp add: digit_sub)
      also have "\<dots> = (let all = (ds @ [b]) @ takeWhile is_digit bs
          in if 19 < length all then None else Some (of_nat (decimal all), length all))"
        using Cons.prems(2) by (intro Cons.IH all len v) simp
      finally show ?thesis using True by simp
    qed
  qed
qed

lemma takeWhile_pad:
  "\<not> P z \<Longrightarrow> takeWhile P (xs @ replicate n z) = takeWhile P xs"
  by (induction xs) (cases n; simp)+

lemma parse_unsigned_prefix_correct:
  "parse_unsigned_prefix buf =
    (let ds = takeWhile is_digit buf in if ds = [] \<or> 19 < length ds then None else Some (of_nat (decimal ds), length ds))"
proof -
  let ?cs = "if 8 \<le> length buf then take 8 buf else buf @ replicate (8 - length buf) NON_DIGIT_SENTINEL"
  let ?ds = "takeWhile is_digit buf" and ?d8 = "takeWhile is_digit ?cs"
  have load: "load_padded_chunk buf = of_le_bytes ?cs" by (simp add: load_padded_chunk_def)
  have len: "length ?cs = 8" by simp
  have sent: "\<not> is_digit NON_DIGIT_SENTINEL" by (simp add: is_digit_def NON_DIGIT_SENTINEL_def)
  have d8: "?d8 = take 8 ?ds"
    using sent length_takeWhile_le [of is_digit buf] by (auto simp: takeWhile_pad takeWhile_take not_le)
  have val: "parse_chunk_value (of_le_bytes ?cs - ASCII_ZERO_BROADCAST) (length ?d8) = of_nat (decimal ?d8)"
    using parse_chunk_value_correct [OF len refl] .
  show ?thesis
  proof (cases "length ?ds < 8")
    case True
    then have "?d8 = ?ds" using d8 by simp
    then show ?thesis
      using True val unfolding parse_unsigned_prefix_def load Let_def leading_digit_count_correct [OF len]
      by (simp add: Let_def)
  next
    case False
    then have n8: "length ?d8 = 8" using d8 by simp
    have lb: "8 \<le> length buf" using False length_takeWhile_le [of is_digit buf] by linarith
    have all: "list_all is_digit ?d8" by (auto simp: list_all_iff dest: set_takeWhileD)
    have "decimal ?d8 < 10 ^ 8" using decimal_bound [OF all] n8 by simp
    then have u: "unat (of_nat (decimal ?d8) :: u64) = decimal ?d8" by (intro unat_of_nat_u64) simp
    have "?d8 = take (length ?d8) ?cs" by (rule takeWhile_eq_take)
    also have "\<dots> = take 8 buf" using lb unfolding n8 by simp
    finally have "take 8 buf = ?d8" by (rule sym)
    then have ds: "?ds = ?d8 @ takeWhile is_digit (drop 8 buf)"
      using all by (metis append_take_drop_id list_all_iff takeWhile_append2)
    have "parse_unsigned_prefix buf = digit_loop 8 (of_nat (decimal ?d8)) (drop 8 buf)"
      using n8 val unfolding parse_unsigned_prefix_def load Let_def leading_digit_count_correct [OF len] by simp
    also have "\<dots> = (let all = ?d8 @ takeWhile is_digit (drop 8 buf)
        in if 19 < length all then None else Some (of_nat (decimal all), length all))"
      using digit_loop_correct [OF all, of "of_nat (decimal ?d8)" "drop 8 buf"] n8 u by simp
    finally show ?thesis
      using False unfolding ds [symmetric] by (auto simp: Let_def)
  qed
qed

lemma decimal_nineteen:
  assumes "list_all is_digit ds" and "length ds \<le> 19"
  shows "unat (of_nat (decimal ds) :: u64) = decimal ds"
proof -
  have "(10 :: nat) ^ length ds \<le> 10 ^ 19" using assms(2) by (intro power_increasing) simp_all
  then have "decimal ds < 10 ^ 19" using decimal_bound [OF assms(1)] by linarith
  then show ?thesis by (intro unat_of_nat_u64) simp
qed

lemma digit_run_digits: "list_all is_digit (digit_run buf)"
  by (auto simp: digit_run_def list_all_iff dest: set_takeWhileD)

lemma sign_len_Cons: "sign_len (first # rest) = (if first = 0x2D \<or> first = 0x2B then 1 else 0)"
  by (simp add: sign_len_def)

lemma swar_parse_int_Some:
  "swar_parse_int buf = Some (v, n) \<longleftrightarrow>
    (let ds = takeWhile is_digit (drop (sign_len buf) buf); negative = (take 1 buf = [0x2D])
     in ds \<noteq> [] \<and> length ds \<le> 19 \<and> in_i64 negative (decimal ds) \<and>
        v = (if negative then - int (decimal ds) else int (decimal ds)) \<and> n = sign_len buf + length ds)"
proof (cases buf)
  case Nil
  then show ?thesis by (simp add: swar_parse_int_def)
next
  case (Cons first rest)
  let ?ds = "digit_run buf"
  show ?thesis
  proof (cases "?ds = [] \<or> 19 < length ?ds")
    case True
    then show ?thesis
      by (auto simp: Cons swar_parse_int_def parse_unsigned_prefix_correct Let_def digit_run_def sign_len_Cons)
  next
    case False
    then have u: "unat (of_nat (decimal ?ds) :: u64) = decimal ?ds"
      by (intro decimal_nineteen digit_run_digits) simp
    then have min: "(of_nat (decimal ?ds) :: u64) = I64_MIN_MAGNITUDE \<longleftrightarrow> decimal ?ds = 2 ^ 63"
      by (simp add: word_unat_eq_iff I64_MIN_MAGNITUDE_def)
    have "swar_parse_int buf =
        (if first = 0x2D then
           if of_nat (decimal ?ds) = I64_MIN_MAGNITUDE then Some (- (2 ^ 63), sign_len buf + length ?ds)
           else map_option (\<lambda>v. (- v, sign_len buf + length ?ds)) (i64_try_from (of_nat (decimal ?ds)))
         else map_option (\<lambda>v. (v, sign_len buf + length ?ds)) (i64_try_from (of_nat (decimal ?ds))))"
      using False
      by (simp add: Cons swar_parse_int_def parse_unsigned_prefix_correct Let_def digit_run_def sign_len_Cons)
    then show ?thesis using False unfolding min i64_try_from_def u
      by (auto simp: Let_def digit_run_def [symmetric] in_i64_def Cons)
  qed
qed

section \<open>The scalar reference\<close>

lemma digit_ascii: "is_digit b \<Longrightarrow> b < 0x80"
  by (auto simp: is_digit_def word_le_nat_alt word_less_nat_alt)

lemma drop_sign_len: "drop (sign_len buf) (take (sign_len buf + n) buf) = take n (drop (sign_len buf) buf)"
  by (simp add: take_drop add.commute)

lemma sign_text:
  fixes buf :: bytes
  assumes "digit_run buf \<noteq> []"
  defines "txt \<equiv> take (sign_len buf + length (digit_run buf)) buf"
  shows "take 1 txt = take 1 buf" and "sign_len txt = sign_len buf" and "drop (sign_len buf) txt = digit_run buf"
    and "utf8_valid txt"
proof -
  have "1 \<le> sign_len buf + length (digit_run buf)" using assms(1) by (cases "digit_run buf") simp_all
  then show t: "take 1 txt = take 1 buf" by (simp add: txt_def min_absorb1)
  then show s: "sign_len txt = sign_len buf" by (simp add: sign_len_def)
  show d: "drop (sign_len buf) txt = digit_run buf"
    unfolding txt_def drop_sign_len by (simp add: digit_run_def takeWhile_eq_take [symmetric])
  have "ascii (take (sign_len buf) txt)"
    using t by (auto simp: sign_len_def split: if_splits)
  moreover have "ascii (digit_run buf)"
    using digit_run_digits [of buf] by (auto simp: list_all_iff digit_ascii)
  ultimately have "ascii (take (sign_len buf) txt @ drop (sign_len buf) txt)" using d by simp
  then show "utf8_valid txt" by (intro ascii_utf8) simp
qed

text \<open>The second attempt of the reference, at the text of \<open>i64::MIN\<close>, never runs: \<open>str::parse\<close> reads that text.\<close>

lemma i64_min_text: "i64_from_str I64_MIN_TEXT = Some (- (2 ^ 63))"
  by (simp add: i64_from_str_def I64_MIN_TEXT_def sign_len_def is_digit_def decimal_def digit_val_def in_i64_def)

lemma scalar_parse_int_Cons:
  "scalar_parse_int (first # rest) =
    (let buf = first # rest; stop = sign_len buf + length (digit_run buf); txt = take stop buf
     in if digit_run buf = [] then None
        else if \<not> utf8_valid txt then None
        else case i64_from_str txt of
            Some v \<Rightarrow> Some (v, stop)
          | None \<Rightarrow> if first = 0x2D \<and> txt = I64_MIN_TEXT then Some (- (2 ^ 63), stop) else None)"
  unfolding scalar_parse_int_def list.case Let_def sign_len_Cons [of first rest, symmetric] digit_run_def [of "first # rest", symmetric]
  by (simp only: add_cancel_left_right length_0_conv)

lemma scalar_parse_int_alt:
  "scalar_parse_int buf =
    (if digit_run buf \<noteq> [] \<and> in_i64 (take 1 buf = [0x2D]) (decimal (digit_run buf))
     then Some (if take 1 buf = [0x2D] then - int (decimal (digit_run buf)) else int (decimal (digit_run buf)),
                sign_len buf + length (digit_run buf))
     else None)"
proof (cases "digit_run buf = []")
  case True
  then show ?thesis by (cases buf) (simp_all add: scalar_parse_int_def digit_run_def sign_len_Cons Let_def)
next
  case False
  then obtain first rest where buf: "buf = first # rest" by (cases buf) (auto simp: digit_run_def)
  let ?txt = "take (sign_len buf + length (digit_run buf)) buf"
  note t = sign_text [OF False]
  have "scalar_parse_int buf =
      (case i64_from_str ?txt of
         Some v \<Rightarrow> Some (v, sign_len buf + length (digit_run buf))
       | None \<Rightarrow> if first = 0x2D \<and> ?txt = I64_MIN_TEXT then Some (- (2 ^ 63), sign_len buf + length (digit_run buf)) else None)"
    using False t(4) scalar_parse_int_Cons [of first rest, unfolded Let_def] unfolding buf [symmetric] by (simp only: simp_thms if_False if_True)
  also have "\<dots> = map_option (\<lambda>v. (v, sign_len buf + length (digit_run buf))) (i64_from_str ?txt)"
    using i64_min_text by (auto split: option.split)
  also have "i64_from_str ?txt =
      (if in_i64 (take 1 buf = [0x2D]) (decimal (digit_run buf))
       then Some (if take 1 buf = [0x2D] then - int (decimal (digit_run buf)) else int (decimal (digit_run buf))) else None)"
    using False digit_run_digits [of buf] unfolding i64_from_str_def t(1,2) t(3) by (simp add: Let_def t(3))
  finally show ?thesis using False by simp
qed

section \<open>Reading a number from a growing buffer\<close>

lemma take_1_append: "buf \<noteq> [] \<Longrightarrow> take 1 (buf @ ext) = take 1 buf"
  by (cases buf) simp_all

lemma sign_len_append: "buf \<noteq> [] \<Longrightarrow> sign_len (buf @ ext) = sign_len buf"
  unfolding sign_len_def by (simp only: take_1_append not_False_eq_True)

lemma takeWhile_append_more:
  "takeWhile P (xs @ ys) = takeWhile P xs @ (if \<forall>x\<in>set xs. P x then takeWhile P ys else [])"
  by (induction xs) auto

lemma takeWhile_append_stop:
  "length (takeWhile P xs) < length xs \<Longrightarrow> takeWhile P (xs @ ys) = takeWhile P xs"
  by (induction xs) auto

lemma swar_parse_int_append:
  assumes "swar_parse_int line = Some (v, n)" and "n < length line"
  shows "swar_parse_int (line @ ext) = Some (v, n)"
proof -
  have ne: "line \<noteq> []" using assms(2) by auto
  let ?rest = "drop (sign_len line) line"
  have n: "n = sign_len line + length (takeWhile is_digit ?rest)"
    using assms(1) by (simp add: swar_parse_int_Some Let_def)
  then have "takeWhile is_digit (?rest @ ext) = takeWhile is_digit ?rest"
    using assms(2) by (intro takeWhile_append_stop) simp
  moreover note sign_len_append [OF ne, of ext] take_1_append [OF ne, of ext]
  moreover have "sign_len line \<le> length line" using n assms(2) by simp
  ultimately show ?thesis
    using assms(1) unfolding swar_parse_int_Some by (simp only: drop_append) simp
qed

lemma decimal_append_ge: "decimal ds \<le> decimal (ds @ es)"
  by (induction es rule: rev_induct) (simp_all add: decimal_snoc flip: append_assoc)

lemma swar_parse_int_None_append:
  assumes "swar_parse_int line = None" and "line \<notin> {[], [0x2D], [0x2B]}"
  shows "swar_parse_int (line @ ext) = None"
proof (rule ccontr)
  assume "swar_parse_int (line @ ext) \<noteq> None"
  then obtain v n where some: "swar_parse_int (line @ ext) = Some (v, n)" by auto
  have ne: "line \<noteq> []" using assms(2) by auto
  note sg = sign_len_append [OF ne, of ext] take_1_append [OF ne, of ext]
  define rest where "rest = drop (sign_len line) line"
  have rest: "rest \<noteq> []" using assms(2) ne
    by (cases line) (auto simp: rest_def sign_len_def)
  have le: "sign_len line \<le> length line" using ne by (cases line) (auto simp: sign_len_def)
  then have dr: "drop (sign_len line) (line @ ext) = rest @ ext" by (simp add: rest_def)
  obtain more where more: "takeWhile is_digit (rest @ ext) = takeWhile is_digit rest @ more"
    using takeWhile_append_more that by blast
  have "takeWhile is_digit rest \<noteq> []"
    using some rest unfolding swar_parse_int_Some Let_def sg dr
    by (cases rest) (auto split: if_splits)
  moreover have "in_i64 (take 1 line = [0x2D]) (decimal (takeWhile is_digit rest))"
    using some decimal_append_ge [of "takeWhile is_digit rest" more]
    unfolding swar_parse_int_Some Let_def sg dr more by (auto simp: in_i64_def split: if_splits)
  moreover have "length (takeWhile is_digit rest) \<le> 19"
    using some unfolding swar_parse_int_Some Let_def sg dr more by simp
  ultimately have "swar_parse_int line \<noteq> None"
    using swar_parse_int_Some [of line] by (auto simp: Let_def rest_def)
  with assms(1) show False by simp
qed

text \<open>
  C14: on every input whose run of digits, behind an optional sign, has at most nineteen digits the SWAR parser is the
  scalar reference of the repository: the same value, the same number of bytes consumed, the same refusals. A longer run
  is refused whatever its value, so the two differ exactly on the runs of twenty digits or more that leading zeros keep
  within \<open>i64\<close>; nineteen zeros and a one is such an input. Borrows and carries between the bytes of the word never
  change a count or a value.
\<close>

theorem swar_parse_int_correct:
  "swar_parse_int buf = (if length (digit_run buf) \<le> 19 then scalar_parse_int buf else None) \<and>
   swar_parse_int (replicate 19 0x30 @ [0x31]) = None \<and> scalar_parse_int (replicate 19 0x30 @ [0x31]) = Some (1, 20)"
proof -
  have eq: "swar_parse_int b = (if length (digit_run b) \<le> 19 then scalar_parse_int b else None)" for b
  proof -
    have "swar_parse_int b = Some (v, n) \<longleftrightarrow> (if length (digit_run b) \<le> 19 then scalar_parse_int b else None) = Some (v, n)" for v n
      unfolding scalar_parse_int_alt by (auto simp: swar_parse_int_Some Let_def digit_run_def split: if_splits)
    then show ?thesis by (metis (no_types) option.exhaust surj_pair)
  qed
  have run: "digit_run (replicate 19 0x30 @ [0x31]) = replicate 19 0x30 @ [0x31]"
    by (simp add: digit_run_def sign_len_def is_digit_def)
  have "decimal (replicate n 0x30) = 0" for n by (induction n) (simp_all add: decimal_def digit_val_def)
  then have "decimal (replicate 19 0x30 @ [0x31]) = 1" by (simp add: decimal_snoc digit_val_def)
  then have "scalar_parse_int (replicate 19 0x30 @ [0x31]) = Some (1, 20)"
    unfolding scalar_parse_int_alt run by (simp add: in_i64_def sign_len_def)
  then show ?thesis using eq [of buf] eq [of "replicate 19 0x30 @ [0x31]"] run by simp
qed

end
