(* ===== verification/RespParser.thy ===== *)
theory RespParser
  imports Swar
begin

text \<open>
  \<^verbatim>\<open>crates/inf-wire/src/parser.rs\<close> and \<open>find_crlf\<close> of \<^verbatim>\<open>crates/inf-simd/src/crlf.rs\<close>: the resumable RESP
  command parser. Buffers are byte lists and \<open>usize\<close> positions naturals (the checked additions keep
  their 64-bit bound); argument offsets are the source's \<open>u32\<close> pairs, inline up to sixteen and spilled
  beyond. The lending iterator is a state \<open>WireIter\<close> with its \<open>next\<close>, \<open>stash_tail\<close> and \<open>drop\<close>; slice
  panics are \<open>None\<close>.
\<close>

section \<open>Model: limits, errors and argument vectors\<close>

definition CR :: byte where "CR = 0x0D"
definition LF :: byte where "LF = 0x0A"

definition ARGV_FRAME_BYTES_MAX :: nat where "ARGV_FRAME_BYTES_MAX = 2 ^ 32 - 1"
definition ARGV_ENTRIES_MAX :: nat where "ARGV_ENTRIES_MAX = 2 ^ 32 - 1"
definition INLINE_ARGS :: nat where "INLINE_ARGS = 16"
definition DEFAULT_MAX_BULK_BYTES :: nat where "DEFAULT_MAX_BULK_BYTES = 16 * 2 ^ 20"
definition FRAME_HEADROOM_BYTES :: nat where "FRAME_HEADROOM_BYTES = 64 * 2 ^ 10"

record ParserLimits =
  max_bulk_bytes :: nat
  max_frame_bytes :: nat
  max_args :: nat

definition for_bulk_cap :: "nat \<Rightarrow> ParserLimits" where
  "for_bulk_cap cap = \<lparr>max_bulk_bytes = cap,
     max_frame_bytes = min (cap + FRAME_HEADROOM_BYTES) (2 ^ 64 - 1), max_args = 1024\<rparr>"

datatype WireError =
    FrameTooLarge nat nat \<comment> \<open>\<open>declared, cap\<close>\<close>
  | FrameTooLong nat nat \<comment> \<open>\<open>size, cap\<close>\<close>
  | TooManyArgs nat nat \<comment> \<open>\<open>declared, cap\<close>\<close>
  | BadMultibulkLen
  | BadBulkLen
  | ExpectedBulk byte
  | ExpectedCrlf
  | BadInline

record ArgOffsets =
  ao_inline :: "(u32 \<times> u32) list"
  ao_len :: nat
  ao_spill :: "(u32 \<times> u32) list"

definition offsets_new :: ArgOffsets where
  "offsets_new = \<lparr>ao_inline = replicate INLINE_ARGS (0, 0), ao_len = 0, ao_spill = []\<rparr>"

definition offsets_push :: "ArgOffsets \<Rightarrow> u32 \<Rightarrow> u32 \<Rightarrow> ArgOffsets" where
  "offsets_push offs start len =
     (let i = ao_len offs;
          offs' = (if i < INLINE_ARGS then offs\<lparr>ao_inline := (ao_inline offs)[i := (start, len)]\<rparr>
                   else offs\<lparr>ao_spill := ao_spill offs @ [(start, len)]\<rparr>)
      in offs'\<lparr>ao_len := i + 1\<rparr>)"

record ArgvRef =
  av_frame :: bytes
  av_offsets :: ArgOffsets

definition materialize :: "ArgOffsets \<Rightarrow> bytes \<Rightarrow> ArgvRef" where
  "materialize offs frame = \<lparr>av_frame = frame, av_offsets = offs\<rparr>"

text \<open>\<open>ArgvRef::arg\<close>: \<open>None\<close> when an index or the slice is out of range.\<close>

definition arg :: "ArgvRef \<Rightarrow> nat \<Rightarrow> bytes option" where
  "arg a i =
     (let offs = av_offsets a;
          entry = (if i < INLINE_ARGS
                   then (if i < length (ao_inline offs) then Some (ao_inline offs ! i) else None)
                   else (if i - INLINE_ARGS < length (ao_spill offs) then Some (ao_spill offs ! (i - INLINE_ARGS))
                         else None))
      in case entry of
           None \<Rightarrow> None
         | Some (start, len) \<Rightarrow> get_range (av_frame a) (unat start) (unat start + unat len))"

text \<open>\<open>ArgvRef::iter\<close>.\<close>

definition args :: "ArgvRef \<Rightarrow> bytes option list" where
  "args a = map (arg a) [0..<ao_len (av_offsets a)]"

section \<open>Model: one frame\<close>

definition position :: "('a \<Rightarrow> bool) \<Rightarrow> 'a list \<Rightarrow> nat option" where
  "position P xs = (let n = length (takeWhile (\<lambda>x. \<not> P x) xs) in if n < length xs then Some n else None)"

function find_loop :: "bytes \<Rightarrow> nat \<Rightarrow> nat option" where
  "find_loop buf off =
     (if off + 1 < length buf then
        case position (\<lambda>b. b = CR) (sub_slice buf off (length buf - 1)) of
          None \<Rightarrow> None
        | Some rel \<Rightarrow>
            let at = off + rel in if buf ! (at + 1) = LF then Some at else find_loop buf (at + 1)
      else None)"
  by pat_completeness auto
termination by (relation "measure (\<lambda>(buf, off). length buf - off)") auto

declare find_loop.simps [simp del]

definition find_crlf :: "bytes \<Rightarrow> nat \<Rightarrow> nat option" where
  "find_crlf buf from = (if from \<ge> length buf then None else find_loop buf from)"

definition parse_count_line :: "bytes \<Rightarrow> nat \<Rightarrow> WireError \<Rightarrow> WireError + (int \<times> nat) option" where
  "parse_count_line buf from err =
     (let line = drop (min from (length buf)) buf
      in case swar_parse_int line of
           Some (val, used) \<Rightarrow>
             (if take 2 (drop used line) = [CR, LF] then Ok (Some (val, from + used + 2))
              else if drop used line = [] \<or> drop used line = [CR] then Ok None
              else Err err)
         | None \<Rightarrow> if line = [] \<or> line = [0x2D] \<or> line = [0x2B] then Ok None else Err err)"

datatype BulkParse = BComplete u32 u32 nat | BIncomplete | BError WireError

definition parse_bulk :: "bytes \<Rightarrow> nat \<Rightarrow> ParserLimits \<Rightarrow> BulkParse" where
  "parse_bulk buf pos limits =
     (if length buf \<le> pos then BIncomplete
      else if buf ! pos \<noteq> 0x24 then BError (ExpectedBulk (buf ! pos))
      else case parse_count_line buf (pos + 1) BadBulkLen of
        Inl e \<Rightarrow> BError e
      | Inr None \<Rightarrow> BIncomplete
      | Inr (Some (len, start)) \<Rightarrow>
          if len < 0 then BError BadBulkLen
          else if nat len > max_bulk_bytes limits then BError (FrameTooLarge (nat len) (max_bulk_bytes limits))
          else let cap = min (max_frame_bytes limits) ARGV_FRAME_BYTES_MAX
          in case Option.bind (checked_add_usize start (nat len)) (\<lambda>e. checked_add_usize e 2) of
               None \<Rightarrow> BError (FrameTooLong (2 ^ 64 - 1) cap)
             | Some frame_end \<Rightarrow>
                 if frame_end > cap then BError (FrameTooLong frame_end cap)
                 else if length buf < frame_end then BIncomplete
                 else if sub_slice buf (frame_end - 2) frame_end \<noteq> [CR, LF] then BError ExpectedCrlf
                 else BComplete (of_nat start) (of_nat (nat len)) frame_end)"

datatype FrameKind = KCommand ArgOffsets | KInline ArgOffsets | KEmpty
datatype ParseOne = PFrame FrameKind nat | PIncomplete | PError WireError

fun bulks_loop :: "nat \<Rightarrow> bytes \<Rightarrow> nat \<Rightarrow> ParserLimits \<Rightarrow> ArgOffsets \<Rightarrow> ParseOne" where
  "bulks_loop 0 buf pos limits offs = PFrame (KCommand offs) pos"
| "bulks_loop (Suc n) buf pos limits offs =
     (case parse_bulk buf pos limits of
        BComplete start len frame_end \<Rightarrow> bulks_loop n buf frame_end limits (offsets_push offs start len)
      | BIncomplete \<Rightarrow> PIncomplete
      | BError e \<Rightarrow> PError e)"

definition parse_multibulk :: "bytes \<Rightarrow> ParserLimits \<Rightarrow> ParseOne" where
  "parse_multibulk buf limits =
     (case parse_count_line buf 1 BadMultibulkLen of
        Inl e \<Rightarrow> PError e
      | Inr None \<Rightarrow> PIncomplete
      | Inr (Some (argc, pos)) \<Rightarrow>
          if argc < 0 then PError BadMultibulkLen
          else let cap = min (max_args limits) ARGV_ENTRIES_MAX
          in if nat argc > cap then PError (TooManyArgs (nat argc) cap)
          else if argc = 0 then
            let cap = min (max_frame_bytes limits) ARGV_FRAME_BYTES_MAX
            in if pos > cap then PError (FrameTooLong pos cap) else PFrame KEmpty pos
          else bulks_loop (nat argc) buf pos limits offsets_new)"

definition is_ascii_whitespace :: "byte \<Rightarrow> bool" where
  "is_ascii_whitespace b \<longleftrightarrow> b = 0x20 \<or> b = 0x09 \<or> b = 0x0A \<or> b = 0x0C \<or> b = 0x0D"

text \<open>The word loop of an inline command; the two inner loops skip to the next word and past it.\<close>

lemma inline_words_advance:
  assumes "i < length line"
  shows "i < i + length (takeWhile P (drop i line)) +
    length (takeWhile (\<lambda>b. \<not> P b) (drop (i + length (takeWhile P (drop i line))) line))"
  using assms by (cases "P (line ! i)") (simp_all add: Cons_nth_drop_Suc [symmetric])

function inline_loop :: "bytes \<Rightarrow> nat \<Rightarrow> ParserLimits \<Rightarrow> ArgOffsets \<Rightarrow> WireError + ArgOffsets" where
  "inline_loop line i limits offs =
     (if i < length line then
        let start = i + length (takeWhile is_ascii_whitespace (drop i line));
            stop = start + length (takeWhile (\<lambda>b. \<not> is_ascii_whitespace b) (drop start line))
        in if stop > start then
             (if ao_len offs \<ge> max_args limits then Err (TooManyArgs (ao_len offs + 1) (max_args limits))
              else inline_loop line stop limits (offsets_push offs (of_nat start) (of_nat (stop - start))))
           else inline_loop line stop limits offs
      else Ok offs)"
  by pat_completeness auto

termination
proof (relation "measure (\<lambda>(line, i, _, _). length line - i)", goal_cases)
  case (2 line i limits offs start stop)
  then have "i < stop" using inline_words_advance [of i line is_ascii_whitespace] by simp
  with 2 show ?case by (simp only: in_measure case_prod_conv diff_less_mono2)
next
  case (3 line i limits offs start stop)
  then have "i < stop" using inline_words_advance [of i line is_ascii_whitespace] by simp
  with 3 show ?case by (simp only: in_measure case_prod_conv diff_less_mono2)
qed auto

declare inline_loop.simps [simp del]

definition parse_inline :: "bytes \<Rightarrow> ParserLimits \<Rightarrow> ParseOne" where
  "parse_inline buf limits =
     (let cap = min (max_frame_bytes limits) ARGV_FRAME_BYTES_MAX
      in case find_crlf buf 0 of
           None \<Rightarrow>
             if length buf > max_bulk_bytes limits then PError (FrameTooLarge (length buf) (max_bulk_bytes limits))
             else if length buf > cap then PError (FrameTooLong (length buf) cap)
             else PIncomplete
         | Some e \<Rightarrow>
             let line = take e buf; used = e + 2
             in if e > max_bulk_bytes limits then PError (FrameTooLarge e (max_bulk_bytes limits))
             else if used > cap then PError (FrameTooLong used cap)
             else case inline_loop line 0 limits offsets_new of
                 Inl err \<Rightarrow> PError err
               | Inr offs \<Rightarrow> if ao_len offs = 0 then PFrame KEmpty used else PFrame (KInline offs) used)"

definition parse_one :: "bytes \<Rightarrow> ParserLimits \<Rightarrow> ParseOne" where
  "parse_one buf limits =
     (case buf of
        [] \<Rightarrow> PIncomplete
      | first # _ \<Rightarrow> if first = 0x2A then parse_multibulk buf limits else parse_inline buf limits)"

section \<open>Model: the connection parser\<close>

record ConnParser =
  cp_limits :: ParserLimits
  cp_acc :: bytes
  cp_poisoned :: bool

definition parser_new :: "ParserLimits \<Rightarrow> ConnParser" where
  "parser_new limits = \<lparr>cp_limits = limits, cp_acc = [], cp_poisoned = False\<rparr>"

definition buffered :: "ConnParser \<Rightarrow> nat" where "buffered p = length (cp_acc p)"

definition set_limits :: "ConnParser \<Rightarrow> ParserLimits \<Rightarrow> ConnParser" where
  "set_limits p limits = p\<lparr>cp_limits := limits\<rparr>"

datatype Mode = Direct | Accumulated | Done

record WireIter =
  it_parser :: ConnParser
  it_input :: bytes
  it_pos :: nat
  it_mode :: Mode

definition feed :: "ConnParser \<Rightarrow> bytes \<Rightarrow> WireIter" where
  "feed p input =
     (if cp_poisoned p then \<lparr>it_parser = p, it_input = input, it_pos = 0, it_mode = Done\<rparr>
      else if cp_acc p = [] then \<lparr>it_parser = p, it_input = input, it_pos = 0, it_mode = Direct\<rparr>
      else \<lparr>it_parser = p\<lparr>cp_acc := cp_acc p @ input\<rparr>, it_input = input, it_pos = 0, it_mode = Accumulated\<rparr>)"

definition stash_tail :: "WireIter \<Rightarrow> WireIter" where
  "stash_tail it =
     (let p = it_parser it;
          p' = (case it_mode it of
              Direct \<Rightarrow> (let tail = drop (it_pos it) (it_input it)
                         in if tail \<noteq> [] then p\<lparr>cp_acc := cp_acc p @ tail\<rparr> else p)
            | Accumulated \<Rightarrow> if it_pos it = length (cp_acc p) then p\<lparr>cp_acc := []\<rparr>
                             else p\<lparr>cp_acc := drop (it_pos it) (cp_acc p)\<rparr>
            | Done \<Rightarrow> p)
      in it\<lparr>it_parser := p', it_pos := 0, it_mode := Done\<rparr>)"

text \<open>\<open>Drop for FrameIter\<close>: the parser after the iterator is dropped.\<close>

definition iter_drop :: "WireIter \<Rightarrow> ConnParser" where
  "iter_drop it = it_parser (stash_tail it)"

datatype Parsed = Command ArgvRef | Inline ArgvRef | Incomplete | ProtocolError WireError

definition iter_buf :: "WireIter \<Rightarrow> bytes" where
  "iter_buf it = (case it_mode it of Direct \<Rightarrow> it_input it | Accumulated \<Rightarrow> cp_acc (it_parser it) | Done \<Rightarrow> [])"

lemma parse_count_line_pos: "parse_count_line buf from err = Ok (Some (v, n)) \<Longrightarrow> from + 2 \<le> n"
  by (auto simp: parse_count_line_def Let_def split: option.splits if_splits)

lemma parse_bulk_pos: "parse_bulk buf pos limits = BComplete start len e \<Longrightarrow> pos < e"
  by (auto simp: parse_bulk_def Let_def checked_add_usize_Some bind_eq_Some_conv
      dest: parse_count_line_pos split: if_splits sum.splits option.splits prod.splits)

lemma bulks_loop_pos: "bulks_loop n buf pos limits offs = PFrame kind used \<Longrightarrow> pos \<le> used"
proof (induction n arbitrary: pos offs)
  case (Suc n)
  then show ?case
    by (auto split: BulkParse.splits dest!: parse_bulk_pos) (metis less_imp_le_nat order_trans)
qed simp

lemma parse_one_pos: "parse_one buf limits = PFrame kind used \<Longrightarrow> 0 < used"
  by (auto simp: parse_one_def parse_multibulk_def parse_inline_def Let_def
      dest!: parse_count_line_pos bulks_loop_pos split: list.splits if_splits sum.splits option.splits prod.splits)

text \<open>
  \<open>FrameIter::next\<close>. The outer \<open>None\<close> is a panic of one of the slices \<open>buf[pos..]\<close> and
  \<open>buf[base..][..used]\<close>.
\<close>

function wire_next :: "WireIter \<Rightarrow> (Parsed option \<times> WireIter) option" where
  "wire_next it =
     (if it_mode it = Done then Some (None, it)
      else if it_pos it > length (iter_buf it) then None
      else case parse_one (drop (it_pos it) (iter_buf it)) (cp_limits (it_parser it)) of
          PFrame kind used \<Rightarrow>
            (if used > length (drop (it_pos it) (iter_buf it)) then None
             else let base = it_pos it; it' = it\<lparr>it_pos := base + used\<rparr>;
                      frame = sub_slice (iter_buf it) base (base + used)
             in case kind of
                  KEmpty \<Rightarrow> wire_next it'
                | KCommand offs \<Rightarrow> Some (Some (Command (materialize offs frame)), it')
                | KInline offs \<Rightarrow> Some (Some (Inline (materialize offs frame)), it'))
        | PIncomplete \<Rightarrow> Some (None, stash_tail it)
        | PError err \<Rightarrow>
            Some (Some (ProtocolError err),
              it\<lparr>it_parser := (it_parser it)\<lparr>cp_poisoned := True, cp_acc := []\<rparr>, it_mode := Done\<rparr>))"
  by pat_completeness auto

termination
proof (relation "measure (\<lambda>it. length (iter_buf it) - it_pos it)", goal_cases)
  case (2 it kind used base it' frame)
  then have "0 < used" using parse_one_pos by blast
  with 2 show ?case by (auto simp: iter_buf_def split: Mode.splits)
qed auto

declare wire_next.simps [simp del]

section \<open>Argument offsets\<close>

text \<open>The entries in order, whether inline or spilled.\<close>

definition entries :: "ArgOffsets \<Rightarrow> (u32 \<times> u32) list" where
  "entries offs = take (ao_len offs) (ao_inline offs) @ ao_spill offs"

definition wf_offsets :: "ArgOffsets \<Rightarrow> bool" where
  "wf_offsets offs \<longleftrightarrow> length (ao_inline offs) = INLINE_ARGS \<and>
     length (ao_spill offs) = ao_len offs - INLINE_ARGS"

lemma offsets_new_wf [simp, wf_intros]: "wf_offsets offsets_new" "entries offsets_new = []" "ao_len offsets_new = 0"
  by (simp_all add: wf_offsets_def offsets_new_def entries_def)

lemma offsets_push_len [simp]: "ao_len (offsets_push offs start len) = Suc (ao_len offs)"
  by (simp add: offsets_push_def Let_def)

lemma offsets_push_wf [wf_intros]: "wf_offsets offs \<Longrightarrow> wf_offsets (offsets_push offs start len)"
  by (auto simp: wf_offsets_def offsets_push_def Let_def)

lemma entries_push:
  "wf_offsets offs \<Longrightarrow> entries (offsets_push offs start len) = entries offs @ [(start, len)]"
  by (auto simp: wf_offsets_def entries_def offsets_push_def Let_def take_Suc_conv_app_nth)

lemma length_entries: "wf_offsets offs \<Longrightarrow> length (entries offs) = ao_len offs"
  by (auto simp: wf_offsets_def entries_def)

lemma arg_entry:
  assumes "wf_offsets offs" and "i < ao_len offs"
  shows "arg (materialize offs frame) i =
    (case entries offs ! i of (start, len) \<Rightarrow> get_range frame (unat start) (unat start + unat len))"
  using assms by (auto simp: arg_def materialize_def wf_offsets_def entries_def nth_append Let_def min_def)

lemma args_entries:
  assumes "wf_offsets offs"
  shows "args (materialize offs frame) =
    map (\<lambda>(start, len). get_range frame (unat start) (unat start + unat len)) (entries offs)"
proof (rule nth_equalityI)
  show "length (args (materialize offs frame)) =
      length (map (\<lambda>(start, len). get_range frame (unat start) (unat start + unat len)) (entries offs))"
    using length_entries [OF assms] by (simp add: args_def materialize_def)
  fix i assume "i < length (args (materialize offs frame))"
  then have i: "i < ao_len offs" by (simp add: args_def materialize_def)
  then show "args (materialize offs frame) ! i =
      map (\<lambda>(start, len). get_range frame (unat start) (unat start + unat len)) (entries offs) ! i"
    using arg_entry [OF assms i, of frame] length_entries [OF assms] by (simp add: args_def materialize_def)
qed

section \<open>Length lines\<close>

lemma drop_min_length: "drop (min n (length xs)) xs = drop n xs"
  by (simp add: min_def)

lemma swar_used_le:
  assumes "swar_parse_int line = Some (v, n)"
  shows "n \<le> length line \<and> n \<le> 20"
proof -
  let ?ds = "takeWhile is_digit (drop (sign_len line) line)"
  have "n = sign_len line + length ?ds" "?ds \<noteq> []" "length ?ds \<le> 19"
    using assms by (auto simp: swar_parse_int_Some Let_def)
  moreover have "length ?ds \<le> length line - sign_len line" using length_takeWhile_le by (metis length_drop)
  moreover have "sign_len line \<le> 1" by (simp add: sign_len_def)
  moreover have "0 < length ?ds" using calculation(2) by simp
  ultimately show ?thesis by linarith
qed

lemma take_2_CRLF: "take 2 xs = [CR, LF] \<longleftrightarrow> (\<exists>ys. xs = CR # LF # ys)"
  by (cases xs; cases "tl xs") (auto simp: numeral_2_eq_2)

text \<open>The line scan after a number, and after no number.\<close>

lemma count_line_number:
  assumes "swar_parse_int (drop from buf) = Some (v, used)"
  shows "parse_count_line buf from err =
    (if \<exists>rest. drop (used + from) buf = CR # LF # rest then Ok (Some (v, from + used + 2))
     else if drop (used + from) buf = [] \<or> drop (used + from) buf = [CR] then Ok None else Err err)"
  unfolding parse_count_line_def drop_min_length Let_def assms
  by (simp only: option.case prod.case drop_drop take_2_CRLF)

lemma count_line_no_number:
  assumes "swar_parse_int (drop from buf) = None"
  shows "parse_count_line buf from err =
    (if drop from buf \<in> {[], [0x2D], [0x2B]} then Ok None else Err err)"
  unfolding parse_count_line_def drop_min_length Let_def assms by simp

lemma count_line_Some_iff:
  "parse_count_line buf from err = Ok (Some (v, n)) \<longleftrightarrow>
    (\<exists>used rest. swar_parse_int (drop from buf) = Some (v, used) \<and> drop (used + from) buf = CR # LF # rest \<and>
       n = from + used + 2)"
proof (cases "swar_parse_int (drop from buf)")
  case None
  then show ?thesis by (simp add: count_line_no_number)
next
  case (Some vn)
  then show ?thesis
    by (cases vn) (auto simp: count_line_number [of "from" buf] simp del: drop_eq_Nil drop_eq_Nil2)
qed

lemma count_line_length:
  assumes "parse_count_line buf from err = Ok (Some (v, n))"
  shows "n \<le> length buf"
proof -
  obtain used rest where d: "drop (used + from) buf = CR # LF # rest" "n = from + used + 2"
    using assms by (auto simp: count_line_Some_iff)
  from arg_cong [OF d(1), of length] show ?thesis using d(2) by simp
qed

lemma count_line_append:
  assumes "parse_count_line buf from err = Ok (Some (v, n))"
  shows "parse_count_line (buf @ ext) from err = Ok (Some (v, n))"
proof -
  obtain used rest where d: "swar_parse_int (drop from buf) = Some (v, used)"
      "drop (used + from) buf = CR # LF # rest" "n = from + used + 2"
    using assms by (auto simp: count_line_Some_iff)
  have len: "from + used + 2 \<le> length buf" using arg_cong [OF d(2), of length] by simp
  then have "swar_parse_int (drop from buf @ ext) = Some (v, used)"
    by (intro swar_parse_int_append d(1)) simp
  then have "swar_parse_int (drop from (buf @ ext)) = Some (v, used)" using len by simp
  moreover have "drop (used + from) (buf @ ext) = CR # LF # rest @ ext" using d(2) len by simp
  ultimately show ?thesis using d(3) by (auto simp: count_line_Some_iff)
qed

lemma count_line_Err_iff:
  "parse_count_line buf from err = Err e \<longleftrightarrow> e = err \<and>
    (case swar_parse_int (drop from buf) of
       Some (v, used) \<Rightarrow> (\<forall>rest. drop (used + from) buf \<noteq> CR # LF # rest) \<and>
         drop (used + from) buf \<noteq> [] \<and> drop (used + from) buf \<noteq> [CR]
     | None \<Rightarrow> drop from buf \<notin> {[], [0x2D], [0x2B]})"
proof (cases "swar_parse_int (drop from buf)")
  case None
  then show ?thesis by (auto simp: count_line_no_number)
next
  case (Some vn)
  then show ?thesis
    by (cases vn) (auto simp: count_line_number [of "from" buf] simp del: drop_eq_Nil drop_eq_Nil2)
qed

lemma count_line_Err_append:
  assumes "parse_count_line buf from err = Err e"
  shows "parse_count_line (buf @ ext) from err = Err e"
proof (cases "swar_parse_int (drop from buf)")
  case None
  then have *: "drop from buf \<notin> {[], [0x2D], [0x2B]}" "e = err"
    using assms by (auto simp: count_line_Err_iff)
  then have d: "drop from (buf @ ext) = drop from buf @ ext" by (cases "from \<le> length buf") auto
  have "drop from (buf @ ext) \<notin> {[], [0x2D], [0x2B]}"
    using * unfolding d by (cases "drop from buf") auto
  moreover have "swar_parse_int (drop from (buf @ ext)) = None"
    unfolding d by (rule swar_parse_int_None_append [OF None *(1)])
  ultimately show ?thesis using *(2) by (simp add: count_line_Err_iff)
next
  case (Some vn)
  obtain v used where vn: "vn = (v, used)" by (cases vn)
  have *: "\<forall>rest. drop (used + from) buf \<noteq> CR # LF # rest" "drop (used + from) buf \<noteq> []"
      "drop (used + from) buf \<noteq> [CR]" "e = err"
    using assms Some vn by (auto simp: count_line_Err_iff)
  then have len: "from + used < length buf" by simp
  then have "swar_parse_int (drop from buf @ ext) = Some (v, used)"
    using Some vn by (intro swar_parse_int_append) auto
  then have s: "swar_parse_int (drop from (buf @ ext)) = Some (v, used)" using len by simp
  have d: "drop (used + from) (buf @ ext) = drop (used + from) buf @ ext" using len by simp
  have "(\<forall>rest. xs @ ext \<noteq> CR # LF # rest) \<and> xs @ ext \<noteq> [] \<and> xs @ ext \<noteq> [CR]"
    if "\<forall>rest. xs \<noteq> CR # LF # rest" "xs \<noteq> []" "xs \<noteq> [CR]" for xs
    using that by (cases xs; cases "tl xs") auto
  from this [OF *(1-3)] show ?thesis
    using *(4) by (simp only: count_line_Err_iff s option.case prod.case d simp_thms)
qed

lemma count_line_None_length:
  assumes "parse_count_line buf from err = Ok None"
  shows "length buf \<le> from + 21"
proof (cases "swar_parse_int (drop from buf)")
  case None
  then have "drop from buf = [] \<or> drop from buf = [0x2D] \<or> drop from buf = [0x2B]"
    using assms by (auto simp: parse_count_line_def Let_def drop_min_length split: if_splits)
  then have "length (drop from buf) \<le> 1" by (elim disjE) (simp_all only:, simp_all)
  then show ?thesis by simp
next
  case (Some vn)
  obtain v used where vn: "vn = (v, used)" by (cases vn)
  have "used \<le> 20" using swar_used_le Some vn by blast
  moreover have "drop (used + from) buf = [] \<or> drop (used + from) buf = [CR]"
    using assms Some vn by (auto simp: parse_count_line_def Let_def drop_min_length split: if_splits)
  then have "length (drop (used + from) buf) \<le> 1" by (elim disjE) (simp_all only:, simp_all)
  ultimately show ?thesis by simp
qed

section \<open>Bulk strings\<close>

definition frame_cap :: "ParserLimits \<Rightarrow> nat" where
  "frame_cap limits = min (max_frame_bytes limits) ARGV_FRAME_BYTES_MAX"

lemma frame_cap_u32: "n \<le> frame_cap limits \<Longrightarrow> n < 2 ^ 32"
  by (simp add: frame_cap_def ARGV_FRAME_BYTES_MAX_def)

text \<open>The bulk's outcome once its length line is complete.\<close>

lemma parse_bulk_line:
  assumes "pos < length buf" and "buf ! pos = 0x24"
    and "parse_count_line buf (pos + 1) BadBulkLen = Ok (Some (len, start))"
  shows "parse_bulk buf pos limits =
    (if len < 0 then BError BadBulkLen
     else if nat len > max_bulk_bytes limits then BError (FrameTooLarge (nat len) (max_bulk_bytes limits))
     else if start + nat len + 2 \<ge> 2 ^ 64 then BError (FrameTooLong (2 ^ 64 - 1) (frame_cap limits))
     else if start + nat len + 2 > frame_cap limits
       then BError (FrameTooLong (start + nat len + 2) (frame_cap limits))
     else if length buf < start + nat len + 2 then BIncomplete
     else if sub_slice buf (start + nat len) (start + nat len + 2) \<noteq> [CR, LF] then BError ExpectedCrlf
     else BComplete (of_nat start) (of_nat (nat len)) (start + nat len + 2))"
  using assms unfolding parse_bulk_def Let_def frame_cap_def [symmetric]
  by (simp add: checked_add_usize_def not_less)

lemma parse_bulk_cases:
  obtains (Short) "length buf \<le> pos" "parse_bulk buf pos limits = BIncomplete"
  | (Marker) "pos < length buf" "buf ! pos \<noteq> 0x24" "parse_bulk buf pos limits = BError (ExpectedBulk (buf ! pos))"
  | (BadLine) e where "pos < length buf" "buf ! pos = 0x24"
      "parse_count_line buf (pos + 1) BadBulkLen = Err e" "parse_bulk buf pos limits = BError e"
  | (Open) "pos < length buf" "buf ! pos = 0x24"
      "parse_count_line buf (pos + 1) BadBulkLen = Ok None" "parse_bulk buf pos limits = BIncomplete"
  | (Line) len start where "pos < length buf" "buf ! pos = 0x24"
      "parse_count_line buf (pos + 1) BadBulkLen = Ok (Some (len, start))"
proof (cases "length buf \<le> pos")
  case True
  then show thesis by (intro Short) (simp_all add: parse_bulk_def)
next
  case False
  show thesis
  proof (cases "buf ! pos = 0x24")
    case True
    show thesis
    proof (cases "parse_count_line buf (pos + 1) BadBulkLen")
      case (Inl e)
      with False True show thesis by (intro BadLine) (simp_all add: parse_bulk_def)
    next
      case (Inr r)
      with False True Open Line show thesis
        by (cases r) (auto simp: parse_bulk_def)
    qed
  next
    case False
    with \<open>\<not> length buf \<le> pos\<close> show thesis by (intro Marker) (simp_all add: parse_bulk_def)
  qed
qed

lemma parse_bulk_Complete:
  assumes "parse_bulk buf pos limits = BComplete start len e"
  shows "pos < unat start \<and> unat start + unat len + 2 = e \<and> e \<le> length buf \<and> e \<le> frame_cap limits \<and>
    unat len \<le> max_bulk_bytes limits \<and> sub_slice buf (unat start + unat len) e = [CR, LF]"
proof (cases buf pos limits rule: parse_bulk_cases)
  case (Line l s)
  have eq: "start = of_nat s" "len = of_nat (nat l)" "e = s + nat l + 2"
    and le: "e \<le> length buf" "e \<le> frame_cap limits" "nat l \<le> max_bulk_bytes limits"
    and crlf: "sub_slice buf (s + nat l) (s + nat l + 2) = [CR, LF]"
    using assms unfolding parse_bulk_line [OF Line] by (auto simp: not_less split: if_splits)
  have "s < 2 ^ 32" "nat l < 2 ^ 32" using frame_cap_u32 [OF le(2)] eq by auto
  then have u: "unat start = s" "unat len = nat l" by (simp_all only: eq unat_of_nat_u32)
  have "pos + 1 + 2 \<le> s" using parse_count_line_pos [OF Line(3)] .
  then show ?thesis using eq(3) le crlf by (simp add: u)
qed (use assms in simp_all)

lemma parse_bulk_append:
  assumes "parse_bulk buf pos limits = BComplete start len e"
  shows "parse_bulk (buf @ ext) pos limits = BComplete start len e"
proof (cases buf pos limits rule: parse_bulk_cases)
  case (Line l s)
  have le: "s + nat l + 2 \<le> length buf"
    using assms unfolding parse_bulk_line [OF Line] by (auto split: if_splits)
  have "pos < length (buf @ ext)" "(buf @ ext) ! pos = 0x24"
    using Line by (simp_all add: nth_append)
  note line = parse_bulk_line [OF this count_line_append [OF Line(3)]]
  show ?thesis
    using assms le unfolding line parse_bulk_line [OF Line]
    by (auto simp: sub_slice_append_left split: if_splits)
qed (use assms in simp_all)

lemma parse_bulk_error_append:
  assumes "parse_bulk buf pos limits = BError e"
  shows "parse_bulk (buf @ ext) pos limits = BError e"
proof (cases buf pos limits rule: parse_bulk_cases)
  case Marker
  then show ?thesis using assms by (simp add: parse_bulk_def nth_append)
next
  case (BadLine e')
  then show ?thesis
    using assms count_line_Err_append [OF BadLine(3), of ext] by (simp add: parse_bulk_def nth_append)
next
  case (Line l s)
  have "pos < length (buf @ ext)" "(buf @ ext) ! pos = 0x24"
    using Line by (simp_all add: nth_append)
  note line = parse_bulk_line [OF this count_line_append [OF Line(3)]]
  show ?thesis
    using assms unfolding line parse_bulk_line [OF Line]
    by (auto simp: sub_slice_append_left split: if_splits)
qed (use assms in simp_all)

lemma parse_bulk_incomplete_length:
  assumes "parse_bulk buf pos limits = BIncomplete" and "pos \<le> frame_cap limits"
  shows "length buf \<le> frame_cap limits + 22"
proof (cases buf pos limits rule: parse_bulk_cases)
  case Open
  then show ?thesis using count_line_None_length [OF Open(3)] assms(2) by simp
next
  case (Line l s)
  then show ?thesis using assms unfolding parse_bulk_line [OF Line] by (auto split: if_splits)
qed (use assms in simp_all)

section \<open>Finding the end of an inline line\<close>

definition crlf_at :: "bytes \<Rightarrow> nat \<Rightarrow> bool" where
  "crlf_at buf i \<longleftrightarrow> i + 1 < length buf \<and> buf ! i = CR \<and> buf ! (i + 1) = LF"

lemma position_Some:
  assumes "position P xs = Some n"
  shows "n < length xs" and "P (xs ! n)" and "\<And>j. j < n \<Longrightarrow> \<not> P (xs ! j)"
proof -
  have n: "n = length (takeWhile (\<lambda>x. \<not> P x) xs)" "n < length xs"
    using assms by (auto simp: position_def Let_def split: if_splits)
  show "n < length xs" by (rule n(2))
  show "P (xs ! n)" using nth_length_takeWhile [of "\<lambda>x. \<not> P x" xs] n by simp
  fix j assume j: "j < n"
  then have "takeWhile (\<lambda>x. \<not> P x) xs ! j = xs ! j" using n by (intro takeWhile_nth) simp
  moreover have "takeWhile (\<lambda>x. \<not> P x) xs ! j \<in> set (takeWhile (\<lambda>x. \<not> P x) xs)"
    using j n by (intro nth_mem) simp
  ultimately show "\<not> P (xs ! j)" by (metis set_takeWhileD)
qed

lemma position_None: "position P xs = None \<Longrightarrow> j < length xs \<Longrightarrow> \<not> P (xs ! j)"
  by (auto simp: position_def Let_def split: if_splits) (metis length_takeWhile_less nth_mem)

lemma find_loop_spec:
  "(find_loop buf off = Some i \<longrightarrow> off \<le> i \<and> crlf_at buf i \<and> (\<forall>j. off \<le> j \<longrightarrow> j < i \<longrightarrow> \<not> crlf_at buf j)) \<and>
   (find_loop buf off = None \<longrightarrow> (\<forall>j. off \<le> j \<longrightarrow> \<not> crlf_at buf j))"
proof (induction buf off rule: find_loop.induct)
  case (1 buf off)
  show ?case
  proof (cases "off + 1 < length buf")
    case False
    then show ?thesis by (auto simp: find_loop.simps [of buf off] crlf_at_def)
  next
    case True
    let ?w = "sub_slice buf off (length buf - 1)"
    have w: "?w ! j = buf ! (off + j)" "length ?w = length buf - 1 - off" if "j < length buf - 1 - off" for j
      using that by (simp_all add: sub_slice_def)
    show ?thesis
    proof (cases "position (\<lambda>b. b = CR) ?w")
      case None
      have "\<not> crlf_at buf j" if "off \<le> j" for j
      proof
        assume c: "crlf_at buf j"
        then have lt: "j - off < length buf - 1 - off" using that by (auto simp: crlf_at_def)
        then have "?w ! (j - off) \<noteq> CR" using position_None [OF None] w(2) [OF lt] by metis
        with w(1) [OF lt] that c show False by (simp add: crlf_at_def)
      qed
      then show ?thesis using True None by (simp add: find_loop.simps [of buf off])
    next
      case (Some rel)
      note p = position_Some [OF Some]
      have lw: "length ?w = length buf - 1 - off" by (simp add: sub_slice_def)
      have rel: "rel < length buf - 1 - off" using p(1) lw by metis
      have cr: "buf ! (off + rel) = CR" using p(2) w(1) [OF rel] by simp
      have before: "\<not> crlf_at buf j" if "off \<le> j" "j < off + rel" for j
      proof -
        have lt: "j - off < rel" using that by simp
        then have "?w ! (j - off) \<noteq> CR" using p(3) by blast
        then show ?thesis using w(1) [of "j - off"] lt rel that by (simp add: crlf_at_def)
      qed
      show ?thesis
      proof (cases "buf ! (off + rel + 1) = LF")
        case lf: True
        then have "find_loop buf off = Some (off + rel)"
          using True Some by (simp add: find_loop.simps [of buf off])
        then show ?thesis using before cr lf rel by (auto simp: crlf_at_def)
      next
        case nlf: False
        then have eq: "find_loop buf off = find_loop buf (off + rel + 1)"
          using True Some by (simp add: find_loop.simps [of buf off])
        have "\<not> crlf_at buf (off + rel)" using nlf by (simp add: crlf_at_def)
        then have upto: "\<not> crlf_at buf j" if "off \<le> j" "j < off + rel + 1" for j
          using before [of j] that by (cases "j = off + rel") auto
        have all: "\<not> crlf_at buf j" if "off \<le> j" "off + rel + 1 \<le> j \<Longrightarrow> \<not> crlf_at buf j" for j
          using upto [OF that(1)] that(2) by (cases "j < off + rel + 1") auto
        note IH = 1 [OF True Some refl nlf]
        show ?thesis unfolding eq
        proof (intro conjI impI allI)
          assume "find_loop buf (off + rel + 1) = Some i"
          with IH have "off + rel + 1 \<le> i" "crlf_at buf i"
              and less: "\<And>j. off + rel + 1 \<le> j \<Longrightarrow> j < i \<Longrightarrow> \<not> crlf_at buf j"
            by auto
          then show "off \<le> i" "crlf_at buf i" by simp_all
          fix j assume "off \<le> j" "j < i"
          then show "\<not> crlf_at buf j" using all less by blast
        next
          fix j assume "find_loop buf (off + rel + 1) = None" "off \<le> j"
          with IH have "\<And>k. off + rel + 1 \<le> k \<Longrightarrow> \<not> crlf_at buf k" by simp
          then show "\<not> crlf_at buf j" using all [OF \<open>off \<le> j\<close>] by blast
        qed
      qed
    qed
  qed
qed

lemma find_crlf_Some_iff:
  "find_crlf buf 0 = Some i \<longleftrightarrow> crlf_at buf i \<and> (\<forall>j<i. \<not> crlf_at buf j)"
proof (cases "buf = []")
  case True
  then show ?thesis by (simp add: find_crlf_def crlf_at_def)
next
  case False
  then have "find_crlf buf 0 = find_loop buf 0" by (simp add: find_crlf_def)
  then show ?thesis
    using find_loop_spec [of buf 0] by (cases "find_loop buf 0") (auto, metis linorder_neqE_nat)
qed

lemma find_crlf_None_iff: "find_crlf buf 0 = None \<longleftrightarrow> (\<forall>i. \<not> crlf_at buf i)"
  using find_crlf_Some_iff [of buf] exists_least_iff [of "crlf_at buf"] by (metis not_None_eq)

lemma find_crlf_append: "find_crlf buf 0 = Some i \<Longrightarrow> find_crlf (buf @ ext) 0 = Some i"
  by (auto simp: find_crlf_Some_iff crlf_at_def nth_append)

section \<open>Frames\<close>

definition in_frame :: "ArgOffsets \<Rightarrow> nat \<Rightarrow> bool" where
  "in_frame offs used \<longleftrightarrow> (\<forall>(start, len)\<in>set (entries offs). unat start + unat len + 2 \<le> used)"

lemma in_frame_push:
  "wf_offsets offs \<Longrightarrow> in_frame offs pos \<Longrightarrow> pos \<le> e \<Longrightarrow> unat start + unat len + 2 \<le> e \<Longrightarrow>
    in_frame (offsets_push offs start len) e"
  by (fastforce simp: in_frame_def entries_push)

lemma in_frame_new [simp]: "in_frame offsets_new pos"
  by (simp add: in_frame_def)

lemma bulks_loop_Frame:
  assumes "bulks_loop n buf pos limits offs = PFrame kind used" and "wf_offsets offs" and "in_frame offs pos"
    and "pos \<le> length buf"
  shows "\<exists>offs'. kind = KCommand offs' \<and> wf_offsets offs' \<and> ao_len offs' = ao_len offs + n \<and>
    in_frame offs' used \<and> pos \<le> used \<and> used \<le> length buf \<and> (0 < n \<longrightarrow> used \<le> frame_cap limits)"
  using assms
proof (induction n arbitrary: pos offs)
  case 0
  then show ?case by auto
next
  case (Suc n)
  then obtain start len e where b: "parse_bulk buf pos limits = BComplete start len e"
      and rec: "bulks_loop n buf e limits (offsets_push offs start len) = PFrame kind used"
    by (auto split: BulkParse.splits)
  note f = parse_bulk_Complete [OF b]
  have "in_frame (offsets_push offs start len) e"
    using in_frame_push [OF Suc.prems(2,3)] f by simp
  from Suc.IH [OF rec offsets_push_wf [OF Suc.prems(2)] this] f show ?case
    using rec by (cases n) auto
qed

lemma bulks_loop_append:
  "bulks_loop n buf pos limits offs = PFrame kind used \<Longrightarrow>
    bulks_loop n (buf @ ext) pos limits offs = PFrame kind used"
proof (induction n arbitrary: pos offs)
  case (Suc n)
  then show ?case
    by (cases "parse_bulk buf pos limits") (simp_all add: parse_bulk_append)
qed simp

lemma bulks_loop_error_append:
  "bulks_loop n buf pos limits offs = PError e \<Longrightarrow> bulks_loop n (buf @ ext) pos limits offs = PError e"
proof (induction n arbitrary: pos offs)
  case (Suc n)
  then show ?case
    by (cases "parse_bulk buf pos limits")
      (simp_all add: parse_bulk_append parse_bulk_error_append)
qed simp

lemma bulks_loop_incomplete:
  assumes "bulks_loop n buf pos limits offs = PIncomplete" and "pos \<le> max (frame_cap limits) 23"
  shows "length buf \<le> max (frame_cap limits) 23 + 22"
  using assms
proof (induction n arbitrary: pos offs)
  case (Suc n)
  show ?case
  proof (cases "parse_bulk buf pos limits")
    case (BComplete start len e)
    then show ?thesis
      using Suc parse_bulk_Complete [OF BComplete] by (auto simp: le_max_iff_disj)
  next
    case BIncomplete
    then show ?thesis
    proof (cases buf pos limits rule: parse_bulk_cases)
      case Open
      then show ?thesis using count_line_None_length [OF Open(3)] Suc.prems(2) by simp
    next
      case (Line l s)
      then show ?thesis using BIncomplete unfolding parse_bulk_line [OF Line] by (auto split: if_splits)
    qed (use BIncomplete Suc.prems(2) in simp_all)
  qed (use Suc in simp_all)
qed simp

subsection \<open>Inline words\<close>

text \<open>The words of a line: the maximal runs of non-whitespace bytes.\<close>

fun ws_words :: "bytes \<Rightarrow> bytes list" where
  "ws_words [] = []"
| "ws_words (b # bs) =
     (if is_ascii_whitespace b then ws_words bs
      else takeWhile (\<lambda>b. \<not> is_ascii_whitespace b) (b # bs) #
        ws_words (drop (length (takeWhile (\<lambda>b. \<not> is_ascii_whitespace b) bs)) bs))"

lemma ws_words_skip: "ws_words (drop (length (takeWhile is_ascii_whitespace bs)) bs) = ws_words bs"
  by (induction bs) auto

lemma ws_words_step:
  assumes "w = takeWhile (\<lambda>b. \<not> is_ascii_whitespace b) (drop (length (takeWhile is_ascii_whitespace bs)) bs)"
  shows "ws_words bs = (if w = [] then [] else w # ws_words (drop (length w) (drop (length (takeWhile is_ascii_whitespace bs)) bs)))"
proof -
  let ?rest = "drop (length (takeWhile is_ascii_whitespace bs)) bs"
  have "ws_words ?rest = (if w = [] then [] else w # ws_words (drop (length w) ?rest))"
  proof (cases ?rest)
    case Nil
    then show ?thesis using assms by simp
  next
    case (Cons b r)
    have "\<not> is_ascii_whitespace b"
      using Cons by (metis append_take_drop_id takeWhile_eq_take dropWhile_eq_drop hd_dropWhile list.distinct(1) list.sel(1))
    then show ?thesis using assms by (simp add: Cons)
  qed
  then show ?thesis by (simp only: ws_words_skip)
qed

definition slices :: "bytes \<Rightarrow> ArgOffsets \<Rightarrow> bytes list" where
  "slices line offs = map (\<lambda>(start, len). sub_slice line (unat start) (unat start + unat len)) (entries offs)"

lemma length_slices: "wf_offsets offs \<Longrightarrow> length (slices line offs) = ao_len offs"
  by (simp add: slices_def length_entries)

lemma inline_loop_words:
  assumes "wf_offsets offs" and "length line < 2 ^ 32" and "in_frame offs (length line + 2)"
    and "ao_len offs \<le> max_args limits" and "i \<le> length line"
  shows "(if ao_len offs + length (ws_words (drop i line)) \<le> max_args limits
     then (\<exists>offs'. inline_loop line i limits offs = Ok offs' \<and> wf_offsets offs' \<and> in_frame offs' (length line + 2) \<and>
       slices line offs' = slices line offs @ ws_words (drop i line))
     else inline_loop line i limits offs = Err (TooManyArgs (max_args limits + 1) (max_args limits)))"
  using assms
proof (induction line i limits offs rule: inline_loop.induct)
  case (1 line i limits offs)
  show ?case
  proof (cases "i < length line")
    case False
    then have "inline_loop line i limits offs = Ok offs" by (simp add: inline_loop.simps [of line i])
    then show ?thesis using "1.prems" False by auto
  next
    case True
    define start where "start = i + length (takeWhile is_ascii_whitespace (drop i line))"
    define w where "w = takeWhile (\<lambda>b. \<not> is_ascii_whitespace b) (drop start line)"
    define stop where "stop = start + length w"
    note defs = start_def [symmetric] w_def [symmetric] stop_def [symmetric]
    have ws: "ws_words (drop i line) = (if w = [] then [] else w # ws_words (drop stop line))"
      using ws_words_step [of w "drop i line"] by (simp add: w_def stop_def start_def add.commute add.left_commute)
    have st: "start \<le> length line"
      using length_takeWhile_le [of is_ascii_whitespace "drop i line"] "1.prems"(5) by (simp add: start_def)
    have sp: "stop \<le> length line"
      using length_takeWhile_le [of "\<lambda>b. \<not> is_ascii_whitespace b" "drop start line"] st
      by (simp add: stop_def w_def)
    have step: "inline_loop line i limits offs =
        (if stop > start then
           (if ao_len offs \<ge> max_args limits then Err (TooManyArgs (ao_len offs + 1) (max_args limits))
            else inline_loop line stop limits (offsets_push offs (of_nat start) (of_nat (stop - start))))
         else inline_loop line stop limits offs)"
      by (subst inline_loop.simps) (simp only: Let_def defs True if_True)
    show ?thesis
    proof (cases "w = []")
      case True
      then have stop: "stop = start" "\<not> stop > start" by (simp_all add: stop_def)
      have "ws_words (drop stop line) = []"
        using ws_words_skip [of "drop i line"] ws True by (simp add: stop start_def add.commute)
      moreover note "1.IH"(2) [OF \<open>i < length line\<close> start_def stop_def [unfolded w_def] stop(2) "1.prems"(1-4) sp]
      ultimately show ?thesis using ws True stop step by (auto split: if_splits)
    next
      case False
      then have gt: "stop > start" by (simp add: stop_def)
      show ?thesis
      proof (cases "ao_len offs \<ge> max_args limits")
        case True
        then show ?thesis using step gt ws False "1.prems"(4) by simp
      next
        case room: False
        let ?offs = "offsets_push offs (of_nat start) (of_nat (stop - start))"
        have u: "unat (of_nat start :: u32) = start" "unat (of_nat (stop - start) :: u32) = stop - start"
          using st sp "1.prems"(2) by (auto intro!: unat_of_nat_u32)
        have wf: "wf_offsets ?offs" using "1.prems"(1) by (rule offsets_push_wf)
        have inf: "in_frame ?offs (length line + 2)"
          by (intro in_frame_push [OF "1.prems"(1,3)]) (simp_all only: u, use sp gt in simp_all)
        have "w = sub_slice line start stop"
          unfolding stop_def sub_slice_def using takeWhile_eq_take [of "\<lambda>b. \<not> is_ascii_whitespace b" "drop start line"]
          by (simp add: w_def)
        then have sl: "slices line ?offs = slices line offs @ [w]"
          using gt by (simp only: slices_def entries_push [OF "1.prems"(1)] map_append list.map prod.case u) simp
        note IH = "1.IH"(1) [OF \<open>i < length line\<close> start_def stop_def [unfolded w_def] gt _ wf "1.prems"(2) inf _ sp]
        show ?thesis using IH room step gt ws False sl by (auto split: if_splits)
      qed
    qed
  qed
qed

subsection \<open>What one parse step guarantees\<close>

lemma crlf_at_length: "crlf_at buf i \<Longrightarrow> i + 2 \<le> length buf"
  by (simp add: crlf_at_def)

lemma parse_inline_Some:
  assumes "find_crlf buf 0 = Some e"
  shows "parse_inline buf limits =
    (if e > max_bulk_bytes limits then PError (FrameTooLarge e (max_bulk_bytes limits))
     else if e + 2 > frame_cap limits then PError (FrameTooLong (e + 2) (frame_cap limits))
     else case inline_loop (take e buf) 0 limits offsets_new of
         Inl err \<Rightarrow> PError err
       | Inr offs \<Rightarrow> if ao_len offs = 0 then PFrame KEmpty (e + 2) else PFrame (KInline offs) (e + 2))"
  unfolding parse_inline_def frame_cap_def assms Let_def by simp

lemma parse_inline_Frame:
  assumes "parse_inline buf limits = PFrame kind used"
  shows "\<exists>e. find_crlf buf 0 = Some e \<and> used = e + 2 \<and> used \<le> length buf \<and> used \<le> frame_cap limits \<and>
    e \<le> max_bulk_bytes limits \<and> length (ws_words (take e buf)) \<le> max_args limits \<and>
    (kind = KEmpty \<and> ws_words (take e buf) = [] \<or>
     (\<exists>offs. kind = KInline offs \<and> wf_offsets offs \<and> in_frame offs used \<and> 0 < ao_len offs \<and>
        slices (take e buf) offs = ws_words (take e buf)))"
proof (cases "find_crlf buf 0")
  case None
  then show ?thesis using assms by (simp add: parse_inline_def Let_def split: if_splits)
next
  case (Some e)
  have len: "e + 2 \<le> length buf" using Some by (simp add: find_crlf_Some_iff crlf_at_def)
  have le: "e \<le> max_bulk_bytes limits" "e + 2 \<le> frame_cap limits"
    using assms unfolding parse_inline_Some [OF Some] by (auto split: if_splits)
  have lt: "length (take e buf) < 2 ^ 32" and tl: "length (take e buf) = e"
    using frame_cap_u32 [OF le(2)] len by simp_all
  note w = inline_loop_words [of offsets_new "take e buf" limits 0, simplified]
  show ?thesis
  proof (cases "length (ws_words (take e buf)) \<le> max_args limits")
    case True
    then obtain offs where o: "inline_loop (take e buf) 0 limits offsets_new = Ok offs" "wf_offsets offs"
        "in_frame offs (e + 2)" "slices (take e buf) offs = ws_words (take e buf)"
      using w lt tl by (auto simp: slices_def)
    have "ao_len offs = length (ws_words (take e buf))"
      using o(4) length_slices [OF o(2), of "take e buf"] by simp
    then show ?thesis
      using assms Some le len o True unfolding parse_inline_Some [OF Some] by (auto split: if_splits)
  next
    case False
    then show ?thesis
      using assms w lt tl le unfolding parse_inline_Some [OF Some] by (auto split: if_splits)
  qed
qed

lemma parse_multibulk_Frame:
  assumes "parse_multibulk buf limits = PFrame kind used"
  shows "used \<le> length buf \<and> used \<le> frame_cap limits \<and>
    (kind = KEmpty \<or> (\<exists>offs. kind = KCommand offs \<and> wf_offsets offs \<and> in_frame offs used \<and>
       0 < ao_len offs \<and> ao_len offs \<le> max_args limits))"
proof -
  obtain argc pos where c: "parse_count_line buf 1 BadMultibulkLen = Ok (Some (argc, pos))" "0 \<le> argc"
      "nat argc \<le> min (max_args limits) ARGV_ENTRIES_MAX"
    using assms by (auto simp: parse_multibulk_def Let_def not_less split: sum.splits option.splits if_splits)
  note len = count_line_length [OF c(1)]
  show ?thesis
  proof (cases "argc = 0")
    case True
    then show ?thesis
      using assms c len by (auto simp: parse_multibulk_def frame_cap_def Let_def split: if_splits)
  next
    case False
    then have "bulks_loop (nat argc) buf pos limits offsets_new = PFrame kind used"
      using assms c by (auto simp: parse_multibulk_def Let_def split: if_splits)
    from bulks_loop_Frame [OF this _ _ len] show ?thesis using False c by auto
  qed
qed

lemma parse_one_Frame:
  assumes "parse_one buf limits = PFrame kind used"
  shows "0 < used \<and> used \<le> length buf \<and> used \<le> frame_cap limits \<and>
    (kind = KEmpty \<or> (\<exists>offs. kind \<in> {KCommand offs, KInline offs} \<and> wf_offsets offs \<and> in_frame offs used \<and>
       0 < ao_len offs \<and> ao_len offs \<le> max_args limits))"
proof (cases buf)
  case Nil
  then show ?thesis using assms by (simp add: parse_one_def)
next
  case (Cons b bs)
  show ?thesis
  proof (cases "b = 0x2A")
    case True
    then have "parse_multibulk buf limits = PFrame kind used" using assms Cons by (simp add: parse_one_def)
    from parse_multibulk_Frame [OF this] parse_one_pos [OF assms] show ?thesis by auto
  next
    case False
    then have "parse_inline buf limits = PFrame kind used" using assms Cons by (simp add: parse_one_def)
    from parse_inline_Frame [OF this] obtain e where e: "used = e + 2" "used \<le> length buf" "used \<le> frame_cap limits"
        "length (ws_words (take e buf)) \<le> max_args limits"
      and k: "kind = KEmpty \<or> (\<exists>offs. kind = KInline offs \<and> wf_offsets offs \<and> in_frame offs used \<and>
        0 < ao_len offs \<and> slices (take e buf) offs = ws_words (take e buf))"
      by blast
    have "ao_len offs = length (ws_words (take e buf))"
      if "wf_offsets offs" "slices (take e buf) offs = ws_words (take e buf)" for offs
      using that length_slices [OF that(1), of "take e buf"] by simp
    then show ?thesis using e k by auto
  qed
qed

lemma parse_one_append:
  assumes "parse_one buf limits = PFrame kind used"
  shows "parse_one (buf @ ext) limits = PFrame kind used"
proof (cases buf)
  case Nil
  then show ?thesis using assms by (simp add: parse_one_def)
next
  case (Cons b bs)
  show ?thesis
  proof (cases "b = 0x2A")
    case True
    then have m: "parse_multibulk buf limits = PFrame kind used" using assms Cons by (simp add: parse_one_def)
    then have "parse_multibulk (buf @ ext) limits = PFrame kind used"
      unfolding parse_multibulk_def
      by (auto simp: Let_def count_line_append bulks_loop_append split: sum.splits option.splits if_splits)
    then show ?thesis using Cons True by (simp add: parse_one_def)
  next
    case False
    then have i: "parse_inline buf limits = PFrame kind used" using assms Cons by (simp add: parse_one_def)
    then obtain e where e: "find_crlf buf 0 = Some e" using parse_inline_Frame by blast
    then have "e \<le> length buf" by (simp add: find_crlf_Some_iff crlf_at_def)
    then have t: "take e (buf @ ext) = take e buf" by simp
    have "parse_inline (buf @ ext) limits = PFrame kind used"
      using i by (simp only: parse_inline_Some [OF e] parse_inline_Some [OF find_crlf_append [OF e]] t)
    then show ?thesis using Cons False by (simp add: parse_one_def)
  qed
qed

lemma parse_multibulk_error_append:
  assumes "parse_multibulk buf limits = PError e"
  shows "parse_multibulk (buf @ ext) limits = PError e"
  using assms unfolding parse_multibulk_def
  by (auto simp: Let_def count_line_append count_line_Err_append bulks_loop_error_append
      split: sum.splits option.splits if_splits)

lemma parse_one_incomplete_length:
  assumes "parse_one buf limits = PIncomplete"
  shows "length buf \<le> max (frame_cap limits) 23 + 22"
proof (cases "buf \<noteq> [] \<and> hd buf = 0x2A")
  case False
  then show ?thesis
    using assms by (cases buf)
      (auto simp: parse_one_def parse_inline_def frame_cap_def Let_def split: option.splits if_splits sum.splits)
next
  case True
  then have m: "parse_multibulk buf limits = PIncomplete" using assms by (cases buf) (auto simp: parse_one_def)
  show ?thesis
  proof (cases "parse_count_line buf 1 BadMultibulkLen")
    case (Inr r)
    show ?thesis
    proof (cases r)
      case None
      then show ?thesis using count_line_None_length Inr by fastforce
    next
      case (Some ap)
      obtain argc pos where ap: "ap = (argc, pos)" by (cases ap)
      then have c: "parse_count_line buf 1 BadMultibulkLen = Ok (Some (argc, pos))" using Inr Some by simp
      then have "pos \<le> 23"
        using swar_used_le by (fastforce simp: count_line_Some_iff)
      moreover have "bulks_loop (nat argc) buf pos limits offsets_new = PIncomplete"
        using m c by (auto simp: parse_multibulk_def Let_def split: if_splits)
      ultimately show ?thesis by (intro bulks_loop_incomplete) auto
    qed
  qed (use m in \<open>simp add: parse_multibulk_def\<close>)
qed

end
