(* ===== verification/RespStream.thy ===== *)
theory RespStream
  imports RespParser
begin

text \<open>
  The connection parser over a stream of reads. \<open>drive\<close> is the loop \<open>while let Some(p) = iter.next()\<close>
  and \<open>feed_drive\<close> one read: feed, drain, drop the iterator. Its specification \<open>run_frames\<close> parses a
  byte string frame by frame, with no buffering and no modes. The theory proves that a read refines the
  specification on the carried bytes followed by the new ones, and from it that the way the stream is cut
  into reads does not matter, that no input panics, that every argument lies inside its frame, and that
  the carried bytes are bounded.
\<close>

section \<open>Draining one read\<close>

lemma iter_buf_pos [simp]: "iter_buf (it\<lparr>it_pos := n\<rparr>) = iter_buf it"
  by (simp add: iter_buf_def split: Mode.split)

lemma wire_next_measure:
  assumes "wire_next it = Some (Some x, it')"
  shows "(if it_mode it' = Done then 0 else Suc (length (iter_buf it') - it_pos it')) <
    (if it_mode it = Done then 0 else Suc (length (iter_buf it) - it_pos it))"
  using assms
proof (induction it rule: wire_next.induct)
  case (1 it)
  have nd: "it_mode it \<noteq> Done" and pos: "it_pos it \<le> length (iter_buf it)"
    using "1.prems" by (auto simp: wire_next.simps [of it] split: if_splits)
  let ?p = "parse_one (drop (it_pos it) (iter_buf it)) (cp_limits (it_parser it))"
  show ?case
  proof (cases ?p)
    case (PFrame kind used)
    let ?it = "it\<lparr>it_pos := it_pos it + used\<rparr>"
    have u: "0 < used" "used \<le> length (iter_buf it) - it_pos it"
      using parse_one_Frame [OF PFrame] by auto
    have buf: "iter_buf ?it = iter_buf it" by simp
    show ?thesis
    proof (cases kind)
      case KEmpty
      have "wire_next ?it = Some (Some x, it')"
        using "1.prems" nd pos u PFrame KEmpty by (simp add: wire_next.simps [of it] Let_def)
      moreover have "\<not> used > length (drop (it_pos it) (iter_buf it))" using u by simp
      moreover note "1.IH" [OF nd _ PFrame this refl refl refl KEmpty]
      ultimately show ?thesis using nd pos u buf by (auto split: if_splits)
    qed (use "1.prems" nd pos u buf PFrame in \<open>auto simp: wire_next.simps [of it] Let_def\<close>)
  qed (use "1.prems" nd pos in \<open>auto simp: wire_next.simps [of it]\<close>)
qed

function drive :: "WireIter \<Rightarrow> (Parsed list \<times> WireIter) option" where
  "drive it =
     (case wire_next it of
        None \<Rightarrow> None
      | Some (None, it') \<Rightarrow> Some ([], it')
      | Some (Some x, it') \<Rightarrow> map_option (\<lambda>(xs, it''). (x # xs, it'')) (drive it'))"
  by pat_completeness auto
termination
  by (relation "measure (\<lambda>it. if it_mode it = Done then 0 else Suc (length (iter_buf it) - it_pos it))", simp)
    (metis in_measure wire_next_measure)

declare drive.simps [simp del]

definition feed_drive :: "ConnParser \<Rightarrow> bytes \<Rightarrow> (Parsed list \<times> ConnParser) option" where
  "feed_drive p input = map_option (\<lambda>(xs, it). (xs, iter_drop it)) (drive (feed p input))"

fun feed_chunks :: "ConnParser \<Rightarrow> bytes list \<Rightarrow> (Parsed list \<times> ConnParser) option" where
  "feed_chunks p [] = Some ([], p)"
| "feed_chunks p (c # cs) =
     (case feed_drive p c of
        None \<Rightarrow> None
      | Some (xs, p') \<Rightarrow> map_option (\<lambda>(ys, p''). (xs @ ys, p'')) (feed_chunks p' cs))"

section \<open>Specification\<close>

fun kind_items :: "FrameKind \<Rightarrow> bytes \<Rightarrow> Parsed list" where
  "kind_items (KCommand offs) frame = [Command (materialize offs frame)]"
| "kind_items (KInline offs) frame = [Inline (materialize offs frame)]"
| "kind_items KEmpty frame = []"

function run_frames :: "ParserLimits \<Rightarrow> bytes \<Rightarrow> Parsed list \<times> (WireError + bytes)" where
  "run_frames limits buf =
     (case parse_one buf limits of
        PFrame kind used \<Rightarrow>
          let (xs, r) = run_frames limits (drop used buf) in (kind_items kind (take used buf) @ xs, r)
      | PIncomplete \<Rightarrow> ([], Ok buf)
      | PError e \<Rightarrow> ([ProtocolError e], Err e))"
  by pat_completeness auto
termination
proof (relation "measure (\<lambda>(_, buf). length buf)", goal_cases)
  case (2 limits buf kind used)
  then have "0 < used" "used \<le> length buf" using parse_one_Frame by blast+
  then show ?case by simp
qed simp

declare run_frames.simps [simp del]

text \<open>The parser after a read that left \<open>r\<close>: the tail is carried, an error poisons.\<close>

fun after_read :: "ConnParser \<Rightarrow> WireError + bytes \<Rightarrow> ConnParser" where
  "after_read p (Inr tail) = p\<lparr>cp_acc := tail\<rparr>"
| "after_read p (Inl e) = p\<lparr>cp_poisoned := True, cp_acc := []\<rparr>"

lemma drive_step:
  "wire_next it = Some (Some x, it') \<Longrightarrow> drive it' = Some (xs, it'') \<Longrightarrow> drive it = Some (x # xs, it'')"
  by (simp add: drive.simps [of it])

lemma drive_cong: "wire_next it = wire_next it' \<Longrightarrow> drive it = drive it'"
  by (simp add: drive.simps [of it] drive.simps [of it'])

lemma drive_done: "it_mode it = Done \<Longrightarrow> drive it = Some ([], it)"
  by (simp add: drive.simps [of it] wire_next.simps [of it])

definition iter_ok :: "WireIter \<Rightarrow> bool" where
  "iter_ok it \<longleftrightarrow> it_mode it \<noteq> Done \<and> it_pos it \<le> length (iter_buf it) \<and>
     (it_mode it = Direct \<longrightarrow> cp_acc (it_parser it) = [])"

lemma stash_tail_ok:
  assumes "iter_ok it"
  shows "it_mode (stash_tail it) = Done"
    and "it_parser (stash_tail it) = (it_parser it)\<lparr>cp_acc := drop (it_pos it) (iter_buf it)\<rparr>"
  using assms by (auto simp: stash_tail_def iter_ok_def iter_buf_def Let_def split: Mode.splits)

lemma iter_drop_done: "it_mode it = Done \<Longrightarrow> iter_drop it = it_parser it"
  by (simp add: iter_drop_def stash_tail_def)

lemma drive_refines:
  assumes "iter_ok it"
    and "run_frames (cp_limits (it_parser it)) (drop (it_pos it) (iter_buf it)) = (xs, r)"
  shows "\<exists>it'. drive it = Some (xs, it') \<and> iter_drop it' = after_read (it_parser it) r"
  using assms
proof (induction "length (iter_buf it) - it_pos it" arbitrary: it xs rule: less_induct)
  case less
  let ?buf = "drop (it_pos it) (iter_buf it)" and ?lim = "cp_limits (it_parser it)"
  have nd: "it_mode it \<noteq> Done" and pos: "it_pos it \<le> length (iter_buf it)"
    using less.prems(1) by (auto simp: iter_ok_def)
  show ?case
  proof (cases "parse_one ?buf ?lim")
    case (PFrame kind used)
    let ?it = "it\<lparr>it_pos := it_pos it + used\<rparr>"
    have u: "0 < used" "used \<le> length (iter_buf it) - it_pos it"
      using parse_one_Frame [OF PFrame] by auto
    have buf: "iter_buf ?it = iter_buf it" by simp
    obtain ys where ys: "run_frames ?lim (drop used ?buf) = (ys, r)"
        "xs = kind_items kind (take used ?buf) @ ys"
      using less.prems(2) PFrame by (auto simp: run_frames.simps [of ?lim ?buf] split: prod.splits)
    have ok: "iter_ok ?it" using less.prems(1) u pos buf by (auto simp: iter_ok_def)
    have "\<exists>it'. drive ?it = Some (ys, it') \<and> iter_drop it' = after_read (it_parser ?it) r"
      using u pos buf ys(1) by (intro less.hyps [OF _ ok]) (auto simp: add.commute)
    then obtain it' where it': "drive ?it = Some (ys, it')" "iter_drop it' = after_read (it_parser it) r" by auto
    show ?thesis
    proof (cases kind)
      case (KCommand offs)
      have "wire_next it = Some (Some (Command (materialize offs (take used ?buf))), ?it)"
        using nd pos u PFrame KCommand by (simp add: wire_next.simps [of it] sub_slice_def Let_def)
      from drive_step [OF this it'(1)] it'(2) ys(2) show ?thesis by (simp add: KCommand)
    next
      case (KInline offs)
      have "wire_next it = Some (Some (Inline (materialize offs (take used ?buf))), ?it)"
        using nd pos u PFrame KInline by (simp add: wire_next.simps [of it] sub_slice_def Let_def)
      from drive_step [OF this it'(1)] it'(2) ys(2) show ?thesis by (simp add: KInline)
    next
      case KEmpty
      have "wire_next it = wire_next ?it"
        using nd pos u PFrame KEmpty by (simp add: wire_next.simps [of it] Let_def)
      from drive_cong [OF this] it' ys(2) show ?thesis by (simp add: KEmpty)
    qed
  next
    case PIncomplete
    then have "xs = []" "r = Ok ?buf" using less.prems(2) by (simp_all add: run_frames.simps [of ?lim ?buf])
    moreover have "wire_next it = Some (None, stash_tail it)"
      using nd pos PIncomplete by (simp add: wire_next.simps [of it])
    ultimately show ?thesis
      using stash_tail_ok [OF less.prems(1)] by (simp add: drive.simps [of it] iter_drop_done)
  next
    case (PError e)
    let ?it = "it\<lparr>it_parser := (it_parser it)\<lparr>cp_poisoned := True, cp_acc := []\<rparr>, it_mode := Done\<rparr>"
    have "xs = [ProtocolError e]" "r = Err e"
      using PError less.prems(2) by (simp_all add: run_frames.simps [of ?lim ?buf])
    moreover have "wire_next it = Some (Some (ProtocolError e), ?it)"
      using nd pos PError by (simp add: wire_next.simps [of it])
    moreover have "drive ?it = Some ([], ?it)" by (rule drive_done) simp
    ultimately show ?thesis
      by (auto simp: iter_drop_done dest: drive_step)
  qed
qed

lemma feed_drive_refines:
  assumes "\<not> cp_poisoned p" and "run_frames (cp_limits p) (cp_acc p @ input) = (xs, r)"
  shows "feed_drive p input = Some (xs, after_read p r)"
proof -
  let ?it = "feed p input"
  have ok: "iter_ok ?it" and buf: "drop (it_pos ?it) (iter_buf ?it) = cp_acc p @ input"
    and lim: "cp_limits (it_parser ?it) = cp_limits p"
    and after: "after_read (it_parser ?it) r = after_read p r"
    using assms(1) by (cases r; auto simp: feed_def iter_ok_def iter_buf_def)+
  show ?thesis
    using drive_refines [OF ok] assms(2) by (auto simp: buf lim after feed_drive_def)
qed

lemma feed_drive_poisoned: "cp_poisoned p \<Longrightarrow> feed_drive p input = Some ([], p)"
  by (simp add: feed_drive_def feed_def drive_done iter_drop_done)

section \<open>Cutting the stream\<close>

lemma run_frames_append:
  assumes "run_frames limits buf = (xs, Ok tail)"
  shows "run_frames limits (buf @ ext) = (let (ys, r) = run_frames limits (tail @ ext) in (xs @ ys, r))"
  using assms
proof (induction limits buf arbitrary: xs rule: run_frames.induct)
  case (1 limits buf)
  show ?case
  proof (cases "parse_one buf limits")
    case (PFrame kind used)
    obtain ys where ys: "run_frames limits (drop used buf) = (ys, Ok tail)" "xs = kind_items kind (take used buf) @ ys"
      using "1.prems" PFrame by (auto simp: run_frames.simps [of limits buf] split: prod.splits)
    have u: "used \<le> length buf" using parse_one_Frame [OF PFrame] by blast
    show ?thesis
      using "1.IH" [OF PFrame ys(1)] u ys(2)
      by (simp add: run_frames.simps [of limits "buf @ ext"] parse_one_append [OF PFrame] split: prod.splits)
  qed (use "1.prems" in \<open>auto simp: run_frames.simps [of limits buf] split: prod.splits\<close>)
qed

lemma feed_drive_total: "\<exists>xs q. feed_drive p input = Some (xs, q)"
  using feed_drive_refines [of p input] feed_drive_poisoned [of p input]
  by (cases "cp_poisoned p") (auto, metis surj_pair)

lemma feed_drive_append:
  assumes "\<not> cp_poisoned p" and "feed_drive p c = Some (xs, q)" and "\<not> cp_poisoned q"
    and "feed_drive q d = Some (ys, r)"
  shows "feed_drive p (c @ d) = Some (xs @ ys, r)"
proof -
  obtain xs' r1 where 1: "run_frames (cp_limits p) (cp_acc p @ c) = (xs', r1)" by fastforce
  then have q: "xs' = xs" "q = after_read p r1" using feed_drive_refines [OF assms(1) 1] assms(2) by auto
  with assms(3) obtain tail where tail: "r1 = Ok tail" by (cases r1) auto
  obtain ys' r2 where 2: "run_frames (cp_limits q) (cp_acc q @ d) = (ys', r2)" by fastforce
  then have r: "ys' = ys" "r = after_read q r2" using feed_drive_refines [OF assms(3) 2] assms(4) by auto
  have "run_frames (cp_limits p) ((cp_acc p @ c) @ d) = (xs @ ys, r2)"
    using run_frames_append [of "cp_limits p" "cp_acc p @ c" xs tail d] 1 2 q(1) r(1) by (simp add: q(2) tail)
  then have "feed_drive p (c @ d) = Some (xs @ ys, after_read p r2)"
    by (intro feed_drive_refines [OF assms(1)]) simp
  moreover have "after_read p r2 = r" using r(2) q(2) tail by (cases r2) simp_all
  ultimately show ?thesis by simp
qed

lemma feed_drive_keeps_poison:
  "feed_drive p c = Some (xs, q) \<Longrightarrow> cp_poisoned p \<Longrightarrow> q = p"
  by (simp add: feed_drive_poisoned)

lemma feed_chunks_poisoned: "cp_poisoned p \<Longrightarrow> feed_chunks p cs = Some ([], p)"
  by (induction cs) (simp_all add: feed_drive_poisoned)

lemma feed_drive_empty_tail:
  assumes "\<not> cp_poisoned p" and "feed_drive p c = Some (xs, q)" and "\<not> cp_poisoned q"
  shows "feed_drive q [] = Some ([], q)"
proof -
  obtain r where 1: "run_frames (cp_limits p) (cp_acc p @ c) = (xs, r)" and q: "q = after_read p r"
    using feed_drive_refines [OF assms(1)] assms(2) by (metis option.inject prod.inject surj_pair)
  with assms(3) obtain tail where tail: "r = Ok tail" by (cases r) auto
  have "run_frames limits buf = (zs, Ok t) \<Longrightarrow> parse_one t limits = PIncomplete" for limits buf zs t
    by (induction limits buf arbitrary: zs rule: run_frames.induct)
      (subst (asm) (2) run_frames.simps, auto split: ParseOne.splits prod.splits)
  with 1 tail have "parse_one tail (cp_limits p) = PIncomplete" by blast
  then have "run_frames (cp_limits q) (cp_acc q @ []) = ([], Ok tail)"
    by (simp add: q tail run_frames.simps [of _ tail])
  from feed_drive_refines [OF assms(3) this] show ?thesis by (simp add: q tail)
qed

section \<open>Properties\<close>

lemma feed_chunks_concat:
  assumes "\<not> cp_poisoned p" and "feed_chunks p cs = Some (xs, q)" and "\<not> cp_poisoned q"
    and "feed_drive q c = Some (ys, r)"
  shows "feed_drive p (concat cs @ c) = Some (xs @ ys, r)"
  using assms
proof (induction cs arbitrary: p xs)
  case Nil
  then show ?case by simp
next
  case (Cons d cs)
  obtain xs1 p1 where 1: "feed_drive p d = Some (xs1, p1)" using feed_drive_total by blast
  obtain xs2 where 2: "feed_chunks p1 cs = Some (xs2, q)" "xs = xs1 @ xs2"
    using Cons.prems(2) 1 by auto
  have np: "\<not> cp_poisoned p1" using Cons.prems(3) 2(1) feed_chunks_poisoned [of p1 cs] by auto
  from feed_drive_append [OF Cons.prems(1) 1 np Cons.IH [OF np 2(1) Cons.prems(3,4)]]
  show ?case using 2(2) by simp
qed

text \<open>
  C15: as long as no read before the last meets a protocol error, how the bytes of a connection are cut into reads does
  not matter: feeding them read by read yields the same commands in the same order, the same error if the last read
  meets one, and the same carried bytes as feeding them in a single read.
\<close>

theorem resp_reads_irrelevant:
  assumes "\<not> cp_poisoned p" and "feed_chunks p cs = Some (xs, q)" and "\<not> cp_poisoned q"
    and "feed_drive q c = Some (ys, r)"
  shows "feed_drive p (concat cs @ c) = Some (xs @ ys, r)"
  using assms by (rule feed_chunks_concat)

definition tiny_limits :: ParserLimits where
  "tiny_limits = \<lparr>max_bulk_bytes = 3, max_frame_bytes = 100, max_args = 8\<rparr>"

lemmas parser_eval = run_frames.simps parse_one_def parse_inline_def find_crlf_def find_loop.simps position_def
  sub_slice_def tiny_limits_def ARGV_FRAME_BYTES_MAX_def CR_def LF_def Let_def

lemma tiny_partial: "feed_drive (parser_new tiny_limits) [0x61, 0x62] =
    Some ([], (parser_new tiny_limits)\<lparr>cp_acc := [0x61, 0x62]\<rparr>)"
proof -
  have "run_frames tiny_limits [0x61, 0x62] = ([], Ok [0x61, 0x62])"
    by (simp add: parser_eval)
  then show ?thesis
    using feed_drive_refines [of "parser_new tiny_limits" "[0x61, 0x62]"] by (simp add: parser_new_def)
qed

theorem resp_reads_irrelevant_witness:
  "\<exists>ys r. feed_drive (parser_new tiny_limits) [0x61, 0x62, CR, LF] = Some (ys, r) \<and>
     feed_drive ((parser_new tiny_limits)\<lparr>cp_acc := [0x61, 0x62]\<rparr>) [CR, LF] = Some (ys, r)"
proof -
  let ?p = "parser_new tiny_limits" and ?q = "(parser_new tiny_limits)\<lparr>cp_acc := [0x61, 0x62]\<rparr>"
  obtain ys r where y: "feed_drive ?q [CR, LF] = Some (ys, r)" using feed_drive_total by blast
  have "\<not> cp_poisoned ?p" "feed_chunks ?p [[0x61, 0x62]] = Some ([], ?q)" "\<not> cp_poisoned ?q"
    using tiny_partial by (simp_all add: parser_new_def)
  from resp_reads_irrelevant [OF this y] y show ?thesis by auto
qed

definition argv_ok :: "ParserLimits \<Rightarrow> ArgvRef \<Rightarrow> bool" where
  "argv_ok limits a \<longleftrightarrow> 0 < ao_len (av_offsets a) \<and> ao_len (av_offsets a) \<le> max_args limits \<and>
     length (av_frame a) \<le> frame_cap limits \<and> None \<notin> set (args a)"

definition parsed_ok :: "ParserLimits \<Rightarrow> Parsed \<Rightarrow> bool" where
  "parsed_ok limits x = (case x of Command a \<Rightarrow> argv_ok limits a | Inline a \<Rightarrow> argv_ok limits a | _ \<Rightarrow> True)"

lemma materialize_ok:
  assumes "wf_offsets offs" and "in_frame offs (length frame)" and "0 < ao_len offs"
    and "ao_len offs \<le> max_args limits" and "length frame \<le> frame_cap limits"
  shows "argv_ok limits (materialize offs frame)"
proof -
  have "None \<notin> set (args (materialize offs frame))"
    using assms(2) unfolding args_entries [OF assms(1)]
    by (fastforce simp: in_frame_def get_range_def)
  then show ?thesis using assms by (simp add: argv_ok_def materialize_def)
qed

lemma run_frames_ok: "run_frames limits buf = (xs, r) \<Longrightarrow> list_all (parsed_ok limits) xs"
proof (induction limits buf arbitrary: xs rule: run_frames.induct)
  case (1 limits buf)
  show ?case
  proof (cases "parse_one buf limits")
    case (PFrame kind used)
    obtain ys where ys: "run_frames limits (drop used buf) = (ys, r)" "xs = kind_items kind (take used buf) @ ys"
      using "1.prems" PFrame by (auto simp: run_frames.simps [of limits buf] split: prod.splits)
    have "list_all (parsed_ok limits) (kind_items kind (take used buf))"
      using parse_one_Frame [OF PFrame] by (auto simp: parsed_ok_def min_absorb2 intro!: materialize_ok)
    then show ?thesis using "1.IH" [OF PFrame ys(1)] ys(2) by simp
  qed (use "1.prems" in \<open>auto simp: run_frames.simps [of limits buf] parsed_ok_def\<close>)
qed

text \<open>
  C16: no input makes the parser panic: one read on any parser state returns, and every command it yields
  has between one and \<open>max_args\<close> arguments, each of which lies inside the command's frame, which is no
  longer than the frame cap.
\<close>

theorem resp_never_panics:
  "\<exists>xs q. feed_drive p input = Some (xs, q) \<and> list_all (parsed_ok (cp_limits p)) xs \<and> cp_limits q = cp_limits p"
proof (cases "cp_poisoned p")
  case True
  then show ?thesis by (simp add: feed_drive_poisoned)
next
  case False
  obtain xs r where 1: "run_frames (cp_limits p) (cp_acc p @ input) = (xs, r)" by fastforce
  from feed_drive_refines [OF False 1] run_frames_ok [OF 1] show ?thesis by (cases r) auto
qed




lemma args_line:
  assumes "wf_offsets offs" and "in_frame offs (length line + 2)"
  shows "args (materialize offs (line @ ext)) = map Some (slices line offs)"
  using assms(2) unfolding args_entries [OF assms(1)] slices_def in_frame_def
  by (fastforce simp: get_range_def sub_slice_def)

text \<open>A line with no CRLF inside, before and after its own CRLF has arrived.\<close>

lemma find_crlf_line:
  assumes "find_crlf line 0 = None"
  shows "find_crlf (line @ [CR, LF]) 0 = Some (length line)" and "find_crlf (line @ [CR]) 0 = None"
proof -
  have no: "\<not> crlf_at line i" for i using assms by (simp add: find_crlf_None_iff)
  then have "\<not> crlf_at (line @ [CR, LF]) j" if "j < length line" for j
    using that no [of j] by (cases "Suc j = length line") (auto simp: crlf_at_def nth_append CR_def LF_def)
  moreover have "crlf_at (line @ [CR, LF]) (length line)" by (simp add: crlf_at_def nth_append)
  ultimately show "find_crlf (line @ [CR, LF]) 0 = Some (length line)" by (simp add: find_crlf_Some_iff)
  show "find_crlf (line @ [CR]) 0 = None"
    using no by (fastforce simp: find_crlf_None_iff crlf_at_def nth_append CR_def LF_def)
qed

lemma parse_line:
  assumes "find_crlf line 0 = None" and "length line \<le> max_bulk_bytes limits" and "length line + 2 \<le> frame_cap limits"
    and "ws_words line \<noteq> []" and "length (ws_words line) \<le> max_args limits"
  shows "\<exists>offs. parse_inline (line @ [CR, LF]) limits = PFrame (KInline offs) (length line + 2) \<and>
    args (materialize offs (line @ [CR, LF])) = map Some (ws_words line)"
proof -
  have "length line < 2 ^ 32" using frame_cap_u32 [OF assms(3)] by simp
  then obtain offs where o: "inline_loop line 0 limits offsets_new = Ok offs" "wf_offsets offs"
      "in_frame offs (length line + 2)" "slices line offs = ws_words line"
    using inline_loop_words [of offsets_new line limits 0, simplified] assms(5) by (auto simp: slices_def)
  have "ao_len offs \<noteq> 0" using length_slices [OF o(2), of line] o(4) assms(4) by (metis length_0_conv)
  then have "parse_inline (line @ [CR, LF]) limits = PFrame (KInline offs) (length line + 2)"
    using assms(2,3) o(1) unfolding parse_inline_Some [OF find_crlf_line(1) [OF assms(1)]] by simp
  then show ?thesis using args_line [OF o(2,3)] o(4) by auto
qed

text \<open>
  C18: an inline line of exactly \<open>max_bulk_bytes\<close> bytes with at least one and at most \<open>max_args\<close> words that fits the frame
  cap is a command when its CRLF arrives in the same read, and carries its words; when a read ends between the CR and
  the LF the same line is refused as too large, the connection is poisoned and the LF is ignored. This holds for all
  limits and all such lines on every connection that carries nothing.
\<close>

theorem inline_cap_depends_on_read:
  assumes "\<not> cp_poisoned p" and "cp_acc p = []" and "length line = max_bulk_bytes (cp_limits p)"
    and "find_crlf line 0 = None" and "hd line \<noteq> 0x2A" and "length line + 2 \<le> frame_cap (cp_limits p)"
    and "ws_words line \<noteq> []" and "length (ws_words line) \<le> max_args (cp_limits p)"
  shows "(\<exists>a. feed_drive p (line @ [CR, LF]) = Some ([Inline a], p) \<and> args a = map Some (ws_words line)) \<and>
    feed_drive p (line @ [CR]) =
      Some ([ProtocolError (FrameTooLarge (length line + 1) (length line))], p\<lparr>cp_poisoned := True\<rparr>) \<and>
    feed_drive (p\<lparr>cp_poisoned := True\<rparr>) [LF] = Some ([], p\<lparr>cp_poisoned := True\<rparr>)"
proof -
  have ne: "line \<noteq> []" using assms(7) by auto
  then have one: "parse_one (line @ ext) (cp_limits p) = parse_inline (line @ ext) (cp_limits p)" for ext
    using assms(5) by (cases line) (simp_all add: parse_one_def)
  obtain offs where o: "parse_inline (line @ [CR, LF]) (cp_limits p) = PFrame (KInline offs) (length line + 2)"
      "args (materialize offs (line @ [CR, LF])) = map Some (ws_words line)"
    using parse_line [OF assms(4) _ assms(6-8)] assms(3) by auto
  have "run_frames (cp_limits p) (line @ [CR, LF]) = ([Inline (materialize offs (line @ [CR, LF]))], Ok [])"
    using o(1) one by (simp add: run_frames.simps [of _ "line @ [CR, LF]"] run_frames.simps [of _ "[]"] parse_one_def [of "[]"])
  from feed_drive_refines [OF assms(1), of "line @ [CR, LF]", unfolded assms(2) append_Nil, OF this] o(2) assms(2)
  have "\<exists>a. feed_drive p (line @ [CR, LF]) = Some ([Inline a], p) \<and> args a = map Some (ws_words line)" by simp
  moreover have "parse_inline (line @ [CR]) (cp_limits p) = PError (FrameTooLarge (length line + 1) (length line))"
    using assms(3) by (simp add: parse_inline_def find_crlf_line(2) [OF assms(4)])
  then have "run_frames (cp_limits p) (line @ [CR]) =
      ([ProtocolError (FrameTooLarge (length line + 1) (length line))], Err (FrameTooLarge (length line + 1) (length line)))"
    using one by (simp add: run_frames.simps [of _ "line @ [CR]"])
  from feed_drive_refines [OF assms(1), of "line @ [CR]", unfolded assms(2) append_Nil, OF this] assms(2)
  have "feed_drive p (line @ [CR]) =
      Some ([ProtocolError (FrameTooLarge (length line + 1) (length line))], p\<lparr>cp_poisoned := True\<rparr>)" by simp
  ultimately show ?thesis by (simp add: feed_drive_poisoned)
qed

theorem inline_cap_depends_on_read_witness:
  "(\<exists>a. feed_drive (parser_new tiny_limits) [0x61, 0x20, 0x62, CR, LF] = Some ([Inline a], parser_new tiny_limits) \<and>
     args a = [Some [0x61], Some [0x62]]) \<and>
   feed_drive (parser_new tiny_limits) [0x61, 0x20, 0x62, CR] =
     Some ([ProtocolError (FrameTooLarge 4 3)], (parser_new tiny_limits)\<lparr>cp_poisoned := True\<rparr>)"
proof -
  let ?p = "parser_new tiny_limits" and ?line = "[0x61, 0x20, 0x62] :: bytes"
  have "\<not> cp_poisoned ?p" "cp_acc ?p = []" "length ?line = max_bulk_bytes (cp_limits ?p)"
    "length ?line + 2 \<le> frame_cap (cp_limits ?p)"
    by (simp_all add: parser_new_def tiny_limits_def frame_cap_def ARGV_FRAME_BYTES_MAX_def)
  moreover have "find_crlf ?line 0 = None" by (simp add: parser_eval)
  moreover have "ws_words ?line = [[0x61], [0x62]]" by (simp add: is_ascii_whitespace_def)
  ultimately show ?thesis
    using inline_cap_depends_on_read [of ?p ?line] by (simp add: parser_new_def tiny_limits_def)
qed

end
