(* ===== verification/Decimal.thy ===== *)
theory Decimal
  imports Swar
begin

text \<open>
  Decimal numbers as the standard library and the writers of the source print them: the canonical digits of a number,
  which read back as the number.
\<close>

text \<open>The canonical decimal digits of a number.\<close>

fun dec_digits :: "nat \<Rightarrow> bytes" where
  "dec_digits n = (if n < 10 then [] else dec_digits (n div 10)) @ [0x30 + of_nat (n mod 10)]"

declare dec_digits.simps [simp del]

lemma digit_byte:
  assumes "d < 10"
  shows "is_digit (0x30 + of_nat d)" and "digit_val (0x30 + of_nat d) = d"
proof -
  have u: "unat (0x30 + of_nat d :: byte) = 48 + d"
    using assms by (simp add: unat_word_ariths unat_of_nat)
  show "is_digit (0x30 + of_nat d)" using assms u by (simp add: is_digit_def word_le_nat_alt)
  show "digit_val (0x30 + of_nat d) = d" using u by (simp add: digit_val_def)
qed

lemma dec_digits_nonempty [simp]: "dec_digits n \<noteq> []"
  by (subst dec_digits.simps) simp

lemma dec_digits_digits: "list_all is_digit (dec_digits n)"
  by (induction n rule: dec_digits.induct) (subst dec_digits.simps, simp add: digit_byte)

lemma decimal_dec_digits: "decimal (dec_digits n) = n"
proof (induction n rule: dec_digits.induct)
  case (1 n)
  have "decimal [] = 0" by (simp add: decimal_def)
  with 1 show ?case by (subst dec_digits.simps) (simp only: decimal_snoc digit_byte(2) mod_less_divisor, auto)
qed

lemma length_dec_digits_le: "n < 10 ^ Suc k \<Longrightarrow> length (dec_digits n) \<le> Suc k"
proof (induction n arbitrary: k rule: dec_digits.induct)
  case (1 n)
  show ?case
  proof (cases "n < 10")
    case False
    then obtain k' where k: "k = Suc k'" using "1.prems" by (cases k) auto
    have "n div 10 < 10 ^ Suc k'" using "1.prems" k by (simp add: less_mult_imp_div_less mult.commute)
    with 1 False k show ?thesis by (subst dec_digits.simps) simp
  qed (subst dec_digits.simps, simp)
qed

end
