(* ===== verification/RespWriter.thy ===== *)
theory RespWriter
  imports RespParser Decimal
begin

text \<open>
  \<^verbatim>\<open>crates/inf-wire/src/writer.rs\<close>: the RESP2/RESP3 reply serializer. A writer is the send buffer and the
  negotiated protocol; every reply is a function from writer to writer. The decimal formatter works on its
  20-byte stack buffer from the end, \<open>None\<close> being the panic of an index below zero; the patched bulk keeps
  the in-place moves of the source. The text of an \<open>f64\<close> is the standard library's and is an argument.
\<close>

section \<open>Model\<close>

datatype Protocol = Resp2 | Resp3

record RespWriter =
  wr_out :: bytes
  wr_proto :: Protocol

definition put :: "RespWriter \<Rightarrow> bytes \<Rightarrow> RespWriter" where
  "put w bs = w\<lparr>wr_out := wr_out w @ bs\<rparr>"

definition mark :: "RespWriter \<Rightarrow> nat" where "mark w = length (wr_out w)"

definition rollback :: "RespWriter \<Rightarrow> nat \<Rightarrow> RespWriter" where
  "rollback w m = w\<lparr>wr_out := take m (wr_out w)\<rparr>"

subsection \<open>Decimal numbers\<close>

text \<open>The digit loop of \<open>utoa\<close>: the next free index plus one, the buffer, what is left to print.\<close>

function utoa_loop :: "nat \<Rightarrow> bytes \<Rightarrow> u64 \<Rightarrow> (nat \<times> bytes) option" where
  "utoa_loop at buf magnitude =
     (if at = 0 then None
      else let at' = at - 1; buf' = buf[at' := 0x30 + ucast (magnitude mod 10)]; m' = magnitude div 10
      in if m' = 0 then Some (at', buf') else utoa_loop at' buf' m')"
  by pat_completeness auto
termination by (relation "measure (\<lambda>(at, _, _). at)") auto

declare utoa_loop.simps [simp del]

definition utoa :: "u64 \<Rightarrow> bool \<Rightarrow> bytes option" where
  "utoa magnitude negative =
     (case utoa_loop 20 (replicate 20 0) magnitude of
        None \<Rightarrow> None
      | Some (at, buf) \<Rightarrow>
          if negative then (if at = 0 then None else Some (drop (at - 1) (buf[at - 1 := 0x2D])))
          else Some (drop at buf))"

text \<open>An \<open>i64\<close> is an \<open>int\<close>; \<open>unsigned_abs\<close> is its magnitude.\<close>

definition itoa :: "int \<Rightarrow> bytes option" where
  "itoa val = utoa (of_int \<bar>val\<bar>) (val < 0)"

definition raw_int :: "RespWriter \<Rightarrow> int \<Rightarrow> RespWriter option" where
  "raw_int w val = map_option (put w) (itoa val)"

definition raw_len :: "RespWriter \<Rightarrow> nat \<Rightarrow> RespWriter option" where
  "raw_len w len = map_option (put w) (utoa (of_nat len) False)"

subsection \<open>Length-prefixed replies\<close>

definition int_reply :: "RespWriter \<Rightarrow> int \<Rightarrow> RespWriter option" where
  "int_reply w val = map_option (\<lambda>w. put w [CR, LF]) (raw_int (put w [0x3A]) val)"

definition bulk :: "RespWriter \<Rightarrow> bytes \<Rightarrow> RespWriter option" where
  "bulk w bs = map_option (\<lambda>w. put (put (put w [CR, LF]) bs) [CR, LF]) (raw_len (put w [0x24]) (length bs))"

definition array_header :: "RespWriter \<Rightarrow> nat \<Rightarrow> RespWriter option" where
  "array_header w n = map_option (\<lambda>w. put w [CR, LF]) (raw_len (put w [0x2A]) n)"

definition push_header :: "RespWriter \<Rightarrow> nat \<Rightarrow> RespWriter option" where
  "push_header w n = (case wr_proto w of
       Resp2 \<Rightarrow> array_header w n
     | Resp3 \<Rightarrow> map_option (\<lambda>w. put w [CR, LF]) (raw_len (put w [0x3E]) n))"

definition map_header :: "RespWriter \<Rightarrow> nat \<Rightarrow> RespWriter option" where
  "map_header w pairs = (case wr_proto w of
       Resp2 \<Rightarrow> array_header w (pairs * 2)
     | Resp3 \<Rightarrow> map_option (\<lambda>w. put w [CR, LF]) (raw_len (put w [0x25]) pairs))"

definition null_reply :: "RespWriter \<Rightarrow> RespWriter" where
  "null_reply w = (case wr_proto w of
       Resp2 \<Rightarrow> put w [0x24, 0x2D, 0x31, CR, LF] | Resp3 \<Rightarrow> put w [0x5F, CR, LF])"

definition null_array :: "RespWriter \<Rightarrow> RespWriter" where
  "null_array w = (case wr_proto w of
       Resp2 \<Rightarrow> put w [0x2A, 0x2D, 0x31, CR, LF] | Resp3 \<Rightarrow> put w [0x5F, CR, LF])"

definition bool_reply :: "RespWriter \<Rightarrow> bool \<Rightarrow> RespWriter option" where
  "bool_reply w val = (case wr_proto w of
       Resp2 \<Rightarrow> int_reply w (if val then 1 else 0)
     | Resp3 \<Rightarrow> Some (put w (if val then [0x23, 0x74, CR, LF] else [0x23, 0x66, CR, LF])))"

definition F64_DISPLAY_MAX :: nat where "F64_DISPLAY_MAX = 336"

definition double_reply :: "RespWriter \<Rightarrow> bytes \<Rightarrow> RespWriter option" where
  "double_reply w display =
     (if length display > F64_DISPLAY_MAX then None
      else case wr_proto w of
        Resp2 \<Rightarrow> bulk w display | Resp3 \<Rightarrow> Some (put (put (put w [0x2C]) display) [CR, LF]))"

definition verbatim :: "RespWriter \<Rightarrow> bytes \<Rightarrow> bytes \<Rightarrow> RespWriter option" where
  "verbatim w kind body = (case wr_proto w of
       Resp2 \<Rightarrow> bulk w body
     | Resp3 \<Rightarrow> map_option (\<lambda>w. put (put (put (put (put w [CR, LF]) kind) [0x3A]) body) [CR, LF])
         (raw_len (put w [0x3D]) (length body + 4)))"

definition big_number :: "RespWriter \<Rightarrow> bytes \<Rightarrow> RespWriter option" where
  "big_number w digits = (case wr_proto w of
       Resp2 \<Rightarrow> bulk w digits | Resp3 \<Rightarrow> Some (put (put (put w [0x28]) digits) [CR, LF]))"

subsection \<open>Line-framed replies\<close>

definition ONES :: u64 where "ONES = 0x0101010101010101"
definition HIGH :: u64 where "HIGH = 0x8080808080808080"

definition has_zero_byte :: "u64 \<Rightarrow> u64" where
  "has_zero_byte w = (w - ONES) AND NOT w AND HIGH"

definition line_break :: "byte \<Rightarrow> bool" where "line_break b \<longleftrightarrow> b = CR \<or> b = LF"

definition chunk_breaks :: "bytes \<Rightarrow> bool" where
  "chunk_breaks chunk =
     (let w = of_le_bytes chunk;
          cr = has_zero_byte (w XOR (ONES * ucast CR)); lf = has_zero_byte (w XOR (ONES * ucast LF))
      in cr OR lf \<noteq> 0)"

function chunks_break :: "bytes \<Rightarrow> bool" where
  "chunks_break xs =
     (if 8 \<le> length xs then (if chunk_breaks (take 8 xs) then True else chunks_break (drop 8 xs))
      else list_ex line_break xs)"
  by pat_completeness auto
termination by (relation "measure length") auto

declare chunks_break.simps [simp del]

definition contains_line_break :: "bytes \<Rightarrow> bool" where
  "contains_line_break xs = (if length xs < 8 then list_ex line_break xs else chunks_break xs)"

definition rposition :: "('a \<Rightarrow> bool) \<Rightarrow> 'a list \<Rightarrow> nat option" where
  "rposition P xs = map_option (\<lambda>i. length xs - 1 - i) (position P (rev xs))"

definition push_line_sanitized :: "RespWriter \<Rightarrow> byte \<Rightarrow> bytes \<Rightarrow> RespWriter" where
  "push_line_sanitized w tag xs =
     (let start = (case position (\<lambda>b. \<not> line_break b) xs of Some i \<Rightarrow> i | None \<Rightarrow> length xs);
          stop = (case rposition (\<lambda>b. \<not> line_break b) xs of Some i \<Rightarrow> i + 1 | None \<Rightarrow> start)
      in put (put w (tag # map (\<lambda>b. if line_break b then 0x20 else b) (sub_slice xs start stop))) [CR, LF])"

definition push_line :: "RespWriter \<Rightarrow> byte \<Rightarrow> bytes \<Rightarrow> RespWriter" where
  "push_line w tag xs =
     (if contains_line_break xs then push_line_sanitized w tag xs else put (put (put w [tag]) xs) [CR, LF])"

definition simple_reply :: "RespWriter \<Rightarrow> bytes \<Rightarrow> RespWriter" where
  "simple_reply w xs = push_line w 0x2B xs"

definition error_bytes :: "RespWriter \<Rightarrow> bytes \<Rightarrow> RespWriter" where
  "error_bytes w xs = push_line w 0x2D xs"

subsection \<open>The back-patched bulk\<close>

definition PATCHED_DIGITS :: nat where "PATCHED_DIGITS = 8"

text \<open>\<open>out[at..at + n].copy_from_slice(xs)\<close> and \<open>out.copy_within(i..j, dest)\<close>.\<close>

definition overwrite :: "bytes \<Rightarrow> nat \<Rightarrow> bytes \<Rightarrow> bytes" where
  "overwrite out at xs = take at out @ xs @ drop (at + length xs) out"

definition copy_within :: "bytes \<Rightarrow> nat \<Rightarrow> nat \<Rightarrow> nat \<Rightarrow> bytes" where
  "copy_within out i j dest = overwrite out dest (sub_slice out i j)"

definition widen_patched_header :: "bytes \<Rightarrow> nat \<Rightarrow> nat \<Rightarrow> bytes \<Rightarrow> bytes" where
  "widen_patched_header out digits_at payload_at digits =
     (let extra = length digits - PATCHED_DIGITS;
          old_len = length out;
          out1 = out @ replicate extra 0;
          out2 = copy_within out1 payload_at old_len (payload_at + extra);
          out3 = overwrite out2 digits_at digits
      in overwrite out3 (digits_at + length digits) [CR, LF])"

definition try_bulk_patched :: "RespWriter \<Rightarrow> (bytes \<Rightarrow> 'e option \<times> bytes) \<Rightarrow> ('e option \<times> RespWriter) option" where
  "try_bulk_patched w build =
     (let frame_at = length (wr_out w);
          out0 = wr_out w @ [0x24];
          digits_at = length out0;
          out1 = out0 @ replicate 8 0x30 @ [CR, LF];
          payload_at = digits_at + PATCHED_DIGITS + 2
      in case build out1 of
           (Some e, out2) \<Rightarrow> Some (Some e, w\<lparr>wr_out := take frame_at out2\<rparr>)
         | (None, out2) \<Rightarrow>
             if length out2 < payload_at then None else
             (case utoa (of_nat (length out2 - payload_at)) False of
                None \<Rightarrow> None
              | Some digits \<Rightarrow>
                  let out3 =
                    (if length digits \<le> PATCHED_DIGITS then
                       let gap = PATCHED_DIGITS - length digits;
                           o1 = overwrite out2 digits_at digits;
                           o2 = overwrite o1 (digits_at + length digits) [CR, LF]
                       in if gap > 0 then
                            take (length o2 - gap) (copy_within o2 payload_at (length o2) (payload_at - gap))
                          else o2
                     else widen_patched_header out2 digits_at payload_at digits)
                  in Some (None, w\<lparr>wr_out := out3 @ [CR, LF]\<rparr>)))"

section \<open>Decimal numbers\<close>

lemma utoa_loop_digits:
  assumes "length (dec_digits (unat m)) \<le> at" and "at \<le> length buf"
  shows "utoa_loop at buf m =
    Some (at - length (dec_digits (unat m)),
      take (at - length (dec_digits (unat m))) buf @ dec_digits (unat m) @ drop at buf)"
  using assms
proof (induction at buf m rule: utoa_loop.induct)
  case (1 at buf m)
  have at: "0 < at" using "1.prems"(1) by (cases "dec_digits (unat m)") auto
  let ?d = "0x30 + ucast (m mod 10) :: byte"
  have "unat (m mod 10) = unat m mod 10" by (simp add: unat_mod)
  then have d: "?d = 0x30 + of_nat (unat m mod 10)" by (metis of_nat_unat)
  have q: "unat (m div 10) = unat m div 10" by (simp add: unat_div)
  have upd: "take (at - 1) buf @ ?d # drop at buf = buf[at - 1 := ?d]"
    using at "1.prems"(2) by (simp add: upd_conv_take_nth_drop)
  show ?case
  proof (cases "m div 10 = 0")
    case True
    then have "unat m < 10" using q by (simp add: div_eq_0_iff)
    then have "dec_digits (unat m) = [?d]" by (subst dec_digits.simps) (simp add: d)
    then show ?thesis using True at upd by (subst utoa_loop.simps) (simp add: Let_def)
  next
    case False
    then have ge: "\<not> unat m < 10" using q by (metis div_less unat_eq_zero)
    then have dd: "dec_digits (unat m) = dec_digits (unat (m div 10)) @ [?d]"
      by (subst dec_digits.simps) (simp add: d q)
    let ?k = "length (dec_digits (unat (m div 10)))"
    have "utoa_loop (at - 1) (buf[at - 1 := ?d]) (m div 10) =
      Some (at - 1 - ?k, take (at - 1 - ?k) (buf[at - 1 := ?d]) @ dec_digits (unat (m div 10)) @
        drop (at - 1) (buf[at - 1 := ?d]))"
      by (rule "1.IH") (use at False "1.prems" dd in auto)
    moreover have "drop (at - 1) (buf[at - 1 := ?d]) = ?d # drop at buf"
      using at "1.prems"(2) unfolding upd [symmetric] by simp
    ultimately show ?thesis using at False dd
      by (subst utoa_loop.simps) (simp add: Let_def take_update_cancel)
  qed
qed

lemma u64_digits: "length (dec_digits (unat (m :: u64))) \<le> 20"
  using length_dec_digits_le [of "unat m" 19] unat_less_u64 [of m] by simp

lemma utoa_unsigned: "utoa m False = Some (dec_digits (unat m))"
  unfolding utoa_def by (subst utoa_loop_digits) (use u64_digits in auto)

lemma utoa_negative:
  assumes "unat m \<le> 2 ^ 63"
  shows "utoa m True = Some (0x2D # dec_digits (unat m))"
proof -
  let ?n = "length (dec_digits (unat m))"
  have "?n \<le> 19" using length_dec_digits_le [of "unat m" 18] assms by simp
  then obtain j where j: "20 - ?n = Suc j" and le: "?n \<le> 20" by (cases "20 - ?n") auto
  have "replicate (Suc j) (0 :: byte) = replicate j 0 @ [0]" by (simp add: replicate_append_same)
  then have "(replicate (Suc j) 0 @ dec_digits (unat m))[j := 0x2D] = replicate j 0 @ 0x2D # dec_digits (unat m)"
    by (simp add: list_update_append del: replicate_Suc)
  then show ?thesis unfolding utoa_def
    by (subst utoa_loop_digits) (use j le in \<open>simp_all del: replicate_Suc\<close>)
qed

lemma itoa_text:
  assumes "- (2 ^ 63) \<le> v" and "v < 2 ^ 63"
  shows "itoa v = Some ((if v < 0 then [0x2D] else []) @ dec_digits (nat \<bar>v\<bar>))"
proof -
  define m :: u64 where "m = of_int \<bar>v\<bar>"
  have m: "unat m = nat \<bar>v\<bar>"
    unfolding m_def using assms by (simp add: unsigned_of_int take_bit_int_eq_self)
  have i: "itoa v = utoa m (v < 0)" unfolding itoa_def m_def by (rule refl)
  show ?thesis
  proof (cases "v < 0")
    case True
    have "unat m \<le> 2 ^ 63" unfolding m using assms by (simp add: nat_le_iff)
    from utoa_negative [OF this] True show ?thesis by (simp add: i m)
  qed (simp add: i utoa_unsigned m)
qed

lemma takeWhile_dec_digits: "\<not> is_digit c \<Longrightarrow> takeWhile is_digit (dec_digits n @ c # rest) = dec_digits n"
  using dec_digits_digits [of n] by (simp add: takeWhile_append2 list_all_iff)

lemma swar_dec_digits:
  assumes "n < 2 ^ 63" and "\<not> is_digit c"
  shows "swar_parse_int (dec_digits n @ c # rest) = Some (int n, length (dec_digits n))"
proof -
  obtain d ds where dd: "dec_digits n = d # ds" by (cases "dec_digits n") simp_all
  have "is_digit d" using dec_digits_digits [of n] dd by simp
  then have s: "d \<noteq> 0x2D" "d \<noteq> 0x2B" by (auto simp: is_digit_def)
  have t: "take 1 (dec_digits n @ c # rest) = [d]" by (simp add: dd)
  then have sl: "sign_len (dec_digits n @ c # rest) = 0" using s by (simp only: sign_len_def) simp
  have "length (dec_digits n) \<le> 19" using length_dec_digits_le [of n 18] assms(1) by simp
  then show ?thesis using assms(1) s unfolding swar_parse_int_Some t sl drop_0 takeWhile_dec_digits [OF assms(2)]
    by (simp add: decimal_dec_digits in_i64_def)
qed

lemma swar_neg_dec_digits:
  assumes "n \<le> 2 ^ 63" and "\<not> is_digit c"
  shows "swar_parse_int (0x2D # dec_digits n @ c # rest) = Some (- int n, Suc (length (dec_digits n)))"
proof -
  have "length (dec_digits n) \<le> 19" using length_dec_digits_le [of n 18] assms(1) by simp
  then show ?thesis using assms(1)
    by (simp add: swar_parse_int_Some sign_len_def takeWhile_dec_digits [OF assms(2)] decimal_dec_digits in_i64_def)
qed

text \<open>
  C20: an integer reply reads back: for every \<open>i64\<close>, \<open>int\<close> appends a colon, text that the integer parser reads
  as exactly that value up to the terminator, and the terminator; formatting never runs out of its buffer.
\<close>

theorem int_reply_reads_back:
  assumes "- (2 ^ 63) \<le> v" and "v < 2 ^ 63"
  shows "\<exists>t. int_reply w v = Some (put w (0x3A # t @ [CR, LF])) \<and> length t \<le> 20 \<and>
    swar_parse_int (t @ [CR, LF] @ rest) = Some (v, length t)"
proof -
  define n where "n = nat \<bar>v\<bar>"
  have n: "n \<le> 2 ^ 63" "0 \<le> v \<Longrightarrow> n < 2 ^ 63" "v = (if v < 0 then - int n else int n)" and cr: "\<not> is_digit CR"
    using assms by (simp_all add: n_def nat_le_iff nat_less_iff is_digit_def CR_def)
  let ?t = "(if v < 0 then [0x2D] else []) @ dec_digits n"
  have "length ?t \<le> 20" using length_dec_digits_le [of n 18] n(1) by simp
  moreover have "swar_parse_int (?t @ [CR, LF] @ rest) = Some (v, length ?t)"
    using swar_dec_digits [OF n(2) cr] swar_neg_dec_digits [OF n(1) cr] n(3) by (cases "v < 0") simp_all
  moreover have "int_reply w v = Some (put w (0x3A # ?t @ [CR, LF]))"
    unfolding n_def by (simp add: int_reply_def raw_int_def itoa_text [OF assms] put_def)
  ultimately show ?thesis by blast
qed

theorem int_reply_reads_back_witness:
  "\<exists>t. int_reply \<lparr>wr_out = [], wr_proto = Resp3\<rparr> (- (2 ^ 63)) =
      Some (put \<lparr>wr_out = [], wr_proto = Resp3\<rparr> (0x3A # t @ [CR, LF])) \<and>
    length t \<le> 20 \<and> swar_parse_int (t @ [CR, LF] @ []) = Some (- (2 ^ 63), length t)"
  by (rule int_reply_reads_back) simp_all

section \<open>Length-prefixed replies\<close>

lemma raw_len_text: "n < 2 ^ 64 \<Longrightarrow> raw_len w n = Some (put w (dec_digits n))"
  by (simp add: raw_len_def utoa_unsigned unat_of_nat_u64)

lemma array_header_text: "n < 2 ^ 64 \<Longrightarrow> array_header w n = Some (put w (0x2A # dec_digits n @ [CR, LF]))"
  by (simp add: array_header_def raw_len_text put_def)

lemma bulk_text:
  "length bs < 2 ^ 64 \<Longrightarrow> bulk w bs = Some (put w (0x24 # dec_digits (length bs) @ [CR, LF] @ bs @ [CR, LF]))"
  by (simp add: bulk_def raw_len_text put_def)

lemma narrow_patch:
  assumes "length ds \<le> 8" and "length pre = n" and "ds \<noteq> []"
    and "o2 = overwrite (overwrite (pre @ replicate 8 0x30 @ [CR, LF] @ payload) n ds) (n + length ds) [CR, LF]"
  shows "take (length o2 - (8 - length ds)) (copy_within o2 (n + 10) (length o2) (n + 10 - (8 - length ds))) =
    pre @ ds @ [CR, LF] @ payload"
proof -
  define g where "g = 8 - length ds"
  have len: "length ds = 8 - g" "g < 8" using assms(1,3) by (auto simp: g_def intro: diff_less)
  obtain z where z: "o2 = pre @ ds @ [CR, LF] @ z @ payload" "length z = g"
  proof -
    have "o2 = pre @ ds @ [CR, LF] @ drop (length ds + 2) (replicate 8 0x30 @ [CR, LF]) @ payload"
      using assms(2) len drop_append [of "2 - g" "[CR, LF]" payload] by (simp add: assms(4) overwrite_def)
    then show thesis by (rule that) (use len in simp)
  qed
  have "copy_within o2 (n + 10) (length o2) (n + 10 - g) = pre @ ds @ [CR, LF] @ payload @ drop (length payload) (z @ payload)"
    using assms(2) len z(2) by (simp add: z(1) copy_within_def overwrite_def sub_slice_def)
  then show ?thesis using assms(2) len z by (simp flip: g_def)
qed

lemma widen_patch:
  assumes "length ds > 8" and "length pre = n"
  shows "widen_patched_header (pre @ replicate 8 0x30 @ [CR, LF] @ payload) n (n + 10) ds = pre @ ds @ [CR, LF] @ payload"
proof -
  define g where "g = length ds - 8"
  have g: "length ds = g + 8" using assms(1) by (simp add: g_def)
  let ?out = "pre @ replicate 8 0x30 @ [CR, LF] @ payload @ replicate g 0"
  obtain z where z: "copy_within ?out (n + 10) (n + 10 + length payload) (n + 10 + g) = pre @ z @ payload" "length z = g + 10"
  proof
    show "copy_within ?out (n + 10) (n + 10 + length payload) (n + 10 + g) =
        pre @ take (g + 10) (replicate 8 0x30 @ [CR, LF] @ payload @ replicate g 0) @ payload"
      using assms(2) by (simp add: copy_within_def overwrite_def sub_slice_def)
  qed simp
  then show ?thesis using assms(2) g
    by (simp add: widen_patched_header_def PATCHED_DIGITS_def overwrite_def add.commute add.left_commute
        flip: g_def)
qed

text \<open>
  C21: the patched bulk is the bulk: with a builder that appends, \<open>try_bulk_patched\<close> writes exactly the frame that
  \<open>bulk\<close> writes for the appended bytes, whether the reserved header shrinks, fits or is widened, and a builder that
  fails leaves the buffer as it was.
\<close>

theorem patched_bulk_is_bulk:
  assumes "\<forall>out. build out = (r, out @ payload)" and "length payload < 2 ^ 64"
  shows "try_bulk_patched w build =
    (case r of None \<Rightarrow> map_option (Pair None) (bulk w payload) | Some e \<Rightarrow> Some (Some e, w))"
proof (cases r)
  case (Some e)
  then show ?thesis using assms(1) by (simp add: try_bulk_patched_def)
next
  case None
  define ds where "ds = dec_digits (length payload)"
  define pre where "pre = wr_out w @ [0x24]"
  define out2 where "out2 = pre @ replicate 8 0x30 @ [CR, LF] @ payload"
  define o2 where "o2 = overwrite (overwrite out2 (length pre) ds) (length pre + length ds) [CR, LF]"
  have b: "build (pre @ replicate 8 0x30 @ [CR, LF]) = (None, out2)" using assms(1) None by (simp add: out2_def)
  have u: "utoa (of_nat (length out2 - (length pre + 8 + 2))) False = Some ds"
    using assms(2) by (simp add: utoa_unsigned out2_def ds_def unat_of_nat_u64)
  have ten: "length pre + 8 + 2 = length pre + 10" by simp
  have ne: "ds \<noteq> []" and len: "\<not> length out2 < length pre + 8 + 2" by (simp_all add: ds_def out2_def)
  have out3: "(if length ds \<le> 8 then
       if 8 - length ds > 0 then
         take (length o2 - (8 - length ds)) (copy_within o2 (length pre + 8 + 2) (length o2) (length pre + 8 + 2 - (8 - length ds)))
       else o2
     else widen_patched_header out2 (length pre) (length pre + 8 + 2) ds) = pre @ ds @ [CR, LF] @ payload"
  proof (cases "length ds \<le> 8")
    case True
    have "length ds = 8 \<Longrightarrow> o2 = pre @ ds @ [CR, LF] @ payload" by (simp add: o2_def out2_def overwrite_def)
    moreover have "8 - length ds > 0 \<longleftrightarrow> length ds \<noteq> 8" using True by auto
    ultimately show ?thesis using narrow_patch [OF True refl ne o2_def [unfolded out2_def]] True
      by (simp only: ten if_True if_False split: if_split) blast
  next
    case False
    then show ?thesis using widen_patch [of ds pre "length pre" payload] by (simp only: ten out2_def if_False)
  qed
  have "try_bulk_patched w build = Some (None, w\<lparr>wr_out := (pre @ ds @ [CR, LF] @ payload) @ [CR, LF]\<rparr>)"
    unfolding try_bulk_patched_def Let_def PATCHED_DIGITS_def pre_def [symmetric] b prod.case option.case u
      o2_def [symmetric] out3 by (simp only: len if_False u option.case o2_def [symmetric] out3)
  then show ?thesis using assms(2) None by (simp add: bulk_text put_def ds_def pre_def)
qed

theorem patched_bulk_is_bulk_witness:
  "\<exists>w'. try_bulk_patched \<lparr>wr_out = [1], wr_proto = Resp2\<rparr> (\<lambda>out. (None :: unit option, out @ [7, 8])) = Some (None, w') \<and>
    wr_out w' = [1, 0x24, 0x32, CR, LF, 7, 8, CR, LF]"
proof -
  have "try_bulk_patched \<lparr>wr_out = [1], wr_proto = Resp2\<rparr> (\<lambda>out. (None :: unit option, out @ [7, 8])) =
      (case None of None \<Rightarrow> map_option (Pair None) (bulk \<lparr>wr_out = [1], wr_proto = Resp2\<rparr> [7, 8])
       | Some e \<Rightarrow> Some (Some e, \<lparr>wr_out = [1], wr_proto = Resp2\<rparr>))"
    by (rule patched_bulk_is_bulk) simp_all
  then show ?thesis by (simp add: bulk_text put_def dec_digits.simps)
qed

section \<open>Line-framed replies\<close>

lemma word8_xor:
  assumes "bytes8 es" and "bytes8 fs"
  shows "word8 es XOR word8 fs = word8 (map2 (XOR) es fs)"
proof (rule word8_eqI)
  have "0 \<le> e XOR f \<and> e XOR f < 256" if "(e, f) \<in> set (zip es fs)" for e f
    using that assms XOR_upper [of e 8 f] set_zip_leftD [OF that] set_zip_rightD [OF that] by (simp add: bytes8_def)
  then show "bytes8 (map2 (XOR) es fs)" using assms by (auto simp: bytes8_def)
  fix i b :: nat
  assume "i < 8" "b < 8"
  then show "bit (word8 es XOR word8 fs) (8 * i + b) \<longleftrightarrow> bit (map2 (XOR) es fs ! i) b"
    using assms bit_word8 [of es i b] bit_word8 [of fs i b] by (auto simp: bit_xor_iff bytes8_def)
qed

lemma has_zero_byte_correct:
  assumes "bytes8 es"
  shows "has_zero_byte (word8 es) \<noteq> 0 \<longleftrightarrow> 0 \<in> set es"
proof -
  have len: "length es = 8" and rng: "\<And>i. i < 8 \<Longrightarrow> 0 \<le> es ! i \<and> es ! i < 256" using assms by (auto simp: bytes8_def)
  obtain a b c d e f g h where es: "es = [a, b, c, d, e, f, g, h]" using list8_obtain [OF len] .
  have sub: "word8 es - ONES = of_int (byte_sum (map (\<lambda>e. e - 1) es))"
    by (simp add: es word8_def ONES_def algebra_simps)
  have high: "HIGH = BYTE_HIGH_BITS" by (simp add: HIGH_def BYTE_HIGH_BITS_def)
  have flag: "bit (has_zero_byte (word8 es)) (8 * i + b) \<longleftrightarrow> b = 7 \<and> bit (es ! i - 1) 7 \<and> \<not> bit (es ! i) 7"
    if "i < 8" "b < 8" "\<forall>j<i. es ! j \<noteq> 0" for i b
  proof -
    have "\<forall>j<i. 0 \<le> map (\<lambda>e. e - 1) es ! j \<and> map (\<lambda>e. e - 1) es ! j < 256"
    proof (intro allI impI)
      fix j assume "j < i"
      then have "j < 8" "es ! j \<noteq> 0" using that by auto
      then show "0 \<le> map (\<lambda>e. e - 1) es ! j \<and> map (\<lambda>e. e - 1) es ! j < 256"
        using rng [of j] len by simp
    qed
    then have "bit (word8 es - ONES) (8 * i + b) \<longleftrightarrow> bit (es ! i - 1) b"
      unfolding sub using byte_sum_word_bit [of "map (\<lambda>e. e - 1) es" i b] that len by simp
    then show ?thesis using that bit_word8 [OF assms that(1,2)]
      by (auto simp: has_zero_byte_def high bit_and_iff bit_not_iff bit_BYTE_HIGH_BITS)
  qed
  show ?thesis
  proof (cases "0 \<in> set es")
    case True
    then obtain i where i: "i < 8" "es ! i = 0" using len by (auto simp: in_set_conv_nth)
    define k where "k = (LEAST i. i < 8 \<and> es ! i = 0)"
    have k: "k < 8" "es ! k = 0" using LeastI [of "\<lambda>i. i < 8 \<and> es ! i = 0" i] i by (auto simp: k_def)
    have "\<not> (j < 8 \<and> es ! j = 0)" if "j < k" for j using that unfolding k_def by (rule not_less_Least)
    then have "\<forall>j<k. es ! j \<noteq> 0" using k(1) less_trans by blast
    then have "bit (has_zero_byte (word8 es)) (8 * k + 7)" using flag [of k 7] k bit7_neg [of "-1"] by simp
    then show ?thesis using True by auto
  next
    case False
    have "\<not> bit (has_zero_byte (word8 es)) p" if "p < 64" for p
    proof -
      have p: "p div 8 < 8" "p mod 8 < 8" using that by auto
      have nz: "es ! j \<noteq> 0" if "j < 8" for j using False that len by (metis nth_mem)
      have r: "0 \<le> es ! (p div 8)" "es ! (p div 8) < 256" using rng [OF p(1)] by auto
      have "bit (es ! (p div 8) - 1) 7 \<Longrightarrow> bit (es ! (p div 8)) 7"
        using r nz [OF p(1)] bit7_small [of "es ! (p div 8) - 1"] bit7_high [of "es ! (p div 8)"] by linarith
      then show ?thesis using flag [of "p div 8" "p mod 8"] p nz by auto
    qed
    then have "has_zero_byte (word8 es) = 0" by (intro bit_word_eqI) auto
    then show ?thesis using False by simp
  qed
qed

lemma chunk_break_byte:
  assumes "length cs = 8"
  shows "has_zero_byte (of_le_bytes cs XOR (ONES * ucast c)) \<noteq> 0 \<longleftrightarrow> c \<in> set cs"
proof -
  let ?es = "map uint cs" and ?fs = "replicate 8 (uint c)"
  have b: "bytes8 ?es" "bytes8 ?fs" using assms uint_lt2p [where 'a = 8] by (auto simp: bytes8_def)
  have "word8 ?fs = ONES * of_int (uint c)" by (simp add: word8_def ONES_def numeral_eq_Suc algebra_simps)
  then have c: "word8 ?fs = ONES * ucast c" by simp
  have x: "of_le_bytes cs XOR (ONES * ucast c) = word8 (map2 (XOR) ?es ?fs)"
    unfolding c [symmetric] of_le_bytes_byte_sum word8_def [symmetric] by (rule word8_xor [OF b])
  have z: "map2 (XOR) ?es ?fs = map (\<lambda>b. uint b XOR uint c) cs"
    using assms by (auto intro: nth_equalityI)
  have "bytes8 (map (\<lambda>b. uint b XOR uint c) cs)"
    using assms XOR_upper [of _ 8 "uint c"] uint_lt2p [where 'a = 8] by (auto simp: bytes8_def)
  moreover have "uint b XOR uint c = 0 \<longleftrightarrow> b = c" for b
    by (metis word_uint_eqI xor.assoc xor.left_neutral xor.right_neutral xor_self_eq)
  then have "0 \<in> set (map (\<lambda>b. uint b XOR uint c) cs) \<longleftrightarrow> c \<in> set cs"
    by (simp add: image_iff)
  ultimately show ?thesis using has_zero_byte_correct [of "map (\<lambda>b. uint b XOR uint c) cs"] unfolding x z by simp
qed

lemma chunks_break_correct: "chunks_break xs \<longleftrightarrow> list_ex line_break xs"
proof (induction xs rule: chunks_break.induct)
  case (1 xs)
  show ?case
  proof (cases "8 \<le> length xs")
    case True
    then have "chunk_breaks (take 8 xs) \<longleftrightarrow> list_ex line_break (take 8 xs)"
      using chunk_break_byte [of "take 8 xs"]
      by (auto simp: chunk_breaks_def Let_def or_eq_0_iff list_ex_iff line_break_def)
    moreover have "list_ex line_break xs \<longleftrightarrow> list_ex line_break (take 8 xs) \<or> list_ex line_break (drop 8 xs)"
      by (metis append_take_drop_id list_ex_append)
    ultimately show ?thesis using 1 True by (subst chunks_break.simps) auto
  qed (subst chunks_break.simps, simp)
qed

lemma contains_line_break_correct: "contains_line_break xs \<longleftrightarrow> list_ex line_break xs"
  by (simp add: contains_line_break_def chunks_break_correct)

text \<open>The text of a line-framed reply: breaks trimmed at both ends, blanks for those inside.\<close>

definition trim_breaks :: "bytes \<Rightarrow> bytes" where
  "trim_breaks xs = rev (dropWhile line_break (rev (dropWhile line_break xs)))"

definition line_body :: "bytes \<Rightarrow> bytes" where
  "line_body xs = map (\<lambda>b. if line_break b then 0x20 else b) (trim_breaks xs)"

lemma rev_dropWhile_rev: "rev (dropWhile P (rev xs)) = take (length xs - length (takeWhile P (rev xs))) xs"
  by (simp add: dropWhile_eq_drop rev_drop)

lemma trim_breaks_slice:
  assumes "\<exists>x\<in>set xs. \<not> line_break x"
  shows "trim_breaks xs = sub_slice xs (length (takeWhile line_break xs)) (length xs - length (takeWhile line_break (rev xs)))"
proof -
  let ?d = "dropWhile line_break xs" and ?t = "takeWhile line_break xs"
  have ex: "\<exists>x\<in>set ?d. \<not> line_break x"
    using assms by (metis (full_types) Un_iff set_append set_takeWhileD takeWhile_dropWhile_id)
  have split: "xs = ?t @ ?d" by simp
  have rv: "rev xs = rev ?d @ rev ?t" by (subst split) (simp only: rev_append)
  have tw: "takeWhile line_break (rev xs) = takeWhile line_break (rev ?d)"
    unfolding rv using ex by (auto intro: takeWhile_append1)
  have len: "length xs = length ?t + length ?d" by (subst split) (simp only: length_append)
  have "trim_breaks xs = take (length ?d - length (takeWhile line_break (rev ?d))) ?d"
    unfolding trim_breaks_def by (rule rev_dropWhile_rev)
  moreover have "length xs - length (takeWhile line_break (rev ?d)) - length ?t =
      length ?d - length (takeWhile line_break (rev ?d))"
    using len by linarith
  moreover have "?d = drop (length ?t) xs" by (rule dropWhile_eq_drop)
  ultimately show ?thesis unfolding tw sub_slice_def by (simp only:)
qed

lemma push_line_sanitized_body: "push_line_sanitized w tag xs = put w (tag # line_body xs @ [CR, LF])"
proof (cases "\<exists>x\<in>set xs. \<not> line_break x")
  case True
  have "length (takeWhile line_break xs) < length xs" "length (takeWhile line_break (rev xs)) < length (rev xs)"
    using True by (intro length_takeWhile_less, simp)+
  then show ?thesis using trim_breaks_slice [OF True]
    by (simp add: push_line_sanitized_def position_def rposition_def Let_def line_body_def put_def Suc_diff_Suc)
next
  case False
  have t: "takeWhile line_break xs = xs" "takeWhile line_break (rev xs) = rev xs"
    using False by (auto simp: takeWhile_eq_all_conv)
  have d: "dropWhile line_break xs = []" using False by (auto simp: dropWhile_eq_Nil_conv)
  have "position (\<lambda>b. \<not> line_break b) xs = None" "rposition (\<lambda>b. \<not> line_break b) xs = None"
    unfolding position_def rposition_def by (simp_all only: not_not t) simp_all
  then show ?thesis
    by (simp add: push_line_sanitized_def line_body_def trim_breaks_def d put_def sub_slice_def)
qed

lemma line_body_clean: "CR \<notin> set (line_body xs) \<and> LF \<notin> set (line_body xs)"
  by (auto simp: line_body_def line_break_def CR_def LF_def)

lemma dropWhile_none: "\<forall>x\<in>set xs. \<not> P x \<Longrightarrow> dropWhile P xs = xs"
  by (cases xs) simp_all

lemma line_body_id:
  assumes "\<not> list_ex line_break xs"
  shows "line_body xs = xs"
proof -
  have "dropWhile line_break xs = xs" "dropWhile line_break (rev xs) = rev xs"
    using assms by (auto simp: list_ex_iff intro: dropWhile_none)
  moreover have "map (\<lambda>b. if line_break b then 0x20 else b) xs = xs"
    using assms by (auto simp: list_ex_iff intro: map_idI)
  ultimately show ?thesis by (simp add: line_body_def trim_breaks_def)
qed

text \<open>
  C22: a line-framed reply is one frame whatever its text: the writer appends the tag, a body without CR and LF,
  and the terminator. The body is the text itself when it has no line break, and otherwise the text with the runs
  of CR and LF trimmed at both ends and those inside turned into blanks, as the eight-byte scan decides.
\<close>

theorem line_reply_is_one_frame:
  "push_line w tag xs = put w (tag # line_body xs @ [CR, LF]) \<and>
   CR \<notin> set (line_body xs) \<and> LF \<notin> set (line_body xs) \<and>
   (contains_line_break xs \<or> line_body xs = xs) \<and> (contains_line_break xs \<longleftrightarrow> CR \<in> set xs \<or> LF \<in> set xs)"
proof -
  have "contains_line_break xs \<longleftrightarrow> CR \<in> set xs \<or> LF \<in> set xs"
    by (auto simp: contains_line_break_correct list_ex_iff line_break_def)
  then show ?thesis using line_body_clean [of xs] line_body_id [of xs]
    by (auto simp: push_line_def push_line_sanitized_body contains_line_break_correct put_def)
qed

end
