(* ===== verification/RespPipeline.thy ===== *)
theory RespPipeline
  imports RespStream RespWriter
begin

text \<open>
  The writer and the parser of \<^verbatim>\<open>crates/inf-wire\<close> together: what the writer's array header and bulks put on
  the wire is what the parser reads back as commands.
\<close>

section \<open>Writing commands\<close>

text \<open>A command is an array header and one bulk per argument, as a client writes it.\<close>

fun write_bulks :: "RespWriter \<Rightarrow> bytes list \<Rightarrow> RespWriter option" where
  "write_bulks w [] = Some w"
| "write_bulks w (a # as) = Option.bind (bulk w a) (\<lambda>w. write_bulks w as)"

definition write_command :: "RespWriter \<Rightarrow> bytes list \<Rightarrow> RespWriter option" where
  "write_command w argv = Option.bind (array_header w (length argv)) (\<lambda>w. write_bulks w argv)"

fun write_commands :: "RespWriter \<Rightarrow> bytes list list \<Rightarrow> RespWriter option" where
  "write_commands w [] = Some w"
| "write_commands w (c # cs) = Option.bind (write_command w c) (\<lambda>w. write_commands w cs)"

definition bulk_bytes :: "bytes \<Rightarrow> bytes" where
  "bulk_bytes bs = 0x24 # dec_digits (length bs) @ [CR, LF] @ bs @ [CR, LF]"

definition command_bytes :: "bytes list \<Rightarrow> bytes" where
  "command_bytes argv = (0x2A # dec_digits (length argv) @ [CR, LF]) @ concat (map bulk_bytes argv)"

definition command_fits :: "ParserLimits \<Rightarrow> bytes list \<Rightarrow> bool" where
  "command_fits limits argv \<longleftrightarrow> argv \<noteq> [] \<and> length argv \<le> max_args limits \<and>
     list_all (\<lambda>a. length a \<le> max_bulk_bytes limits) argv \<and> length (command_bytes argv) \<le> frame_cap limits"

lemma length_bulk_bytes: "length bs < length (bulk_bytes bs)"
  by (simp add: bulk_bytes_def)

lemma put_put: "put (put w xs) ys = put w (xs @ ys)"
  by (simp add: put_def)

lemma put_Nil: "put w [] = w"
  by (simp add: put_def)

lemma write_bulks_bytes:
  "list_all (\<lambda>a. length a < 2 ^ 64) as \<Longrightarrow> write_bulks w as = Some (put w (concat (map bulk_bytes as)))"
  by (induction as arbitrary: w) (simp_all add: bulk_text put_put put_Nil bulk_bytes_def)

lemma fits_lengths:
  assumes "command_fits limits argv"
  shows "length argv < 2 ^ 32" and "list_all (\<lambda>a. length a < 2 ^ 64) argv"
proof -
  have c: "length (command_bytes argv) < 2 ^ 32" using assms frame_cap_u32 unfolding command_fits_def by blast
  have "length argv \<le> length (concat (map bulk_bytes argv))"
    by (induction argv) (simp_all add: bulk_bytes_def)
  then show "length argv < 2 ^ 32" using c by (simp add: command_bytes_def)
  have "length a \<le> length (concat (map bulk_bytes argv))" if "a \<in> set argv" for a
    using that length_bulk_bytes [of a] by (induction argv) auto
  then show "list_all (\<lambda>a. length a < 2 ^ 64) argv"
    using c by (fastforce simp: list_all_iff command_bytes_def)
qed

lemma write_command_bytes:
  assumes "command_fits limits argv"
  shows "write_command w argv = Some (put w (command_bytes argv))"
  using fits_lengths [OF assms]
  by (simp add: write_command_def array_header_text write_bulks_bytes put_put command_bytes_def)

lemma write_commands_bytes:
  "list_all (command_fits limits) cmds \<Longrightarrow> write_commands w cmds = Some (put w (concat (map command_bytes cmds)))"
  by (induction cmds arbitrary: w) (simp_all add: write_command_bytes [of limits] put_put put_Nil)

section \<open>Reading them back\<close>

lemma count_line_text:
  assumes "n < 2 ^ 63"
  shows "parse_count_line (pre @ dec_digits n @ [CR, LF] @ rest) (length pre) err =
    Ok (Some (int n, length pre + length (dec_digits n) + 2))"
  unfolding count_line_Some_iff
  using swar_dec_digits [OF assms, of CR "LF # rest"] by (simp add: is_digit_def CR_def)

lemma parse_bulk_text:
  assumes "length bs \<le> max_bulk_bytes limits" and "length pre + length (bulk_bytes bs) \<le> frame_cap limits"
  shows "parse_bulk (pre @ bulk_bytes bs @ rest) (length pre) limits =
    BComplete (of_nat (length pre + length (dec_digits (length bs)) + 3)) (of_nat (length bs))
      (length pre + length (bulk_bytes bs))"
proof -
  let ?buf = "pre @ bulk_bytes bs @ rest"
  have c: "length pre + length (bulk_bytes bs) < 2 ^ 32" using assms(2) frame_cap_u32 by blast
  then have "length bs < 2 ^ 63" using length_bulk_bytes [of bs] by simp
  from count_line_text [OF this, of "pre @ [0x24]" "bs @ [CR, LF] @ rest" BadBulkLen]
  have l: "parse_count_line ?buf (length pre + 1) BadBulkLen =
      Ok (Some (int (length bs), length pre + length (dec_digits (length bs)) + 3))"
    by (simp add: bulk_bytes_def eval_nat_numeral)
  let ?start = "length pre + length (dec_digits (length bs)) + 3"
  define X where "X = pre @ 0x24 # dec_digits (length bs) @ [CR, LF] @ bs"
  have X: "?buf = X @ [CR, LF] @ rest" "?start + length bs = length X" by (simp_all add: X_def bulk_bytes_def)
  have crlf: "sub_slice ?buf (?start + length bs) (?start + length bs + 2) = [CR, LF]"
    unfolding X by (simp add: sub_slice_def)
  have "length pre < length ?buf" "?buf ! length pre = 0x24"
    by (simp_all add: bulk_bytes_def nth_append)
  from parse_bulk_line [OF this l, of limits] show ?thesis
    using assms c crlf unfolding nat_int by (simp add: bulk_bytes_def)
qed

lemma bulks_loop_text:
  assumes "wf_offsets offs" and "list_all (\<lambda>a. length a \<le> max_bulk_bytes limits) as"
    and "length pre + length (concat (map bulk_bytes as)) \<le> frame_cap limits"
    and "slices (pre @ concat (map bulk_bytes as) @ rest) offs = xs" and "in_frame offs (length pre)"
  shows "\<exists>offs'. bulks_loop (length as) (pre @ concat (map bulk_bytes as) @ rest) (length pre) limits offs =
      PFrame (KCommand offs') (length pre + length (concat (map bulk_bytes as))) \<and> wf_offsets offs' \<and>
      slices (pre @ concat (map bulk_bytes as) @ rest) offs' = xs @ as"
  using assms
proof (induction as arbitrary: pre offs xs)
  case Nil
  then show ?case by simp
next
  case (Cons a as)
  let ?buf = "pre @ concat (map bulk_bytes (a # as)) @ rest"
  let ?start = "length pre + length (dec_digits (length a)) + 3"
  let ?offs = "offsets_push offs (of_nat ?start) (of_nat (length a))"
  have cap: "length pre + length (bulk_bytes a) \<le> frame_cap limits" using Cons.prems(3) by simp
  have pb: "parse_bulk ?buf (length pre) limits = BComplete (of_nat ?start) (of_nat (length a)) (length (pre @ bulk_bytes a))"
    using parse_bulk_text [of a limits pre "concat (map bulk_bytes as) @ rest"] Cons.prems(2) cap by simp
  have small: "length pre + length (bulk_bytes a) < 2 ^ 32" using cap frame_cap_u32 by blast
  then have "?start < 2 ^ 32" "length a < 2 ^ 32" by (simp_all add: bulk_bytes_def)
  then have u: "unat (of_nat ?start :: u32) = ?start" "unat (of_nat (length a) :: u32) = length a"
    by (blast intro: unat_of_nat_u32)+
  have sl: "slices ?buf ?offs = xs @ [a]"
  proof -
    define X where "X = pre @ 0x24 # dec_digits (length a) @ [CR, LF]"
    have X: "?buf = X @ a @ [CR, LF] @ concat (map bulk_bytes as) @ rest" "?start = length X"
      by (simp_all add: X_def bulk_bytes_def)
    have "sub_slice ?buf ?start (?start + length a) = a" unfolding X by (simp add: sub_slice_def)
    then show ?thesis using Cons.prems(4) unfolding slices_def entries_push [OF Cons.prems(1)] map_append
      by (simp only: list.map prod.case u)
  qed
  have inf: "in_frame ?offs (length (pre @ bulk_bytes a))"
    by (rule in_frame_push [OF Cons.prems(1,5)]) (unfold u, simp_all add: bulk_bytes_def)
  have "\<exists>offs'. bulks_loop (length as) ((pre @ bulk_bytes a) @ concat (map bulk_bytes as) @ rest) (length (pre @ bulk_bytes a)) limits ?offs =
      PFrame (KCommand offs') (length (pre @ bulk_bytes a) + length (concat (map bulk_bytes as))) \<and> wf_offsets offs' \<and>
      slices ((pre @ bulk_bytes a) @ concat (map bulk_bytes as) @ rest) offs' = (xs @ [a]) @ as"
    by (rule Cons.IH [OF offsets_push_wf [OF Cons.prems(1)]]) (use Cons.prems(2,3) sl inf in simp_all)
  then show ?case using pb by (simp add: add.assoc)
qed

lemma args_slices:
  assumes "wf_offsets offs" and "in_frame offs used" and "used \<le> length buf"
  shows "args (materialize offs (take used buf)) = map Some (slices buf offs)"
proof -
  have "get_range (take used buf) (unat start) (unat start + unat len) =
      Some (sub_slice buf (unat start) (unat start + unat len))"
    if "(start, len) \<in> set (entries offs)" for start len
    using assms(2,3) that by (fastforce simp: in_frame_def get_range_def sub_slice_def take_drop min_def)
  then show ?thesis using assms(1) by (simp add: args_entries slices_def) (force simp: split_beta)
qed

lemma parse_one_command:
  assumes "command_fits limits argv"
  shows "\<exists>offs. parse_one (command_bytes argv @ rest) limits = PFrame (KCommand offs) (length (command_bytes argv)) \<and>
    args (materialize offs (command_bytes argv)) = map Some argv"
proof -
  let ?pre = "0x2A # dec_digits (length argv) @ [CR, LF]" and ?body = "concat (map bulk_bytes argv)"
  let ?buf = "?pre @ ?body @ rest"
  have buf: "command_bytes argv @ rest = ?buf" by (simp add: command_bytes_def)
  have fit: "argv \<noteq> []" "length argv \<le> max_args limits" "list_all (\<lambda>a. length a \<le> max_bulk_bytes limits) argv"
      "length ?pre + length ?body \<le> frame_cap limits"
    using assms by (auto simp: command_fits_def command_bytes_def)
  have n: "length argv < 2 ^ 32" by (rule fits_lengths(1) [OF assms])
  then have "length argv < 2 ^ 63" by simp
  from count_line_text [OF this, of "[0x2A]" "?body @ rest" BadMultibulkLen]
  have line: "parse_count_line ?buf 1 BadMultibulkLen = Ok (Some (int (length argv), length ?pre))" by simp
  obtain offs where b: "bulks_loop (length argv) ?buf (length ?pre) limits offsets_new =
        PFrame (KCommand offs) (length ?pre + length ?body)" and sl: "slices ?buf offs = argv" and wf: "wf_offsets offs"
    using bulks_loop_text [OF offsets_new_wf(1) fit(3,4), of rest "[]"] by (auto simp: slices_def)
  have "parse_one ?buf limits = parse_multibulk ?buf limits" by (simp add: parse_one_def)
  also have "\<dots> = bulks_loop (length argv) ?buf (length ?pre) limits offsets_new"
    unfolding parse_multibulk_def line using fit(1,2) n by (auto simp: ARGV_ENTRIES_MAX_def Let_def min_less_iff_disj)
  finally have p: "parse_one ?buf limits = PFrame (KCommand offs) (length ?pre + length ?body)" by (simp only: b)
  have "in_frame offs (length ?pre + length ?body)" using parse_one_Frame [OF p] by simp
  from args_slices [OF wf this, of ?buf] sl have "args (materialize offs (command_bytes argv)) = map Some argv"
    by (simp add: command_bytes_def)
  with p show ?thesis unfolding buf by (auto simp: command_bytes_def)
qed

lemma run_frames_commands:
  assumes "list_all (command_fits limits) cmds"
  shows "\<exists>as. run_frames limits (concat (map command_bytes cmds)) = (map Command as, Ok []) \<and>
    map args as = map (map Some) cmds"
  using assms
proof (induction cmds)
  case Nil
  then show ?case by (simp add: run_frames.simps parse_one_def)
next
  case (Cons c cs)
  obtain offs where p: "parse_one (command_bytes c @ concat (map command_bytes cs)) limits =
        PFrame (KCommand offs) (length (command_bytes c))" "args (materialize offs (command_bytes c)) = map Some c"
    using parse_one_command [of limits c "concat (map command_bytes cs)"] Cons.prems by auto
  obtain as where "run_frames limits (concat (map command_bytes cs)) = (map Command as, Ok [])"
      "map args as = map (map Some) cs"
    using Cons by auto
  then show ?case using p
    by (subst run_frames.simps) (auto intro!: exI [of _ "materialize offs (command_bytes c) # as"])
qed

text \<open>
  C19: commands survive the wire: writing any number of commands with the writer and feeding the bytes to an
  idle parser yields exactly these commands, with exactly these arguments, in order and with nothing left over,
  as long as each command is within the parser's limits.
\<close>

theorem commands_round_trip:
  assumes "list_all (command_fits (cp_limits p)) cmds" and "\<not> cp_poisoned p" and "buffered p = 0"
  shows "\<exists>w as. write_commands \<lparr>wr_out = [], wr_proto = proto\<rparr> cmds = Some w \<and>
    feed_drive p (wr_out w) = Some (map Command as, p) \<and> map args as = map (map Some) cmds"
proof -
  obtain as where r: "run_frames (cp_limits p) (concat (map command_bytes cmds)) = (map Command as, Ok [])"
      and a: "map args as = map (map Some) cmds"
    using run_frames_commands [OF assms(1)] by blast
  have acc: "cp_acc p = []" using assms(3) by (simp add: buffered_def)
  have "feed_drive p (concat (map command_bytes cmds)) = Some (map Command as, p)"
    using feed_drive_refines [OF assms(2), of "concat (map command_bytes cmds)"] r acc by simp
  then show ?thesis using a write_commands_bytes [OF assms(1)] by (simp add: put_def) blast
qed

theorem commands_round_trip_witness:
  "\<exists>w as. write_commands \<lparr>wr_out = [], wr_proto = Resp2\<rparr> [[[0x47], [CR, LF]], [[]]] = Some w \<and>
    feed_drive (parser_new tiny_limits) (wr_out w) = Some (map Command as, parser_new tiny_limits) \<and>
    map args as = map (map Some) [[[0x47], [CR, LF]], [[]]]"
  by (rule commands_round_trip)
    (simp_all add: parser_new_def buffered_def command_fits_def tiny_limits_def command_bytes_def bulk_bytes_def
      dec_digits.simps frame_cap_def ARGV_FRAME_BYTES_MAX_def)

end
