(* ===== verification/ByteOrder.thy ===== *)
theory ByteOrder
  imports Swar
begin

text \<open>
  Rust's \<open>Ordering\<close>, the lexicographic order of byte slices (\<open>memcmp\<close>, the shorter slice first) and
  big-endian words, whose byte order is their numeric order.
\<close>

datatype Ordering = Less | Equal | Greater

definition cmp :: "'a::linorder \<Rightarrow> 'a \<Rightarrow> Ordering" where
  "cmp a b = (if a < b then Less else if a = b then Equal else Greater)"

text \<open>\<open>Ordering::then\<close>.\<close>

fun then_cmp :: "Ordering \<Rightarrow> Ordering \<Rightarrow> Ordering" where
  "then_cmp Equal r = r"
| "then_cmp r _ = r"

fun bytes_cmp :: "bytes \<Rightarrow> bytes \<Rightarrow> Ordering" where
  "bytes_cmp [] [] = Equal"
| "bytes_cmp [] (_ # _) = Less"
| "bytes_cmp (_ # _) [] = Greater"
| "bytes_cmp (a # as) (b # bs) = then_cmp (cmp a b) (bytes_cmp as bs)"

definition be_bytes :: "nat \<Rightarrow> 'a::len word \<Rightarrow> bytes" where
  "be_bytes n v = rev (le_bytes n v)"

definition of_be_bytes :: "bytes \<Rightarrow> 'a::len word" where
  "of_be_bytes bs = of_le_bytes (rev bs)"

lemma cmp_simps [simp]: "cmp a a = Equal" "a < b \<Longrightarrow> cmp a b = Less" "b < a \<Longrightarrow> cmp a b = Greater"
  by (auto simp: cmp_def)

lemma cmp_eq_iff [simp]: "cmp a b = Less \<longleftrightarrow> a < b" "cmp a b = Equal \<longleftrightarrow> a = b" "cmp a b = Greater \<longleftrightarrow> b < a"
  by (auto simp: cmp_def)

lemma cmp_mono: "(a < b \<longleftrightarrow> c < d) \<Longrightarrow> (a = b \<longleftrightarrow> c = d) \<Longrightarrow> cmp a b = cmp c d"
  by (simp add: cmp_def)

lemma then_cmp_Equal [simp]: "then_cmp r Equal = r"
  by (cases r) simp_all

lemma then_cmp_assoc: "then_cmp (then_cmp a b) c = then_cmp a (then_cmp b c)"
  by (cases a) simp_all

lemma bytes_cmp_Equal [simp]: "bytes_cmp xs ys = Equal \<longleftrightarrow> xs = ys"
proof (induction xs ys rule: bytes_cmp.induct)
  case (4 a as b bs)
  then show ?case by (cases "cmp a b") auto
qed simp_all

lemma bytes_cmp_append_same [simp]: "bytes_cmp (xs @ ys) (xs @ zs) = bytes_cmp ys zs"
  by (induction xs) simp_all

lemma bytes_cmp_append:
  "length xs = length ys \<Longrightarrow> bytes_cmp (xs @ us) (ys @ vs) = then_cmp (bytes_cmp xs ys) (bytes_cmp us vs)"
  by (induction xs ys rule: list_induct2) (simp_all add: then_cmp_assoc)

section \<open>Big-endian words\<close>

definition be_val :: "bytes \<Rightarrow> nat" where
  "be_val xs = foldl (\<lambda>n b. n * 256 + unat b) 0 xs"

lemma foldl_be: "foldl (\<lambda>n b. n * 256 + unat b) m xs = m * 256 ^ length xs + be_val xs"
proof (induction xs arbitrary: m)
  case (Cons x xs)
  show ?case unfolding be_val_def using Cons [of "m * 256 + unat x"] Cons [of "unat x"]
    by (simp add: algebra_simps)
qed (simp add: be_val_def)

lemma be_val_Cons: "be_val (x # xs) = unat x * 256 ^ length xs + be_val xs"
  using foldl_be [of "unat x" xs] by (simp add: be_val_def)

lemma be_val_snoc: "be_val (xs @ [x]) = be_val xs * 256 + unat x"
  by (simp add: be_val_def)

lemma unat_byte: "unat (b :: byte) < 256"
  using unsigned_less [where w = b] by simp

lemma be_val_less: "be_val xs < 256 ^ length xs"
proof (induction xs rule: rev_induct)
  case (snoc x xs)
  then show ?case using unat_byte [of x] by (simp add: be_val_snoc)
qed (simp add: be_val_def)

lemma bytes_cmp_be_val:
  "length xs = length ys \<Longrightarrow> bytes_cmp xs ys = cmp (be_val xs) (be_val ys)"
proof (induction xs ys rule: list_induct2)
  case Nil
  then show ?case by (simp add: be_val_def)
next
  case (Cons x xs y ys)
  have less: "be_val (u # us) < be_val (v # vs)" if "u < v" "length us = length vs" for u v us vs
  proof -
    have "(unat u + 1) * 256 ^ length us \<le> unat v * 256 ^ length us"
      using that by (intro mult_right_mono) (simp_all add: word_less_nat_alt)
    then show ?thesis using that(2) be_val_less [of us] unfolding be_val_Cons by (simp add: algebra_simps)
  qed
  consider "x < y" | "x = y" | "y < x" by (rule linorder_cases)
  then show ?case
  proof cases
    case 1
    then show ?thesis using less [of x y xs ys] Cons.hyps by simp
  next
    case 2
    then show ?thesis using Cons by (simp add: be_val_Cons cmp_def)
  next
    case 3
    then show ?thesis using less [of y x ys xs] Cons.hyps by simp
  qed
qed

lemma byte_sum_be_val: "byte_sum (map uint xs) = int (be_val (rev xs))"
proof (induction xs)
  case Nil
  then show ?case by (simp add: be_val_def)
next
  case (Cons x xs)
  then show ?case by (simp add: be_val_snoc)
qed

lemma unat_of_be_bytes:
  assumes "length xs \<le> 8"
  shows "unat (of_be_bytes xs :: u64) = be_val xs"
proof -
  have "be_val xs < 256 ^ length xs" by (rule be_val_less)
  also have "\<dots> \<le> 256 ^ 8" using assms by (intro power_increasing) auto
  finally have "be_val xs < 2 ^ 64" by simp
  moreover have "(of_be_bytes xs :: u64) = of_nat (be_val xs)"
    unfolding of_be_bytes_def of_le_bytes_byte_sum byte_sum_be_val by simp
  ultimately show ?thesis by (simp only: unat_of_nat_u64)
qed

lemma length_be_bytes [simp, codec_simps]: "length (be_bytes n v) = n"
  by (simp add: be_bytes_def)

lemma of_be_bytes_be_bytes [codec_simps]:
  "LENGTH('a) \<le> 8 * n \<Longrightarrow> of_be_bytes (be_bytes n v) = (v :: 'a::len word)"
  by (simp add: of_be_bytes_def be_bytes_def codec_simps)

lemma be_val_be_bytes: "be_val (be_bytes 8 v) = unat (v :: u64)"
  using unat_of_be_bytes [of "be_bytes 8 v"] by (simp add: codec_simps)

lemma be_bytes_of_be_bytes: "length xs = 8 \<Longrightarrow> be_bytes 8 (of_be_bytes xs :: u64) = xs"
  by (simp add: be_bytes_def of_be_bytes_def le_bytes_of_le_bytes)

lemma bytes_cmp_be_bytes: "bytes_cmp (be_bytes 8 v) (be_bytes 8 w) = cmp v (w :: u64)"
  by (simp add: bytes_cmp_be_val be_val_be_bytes) (simp add: cmp_def word_less_nat_alt word_unat_eq_iff)

end
