(* ===== verification/Float64.thy ===== *)
theory Float64
  imports ByteOrder
begin

text \<open>
  The IEEE 754 double as the language defines it, for the code that computes with \<open>f64\<close>: a value is its 64 bits,
  and every non-NaN value is an exact integer multiple of \<open>2 ^ -1074\<close>, which decides the comparisons. The infinities
  count as the next magnitude after the largest finite one. \<open>trunc\<close> clears the fraction bits, the cast to \<open>i64\<close>
  saturates, the cast from \<open>i64\<close> rounds to nearest, ties to even.
\<close>

type_synonym f64 = u64

section \<open>Operations\<close>

definition f64_neg :: "f64 \<Rightarrow> bool" where "f64_neg f = bit f 63"

definition f64_mag :: "f64 \<Rightarrow> nat" where "f64_mag f = unat f mod 2 ^ 63"

definition is_nan :: "f64 \<Rightarrow> bool" where "is_nan f \<longleftrightarrow> 0x7FF0000000000000 < f64_mag f"

text \<open>The magnitude in units of \<open>2 ^ -1074\<close>: a subnormal is its fraction, a normal number has the hidden bit.\<close>

definition mag_val :: "nat \<Rightarrow> nat" where
  "mag_val m = (let e = m div 2 ^ 52; frac = m mod 2 ^ 52 in if e = 0 then frac else (frac + 2 ^ 52) * 2 ^ (e - 1))"

definition f64_num :: "f64 \<Rightarrow> int" where
  "f64_num f = (if f64_neg f then - int (mag_val (f64_mag f)) else int (mag_val (f64_mag f)))"

definition f64_lt :: "f64 \<Rightarrow> f64 \<Rightarrow> bool" where
  "f64_lt a b \<longleftrightarrow> \<not> is_nan a \<and> \<not> is_nan b \<and> f64_num a < f64_num b"

definition f64_le :: "f64 \<Rightarrow> f64 \<Rightarrow> bool" where
  "f64_le a b \<longleftrightarrow> \<not> is_nan a \<and> \<not> is_nan b \<and> f64_num a \<le> f64_num b"

definition f64_eq :: "f64 \<Rightarrow> f64 \<Rightarrow> bool" where
  "f64_eq a b \<longleftrightarrow> \<not> is_nan a \<and> \<not> is_nan b \<and> f64_num a = f64_num b"

definition f64_trunc :: "f64 \<Rightarrow> f64" where
  "f64_trunc f =
     (let e = f64_mag f div 2 ^ 52
      in if e < 1023 then (if f64_neg f then 0x8000000000000000 else 0)
         else if 1075 \<le> e then f
         else f AND NOT (mask (1075 - e)))"

definition f64_to_i64 :: "f64 \<Rightarrow> i64" where
  "f64_to_i64 f =
     (if is_nan f then 0
      else let q = mag_val (f64_mag f) div 2 ^ 1074;
               v = (if f64_neg f then - int q else int q)
           in if v < - (2 ^ 63) then of_int (- (2 ^ 63)) else if 2 ^ 63 \<le> v then of_int (2 ^ 63 - 1) else of_int v)"

fun log2 :: "nat \<Rightarrow> nat" where
  "log2 n = (if n < 2 then 0 else Suc (log2 (n div 2)))"

declare log2.simps [simp del]

text \<open>Round to nearest even: the top 53 bits, rounded by the bits below. A carry out of them moves the exponent.\<close>

definition round_mag :: "nat \<Rightarrow> nat" where
  "round_mag m =
     (if m = 0 then 0
      else let l = log2 m
      in if l \<le> 52 then (l + 1022) * 2 ^ 52 + m * 2 ^ (52 - l)
         else let s = l - 52; q = m div 2 ^ s; r = m mod 2 ^ s; half = 2 ^ (s - 1);
                  q' = (if r > half \<or> (r = half \<and> odd q) then q + 1 else q)
              in (l + 1022) * 2 ^ 52 + q')"

definition f64_of_i64 :: "i64 \<Rightarrow> f64" where
  "f64_of_i64 v = (if sint v < 0 then of_nat (round_mag (nat (- sint v)) + 2 ^ 63) else of_nat (round_mag (nat (sint v))))"

section \<open>Order\<close>

lemma log2_bounds: "0 < n \<Longrightarrow> 2 ^ log2 n \<le> n \<and> n < 2 ^ Suc (log2 n)"
proof (induction n rule: log2.induct)
  case (1 n)
  show ?case
  proof (cases "n < 2")
    case True
    then show ?thesis using "1.prems" by (subst (1 2) log2.simps) auto
  next
    case False
    with 1 have "2 ^ log2 (n div 2) \<le> n div 2" "n div 2 < 2 ^ Suc (log2 (n div 2))" by auto
    then show ?thesis using False by (subst (1 2) log2.simps) auto
  qed
qed

lemma digit_div_mod: "(f :: nat) < d \<Longrightarrow> (k * d + f) div d = k" "(f :: nat) < d \<Longrightarrow> (k * d + f) mod d = f"
  by simp_all

lemma mag_val_exp: "frac < 2 ^ 52 \<Longrightarrow> mag_val ((e + 1) * 2 ^ 52 + frac) = (frac + 2 ^ 52) * 2 ^ e"
  unfolding mag_val_def Let_def by (simp only: digit_div_mod) simp

lemma mag_val_small: "m < 2 ^ 52 \<Longrightarrow> mag_val m = m"
  by (simp add: mag_val_def)

lemma mag_val_cases:
  obtains (Sub) "m < 2 ^ 52" "mag_val m = m"
  | (Norm) e frac where "m = (e + 1) * 2 ^ 52 + frac" "frac < 2 ^ 52" "mag_val m = (frac + 2 ^ 52) * 2 ^ e"
proof (cases "m < 2 ^ 52")
  case True
  then show thesis by (intro Sub mag_val_small)
next
  case False
  let ?e = "m div 2 ^ 52 - 1" and ?f = "m mod 2 ^ 52"
  have "0 < m div 2 ^ 52" using False by (simp add: div_greater_zero_iff)
  then have m: "m = (?e + 1) * 2 ^ 52 + ?f" by simp
  moreover have f: "?f < 2 ^ 52" by simp
  ultimately show thesis by (intro Norm [OF m f]) (metis mag_val_exp)
qed

lemma mag_val_Suc: "mag_val m < mag_val (Suc m)"
proof (cases m rule: mag_val_cases)
  case Sub
  show ?thesis
  proof (cases "Suc m < 2 ^ 52")
    case True
    then show ?thesis using Sub by (simp only: mag_val_small)
  next
    case False
    then have "Suc m = (0 + 1) * 2 ^ 52 + 0" using Sub(1) by simp
    then have "mag_val (Suc m) = 2 ^ 52" using mag_val_exp [of 0 0] by simp
    then show ?thesis using Sub by simp
  qed
next
  case (Norm e frac)
  show ?thesis
  proof (cases "Suc frac < 2 ^ 52")
    case True
    then have "mag_val (Suc m) = (Suc frac + 2 ^ 52) * 2 ^ e" using mag_val_exp [OF True, of e] Norm(1) by simp
    then show ?thesis by (simp add: Norm(3))
  next
    case False
    then have f: "frac = 2 ^ 52 - 1" using Norm(2) by simp
    then have "Suc m = (e + 1 + 1) * 2 ^ 52 + 0" using Norm(1) by simp
    then have "mag_val (Suc m) = 2 ^ 52 * 2 ^ (e + 1)" using mag_val_exp [of 0 "e + 1"] by simp
    then show ?thesis using f by (simp add: Norm(3))
  qed
qed

lemma mag_val_strict: "strict_mono mag_val"
  by (simp add: strict_mono_Suc_iff mag_val_Suc)

lemma mag_val_less [simp]: "mag_val a < mag_val b \<longleftrightarrow> a < b"
  by (rule strict_mono_less [OF mag_val_strict])

lemma mag_val_le [simp]: "mag_val a \<le> mag_val b \<longleftrightarrow> a \<le> b"
  by (rule strict_mono_less_eq [OF mag_val_strict])

lemma mag_val_eq [simp]: "mag_val a = mag_val b \<longleftrightarrow> a = b"
  by (rule strict_mono_eq [OF mag_val_strict])

lemma mag_val_0 [simp]: "mag_val 0 = 0"
  by (simp add: mag_val_def)

lemma mag_val_eq_0 [simp]: "mag_val m = 0 \<longleftrightarrow> m = 0"
  using mag_val_eq [of m 0] by simp

lemma mag_val_pos [simp]: "0 < mag_val m \<longleftrightarrow> 0 < m"
  using mag_val_eq_0 [of m] by linarith

text \<open>A double is its sign and its magnitude.\<close>

definition f64_make :: "bool \<Rightarrow> nat \<Rightarrow> f64" where
  "f64_make neg m = of_nat ((if neg then 2 ^ 63 else 0) + m)"

lemma unat_f64: "unat f = (if f64_neg f then 2 ^ 63 else 0) + f64_mag f"
proof -
  have "f64_neg f \<longleftrightarrow> bit (unat f) 63" by (simp add: f64_neg_def bit_unsigned_iff)
  then have "f64_neg f \<longleftrightarrow> odd (unat f div 2 ^ 63)" by (simp only: bit_iff_odd)
  moreover have "unat f div 2 ^ 63 < 2" using unat_less_u64 [of f] by (simp add: less_mult_imp_div_less)
  ultimately have "unat f div 2 ^ 63 = (if f64_neg f then 1 else 0)" by (auto simp: less_2_cases_iff)
  then show ?thesis using div_mult_mod_eq [of "unat f" "2 ^ 63"] unfolding f64_mag_def by (cases "f64_neg f") simp_all
qed

lemma f64_mag_less [simp]: "f64_mag f < 2 ^ 63"
  by (simp add: f64_mag_def)

lemma f64_make_eta: "f64_make (f64_neg f) (f64_mag f) = f"
  by (simp add: f64_make_def flip: unat_f64)

lemma f64_make_sel [simp]:
  assumes "m < 2 ^ 63"
  shows "f64_neg (f64_make neg m) = neg" and "f64_mag (f64_make neg m) = m"
proof -
  have u: "unat (f64_make neg m) = (if neg then 2 ^ 63 else 0) + m"
    unfolding f64_make_def by (rule unat_of_nat_u64) (use assms in simp)
  then show m: "f64_mag (f64_make neg m) = m" using assms by (simp add: f64_mag_def)
  show "f64_neg (f64_make neg m) = neg" using u unat_f64 [of "f64_make neg m"] m by (auto split: if_splits)
qed

lemma f64_num_eq_iff: "f64_num a = f64_num b \<longleftrightarrow> a = b \<or> f64_mag a = 0 \<and> f64_mag b = 0"
proof
  assume eq: "f64_num a = f64_num b"
  show "a = b \<or> f64_mag a = 0 \<and> f64_mag b = 0"
  proof (cases "f64_neg a = f64_neg b")
    case True
    then have m: "f64_mag a = f64_mag b" using eq by (auto simp: f64_num_def split: if_splits)
    have "f64_make (f64_neg a) (f64_mag a) = f64_make (f64_neg b) (f64_mag b)" unfolding m True ..
    then show ?thesis unfolding f64_make_eta by (rule disjI1)
  next
    case False
    then have "int (mag_val (f64_mag a)) = - int (mag_val (f64_mag b))" using eq by (auto simp: f64_num_def split: if_splits)
    then have "mag_val (f64_mag a) = 0" "mag_val (f64_mag b) = 0" by linarith+
    then show ?thesis by simp
  qed
qed (auto simp: f64_num_def)

section \<open>Casts and truncation\<close>

lemma mag_val_trunc:
  assumes "e < 52" and "frac < 2 ^ 52"
  shows "mag_val ((e + 1023) * 2 ^ 52 + (frac div 2 ^ (52 - e)) * 2 ^ (52 - e)) =
    (mag_val ((e + 1023) * 2 ^ 52 + frac) div 2 ^ 1074) * 2 ^ 1074"
proof -
  let ?k = "52 - e" and ?f = "frac div 2 ^ (52 - e)"
  have e: "e + 1023 = (e + 1022) + 1" by simp
  have p: "(2 :: nat) ^ 1074 = 2 ^ ?k * 2 ^ (e + 1022)" using assms(1) by (simp flip: power_add)
  have h: "(2 :: nat) ^ 52 = 2 ^ e * 2 ^ ?k" using assms(1) by (simp flip: power_add)
  have le: "?f * 2 ^ ?k \<le> frac" by simp
  have "mag_val ((e + 1023) * 2 ^ 52 + ?f * 2 ^ ?k) = (?f * 2 ^ ?k + 2 ^ 52) * 2 ^ (e + 1022)"
    unfolding e by (rule mag_val_exp) (use le assms(2) in linarith)
  also have "\<dots> = (?f + 2 ^ e) * 2 ^ 1074" unfolding p h by (simp add: algebra_simps)
  also have "?f + 2 ^ e = (frac + 2 ^ 52) div 2 ^ ?k" unfolding h by simp
  also have "\<dots> = (frac + 2 ^ 52) * 2 ^ (e + 1022) div 2 ^ 1074" unfolding p by simp
  also have "(frac + 2 ^ 52) * 2 ^ (e + 1022) = mag_val ((e + 1023) * 2 ^ 52 + frac)"
    unfolding e by (rule mag_val_exp [symmetric]) (rule assms(2))
  finally show ?thesis .
qed

lemma mag_val_below_1: "m div 2 ^ 52 < 1023 \<Longrightarrow> mag_val m < 2 ^ 1074"
proof -
  assume "m div 2 ^ 52 < 1023"
  then have "m < 1023 * 2 ^ 52" by (simp add: div_less_iff_less_mult)
  then have "mag_val m < mag_val (1023 * 2 ^ 52)" by (simp only: mag_val_less)
  also have "mag_val (1023 * 2 ^ 52) = 2 ^ 1074"
    using mag_val_exp [of 0 1022] by (simp flip: power_add)
  finally show ?thesis .
qed

lemma mag_val_integral: "1075 \<le> m div 2 ^ 52 \<Longrightarrow> 2 ^ 1074 dvd mag_val m"
proof (cases m rule: mag_val_cases)
  case (Norm e frac)
  moreover assume "1075 \<le> m div 2 ^ 52"
  ultimately have "1075 \<le> e + 1" by (simp only: digit_div_mod)
  then have "(2 :: nat) ^ 1074 dvd 2 ^ e" by (intro le_imp_power_dvd) simp
  then show ?thesis unfolding Norm(3) by (rule dvd_mult)
qed simp

lemma unat_clear_low: "unat (f AND NOT (mask k) :: u64) = (unat f div 2 ^ k) * 2 ^ k"
proof -
  have "f AND NOT (mask k) = push_bit k (drop_bit k f)"
    by (rule bit_word_eqI) (auto simp: bit_and_iff bit_not_iff bit_mask_iff bit_push_bit_iff bit_drop_bit_eq)
  moreover have "(unat f div 2 ^ k) * 2 ^ k < 2 ^ 64"
    using unat_less_u64 [of f] by (meson div_times_less_eq_dividend le_less_trans)
  moreover have "unat (push_bit k (drop_bit k f)) = take_bit 64 ((unat f div 2 ^ k) * 2 ^ k)"
    unfolding unsigned_push_bit_eq unat_drop_bit_div by (simp add: push_bit_eq_mult)
  ultimately show ?thesis by (simp only: take_bit_nat_eq_self)
qed

lemma f64_trunc_middle:
  assumes "f64_mag f div 2 ^ 52 = d + 1023" and "d < 52"
  shows "f64_trunc f = f64_make (f64_neg f) ((f64_mag f div 2 ^ (52 - d)) * 2 ^ (52 - d))"
proof -
  let ?k = "52 - d" and ?m = "f64_mag f" and ?s = "if f64_neg f then 2 ^ 63 else 0 :: nat"
  have "(2 :: nat) ^ 63 = 2 ^ (11 + d) * 2 ^ ?k" using assms(2) by (simp flip: power_add)
  then obtain c where c: "?s = c * 2 ^ ?k" by (cases "f64_neg f") auto
  have "f64_trunc f = f AND NOT (mask ?k)" using assms by (simp add: f64_trunc_def Let_def)
  then have "unat (f64_trunc f) = (unat f div 2 ^ ?k) * 2 ^ ?k" by (simp only: unat_clear_low)
  also have "unat f div 2 ^ ?k = c + ?m div 2 ^ ?k" unfolding unat_f64 c by simp
  also have "(c + ?m div 2 ^ ?k) * 2 ^ ?k = ?s + (?m div 2 ^ ?k) * 2 ^ ?k" unfolding c by (simp add: algebra_simps)
  finally show ?thesis unfolding f64_make_def by (metis of_nat_unat ucast_id)
qed

lemma f64_trunc_parts:
  "f64_neg (f64_trunc f) = f64_neg f \<and>
   mag_val (f64_mag (f64_trunc f)) = (mag_val (f64_mag f) div 2 ^ 1074) * 2 ^ 1074"
proof -
  let ?m = "f64_mag f"
  let ?e = "?m div 2 ^ 52"
  consider "?e < 1023" | "1075 \<le> ?e" | d where "?e = d + 1023" "d < 52"
  proof (cases "?e < 1023 \<or> 1075 \<le> ?e")
    case False
    then have "?e = (?e - 1023) + 1023" "?e - 1023 < 52" by auto
    then show thesis by (rule that(3))
  qed (use that in blast)
  then show ?thesis
  proof cases
    case 1
    have "f64_trunc f = f64_make (f64_neg f) 0" using 1 by (simp add: f64_trunc_def f64_make_def Let_def)
    then show ?thesis using mag_val_below_1 [OF 1] by simp
  next
    case 2
    then have "f64_trunc f = f" by (simp add: f64_trunc_def Let_def)
    then show ?thesis using mag_val_integral [OF 2] by simp
  next
    case (3 d)
    let ?k = "52 - d" and ?frac = "?m mod 2 ^ 52"
    have m: "?m = (d + 1023) * 2 ^ 52 + ?frac" using 3(1) div_mult_mod_eq [of ?m "2 ^ 52"] by simp
    have h: "(2 :: nat) ^ 52 = 2 ^ d * 2 ^ ?k" using 3(2) by (simp flip: power_add)
    have "?m div 2 ^ ?k = ((d + 1023) * 2 ^ d * 2 ^ ?k + ?frac) div 2 ^ ?k" by (subst m) (simp only: h mult.assoc)
    also have "\<dots> = (d + 1023) * 2 ^ d + ?frac div 2 ^ ?k" by simp
    finally have mk: "(?m div 2 ^ ?k) * 2 ^ ?k = (d + 1023) * 2 ^ 52 + (?frac div 2 ^ ?k) * 2 ^ ?k"
      unfolding h by (simp only: add_mult_distrib mult.assoc)
    have "(?m div 2 ^ ?k) * 2 ^ ?k < 2 ^ 63"
      by (rule le_less_trans [OF div_times_less_eq_dividend f64_mag_less])
    then show ?thesis using mag_val_trunc [OF 3(2), of ?frac] m
      unfolding f64_trunc_middle [OF 3] mk by simp
  qed
qed

text \<open>The integer part of a value, towards zero.\<close>

definition f64_int :: "f64 \<Rightarrow> int" where
  "f64_int f = (if f64_neg f then - int (mag_val (f64_mag f) div 2 ^ 1074) else int (mag_val (f64_mag f) div 2 ^ 1074))"

lemma f64_num_trunc: "f64_num (f64_trunc f) = f64_int f * 2 ^ 1074"
  using f64_trunc_parts [of f] by (simp add: f64_num_def f64_int_def)

lemma f64_int_bounds:
  "0 \<le> f64_num f \<Longrightarrow> f64_int f * 2 ^ 1074 \<le> f64_num f \<and> f64_num f < (f64_int f + 1) * 2 ^ 1074"
  "f64_num f \<le> 0 \<Longrightarrow> f64_num f \<le> f64_int f * 2 ^ 1074 \<and> (f64_int f - 1) * 2 ^ 1074 < f64_num f"
proof -
  define u where "u = (2 :: nat) ^ 1074"
  have u: "0 < u" "(2 :: int) ^ 1074 = int u" by (simp_all add: u_def)
  have "int (mag_val (f64_mag f)) = int (mag_val (f64_mag f) div u) * int u + int (mag_val (f64_mag f) mod u)"
    "int (mag_val (f64_mag f) mod u) < int u" "0 \<le> int (mag_val (f64_mag f) mod u)"
    using u(1) by (simp_all flip: of_nat_mult of_nat_add)
  then have b: "int (mag_val (f64_mag f) div u) * int u \<le> int (mag_val (f64_mag f))"
    "int (mag_val (f64_mag f)) < (int (mag_val (f64_mag f) div u) + 1) * int u" by (simp_all add: algebra_simps)
  show "0 \<le> f64_num f \<Longrightarrow> f64_int f * 2 ^ 1074 \<le> f64_num f \<and> f64_num f < (f64_int f + 1) * 2 ^ 1074"
    using b unfolding f64_num_def f64_int_def u(2) u_def [symmetric] by (auto simp: algebra_simps split: if_splits)
  show "f64_num f \<le> 0 \<Longrightarrow> f64_num f \<le> f64_int f * 2 ^ 1074 \<and> (f64_int f - 1) * 2 ^ 1074 < f64_num f"
    using b unfolding f64_num_def f64_int_def u(2) u_def [symmetric] by (auto simp: algebra_simps split: if_splits)
qed

lemma f64_int_range:
  assumes "- (2 ^ 63) * 2 ^ 1074 \<le> f64_num f" and "f64_num f < 2 ^ 63 * 2 ^ 1074"
  shows "- (2 ^ 63) \<le> f64_int f" and "f64_int f < 2 ^ 63"
proof -
  define u where "u = (2 :: int) ^ 1074"
  have u: "0 < u" by (simp add: u_def)
  note b = f64_int_bounds [of f, folded u_def] and a = assms [folded u_def]
  have "- (2 ^ 63) * u \<le> f64_int f * u \<and> f64_int f * u < 2 ^ 63 * u"
  proof (cases "0 \<le> f64_num f")
    case True
    then have "0 \<le> f64_int f" by (auto simp: f64_int_def f64_num_def split: if_splits)
    then have "0 \<le> f64_int f * u" using u by simp
    moreover have "- (2 ^ 63) * u \<le> 0" using u by simp
    ultimately show ?thesis using b(1) [OF True] a(2) by linarith
  next
    case False
    then have "f64_int f \<le> 0" by (auto simp: f64_int_def f64_num_def split: if_splits)
    then have "f64_int f * u \<le> 0" using u by (simp add: mult_nonpos_nonneg)
    moreover have "0 < 2 ^ 63 * u" using u by simp
    ultimately show ?thesis using b(2) False a(1) by linarith
  qed
  then show "- (2 ^ 63) \<le> f64_int f" "f64_int f < 2 ^ 63" using u by (simp_all only: mult_le_cancel_right_pos mult_less_cancel_right_pos)
qed

lemma sint_of_int_i64: "- (2 ^ 63) \<le> v \<Longrightarrow> v < 2 ^ 63 \<Longrightarrow> sint (of_int v :: i64) = v"
  by (simp add: signed_of_int signed_take_bit_int_eq_self)

lemma sint_to_i64:
  assumes "\<not> is_nan f" and "- (2 ^ 63) * 2 ^ 1074 \<le> f64_num f" and "f64_num f < 2 ^ 63 * 2 ^ 1074"
  shows "sint (f64_to_i64 f) = f64_int f"
proof -
  note r = f64_int_range [OF assms(2,3)]
  have "f64_to_i64 f = of_int (f64_int f)"
    using r assms(1) unfolding f64_to_i64_def Let_def f64_int_def [symmetric] by simp
  then show ?thesis using sint_of_int_i64 [OF r] by simp
qed

section \<open>Rounding\<close>

lemma log2_unique: "2 ^ k \<le> n \<Longrightarrow> n < 2 ^ Suc k \<Longrightarrow> log2 n = k"
proof -
  assume k: "2 ^ k \<le> n" "n < 2 ^ Suc k"
  have "0 < n" by (rule less_le_trans [OF _ k(1)]) simp
  note b = log2_bounds [OF this]
  have "(2 :: nat) ^ k < 2 ^ Suc (log2 n)" "(2 :: nat) ^ log2 n < 2 ^ Suc k"
    using b k by (meson le_less_trans)+
  then show ?thesis by (simp only: power_strict_increasing_iff one_less_numeral_iff semiring_norm)
qed

lemma mag_val_sig: "2 ^ 52 \<le> q \<Longrightarrow> q \<le> 2 ^ 53 \<Longrightarrow> mag_val (e * 2 ^ 52 + q) = q * 2 ^ e"
proof (cases "q = 2 ^ 53")
  case True
  then have "e * 2 ^ 52 + q = ((e + 1) + 1) * 2 ^ 52 + 0" by simp
  then show ?thesis using mag_val_exp [of 0 "e + 1"] True by (simp add: add.commute)
next
  case False
  assume q: "2 ^ 52 \<le> q" "q \<le> 2 ^ 53"
  then have "q - 2 ^ 52 < 2 ^ 52" using False by simp
  from mag_val_exp [OF this, of e] show ?thesis using q by (simp add: algebra_simps)
qed

text \<open>The integer the rounded magnitude denotes.\<close>

definition round_int :: "nat \<Rightarrow> nat" where
  "round_int m =
     (if log2 m \<le> 52 then m
      else let s = log2 m - 52; q = m div 2 ^ s; r = m mod 2 ^ s; half = 2 ^ (s - 1)
           in (if r > half \<or> (r = half \<and> odd q) then q + 1 else q) * 2 ^ s)"

lemma pow_split: "a \<le> b \<Longrightarrow> (2 :: nat) ^ b = 2 ^ a * 2 ^ (b - a)"
  by (simp flip: power_add)

lemma top_bits:
  assumes "52 < log2 m"
  shows "2 ^ 52 \<le> m div 2 ^ (log2 m - 52)" and "m div 2 ^ (log2 m - 52) < 2 ^ 53"
proof -
  let ?s = "log2 m - 52"
  have "0 < m" using assms by (cases m) (simp_all add: log2.simps)
  note b = log2_bounds [OF this]
  have p: "(2 :: nat) ^ log2 m = 2 ^ 52 * 2 ^ ?s" "(2 :: nat) ^ Suc (log2 m) = 2 ^ 53 * 2 ^ ?s"
    using pow_split [of 52 "log2 m"] pow_split [of 53 "Suc (log2 m)"] assms by simp_all
  show "2 ^ 52 \<le> m div 2 ^ ?s" using b unfolding p by (simp only: less_eq_div_iff_mult_less_eq zero_less_power zero_less_numeral)
  show "m div 2 ^ ?s < 2 ^ 53" using b unfolding p by (simp only: div_less_iff_less_mult zero_less_power zero_less_numeral)
qed

lemma mag_val_round: "mag_val (round_mag m) = round_int m * 2 ^ 1074"
proof (cases "m = 0")
  case True
  then show ?thesis by (simp add: round_mag_def round_int_def log2.simps)
next
  case False
  let ?l = "log2 m"
  have b: "2 ^ ?l \<le> m" "m < 2 ^ Suc ?l" using log2_bounds False by blast+
  show ?thesis
  proof (cases "?l \<le> 52")
    case True
    have p: "(2 :: nat) ^ 52 = 2 ^ ?l * 2 ^ (52 - ?l)" "(2 :: nat) ^ 53 = 2 ^ Suc ?l * 2 ^ (52 - ?l)"
      using pow_split [of ?l 52] pow_split [of "Suc ?l" 53] True by simp_all
    have q: "2 ^ 52 \<le> m * 2 ^ (52 - ?l)" "m * 2 ^ (52 - ?l) \<le> 2 ^ 53"
      unfolding p using b by (blast intro: mult_le_mono1 less_imp_le)+
    have "mag_val (round_mag m) = m * 2 ^ (52 - ?l) * 2 ^ (?l + 1022)"
      using False True mag_val_sig [OF q, of "?l + 1022"] by (simp add: round_mag_def Let_def)
    also have "\<dots> = m * 2 ^ 1074" using True by (simp add: mult.assoc flip: power_add)
    finally show ?thesis using True by (simp add: round_int_def)
  next
    case False
    let ?s = "?l - 52"
    define q where "q = m div 2 ^ ?s"
    define q' where "q' = (if m mod 2 ^ ?s > 2 ^ (?s - 1) \<or> (m mod 2 ^ ?s = 2 ^ (?s - 1) \<and> odd q) then q + 1 else q)"
    have "2 ^ 52 \<le> q" "q < 2 ^ 53" using top_bits [of m] False by (auto simp: q_def)
    then have "2 ^ 52 \<le> q'" "q' \<le> 2 ^ 53" by (auto simp: q'_def)
    note sig = mag_val_sig [OF this, of "?l + 1022"]
    have "round_mag m = (?l + 1022) * 2 ^ 52 + q'"
      using False \<open>m \<noteq> 0\<close> unfolding round_mag_def Let_def q_def [symmetric] q'_def [symmetric] by simp
    then have "mag_val (round_mag m) = q' * 2 ^ (?l + 1022)" using sig by simp
    also have "?l + 1022 = ?s + 1074" using False by simp
    also have "q' * 2 ^ (?s + 1074) = q' * 2 ^ ?s * 2 ^ 1074" by (simp only: power_add mult.assoc)
    also have "q' * 2 ^ ?s = round_int m"
      using False unfolding round_int_def Let_def q_def [symmetric] q'_def [symmetric] by simp
    finally show ?thesis .
  qed
qed

lemma round_int_le:
  assumes "m \<le> 2 ^ 63"
  shows "round_int m \<le> 2 ^ 63"
proof (cases "52 < log2 m \<and> log2 m < 63")
  case True
  let ?s = "log2 m - 52"
  define q' where "q' = (if m mod 2 ^ ?s > 2 ^ (?s - 1) \<or> (m mod 2 ^ ?s = 2 ^ (?s - 1) \<and> odd (m div 2 ^ ?s)) then m div 2 ^ ?s + 1 else m div 2 ^ ?s)"
  have "q' \<le> 2 ^ 53" using top_bits [of m] True by (auto simp: q'_def)
  moreover have "(2 :: nat) ^ ?s \<le> 2 ^ 10" using True by (intro power_increasing) auto
  ultimately have "q' * 2 ^ ?s \<le> 2 ^ 53 * 2 ^ 10" by (intro mult_le_mono)
  moreover have "round_int m = q' * 2 ^ ?s" using True unfolding round_int_def Let_def q'_def [symmetric] by simp
  ultimately show ?thesis by simp
next
  case False
  then consider "log2 m \<le> 52" | "63 \<le> log2 m" by linarith
  then show ?thesis
  proof cases
    case 1
    then show ?thesis using assms by (simp add: round_int_def)
  next
    case 2
    then have "0 < m" by (cases m) (simp_all add: log2.simps)
    then have "2 ^ log2 m \<le> m" using log2_bounds by blast
    moreover have "(2 :: nat) ^ 63 \<le> 2 ^ log2 m" using 2 by (intro power_increasing) auto
    ultimately have m: "m = 2 ^ 63" using assms by linarith
    then have "log2 m = 63" by (intro log2_unique) simp_all
    then show ?thesis by (simp add: round_int_def m)
  qed
qed

lemma round_int_exact:
  assumes "mag_val x = m * 2 ^ 1074"
  shows "round_int m = m"
proof (cases x rule: mag_val_cases)
  case Sub
  then have "m * 2 ^ 1074 < 2 ^ 52" using assms by simp
  also have "(2 :: nat) ^ 52 \<le> 1 * 2 ^ 1074" by simp
  finally have "m = 0" by (simp only: mult_less_cancel2) simp
  then show ?thesis by (simp add: round_int_def log2.simps)
next
  case (Norm e frac)
  show ?thesis
  proof (cases "log2 m \<le> 52")
    case False
    let ?sig = "frac + 2 ^ 52"
    have eq: "?sig * 2 ^ e = m * 2 ^ 1074" using Norm assms by simp
    have e: "1074 \<le> e"
    proof (rule ccontr)
      assume "\<not> 1074 \<le> e"
      then have "?sig * 2 ^ e = m * (2 ^ e * 2 ^ (1074 - e))"
        using eq pow_split [of e 1074] by (simp only: linorder_not_le less_imp_le)
      then have "?sig * 2 ^ e = (m * 2 ^ (1074 - e)) * 2 ^ e" by (simp only: ac_simps)
      then have "?sig = m * 2 ^ (1074 - e)" by (simp only: mult_cancel2) simp
      moreover have "(2 :: nat) ^ 1 \<le> 2 ^ (1074 - e)" using \<open>\<not> 1074 \<le> e\<close> by (intro power_increasing) auto
      ultimately have "m * 2 \<le> ?sig" by simp
      then have "m < 2 ^ 53" using Norm(2) by simp
      moreover have "2 ^ 53 \<le> m"
      proof -
        have "0 < m" using False by (cases m) (simp_all add: log2.simps)
        then have "2 ^ log2 m \<le> m" using log2_bounds by blast
        moreover have "(2 :: nat) ^ 53 \<le> 2 ^ log2 m" using False by (intro power_increasing) auto
        ultimately show ?thesis by linarith
      qed
      ultimately show False by simp
    qed
    then have "?sig * 2 ^ (e - 1074) * 2 ^ 1074 = m * 2 ^ 1074"
      using eq pow_split [OF e] by (simp only: ac_simps)
    then have m: "m = ?sig * 2 ^ (e - 1074)" by (simp only: mult_cancel2) simp
    have sig: "2 ^ 52 \<le> ?sig" "?sig < 2 ^ 53" using Norm(2) by simp_all
    have l: "log2 m = 52 + (e - 1074)"
    proof (rule log2_unique)
      show "2 ^ (52 + (e - 1074)) \<le> m" unfolding m power_add using sig(1) by (rule mult_le_mono1)
      have "2 ^ Suc (52 + (e - 1074)) = (2 :: nat) ^ 53 * 2 ^ (e - 1074)" by (simp add: power_add)
      then show "m < 2 ^ Suc (52 + (e - 1074))" unfolding m using sig(2) by (simp only: mult_less_cancel2) simp
    qed
    then have s: "log2 m - 52 = e - 1074" by simp
    have "m div 2 ^ (e - 1074) = ?sig" "m mod 2 ^ (e - 1074) = 0" unfolding m by simp_all
    then show ?thesis using False m unfolding round_int_def Let_def s by simp
  qed (simp add: round_int_def)
qed

lemma mag_val_two_pow_63: "mag_val (1086 * 2 ^ 52) = 2 ^ 63 * 2 ^ 1074"
  using mag_val_exp [of 0 1085] by (simp flip: power_add)

lemma round_mag_le:
  assumes "m \<le> 2 ^ 63"
  shows "round_mag m \<le> 1086 * 2 ^ 52"
proof -
  have "mag_val (round_mag m) \<le> mag_val (1086 * 2 ^ 52)"
    unfolding mag_val_round mag_val_two_pow_63 using round_int_le [OF assms] by (rule mult_le_mono1)
  then show ?thesis unfolding mag_val_le .
qed

lemma f64_of_i64_make: "f64_of_i64 v = f64_make (sint v < 0) (round_mag (nat \<bar>sint v\<bar>))"
  by (simp add: f64_of_i64_def f64_make_def add.commute)

lemma sint_i64_bounds: "- (2 ^ 63) \<le> sint (v :: i64)" "sint v < 2 ^ 63" "nat \<bar>sint v\<bar> \<le> 2 ^ 63"
proof -
  show a: "- (2 ^ 63) \<le> sint v" and b: "sint v < 2 ^ 63" using sint_greater_eq [of v] sint_less [of v] by simp_all
  show "nat \<bar>sint v\<bar> \<le> 2 ^ 63" using a b by (simp add: nat_le_iff)
qed

lemma f64_of_i64_num:
  "\<not> is_nan (f64_of_i64 v)"
  "f64_num (f64_of_i64 v) = (if sint v < 0 then -1 else 1) * int (round_int (nat \<bar>sint v\<bar>)) * 2 ^ 1074"
proof -
  let ?m = "round_mag (nat \<bar>sint v\<bar>)"
  have le: "?m \<le> 1086 * 2 ^ 52" by (rule round_mag_le) (rule sint_i64_bounds)
  then have lt: "?m < 2 ^ 63" by simp
  show "\<not> is_nan (f64_of_i64 v)" using le lt by (simp add: is_nan_def f64_of_i64_make)
  show "f64_num (f64_of_i64 v) = (if sint v < 0 then -1 else 1) * int (round_int (nat \<bar>sint v\<bar>)) * 2 ^ 1074"
    unfolding f64_num_def f64_of_i64_make f64_make_sel [OF lt] mag_val_round by simp
qed

end
