(* ===== verification/IndexKey.thy ===== *)
theory IndexKey
  imports Float64 Utf8 "HOL-Library.Sublist"
begin

text \<open>
  \<^verbatim>\<open>crates/inf-store/src/index_key.rs\<close>: the order-preserving encoding of typed index keys, its admission table,
  the exact comparison of integers with doubles and the strict decoder. An \<open>i64\<close> is a word read by \<open>sint\<close>, an
  \<open>f64\<close> its bits. A buffer access out of range is the panic \<open>None\<close>.
\<close>

section \<open>Model\<close>

definition ORDERED_KEY_MAX :: nat where "ORDERED_KEY_MAX = 1024"
definition SIGN_BIT :: u64 where "SIGN_BIT = 0x8000000000000000"
definition TWO_POW_63 :: f64 where "TWO_POW_63 = 0x43E0000000000000"
definition MINUS_TWO_POW_63 :: f64 where "MINUS_TWO_POW_63 = 0xC3E0000000000000"

datatype IndexKeyType = KUtf8 | KI64 | KF64 | KBool

definition fixed8 :: "IndexKeyType \<Rightarrow> bool" where "fixed8 kt \<longleftrightarrow> kt \<noteq> KUtf8"

datatype IndexScalar = SNull | SBool bool | SI64 i64 | SF64 f64 | SUtf8 bytes

datatype KeySkip = Sparse | Inexact | NotANumber | TooLong

record IndexKeyBuf =
  kb_len :: u16
  kb_bytes :: bytes

definition keybuf_new :: IndexKeyBuf where
  "keybuf_new = \<lparr>kb_len = 0, kb_bytes = replicate ORDERED_KEY_MAX 0\<rparr>"

definition as_bytes :: "IndexKeyBuf \<Rightarrow> bytes option" where
  "as_bytes b = get_range (kb_bytes b) 0 (unat (kb_len b))"

definition write_at :: "bytes \<Rightarrow> nat \<Rightarrow> bytes \<Rightarrow> bytes option" where
  "write_at buf i xs = (if i + length xs \<le> length buf then Some (take i buf @ xs @ drop (i + length xs) buf) else None)"

definition put_word :: "IndexKeyBuf \<Rightarrow> u64 \<Rightarrow> IndexKeyBuf option" where
  "put_word b w = map_option (\<lambda>bs. b\<lparr>kb_bytes := bs, kb_len := 8\<rparr>) (write_at (kb_bytes b) 0 (be_bytes 8 w))"

subsection \<open>Admission\<close>

definition in_i64_range :: "f64 \<Rightarrow> bool" where
  "in_i64_range f \<longleftrightarrow> f64_le MINUS_TWO_POW_63 f \<and> f64_lt f TWO_POW_63"

definition coerce_i64_to_f64 :: "i64 \<Rightarrow> KeySkip + IndexScalar" where
  "coerce_i64_to_f64 v =
     (let f = f64_of_i64 v in if in_i64_range f \<and> f64_to_i64 f = v then Ok (SF64 f) else Err Inexact)"

definition coerce_f64_to_i64 :: "f64 \<Rightarrow> KeySkip + IndexScalar" where
  "coerce_f64_to_i64 f =
     (if is_nan f then Err NotANumber
      else if in_i64_range f \<and> f64_eq (f64_trunc f) f then Ok (SI64 (f64_to_i64 f)) else Err Inexact)"

definition utf8_encoded_len :: "bytes \<Rightarrow> nat" where
  "utf8_encoded_len s = length s + length (filter (\<lambda>b. b = 0) s) + 1"

definition index_scalar_coerce :: "IndexKeyType \<Rightarrow> IndexScalar \<Rightarrow> KeySkip + IndexScalar" where
  "index_scalar_coerce kt val =
     (case (kt, val) of
        (KI64, SI64 _) \<Rightarrow> Ok val
      | (KI64, SF64 f) \<Rightarrow> coerce_f64_to_i64 f
      | (KF64, SI64 v) \<Rightarrow> coerce_i64_to_f64 v
      | (KF64, SF64 f) \<Rightarrow> if is_nan f then Err NotANumber else Ok val
      | (KBool, SBool _) \<Rightarrow> Ok val
      | (KUtf8, SUtf8 s) \<Rightarrow> if utf8_encoded_len s > ORDERED_KEY_MAX then Err TooLong else Ok val
      | _ \<Rightarrow> Err Sparse)"

subsection \<open>Layout\<close>

definition f64_key_word :: "f64 \<Rightarrow> u64" where
  "f64_key_word f =
     (let canonical = if f64_eq f 0 then 0 else f
      in if canonical AND SIGN_BIT \<noteq> 0 then NOT canonical else canonical OR SIGN_BIT)"

fun encode_loop :: "bytes \<Rightarrow> bytes \<Rightarrow> nat \<Rightarrow> (bytes \<times> nat) option" where
  "encode_loop [] out len = Some (out, len)"
| "encode_loop (b # bs) out len =
     Option.bind (write_at out len [b]) (\<lambda>out.
       if b = 0 then Option.bind (write_at out (len + 1) [0xFF]) (\<lambda>out. encode_loop bs out (len + 2))
       else encode_loop bs out (len + 1))"

definition encode_utf8 :: "bytes \<Rightarrow> IndexKeyBuf \<Rightarrow> IndexKeyBuf option" where
  "encode_utf8 s out =
     (if 0 \<notin> set s then
        Option.bind (write_at (kb_bytes out) 0 s) (\<lambda>bs.
          map_option (\<lambda>bs. out\<lparr>kb_bytes := bs, kb_len := of_nat (length s + 1)\<rparr>) (write_at bs (length s) [0]))
      else
        Option.bind (encode_loop s (kb_bytes out) 0) (\<lambda>(bs, len).
          map_option (\<lambda>bs. out\<lparr>kb_bytes := bs, kb_len := of_nat (len + 1)\<rparr>) (write_at bs len [0])))"

definition index_key_encode ::
    "IndexKeyType \<Rightarrow> IndexScalar \<Rightarrow> IndexKeyBuf \<Rightarrow> ((KeySkip + unit) \<times> IndexKeyBuf) option" where
  "index_key_encode kt val out =
     (case index_scalar_coerce kt val of
        Inl skip \<Rightarrow> Some (Err skip, out)
      | Inr admitted \<Rightarrow>
          map_option (\<lambda>out. (Ok (), out))
            (case admitted of
               SI64 v \<Rightarrow> put_word out (v XOR SIGN_BIT)
             | SF64 f \<Rightarrow> put_word out (f64_key_word f)
             | SBool b \<Rightarrow> put_word out (if b then 1 else 0)
             | SUtf8 s \<Rightarrow> encode_utf8 s out
             | SNull \<Rightarrow> None))"

fun escape_loop :: "bytes \<Rightarrow> bytes \<Rightarrow> nat \<Rightarrow> nat \<Rightarrow> (bytes \<times> nat \<times> nat) option" where
  "escape_loop [] out len full = Some (out, len, full)"
| "escape_loop (b # bs) out len full =
     Option.bind (if len < ORDERED_KEY_MAX then map_option (\<lambda>out. (out, len + 1)) (write_at out len [b]) else Some (out, len))
       (\<lambda>(out, len).
         if b = 0 then
           Option.bind
             (if len < ORDERED_KEY_MAX then map_option (\<lambda>out. (out, len + 1)) (write_at out len [0xFF]) else Some (out, len))
             (\<lambda>(out, len). escape_loop bs out len (full + 2))
         else escape_loop bs out len (full + 1))"

definition index_key_escape_prefix :: "bytes \<Rightarrow> IndexKeyBuf \<Rightarrow> (nat \<times> IndexKeyBuf) option" where
  "index_key_escape_prefix s out =
     map_option (\<lambda>(bs, len, full). (full, out\<lparr>kb_bytes := bs, kb_len := of_nat len\<rparr>)) (escape_loop s (kb_bytes out) 0 0)"

subsection \<open>Comparison\<close>

definition compare_i64_f64 :: "i64 \<Rightarrow> f64 \<Rightarrow> Ordering" where
  "compare_i64_f64 a b =
     (if f64_le TWO_POW_63 b then Less
      else if f64_lt b MINUS_TWO_POW_63 then Greater
      else let truncated = f64_trunc b; whole = f64_to_i64 truncated
           in case cmp (sint a) (sint whole) of
                Equal \<Rightarrow> (if f64_lt truncated b then Less else if f64_lt b truncated then Greater else Equal)
              | unequal \<Rightarrow> unequal)"

subsection \<open>Decoding\<close>

datatype DecodedIndexKey = DUtf8 bytes | DI64 i64 | DF64 f64 | DBool bool

datatype IndexKeyDecodeError = DLength | NotABool | NotCanonicalF64 | DEscape | DTerminator | DUtf8Error

definition decode_f64_word :: "u64 \<Rightarrow> IndexKeyDecodeError + DecodedIndexKey" where
  "decode_f64_word word =
     (let bits = (if word AND SIGN_BIT \<noteq> 0 then word AND NOT SIGN_BIT else NOT word)
      in if is_nan bits then Err NotCanonicalF64
         else if f64_eq bits 0 \<and> bits AND SIGN_BIT \<noteq> 0 then Err NotCanonicalF64
         else Ok (DF64 bits))"

fun unescape_loop :: "bytes \<Rightarrow> bytes \<Rightarrow> bytes option" where
  "unescape_loop [] raw = Some raw"
| "unescape_loop (b # rest) raw =
     (if b = 0 then (case rest of c # rest' \<Rightarrow> if c \<noteq> 0xFF then None else unescape_loop rest' (raw @ [b]) | [] \<Rightarrow> None)
      else unescape_loop rest (raw @ [b]))"

definition decode_utf8_key :: "bytes \<Rightarrow> IndexKeyDecodeError + DecodedIndexKey" where
  "decode_utf8_key bs =
     (if length bs > ORDERED_KEY_MAX then Err DLength
      else if bs = [] then Err DLength
      else if last bs \<noteq> 0 then Err DTerminator
      else case unescape_loop (butlast bs) [] of
          None \<Rightarrow> Err DEscape
        | Some raw \<Rightarrow> if utf8_valid raw then Ok (DUtf8 raw) else Err DUtf8Error)"

text \<open>The arm for \<open>Utf8\<close> among the eight-byte types is \<open>unreachable!\<close>, the panic \<open>None\<close>.\<close>

definition index_key_decode :: "IndexKeyType \<Rightarrow> bytes \<Rightarrow> (IndexKeyDecodeError + DecodedIndexKey) option" where
  "index_key_decode kt bs =
     (if fixed8 kt then
        if length bs \<noteq> 8 then Some (Err DLength)
        else let word = of_be_bytes bs :: u64
             in case kt of
                  KI64 \<Rightarrow> Some (Ok (DI64 (word XOR SIGN_BIT)))
                | KF64 \<Rightarrow> Some (decode_f64_word word)
                | KBool \<Rightarrow>
                    Some (if word = 0 then Ok (DBool False) else if word = 1 then Ok (DBool True) else Err NotABool)
                | KUtf8 \<Rightarrow> None
      else Some (decode_utf8_key bs))"

section \<open>Sign and magnitude of words\<close>

lemma f64_mag_take: "f64_mag f = unat (take_bit 63 f)"
  unfolding f64_mag_def unsigned_take_bit_eq by (simp only: take_bit_eq_mod)

lemma f64_word_eqI: "f64_neg f = neg \<Longrightarrow> f64_mag f = m \<Longrightarrow> f = f64_make neg m"
  using f64_make_eta [of f] by simp

lemma bit_SIGN_BIT: "bit SIGN_BIT n \<longleftrightarrow> n = 63"
proof -
  have s: "SIGN_BIT = 2 ^ 63" by (simp add: SIGN_BIT_def)
  show ?thesis unfolding s by (subst bit_exp_iff) auto
qed

lemma unat_not_u64: "unat (NOT f :: u64) = 2 ^ 64 - 1 - unat f"
proof -
  have u: "0 \<le> uint f" "uint f < 2 ^ 64" using uint_lt2p [of f] by simp_all
  have "uint (NOT f) = take_bit 64 (NOT (uint f))" by (simp add: unsigned_not_eq)
  also have "\<dots> = (- uint f - 1) mod 2 ^ 64" by (simp only: take_bit_eq_mod not_eq_complement)
  also have "\<dots> = (2 ^ 64 - 1 - uint f) mod 2 ^ 64"
    using mod_add_self1 [of "2 ^ 64" "- uint f - 1"] by (simp add: algebra_simps)
  also have "\<dots> = 2 ^ 64 - 1 - uint f" using u by (intro mod_pos_pos_trivial) linarith+
  finally have "int (unat (NOT f)) = int (2 ^ 64 - 1 - unat f)"
    using unat_less_u64 [of f] by (simp add: of_nat_diff)
  then show ?thesis by (simp only: of_nat_eq_iff)
qed

lemma sign_ops:
  "f XOR SIGN_BIT = f64_make (\<not> f64_neg f) (f64_mag f)"
  "f OR SIGN_BIT = f64_make True (f64_mag f)"
  "f AND NOT SIGN_BIT = f64_make False (f64_mag f)"
  "NOT f = f64_make (\<not> f64_neg f) (2 ^ 63 - 1 - f64_mag f)"
  "f AND SIGN_BIT \<noteq> 0 \<longleftrightarrow> f64_neg f"
proof -
  have low: "take_bit 63 (f XOR SIGN_BIT) = take_bit 63 f" "take_bit 63 (f OR SIGN_BIT) = take_bit 63 f"
    "take_bit 63 (f AND NOT SIGN_BIT) = take_bit 63 f"
    by (auto intro!: bit_word_eqI simp: bit_take_bit_iff bit_xor_iff bit_or_iff bit_and_iff bit_not_iff bit_SIGN_BIT)
  show "f XOR SIGN_BIT = f64_make (\<not> f64_neg f) (f64_mag f)"
    by (rule f64_word_eqI) (simp add: f64_neg_def bit_xor_iff bit_SIGN_BIT, simp only: f64_mag_take low)
  show "f OR SIGN_BIT = f64_make True (f64_mag f)"
    by (rule f64_word_eqI) (simp add: f64_neg_def bit_or_iff bit_SIGN_BIT, simp only: f64_mag_take low)
  show "f AND NOT SIGN_BIT = f64_make False (f64_mag f)"
    by (rule f64_word_eqI) (simp add: f64_neg_def bit_and_iff bit_not_iff bit_SIGN_BIT, simp only: f64_mag_take low)
  show "f AND SIGN_BIT \<noteq> 0 \<longleftrightarrow> f64_neg f"
  proof
    assume "f64_neg f"
    then have "bit (f AND SIGN_BIT) 63" by (simp add: f64_neg_def bit_and_iff bit_SIGN_BIT)
    then show "f AND SIGN_BIT \<noteq> 0" by auto
  next
    assume nz: "f AND SIGN_BIT \<noteq> 0"
    show "f64_neg f"
    proof (rule ccontr)
      assume "\<not> f64_neg f"
      then have "f AND SIGN_BIT = 0"
        by (intro bit_word_eqI) (auto simp: f64_neg_def bit_and_iff bit_SIGN_BIT)
      with nz show False by simp
    qed
  qed
  have "f64_mag (NOT f) = 2 ^ 63 - 1 - f64_mag f" "f64_neg (NOT f) = (\<not> f64_neg f)"
  proof -
    show n: "f64_neg (NOT f) = (\<not> f64_neg f)" by (simp add: f64_neg_def bit_not_iff)
    have "unat (NOT f) = 2 ^ 64 - 1 - unat f" by (rule unat_not_u64)
    then show "f64_mag (NOT f) = 2 ^ 63 - 1 - f64_mag f" using unat_f64 [of f] unat_f64 [of "NOT f"] n f64_mag_less [of f]
      by (auto split: if_splits)
  qed
  then show "NOT f = f64_make (\<not> f64_neg f) (2 ^ 63 - 1 - f64_mag f)" by (rule f64_word_eqI [rotated])
qed

lemma sint_parts: "sint v = (if f64_neg v then int (f64_mag v) - 2 ^ 63 else int (f64_mag v))"
proof -
  have "take_bit 64 (uint v) = uint v" using uint_lt2p [of v] by (intro take_bit_int_eq_self) simp_all
  then have "sint v = uint v - 2 ^ 64 * of_bool (bit v 63)"
    by (simp add: sint_uint signed_take_bit_eq_take_bit_minus bit_unsigned_iff)
  also have "uint v = int ((if f64_neg v then 2 ^ 63 else 0) + f64_mag v)" by (simp only: uint_nat unat_f64)
  finally show ?thesis by (simp add: f64_neg_def)
qed

lemma unat_make: "m < 2 ^ 63 \<Longrightarrow> unat (f64_make neg m) = (if neg then 2 ^ 63 else 0) + m"
  using unat_f64 [of "f64_make neg m"] by simp

section \<open>Numeric keys\<close>

lemma i64_key_order: "cmp (v XOR SIGN_BIT) (w XOR SIGN_BIT) = cmp (sint v) (sint w)"
proof -
  have "int (unat (v XOR SIGN_BIT)) = sint v + 2 ^ 63" for v
    unfolding sign_ops(1) unat_make [OF f64_mag_less] sint_parts by simp
  then show ?thesis
    by (intro cmp_mono) (simp_all add: word_less_nat_alt word_unat_eq_iff flip: of_nat_less_iff [where 'a = int] of_nat_eq_iff [where 'a = int])
qed

text \<open>The key word as a number: the magnitude above the middle, and mirrored below it for negative values.\<close>

lemma f64_eq_zero: "\<not> is_nan f \<Longrightarrow> f64_eq f 0 \<longleftrightarrow> f64_mag f = 0"
  by (simp add: f64_eq_def f64_num_def is_nan_def f64_neg_def f64_mag_def)

lemma unat_f64_key_word:
  assumes "\<not> is_nan f"
  shows "unat (f64_key_word f) = (if f64_neg f \<and> f64_mag f \<noteq> 0 then 2 ^ 63 - 1 - f64_mag f else 2 ^ 63 + f64_mag f)"
proof (cases "f64_mag f = 0")
  case True
  then show ?thesis using f64_eq_zero [OF assms] by (simp add: f64_key_word_def SIGN_BIT_def)
next
  case False
  then have "f64_key_word f = (if f64_neg f then NOT f else f OR SIGN_BIT)"
    using f64_eq_zero [OF assms] by (simp add: f64_key_word_def sign_ops(5))
  moreover have "2 ^ 63 - 1 - f64_mag f < 2 ^ 63" by simp
  ultimately show ?thesis using False unat_make [of "2 ^ 63 - 1 - f64_mag f"] unat_make [OF f64_mag_less]
    by (simp add: sign_ops(2,4))
qed

lemma f64_key_order:
  assumes "\<not> is_nan a" and "\<not> is_nan b"
  shows "cmp (f64_key_word a) (f64_key_word b) = cmp (f64_num a) (f64_num b)"
proof -
  note m = f64_mag_less [of a] f64_mag_less [of b]
  have neg: "- int x < int y \<longleftrightarrow> 0 < x \<or> 0 < y" "int x = - int y \<longleftrightarrow> x = 0 \<and> y = 0" for x y by linarith+
  have "f64_key_word a < f64_key_word b \<longleftrightarrow> f64_num a < f64_num b"
    using m unfolding word_less_nat_alt unat_f64_key_word [OF assms(1)] unat_f64_key_word [OF assms(2)] f64_num_def
    by (auto simp: neg)
  moreover have "f64_key_word a = f64_key_word b \<longleftrightarrow> f64_num a = f64_num b"
    using m unfolding word_unat_eq_iff unat_f64_key_word [OF assms(1)] unat_f64_key_word [OF assms(2)] f64_num_def
    by (auto simp: neg)
  ultimately show ?thesis by (rule cmp_mono)
qed

lemma two_pow_63_num:
  "\<not> is_nan TWO_POW_63" "f64_num TWO_POW_63 = 2 ^ 63 * 2 ^ 1074"
  "\<not> is_nan MINUS_TWO_POW_63" "f64_num MINUS_TWO_POW_63 = - (2 ^ 63) * 2 ^ 1074"
proof -
  have p: "TWO_POW_63 = f64_make False (1086 * 2 ^ 52)" and n: "MINUS_TWO_POW_63 = f64_make True (1086 * 2 ^ 52)"
    by (simp_all add: TWO_POW_63_def MINUS_TWO_POW_63_def f64_make_def)
  have lt: "1086 * 2 ^ 52 < (2 :: nat) ^ 63" by simp
  show "\<not> is_nan TWO_POW_63" "\<not> is_nan MINUS_TWO_POW_63"
    unfolding is_nan_def p n f64_make_sel [OF lt] by simp_all
  show "f64_num TWO_POW_63 = 2 ^ 63 * 2 ^ 1074" "f64_num MINUS_TWO_POW_63 = - (2 ^ 63) * 2 ^ 1074"
    unfolding f64_num_def p n f64_make_sel [OF lt] mag_val_two_pow_63 by simp_all
qed

lemma in_i64_range_iff:
  "in_i64_range f \<longleftrightarrow> \<not> is_nan f \<and> - (2 ^ 63) * 2 ^ 1074 \<le> f64_num f \<and> f64_num f < 2 ^ 63 * 2 ^ 1074"
  unfolding in_i64_range_def f64_le_def f64_lt_def two_pow_63_num(2,4) using two_pow_63_num(1,3) by blast

lemma f64_int_exact: "f64_num f = k * 2 ^ 1074 \<Longrightarrow> f64_int f = k"
proof -
  define u where "u = (2 :: int) ^ 1074"
  have u: "u \<noteq> 0" "int (mag_val (f64_mag f) div 2 ^ 1074) = int (mag_val (f64_mag f)) div u"
    by (simp_all add: u_def zdiv_int)
  assume "f64_num f = k * 2 ^ 1074"
  then have "int (mag_val (f64_mag f)) = (if f64_neg f then - k else k) * u"
    unfolding u_def [symmetric] f64_num_def by (auto split: if_splits)
  then have "int (mag_val (f64_mag f)) div u = (if f64_neg f then - k else k)" using u(1) nonzero_mult_div_cancel_right [of u] by metis
  then show ?thesis unfolding f64_int_def u(2) by simp
qed

lemma f64_num_int_eq: "f64_num (f64_trunc f) = f64_num f \<Longrightarrow> f64_num f = f64_int f * 2 ^ 1074"
  by (simp only: f64_num_trunc)

lemma sint_cast_exact:
  assumes "in_i64_range f" and "f64_num f = k * 2 ^ 1074"
  shows "sint (f64_to_i64 f) = k"
  using assms sint_to_i64 [of f] f64_int_exact [OF assms(2)] unfolding in_i64_range_iff by simp

lemma in_i64_range_exact:
  assumes "\<not> is_nan f" and "f64_num f = sint (v :: i64) * 2 ^ 1074"
  shows "in_i64_range f"
  using assms sint_i64_bounds [of v] unfolding in_i64_range_iff assms(2)
  by (simp only: mult_le_cancel_right_pos mult_less_cancel_right_pos zero_less_power zero_less_numeral) blast

lemma coerce_i64_to_f64_Ok:
  "coerce_i64_to_f64 v = Ok sc \<longleftrightarrow> sc = SF64 (f64_of_i64 v) \<and> f64_num (f64_of_i64 v) = sint v * 2 ^ 1074"
proof -
  let ?f = "f64_of_i64 v" and ?r = "(if sint v < 0 then -1 else 1) * int (round_int (nat \<bar>sint v\<bar>))"
  note num = f64_of_i64_num [of v]
  have "in_i64_range ?f \<and> f64_to_i64 ?f = v \<longleftrightarrow> f64_num ?f = sint v * 2 ^ 1074"
  proof
    assume a: "in_i64_range ?f \<and> f64_to_i64 ?f = v"
    then have "sint v = ?r" using sint_cast_exact [OF _ num(2)] by metis
    then show "f64_num ?f = sint v * 2 ^ 1074" unfolding num(2) by metis
  next
    assume e: "f64_num ?f = sint v * 2 ^ 1074"
    note r = in_i64_range_exact [OF num(1) e]
    with sint_cast_exact [OF r e] show "in_i64_range ?f \<and> f64_to_i64 ?f = v" by (simp add: signed_word_eqI)
  qed
  then show ?thesis by (auto simp: coerce_i64_to_f64_def Let_def)
qed

lemma coerce_i64_to_f64_exact:
  assumes "\<not> is_nan f" and "f64_num f = sint v * 2 ^ 1074"
  shows "\<exists>sc. coerce_i64_to_f64 v = Ok sc"
proof -
  have "int (mag_val (f64_mag f)) = int (nat \<bar>sint v\<bar> * 2 ^ 1074)"
    using assms(2) unfolding f64_num_def by (auto simp: abs_mult split: if_splits)
  then have "mag_val (f64_mag f) = nat \<bar>sint v\<bar> * 2 ^ 1074" by (simp only: of_nat_eq_iff)
  then have "round_int (nat \<bar>sint v\<bar>) = nat \<bar>sint v\<bar>" by (rule round_int_exact)
  then have "f64_num (f64_of_i64 v) = sint v * 2 ^ 1074" unfolding f64_of_i64_num(2) by simp
  then show ?thesis by (simp add: coerce_i64_to_f64_Ok)
qed

lemma coerce_f64_to_i64_Ok:
  "coerce_f64_to_i64 f = Ok sc \<longleftrightarrow> \<not> is_nan f \<and> (\<exists>v. sc = SI64 v \<and> f64_num f = sint v * 2 ^ 1074)"
proof
  assume "coerce_f64_to_i64 f = Ok sc"
  then have a: "\<not> is_nan f" "in_i64_range f" "f64_eq (f64_trunc f) f" "sc = SI64 (f64_to_i64 f)"
    by (auto simp: coerce_f64_to_i64_def split: if_splits)
  then have "f64_num f = f64_int f * 2 ^ 1074" by (intro f64_num_int_eq) (simp add: f64_eq_def)
  with sint_cast_exact [OF a(2) this] a show "\<not> is_nan f \<and> (\<exists>v. sc = SI64 v \<and> f64_num f = sint v * 2 ^ 1074)" by auto
next
  assume "\<not> is_nan f \<and> (\<exists>v. sc = SI64 v \<and> f64_num f = sint v * 2 ^ 1074)"
  then obtain v where v: "\<not> is_nan f" "sc = SI64 v" "f64_num f = sint v * 2 ^ 1074" by blast
  note r = in_i64_range_exact [OF v(1,3)]
  have "f64_to_i64 f = v" using sint_cast_exact [OF r v(3)] by (simp add: signed_word_eqI)
  moreover have n: "f64_num (f64_trunc f) = f64_num f" unfolding f64_num_trunc f64_int_exact [OF v(3)] v(3) ..
  have "\<not> is_nan (f64_trunc f)"
  proof -
    have "mag_val (f64_mag (f64_trunc f)) = mag_val (f64_mag f)"
      using n f64_trunc_parts [of f] by (auto simp: f64_num_def split: if_splits)
    then show ?thesis using v(1) by (simp add: is_nan_def)
  qed
  ultimately show "coerce_f64_to_i64 f = Ok sc" using v r n by (simp add: coerce_f64_to_i64_def f64_eq_def)
qed

section \<open>Integers against doubles\<close>

lemma f64_trunc_not_nan: "in_i64_range f \<Longrightarrow> in_i64_range (f64_trunc f)"
proof -
  assume r: "in_i64_range f"
  then have n: "\<not> is_nan f" "- (2 ^ 63) \<le> f64_int f" "f64_int f < 2 ^ 63"
    using f64_int_range [of f] unfolding in_i64_range_iff by blast+
  have "mag_val (f64_mag (f64_trunc f)) \<le> mag_val (f64_mag f)"
    using f64_trunc_parts [of f] div_times_less_eq_dividend [of "mag_val (f64_mag f)" "2 ^ 1074"] by (simp only:)
  then have "\<not> is_nan (f64_trunc f)" using n(1) by (simp add: is_nan_def)
  then show ?thesis using n(2,3) unfolding in_i64_range_iff f64_num_trunc
    by (simp only: mult_le_cancel_right_pos mult_less_cancel_right_pos zero_less_power zero_less_numeral) blast
qed

lemma cmp_int_fraction:
  assumes "0 < (u :: int)" and "k * u \<le> x \<and> x < (k + 1) * u \<or> x \<le> k * u \<and> (k - 1) * u < x"
  shows "cmp (a * u) x = (case cmp a k of Equal \<Rightarrow> cmp (k * u) x | r \<Rightarrow> r)"
proof -
  consider "a < k" | "a = k" | "k < a" by linarith
  then show ?thesis
  proof cases
    case 1
    then have "a * u \<le> (k - 1) * u" using assms(1) by (intro mult_right_mono) auto
    moreover have "(k - 1) * u < k * u" using assms(1) by (simp add: algebra_simps)
    ultimately have "a * u < x" using assms(2) by linarith
    then show ?thesis using 1 by simp
  next
    case 3
    then have "(k + 1) * u \<le> a * u" using assms(1) by (intro mult_right_mono) auto
    moreover have "k * u < (k + 1) * u" using assms(1) by (simp add: algebra_simps)
    ultimately have "x < a * u" using assms(2) by linarith
    then show ?thesis using 3 by simp
  qed simp
qed

lemma compare_i64_f64_num:
  assumes "\<not> is_nan b"
  shows "compare_i64_f64 a b = cmp (sint a * 2 ^ 1074) (f64_num b)"
proof (cases "in_i64_range b")
  case True
  let ?u = "(2 :: int) ^ 1074" and ?t = "f64_trunc b"
  have fb: "f64_int b * ?u \<le> f64_num b \<and> f64_num b < (f64_int b + 1) * ?u \<or>
      f64_num b \<le> f64_int b * ?u \<and> (f64_int b - 1) * ?u < f64_num b"
    using f64_int_bounds [of b] linorder_linear [of 0 "f64_num b"] by blast
  note t = f64_trunc_not_nan [OF True]
  have whole: "sint (f64_to_i64 ?t) = f64_int b" by (rule sint_cast_exact [OF t f64_num_trunc])
  have nn: "\<not> is_nan ?t" using t by (simp add: in_i64_range_iff)
  have lo: "\<not> f64_le TWO_POW_63 b" "\<not> f64_lt b MINUS_TWO_POW_63"
    using True unfolding in_i64_range_iff f64_le_def f64_lt_def two_pow_63_num(2,4) by auto
  have "compare_i64_f64 a b = (case cmp (sint a) (f64_int b) of Equal \<Rightarrow> cmp (f64_int b * ?u) (f64_num b) | r \<Rightarrow> r)"
    unfolding compare_i64_f64_def Let_def whole using lo assms nn
    by (auto simp: f64_lt_def f64_num_trunc cmp_def split: Ordering.split)
  then show ?thesis using cmp_int_fraction [OF _ fb, of "sint a"] by simp
next
  case False
  let ?u = "(2 :: int) ^ 1074"
  have u: "0 < ?u" by simp
  have s: "sint a * ?u < 2 ^ 63 * ?u" "- (2 ^ 63) * ?u \<le> sint a * ?u"
    using sint_i64_bounds [of a] u by (simp_all only: mult_le_cancel_right_pos mult_less_cancel_right_pos)
  have "2 ^ 63 * ?u \<le> f64_num b \<or> f64_num b < - (2 ^ 63) * ?u" using False assms unfolding in_i64_range_iff by linarith
  then show ?thesis
  proof
    assume g: "2 ^ 63 * ?u \<le> f64_num b"
    then have "f64_le TWO_POW_63 b" unfolding f64_le_def two_pow_63_num(2) using assms two_pow_63_num(1) by blast
    moreover have "sint a * ?u < f64_num b" using s g by linarith
    ultimately show ?thesis unfolding compare_i64_f64_def by (simp only: if_True cmp_simps)
  next
    assume g: "f64_num b < - (2 ^ 63) * ?u"
    then have "f64_lt b MINUS_TWO_POW_63" unfolding f64_lt_def two_pow_63_num(4) using assms two_pow_63_num(3) by blast
    moreover have "f64_num b < sint a * ?u" using s g by linarith
    moreover from this s(1) have "\<not> f64_le TWO_POW_63 b" unfolding f64_le_def two_pow_63_num(2) by linarith
    ultimately show ?thesis unfolding compare_i64_f64_def by (simp only: if_True if_False cmp_simps)
  qed
qed

text \<open>
  C25: the mixed comparison is exact: for every integer and every double that is not NaN, infinities included,
  \<open>compare_i64_f64\<close> orders the two numbers as the reals they denote, in units of \<open>2 ^ -1074\<close>.
\<close>

theorem compare_i64_f64_exact:
  assumes "\<not> is_nan b"
  shows "compare_i64_f64 a b = cmp (sint a * 2 ^ 1074) (f64_num b)"
  using assms by (rule compare_i64_f64_num)

theorem compare_i64_f64_exact_witness:
  "compare_i64_f64 3 0x400C000000000000 = cmp (sint (3 :: i64) * 2 ^ 1074) (f64_num 0x400C000000000000) \<and>
   compare_i64_f64 3 0x400C000000000000 = Less"
proof -
  have n: "\<not> is_nan 0x400C000000000000" by (simp add: is_nan_def f64_mag_def)
  have "f64_num 0x400C000000000000 = 7 * 2 ^ 1073"
    by (simp add: f64_num_def f64_neg_def f64_mag_def mag_val_def)
  with compare_i64_f64_exact [OF n, of 3] show ?thesis by simp
qed

section \<open>Escaped strings\<close>

definition esc :: "byte \<Rightarrow> bytes" where "esc b = (if b = 0 then [0, 0xFF] else [b])"

definition escape :: "bytes \<Rightarrow> bytes" where "escape s = concat (map esc s)"

lemma escape_simps [simp]: "escape [] = []" "escape (b # s) = esc b @ escape s" "escape (s @ t) = escape s @ escape t"
  by (simp_all add: escape_def)

lemma utf8_encoded_len_escape: "utf8_encoded_len s = length (escape s) + 1"
  by (induction s) (simp_all add: utf8_encoded_len_def esc_def)

lemma escape_no_nul: "0 \<notin> set s \<Longrightarrow> escape s = s"
  by (induction s) (auto simp: esc_def)

lemma escape_order: "bytes_cmp (escape s @ [0]) (escape t @ [0]) = bytes_cmp s t"
proof (induction s t rule: bytes_cmp.induct)
  case (2 b t)
  then show ?case by (cases "b = 0") (simp_all add: esc_def word_neq_0_conv)
next
  case (3 b s)
  then show ?case by (cases "b = 0") (simp_all add: esc_def word_neq_0_conv)
next
  case (4 a as b bs)
  show ?case
  proof (cases "a = b")
    case False
    have "\<exists>r. esc x = x # r" for x by (simp add: esc_def)
    then obtain r r' where "esc a = a # r" "esc b = b # r'" by blast
    moreover have "cmp a b \<noteq> Equal" using False by simp
    ultimately show ?thesis by (cases "cmp a b") simp_all
  qed (use 4 in simp)
qed simp

lemma escape_prefix: "prefix (escape p) (escape s @ [0]) \<longleftrightarrow> prefix p s"
proof (induction p arbitrary: s)
  case (Cons a p)
  show ?case
  proof (cases s)
    case Nil
    then show ?thesis by (simp add: esc_def)
  next
    case (Cons b t)
    then show ?thesis using Cons.IH [of t] by (cases "a = b") (auto simp: esc_def)
  qed
qed simp

definition splice :: "bytes \<Rightarrow> nat \<Rightarrow> bytes \<Rightarrow> bytes" where
  "splice buf i xs = take i buf @ xs @ drop (i + length xs) buf"

lemma write_at_splice: "write_at buf i xs = (if i + length xs \<le> length buf then Some (splice buf i xs) else None)"
  by (simp add: write_at_def splice_def)

lemma length_splice [simp]: "i + length xs \<le> length buf \<Longrightarrow> length (splice buf i xs) = length buf"
  by (simp add: splice_def)

lemma splice_splice: "i + length xs \<le> length buf \<Longrightarrow> splice (splice buf i xs) (i + length xs) ys = splice buf i (xs @ ys)"
  by (simp add: splice_def add.commute add.left_commute)

lemma splice_Nil [simp]: "splice buf i [] = buf"
  by (simp add: splice_def)

lemma encode_loop_escape:
  "len + length (escape s) \<le> length out \<Longrightarrow>
    encode_loop s out len = Some (splice out len (escape s), len + length (escape s))"
proof (induction s out len rule: encode_loop.induct)
  case (2 b bs out len)
  show ?case
  proof (cases "b = 0")
    case True
    then have "len + 2 \<le> length out" "len + 2 + length (escape bs) \<le> length out" using "2.prems" by (simp_all add: esc_def)
    moreover have "splice (splice out len [0]) (len + 1) [0xFF] = splice out len [0, 0xFF]"
      using \<open>len + 2 \<le> length out\<close> splice_splice [of len "[0]" out "[0xFF]"] by simp
    moreover have "splice (splice out len [0, 0xFF]) (len + 2) (escape bs) = splice out len (0 # 0xFF # escape bs)"
      using \<open>len + 2 \<le> length out\<close> splice_splice [of len "[0, 0xFF]" out "escape bs"] by simp
    ultimately show ?thesis using "2.IH"(1) [OF _ True, of "splice out len [0]" "splice out len [0, 0xFF]"] True
      by (simp add: write_at_splice esc_def)
  next
    case False
    then have "len + 1 + length (escape bs) \<le> length out" using "2.prems" by (simp add: esc_def)
    moreover have "splice (splice out len [b]) (len + 1) (escape bs) = splice out len (b # escape bs)"
      using "2.prems" False splice_splice [of len "[b]" out "escape bs"] by (simp add: esc_def)
    ultimately show ?thesis using "2.IH"(2) [OF _ False, of "splice out len [b]"] False
      by (simp add: write_at_splice esc_def)
  qed
qed simp

definition keybuf_ok :: "IndexKeyBuf \<Rightarrow> bool" where
  "keybuf_ok b \<longleftrightarrow> length (kb_bytes b) = ORDERED_KEY_MAX \<and> unat (kb_len b) \<le> ORDERED_KEY_MAX"

lemma as_bytes_splice:
  assumes "length (kb_bytes b) = ORDERED_KEY_MAX" and "length xs \<le> ORDERED_KEY_MAX"
  shows "as_bytes (b\<lparr>kb_bytes := splice (kb_bytes b) 0 xs, kb_len := of_nat (length xs)\<rparr>) = Some xs"
    and "keybuf_ok (b\<lparr>kb_bytes := splice (kb_bytes b) 0 xs, kb_len := of_nat (length xs)\<rparr>)"
proof -
  have "unat (of_nat (length xs) :: u16) = length xs"
    using assms(2) by (simp add: unat_of_nat take_bit_nat_eq_self ORDERED_KEY_MAX_def)
  then show "as_bytes (b\<lparr>kb_bytes := splice (kb_bytes b) 0 xs, kb_len := of_nat (length xs)\<rparr>) = Some xs"
    "keybuf_ok (b\<lparr>kb_bytes := splice (kb_bytes b) 0 xs, kb_len := of_nat (length xs)\<rparr>)"
    using assms by (simp_all add: as_bytes_def keybuf_ok_def get_range_def splice_def)
qed

text \<open>The key of an admitted scalar.\<close>

fun scalar_key :: "IndexScalar \<Rightarrow> bytes" where
  "scalar_key (SI64 v) = be_bytes 8 (v XOR SIGN_BIT)"
| "scalar_key (SF64 f) = be_bytes 8 (f64_key_word f)"
| "scalar_key (SBool b) = be_bytes 8 ((if b then 1 else 0) :: u64)"
| "scalar_key (SUtf8 s) = escape s @ [0]"
| "scalar_key SNull = []"

lemma put_word_key:
  "keybuf_ok out \<Longrightarrow> \<exists>out'. put_word out w = Some out' \<and> as_bytes out' = Some (be_bytes 8 w) \<and> keybuf_ok out'"
  using as_bytes_splice [of out "be_bytes 8 w"]
  by (simp add: put_word_def write_at_splice keybuf_ok_def ORDERED_KEY_MAX_def)

lemma encode_utf8_key:
  assumes "keybuf_ok out" and "utf8_encoded_len s \<le> ORDERED_KEY_MAX"
  shows "\<exists>out'. encode_utf8 s out = Some out' \<and> as_bytes out' = Some (escape s @ [0]) \<and> keybuf_ok out'"
proof -
  have len: "length (kb_bytes out) = ORDERED_KEY_MAX" "length (escape s @ [0]) \<le> ORDERED_KEY_MAX"
    using assms by (simp_all add: keybuf_ok_def utf8_encoded_len_escape)
  have "splice (splice (kb_bytes out) 0 (escape s)) (length (escape s)) [0] = splice (kb_bytes out) 0 (escape s @ [0])"
    using splice_splice [of 0 "escape s" "kb_bytes out" "[0]"] len by simp
  then have "encode_utf8 s out =
      Some (out\<lparr>kb_bytes := splice (kb_bytes out) 0 (escape s @ [0]), kb_len := of_nat (length (escape s @ [0]))\<rparr>)"
    using len encode_loop_escape [of 0 s "kb_bytes out"] escape_no_nul [of s]
    by (cases "0 \<in> set s") (simp_all add: encode_utf8_def write_at_splice)
  then show ?thesis using as_bytes_splice [OF len] by simp
qed

lemma index_key_encode_Ok:
  assumes "index_scalar_coerce kt v = Ok sc" and "keybuf_ok out"
  shows "\<exists>out'. index_key_encode kt v out = Some (Ok (), out') \<and> as_bytes out' = Some (scalar_key sc) \<and> keybuf_ok out'"
proof -
  have "sc \<noteq> SNull" "\<And>s. sc = SUtf8 s \<Longrightarrow> utf8_encoded_len s \<le> ORDERED_KEY_MAX"
    using assms(1) by (auto simp: index_scalar_coerce_def coerce_i64_to_f64_Ok coerce_f64_to_i64_Ok
        split: IndexKeyType.splits IndexScalar.splits if_splits)
  then show ?thesis using put_word_key [OF assms(2)] encode_utf8_key [OF assms(2)]
    by (cases sc) (fastforce simp: index_key_encode_def assms(1))+
qed

section \<open>Order\<close>

text \<open>The order of the typed values: numbers by value, in units of \<open>2 ^ -1074\<close>, strings by their bytes.\<close>

fun scalar_num :: "IndexScalar \<Rightarrow> int" where
  "scalar_num (SI64 v) = sint v * 2 ^ 1074"
| "scalar_num (SF64 f) = f64_num f"
| "scalar_num (SBool b) = (if b then 1 else 0)"
| "scalar_num _ = 0"

fun scalar_text :: "IndexScalar \<Rightarrow> bytes" where
  "scalar_text (SUtf8 s) = s"
| "scalar_text _ = []"

definition typed_cmp :: "IndexKeyType \<Rightarrow> IndexScalar \<Rightarrow> IndexScalar \<Rightarrow> Ordering" where
  "typed_cmp kt v w = (if kt = KUtf8 then bytes_cmp (scalar_text v) (scalar_text w) else cmp (scalar_num v) (scalar_num w))"

text \<open>What the admission table yields: a value of the index's type that is the given one.\<close>

lemma coerce_cases:
  assumes "index_scalar_coerce kt v = Ok sc"
  obtains (I64) x where "kt = KI64" "sc = SI64 x" "scalar_num v = scalar_num sc"
  | (F64) f where "kt = KF64" "sc = SF64 f" "\<not> is_nan f" "scalar_num v = scalar_num sc"
  | (Bool) b where "kt = KBool" "v = SBool b" "sc = v"
  | (Utf8) s where "kt = KUtf8" "v = SUtf8 s" "sc = v" "utf8_encoded_len s \<le> ORDERED_KEY_MAX"
  using assms f64_of_i64_num(1)
  by (auto simp: index_scalar_coerce_def coerce_i64_to_f64_Ok coerce_f64_to_i64_Ok
      split: IndexKeyType.splits IndexScalar.splits if_splits)

lemma scalar_key_order:
  assumes "index_scalar_coerce kt v = Ok sc" and "index_scalar_coerce kt w = Ok sd"
  shows "bytes_cmp (scalar_key sc) (scalar_key sd) = typed_cmp kt v w"
  using assms(1)
proof (cases rule: coerce_cases)
  case (I64 x)
  obtain y where "sd = SI64 y" "scalar_num w = scalar_num sd"
    using assms(2) by (rule coerce_cases) (use I64(1) in auto)
  moreover have "cmp (sint x) (sint y) = cmp (sint x * 2 ^ 1074) (sint y * 2 ^ 1074)" for x y :: i64
    by (rule cmp_mono) (simp_all only: mult_less_cancel_right_pos mult_cancel_right zero_less_power zero_less_numeral, simp_all)
  ultimately show ?thesis using I64 by (simp add: typed_cmp_def bytes_cmp_be_bytes i64_key_order)
next
  case (F64 f)
  obtain g where "sd = SF64 g" "\<not> is_nan g" "scalar_num w = scalar_num sd"
    using assms(2) by (rule coerce_cases) (use F64(1) in auto)
  then show ?thesis using F64 by (simp add: typed_cmp_def bytes_cmp_be_bytes f64_key_order)
next
  case (Bool b)
  obtain c where "w = SBool c" "sd = w" using assms(2) by (rule coerce_cases) (use Bool(1) in auto)
  then show ?thesis using Bool by (simp add: typed_cmp_def bytes_cmp_be_bytes cmp_def)
next
  case (Utf8 s)
  obtain t where "w = SUtf8 t" "sd = w" using assms(2) by (rule coerce_cases) (use Utf8(1) in auto)
  then show ?thesis using Utf8 by (simp add: typed_cmp_def escape_order)
qed

lemma index_key_encode_cases:
  assumes "index_key_encode kt v out = Some (Ok (), b)" and "keybuf_ok out"
  obtains sc where "index_scalar_coerce kt v = Ok sc" "as_bytes b = Some (scalar_key sc)" "keybuf_ok b"
proof (cases "index_scalar_coerce kt v")
  case (Inl e)
  then show thesis using assms(1) by (simp add: index_key_encode_def)
next
  case (Inr sc)
  then show thesis using index_key_encode_Ok [OF Inr assms(2)] assms(1) that by auto
qed

text \<open>
  C23: memory order of the encoded keys is the order of the values: for two values an index admits, also across
  the coercions between integers and doubles, comparing the keys byte by byte gives the order of the numbers, of the
  truth values or of the strings.
\<close>

theorem index_key_order:
  assumes "keybuf_ok out" and "index_key_encode kt v out = Some (Ok (), b)"
    and "keybuf_ok out'" and "index_key_encode kt w out' = Some (Ok (), c)"
  shows "\<exists>k l. as_bytes b = Some k \<and> as_bytes c = Some l \<and> bytes_cmp k l = typed_cmp kt v w"
proof -
  obtain sc where 1: "index_scalar_coerce kt v = Ok sc" "as_bytes b = Some (scalar_key sc)"
    using index_key_encode_cases [OF assms(2,1)] by blast
  obtain sd where 2: "index_scalar_coerce kt w = Ok sd" "as_bytes c = Some (scalar_key sd)"
    using index_key_encode_cases [OF assms(4,3)] by blast
  show ?thesis using 1 2 scalar_key_order [OF 1(1) 2(1)] by blast
qed

lemma keybuf_new_ok: "keybuf_ok keybuf_new"
  by (simp add: keybuf_ok_def keybuf_new_def)

theorem index_key_order_witness:
  "\<exists>b c k l. index_key_encode KI64 (SI64 (-5)) keybuf_new = Some (Ok (), b) \<and>
    index_key_encode KI64 (SI64 3) keybuf_new = Some (Ok (), c) \<and>
    as_bytes b = Some k \<and> as_bytes c = Some l \<and> bytes_cmp k l = Less"
proof -
  have 1: "index_scalar_coerce KI64 (SI64 v) = Ok (SI64 v)" for v by (simp add: index_scalar_coerce_def)
  obtain b c where e: "index_key_encode KI64 (SI64 (-5)) keybuf_new = Some (Ok (), b)"
      "index_key_encode KI64 (SI64 3) keybuf_new = Some (Ok (), c)"
    using index_key_encode_Ok [OF 1 keybuf_new_ok] by blast
  have "typed_cmp KI64 (SI64 (-5)) (SI64 3) = Less" by (simp add: typed_cmp_def)
  with index_key_order [OF keybuf_new_ok e(1) keybuf_new_ok e(2)] e show ?thesis by metis
qed

section \<open>Decoding\<close>

fun to_scalar :: "DecodedIndexKey \<Rightarrow> IndexScalar" where
  "to_scalar (DUtf8 s) = SUtf8 s"
| "to_scalar (DI64 v) = SI64 v"
| "to_scalar (DF64 f) = SF64 f"
| "to_scalar (DBool b) = SBool b"

text \<open>A decoded value of the type of the index: a string is UTF-8 and a double is not negative zero.\<close>

fun decoded_ok :: "IndexKeyType \<Rightarrow> DecodedIndexKey \<Rightarrow> bool" where
  "decoded_ok kt (DUtf8 s) \<longleftrightarrow> kt = KUtf8 \<and> utf8_valid s"
| "decoded_ok kt (DI64 v) \<longleftrightarrow> kt = KI64"
| "decoded_ok kt (DF64 f) \<longleftrightarrow> kt = KF64 \<and> f \<noteq> SIGN_BIT"
| "decoded_ok kt (DBool b) \<longleftrightarrow> kt = KBool"

lemma unescape_escape: "unescape_loop (escape s) raw = Some (raw @ s)"
  by (induction s arbitrary: raw) (simp_all add: esc_def)

lemma escape_unescape: "unescape_loop body raw = Some r \<Longrightarrow> \<exists>s. r = raw @ s \<and> body = escape s"
proof (induction body raw rule: unescape_loop.induct)
  case (1 raw)
  then show ?case by (simp add: exI [of _ "[]"])
next
  case (2 b rest raw)
  show ?case
  proof (cases "b = 0")
    case True
    then obtain rest' where r: "rest = 0xFF # rest'" "unescape_loop rest' (raw @ [b]) = Some r"
      using "2.prems" by (auto split: list.splits if_splits)
    then obtain s where "r = (raw @ [b]) @ s" "rest' = escape s" using "2.IH"(1) True by blast
    then show ?thesis using r True by (intro exI [of _ "b # s"]) (simp add: esc_def)
  next
    case False
    then obtain s where "r = (raw @ [b]) @ s" "rest = escape s" using "2.IH"(2) "2.prems" by auto
    then show ?thesis using False by (intro exI [of _ "b # s"]) (simp add: esc_def)
  qed
qed

lemma decode_utf8_key_Ok:
  "decode_utf8_key k = Ok d \<longleftrightarrow>
    (\<exists>s. d = DUtf8 s \<and> utf8_valid s \<and> k = escape s @ [0] \<and> utf8_encoded_len s \<le> ORDERED_KEY_MAX)"
proof
  assume "decode_utf8_key k = Ok d"
  then obtain raw where r: "length k \<le> ORDERED_KEY_MAX" "k \<noteq> []" "last k = 0" "unescape_loop (butlast k) [] = Some raw"
      "utf8_valid raw" "d = DUtf8 raw"
    by (auto simp: decode_utf8_key_def split: if_splits option.splits)
  have "butlast k = escape raw" using escape_unescape [OF r(4)] by auto
  then have "k = escape raw @ [0]" using r(2,3) append_butlast_last_id by metis
  then show "\<exists>s. d = DUtf8 s \<and> utf8_valid s \<and> k = escape s @ [0] \<and> utf8_encoded_len s \<le> ORDERED_KEY_MAX"
    using r by (simp add: utf8_encoded_len_escape)
next
  assume "\<exists>s. d = DUtf8 s \<and> utf8_valid s \<and> k = escape s @ [0] \<and> utf8_encoded_len s \<le> ORDERED_KEY_MAX"
  then show "decode_utf8_key k = Ok d"
    by (auto simp: decode_utf8_key_def utf8_encoded_len_escape unescape_escape)
qed

lemma f64_make_negzero: "f64_make True 0 = SIGN_BIT"
  by (simp add: f64_make_def SIGN_BIT_def)

lemma decode_f64_word_Ok:
  "decode_f64_word w = Ok d \<longleftrightarrow> (\<exists>f. d = DF64 f \<and> \<not> is_nan f \<and> f \<noteq> SIGN_BIT \<and> w = f64_key_word f)"
proof -
  define bits where "bits = (if w AND SIGN_BIT \<noteq> 0 then w AND NOT SIGN_BIT else NOT w)"
  have lt: "2 ^ 63 - 1 - f64_mag w < 2 ^ 63" by simp
  have bits: "f64_neg bits = (\<not> f64_neg w)" "f64_mag bits = (if f64_neg w then f64_mag w else 2 ^ 63 - 1 - f64_mag w)"
    unfolding bits_def sign_ops(5) sign_ops(3) [of w] sign_ops(4) [of w]
    using f64_make_sel [OF lt] f64_make_sel [OF f64_mag_less [of w]] by simp_all
  have key: "w = f64_key_word bits" if "\<not> is_nan bits" "bits \<noteq> SIGN_BIT"
  proof -
    have "f64_mag bits \<noteq> 0 \<or> f64_neg w" using that(2) f64_make_eta [of bits] bits(1) f64_make_negzero by metis
    then have "unat (f64_key_word bits) = unat w"
      unfolding unat_f64_key_word [OF that(1)] unat_f64 [of w] bits using f64_mag_less [of w] by auto
    then show ?thesis by (simp add: word_unat_eq_iff)
  qed
  have inv: "bits = f" if "\<not> is_nan f" "f \<noteq> SIGN_BIT" "w = f64_key_word f" for f
  proof -
    have nz: "f64_neg f \<Longrightarrow> f64_mag f \<noteq> 0" using that(2) f64_make_eta [of f] f64_make_negzero by metis
    have u: "(if f64_neg w then 2 ^ 63 else 0) + f64_mag w = (if f64_neg f then 2 ^ 63 - 1 - f64_mag f else 2 ^ 63 + f64_mag f)"
      using unat_f64_key_word [OF that(1)] nz unat_f64 [of w] that(3) by auto
    then have "f64_neg w = (\<not> f64_neg f)" using f64_mag_less [of w] f64_mag_less [of f] by (auto split: if_splits)
    moreover from this u have "f64_mag bits = f64_mag f" using f64_mag_less [of f] unfolding bits by (auto split: if_splits)
    ultimately have "f64_make (f64_neg bits) (f64_mag bits) = f64_make (f64_neg f) (f64_mag f)" using bits(1) by simp
    then show ?thesis unfolding f64_make_eta .
  qed
  have "(f64_eq bits 0 \<and> bits AND SIGN_BIT \<noteq> 0) \<longleftrightarrow> bits = SIGN_BIT" if "\<not> is_nan bits"
  proof -
    have "f64_neg SIGN_BIT" "f64_mag SIGN_BIT = 0" using f64_make_sel [of 0 True] by (simp_all add: f64_make_negzero)
    moreover have "f64_neg bits \<Longrightarrow> f64_mag bits = 0 \<Longrightarrow> bits = SIGN_BIT" using f64_make_eta [of bits] f64_make_negzero by simp
    ultimately show ?thesis unfolding f64_eq_zero [OF that] sign_ops(5) by auto
  qed
  then have "decode_f64_word w = Ok d \<longleftrightarrow> d = DF64 bits \<and> \<not> is_nan bits \<and> bits \<noteq> SIGN_BIT"
    unfolding decode_f64_word_def Let_def bits_def [symmetric] by auto
  then show ?thesis using key inv by blast
qed

lemma be_bytes_eq_iff: "be_bytes 8 w = k \<longleftrightarrow> length k = 8 \<and> of_be_bytes k = (w :: u64)"
  using be_bytes_of_be_bytes [of k] by (auto simp: codec_simps)

lemma decode_scalar_key:
  "index_key_decode kt k = Some (Ok d) \<longleftrightarrow>
    decoded_ok kt d \<and> index_scalar_coerce kt (to_scalar d) = Ok (to_scalar d) \<and> scalar_key (to_scalar d) = k"
proof (cases kt)
  case KUtf8
  then show ?thesis
    by (cases d) (auto simp: index_key_decode_def fixed8_def decode_utf8_key_Ok index_scalar_coerce_def split: if_splits)
next
  case KI64
  have "length k = 8 \<and> (of_be_bytes k :: u64) XOR SIGN_BIT = v \<longleftrightarrow> be_bytes 8 (v XOR SIGN_BIT) = k" for v
    unfolding be_bytes_eq_iff by (auto simp: xor.assoc)
  then show ?thesis using KI64 by (cases d) (auto simp: index_key_decode_def fixed8_def index_scalar_coerce_def)
next
  case KF64
  then show ?thesis
    by (cases d) (auto simp: index_key_decode_def fixed8_def index_scalar_coerce_def decode_f64_word_Ok be_bytes_eq_iff
        split: if_splits)
next
  case KBool
  then show ?thesis
    by (cases d) (auto simp: index_key_decode_def fixed8_def index_scalar_coerce_def be_bytes_eq_iff Let_def split: if_splits)
qed

text \<open>
  C24: the decoder accepts exactly what the encoder writes: a byte string decodes to a value of the index's type if
  and only if encoding that value yields the byte string, for strings that are UTF-8 and doubles in canonical form.
\<close>

theorem index_key_decode_strict:
  assumes "keybuf_ok out"
  shows "index_key_decode kt k = Some (Ok d) \<longleftrightarrow>
    decoded_ok kt d \<and> (\<exists>b. index_key_encode kt (to_scalar d) out = Some (Ok (), b) \<and> as_bytes b = Some k)"
proof -
  have "(\<exists>b. index_key_encode kt (to_scalar d) out = Some (Ok (), b) \<and> as_bytes b = Some k) \<longleftrightarrow>
      index_scalar_coerce kt (to_scalar d) = Ok (to_scalar d) \<and> scalar_key (to_scalar d) = k" if "decoded_ok kt d"
  proof -
    have own: "index_scalar_coerce kt (to_scalar d) = Ok sc \<Longrightarrow> sc = to_scalar d" for sc
      using that by (cases d) (auto simp: index_scalar_coerce_def split: if_splits)
    show ?thesis
    proof
      assume "\<exists>b. index_key_encode kt (to_scalar d) out = Some (Ok (), b) \<and> as_bytes b = Some k"
      then obtain b where b: "index_key_encode kt (to_scalar d) out = Some (Ok (), b)" "as_bytes b = Some k" by blast
      obtain sc where sc: "index_scalar_coerce kt (to_scalar d) = Ok sc" "as_bytes b = Some (scalar_key sc)"
        using index_key_encode_cases [OF b(1) assms] by blast
      then show "index_scalar_coerce kt (to_scalar d) = Ok (to_scalar d) \<and> scalar_key (to_scalar d) = k"
        using own [OF sc(1)] b(2) by simp
    qed (use index_key_encode_Ok [OF _ assms] in blast)
  qed
  then show ?thesis unfolding decode_scalar_key by blast
qed

theorem index_key_decode_strict_witness:
  "index_key_decode KUtf8 [0x61, 0, 0xFF, 0] = Some (Ok (DUtf8 [0x61, 0])) \<and>
   (\<exists>b. index_key_encode KUtf8 (SUtf8 [0x61, 0]) keybuf_new = Some (Ok (), b) \<and> as_bytes b = Some [0x61, 0, 0xFF, 0])"
proof -
  have "index_key_decode KUtf8 [0x61, 0, 0xFF, 0] = Some (Ok (DUtf8 [0x61, 0]))"
    by (simp add: index_key_decode_def fixed8_def decode_utf8_key_def ORDERED_KEY_MAX_def utf8_valid.simps)
  with index_key_decode_strict [OF keybuf_new_ok, of KUtf8 "[0x61, 0, 0xFF, 0]" "DUtf8 [0x61, 0]"] show ?thesis by simp
qed

section \<open>Prefixes\<close>

definition put_bounded :: "byte \<Rightarrow> bytes \<times> nat \<Rightarrow> bytes \<times> nat" where
  "put_bounded c st = (case st of (out, len) \<Rightarrow> if len < ORDERED_KEY_MAX then (splice out len [c], len + 1) else st)"

lemma put_bounded_ok:
  "length out = ORDERED_KEY_MAX \<Longrightarrow> put_bounded c (out, len) = (out', len') \<Longrightarrow> length out' = ORDERED_KEY_MAX"
  by (auto simp: put_bounded_def split: if_splits)

lemma fold_put_bounded:
  "length out = ORDERED_KEY_MAX \<Longrightarrow> len \<le> ORDERED_KEY_MAX \<Longrightarrow>
    fold put_bounded xs (out, len) =
      (splice out len (take (ORDERED_KEY_MAX - len) xs), len + length (take (ORDERED_KEY_MAX - len) xs))"
proof (induction xs arbitrary: out len)
  case (Cons c xs)
  show ?case
  proof (cases "len < ORDERED_KEY_MAX")
    case True
    then have t: "take (ORDERED_KEY_MAX - len) (c # xs) = c # take (ORDERED_KEY_MAX - (len + 1)) xs"
      by (simp add: take_Cons')
    have "splice (splice out len [c]) (len + 1) ys = splice out len (c # ys)" for ys
      using splice_splice [of len "[c]" out ys] Cons.prems(1) True by simp
    then show ?thesis unfolding t using Cons.IH [of "splice out len [c]" "len + 1"] Cons.prems True
      by (simp add: put_bounded_def)
  next
    case False
    then show ?thesis using Cons by (simp add: put_bounded_def)
  qed
qed simp

lemma escape_loop_fold:
  "length out = ORDERED_KEY_MAX \<Longrightarrow>
    escape_loop s out len full =
      (case fold put_bounded (escape s) (out, len) of (out', len') \<Rightarrow> Some (out', len', full + length (escape s)))"
proof (induction s out len full rule: escape_loop.induct)
  case (2 b bs out len full)
  have put: "(if n < ORDERED_KEY_MAX then map_option (\<lambda>out. (out, n + 1)) (write_at buf n [c]) else Some (buf, n)) =
      Some (put_bounded c (buf, n))" if "length buf = ORDERED_KEY_MAX" for buf n c
    using that by (auto simp: write_at_splice put_bounded_def)
  obtain out1 len1 where p1: "put_bounded b (out, len) = (out1, len1)" by fastforce
  note l1 = put_bounded_ok [OF "2.prems" p1]
  obtain out2 len2 where p2: "put_bounded 0xFF (out1, len1) = (out2, len2)" by fastforce
  note l2 = put_bounded_ok [OF l1 p2]
  show ?case
  proof (cases "b = 0")
    case True
    then show ?thesis using "2.IH"(1) [of "(out1, len1)" out1 len1 "(out2, len2)" out2 len2] l2 p1 p2
      by (simp add: put "2.prems" l1 esc_def)
  next
    case False
    then show ?thesis using "2.IH"(2) [of "(out1, len1)" out1 len1] l1 p1
      by (simp add: put "2.prems" esc_def)
  qed
qed simp

text \<open>Against a longer string that is cut no shorter than the other side, only equality can be lost.\<close>

lemma bytes_cmp_take:
  "length xs \<le> n \<Longrightarrow> n < length ys \<Longrightarrow> bytes_cmp xs (take n ys) \<noteq> Greater \<longleftrightarrow> bytes_cmp xs ys = Less"
proof (induction xs ys arbitrary: n rule: bytes_cmp.induct)
  case (2 b bs)
  then show ?case by (cases n) simp_all
next
  case (4 a as b bs)
  obtain m where m: "n = Suc m" using "4.prems"(1) by (cases n) simp_all
  show ?case using "4.IH" [of m] "4.prems" m by (cases "cmp a b") simp_all
qed simp_all

text \<open>What an index admits as a string key, and the key it writes.\<close>

lemma encode_string_key:
  assumes "index_key_encode KUtf8 (SUtf8 s) kb = Some (Ok (), kb')" and "keybuf_ok kb"
  shows "as_bytes kb' = Some (escape s @ [0])" and "length (escape s) < ORDERED_KEY_MAX"
proof -
  have c: "index_scalar_coerce KUtf8 (SUtf8 s) = Ok (SUtf8 s)"
    using assms(1) by (auto simp: index_key_encode_def index_scalar_coerce_def split: if_splits)
  then show "as_bytes kb' = Some (escape s @ [0])" using index_key_encode_Ok [OF c assms(2)] assms(1) by auto
  show "length (escape s) < ORDERED_KEY_MAX"
    using c by (auto simp: index_scalar_coerce_def utf8_encoded_len_escape split: if_splits)
qed

text \<open>
  C26: \<open>index_key_escape_prefix\<close> returns the length of the whole escape image of its argument and writes the image cut
  at the key cap. Both bounds built on it are exact for every string a string index admits and the key the encoder
  writes for it. The string begins with the argument if and only if the image is shorter than the cap and the key
  begins with it; so an image that fills the cap, cut or not, has no match. And when the image fills the cap, the
  string is below the argument if and only if the key is not above the image, although the image may be cut.
\<close>

theorem index_key_prefix_image:
  assumes "keybuf_ok out"
  shows "\<exists>full b image. index_key_escape_prefix p out = Some (full, b) \<and> keybuf_ok b \<and> as_bytes b = Some image \<and>
    full = length (escape p) \<and> image = take ORDERED_KEY_MAX (escape p) \<and>
    (\<forall>s kb kb'. keybuf_ok kb \<longrightarrow> index_key_encode KUtf8 (SUtf8 s) kb = Some (Ok (), kb') \<longrightarrow>
      (\<exists>key. as_bytes kb' = Some key \<and>
        (prefix p s \<longleftrightarrow> full < ORDERED_KEY_MAX \<and> prefix image key) \<and>
        (ORDERED_KEY_MAX \<le> full \<longrightarrow> (bytes_cmp s p = Less \<longleftrightarrow> bytes_cmp key image \<noteq> Greater))))"
proof -
  let ?x = "take ORDERED_KEY_MAX (escape p)"
  have len: "length (kb_bytes out) = ORDERED_KEY_MAX" "length ?x \<le> ORDERED_KEY_MAX" using assms by (simp_all add: keybuf_ok_def)
  have "escape_loop p (kb_bytes out) 0 0 = Some (splice (kb_bytes out) 0 ?x, length ?x, length (escape p))"
    unfolding escape_loop_fold [OF len(1)] by (subst fold_put_bounded) (use len in simp_all)
  then have e: "index_key_escape_prefix p out =
      Some (length (escape p), out\<lparr>kb_bytes := splice (kb_bytes out) 0 ?x, kb_len := of_nat (length ?x)\<rparr>)"
    unfolding index_key_escape_prefix_def by (simp only: option.map prod.case)
  have "\<exists>key. as_bytes kb' = Some key \<and> (prefix p s \<longleftrightarrow> length (escape p) < ORDERED_KEY_MAX \<and> prefix ?x key) \<and>
      (ORDERED_KEY_MAX \<le> length (escape p) \<longrightarrow> (bytes_cmp s p = Less \<longleftrightarrow> bytes_cmp key ?x \<noteq> Greater))"
    if "keybuf_ok kb" "index_key_encode KUtf8 (SUtf8 s) kb = Some (Ok (), kb')" for s kb kb'
  proof -
    note k = encode_string_key [OF that(2,1)]
    have "length (escape p) < ORDERED_KEY_MAX" if "prefix p s" using that k(2) by (auto simp: prefix_def)
    moreover have "bytes_cmp s p = Less \<longleftrightarrow> bytes_cmp (escape s @ [0]) ?x \<noteq> Greater" if "ORDERED_KEY_MAX \<le> length (escape p)"
      using bytes_cmp_take [of "escape s @ [0]" ORDERED_KEY_MAX "escape p @ [0]"] k(2) that by (simp add: escape_order)
    ultimately show ?thesis using k(1) escape_prefix [of p s] by auto
  qed
  then show ?thesis using e as_bytes_splice [OF len] by (intro exI conjI) auto
qed

theorem index_key_prefix_image_witness:
  "\<exists>b. index_key_escape_prefix [0x61, 0] keybuf_new = Some (3, b) \<and> as_bytes b = Some [0x61, 0, 0xFF] \<and>
    (\<exists>kb key. index_key_encode KUtf8 (SUtf8 [0x61, 0, 0x62]) keybuf_new = Some (Ok (), kb) \<and> as_bytes kb = Some key \<and>
      prefix [0x61, 0, 0xFF] key)"
proof -
  let ?s = "[0x61, 0, 0x62] :: bytes"
  have "index_scalar_coerce KUtf8 (SUtf8 ?s) = Ok (SUtf8 ?s)"
    by (simp add: index_scalar_coerce_def utf8_encoded_len_escape esc_def ORDERED_KEY_MAX_def)
  from index_key_encode_Ok [OF this keybuf_new_ok] obtain kb where
    kb: "index_key_encode KUtf8 (SUtf8 ?s) keybuf_new = Some (Ok (), kb)" by blast
  have "escape [0x61, 0] = [0x61, 0, 0xFF]" by (simp add: esc_def)
  then show ?thesis
    using index_key_prefix_image [OF keybuf_new_ok, of "[0x61, 0]"] keybuf_new_ok kb
    by (fastforce simp: ORDERED_KEY_MAX_def)
qed

text \<open>
  C27: a number is admitted by an index of the other numeric type exactly when that type can represent it, and is then
  the same number: the integer to double cast accepts an integer if and only if some double equals it, the double to
  integer cast a double if and only if some \<open>i64\<close> equals it; NaN is refused as such and everything else as inexact.
\<close>

theorem index_coercion_exact:
  "(\<exists>sc. index_scalar_coerce KF64 (SI64 v) = Ok sc) = (\<exists>g. \<not> is_nan g \<and> f64_num g = sint v * 2 ^ 1074) \<and>
   (\<exists>sc. index_scalar_coerce KI64 (SF64 f) = Ok sc) = (\<not> is_nan f \<and> (\<exists>w :: i64. f64_num f = sint w * 2 ^ 1074)) \<and>
   (case index_scalar_coerce KF64 (SI64 v) of Inr sc \<Rightarrow> scalar_num sc = sint v * 2 ^ 1074 | Inl e \<Rightarrow> e = Inexact) \<and>
   (case index_scalar_coerce KI64 (SF64 f) of Inr sc \<Rightarrow> scalar_num sc = f64_num f
      | Inl e \<Rightarrow> e = (if is_nan f then NotANumber else Inexact))"
proof (intro conjI)
  show "(\<exists>sc. index_scalar_coerce KF64 (SI64 v) = Ok sc) = (\<exists>g. \<not> is_nan g \<and> f64_num g = sint v * 2 ^ 1074)"
    using coerce_i64_to_f64_exact f64_of_i64_num(1) [of v] by (auto simp: index_scalar_coerce_def coerce_i64_to_f64_Ok)
  show "(\<exists>sc. index_scalar_coerce KI64 (SF64 f) = Ok sc) = (\<not> is_nan f \<and> (\<exists>w :: i64. f64_num f = sint w * 2 ^ 1074))"
    by (auto simp: index_scalar_coerce_def coerce_f64_to_i64_Ok)
  show "case index_scalar_coerce KF64 (SI64 v) of Inr sc \<Rightarrow> scalar_num sc = sint v * 2 ^ 1074 | Inl e \<Rightarrow> e = Inexact"
    using coerce_i64_to_f64_Ok [of v "SF64 (f64_of_i64 v)"]
    by (auto simp: index_scalar_coerce_def coerce_i64_to_f64_def Let_def)
  show "case index_scalar_coerce KI64 (SF64 f) of Inr sc \<Rightarrow> scalar_num sc = f64_num f
      | Inl e \<Rightarrow> e = (if is_nan f then NotANumber else Inexact)"
  proof (cases "coerce_f64_to_i64 f")
    case (Inl e)
    then show ?thesis by (auto simp: index_scalar_coerce_def coerce_f64_to_i64_def split: if_splits)
  next
    case (Inr sc)
    then show ?thesis using coerce_f64_to_i64_Ok [of f sc] by (auto simp: index_scalar_coerce_def)
  qed
qed

end
