(* ===== verification/Capped.thy ===== *)
theory Capped
  imports Fifo
begin

text \<open>
  \<^verbatim>\<open>crates/inf-foundation/src/bounded\<close>: capped containers. The census (\<^verbatim>\<open>census.rs\<close>) is the state the containers
  of a cell share, passed explicitly; a container's handle is the index of its row and the row's fill. The deque
  (\<^verbatim>\<open>deque.rs\<close>) holds its entries, front first. Assertions of debug builds are not part of the model. The payload's
  size and the allocator's answer are arguments of the constructor; the payload's merge and its \<open>same\<close> test are
  arguments of the operations.
\<close>

section \<open>Model\<close>

definition CAP_CENSUS_ROWS_MAX :: nat where "CAP_CENSUS_ROWS_MAX = 64"
definition DEQUE_BACKING_BYTES_MAX :: nat where "DEQUE_BACKING_BYTES_MAX = 64 * 1024"

datatype CapFill = FillServing | FillAssembly

record Cap =
  cap_name :: string
  cap_entries :: u32
  cap_fill :: CapFill

datatype CapError = CapAlloc | CapLayout | CapCensusError

datatype CensusPhase = Assembling | Serving | Stopping

record CapRow =
  row_name :: string
  row_entries_max :: u32
  row_fill :: CapFill
  row_high_water :: u32
  row_crossings :: u64
  row_assembly_live :: u32

record CapCensus =
  cs_phase :: CensusPhase
  cs_rows :: "CapRow option list"
  cs_violations :: u32

record CapRowHandle =
  rh_index :: nat
  rh_fill :: CapFill

definition saturating_add :: "'a::len word \<Rightarrow> 'a word \<Rightarrow> 'a word" where
  "saturating_add a b = (if unat a + unat b < 2 ^ LENGTH('a) then a + b else - 1)"

subsection \<open>The census\<close>

definition census_new :: CapCensus where
  "census_new = \<lparr>cs_phase = Assembling, cs_rows = replicate CAP_CENSUS_ROWS_MAX None, cs_violations = 0\<rparr>"

definition note_violations :: "u32 \<Rightarrow> CapCensus \<Rightarrow> CapCensus" where
  "note_violations count c =
     (if count = 0 then c else c\<lparr>cs_violations := saturating_add (cs_violations c) count\<rparr>)"

definition short_row :: "CapRow option \<Rightarrow> bool" where
  "short_row r = (case r of None \<Rightarrow> False | Some row \<Rightarrow> row_fill row = FillAssembly \<and> row_assembly_live row < row_entries_max row)"

definition mark_serving :: "CapCensus \<Rightarrow> CapCensus" where
  "mark_serving c =
     note_violations (foldl (\<lambda>short r. if short_row r then saturating_add short 1 else short) 0 (cs_rows c))
       (c\<lparr>cs_phase := Serving\<rparr>)"

definition mark_stopping :: "CapCensus \<Rightarrow> CapCensus" where
  "mark_stopping c = c\<lparr>cs_phase := Stopping\<rparr>"

fun find_index :: "('a \<Rightarrow> bool) \<Rightarrow> 'a list \<Rightarrow> nat option" where
  "find_index P [] = None"
| "find_index P (x # xs) = (if P x then Some 0 else map_option Suc (find_index P xs))"

definition register :: "Cap \<Rightarrow> CapCensus \<Rightarrow> (CapError + CapRowHandle) \<times> CapCensus" where
  "register cap c =
     (let rows = cs_rows c;
          late = (if cap_fill cap = FillAssembly \<and> cs_phase c \<noteq> Assembling then 1 else 0);
          handle = (\<lambda>i. Ok \<lparr>rh_index = i, rh_fill = cap_fill cap\<rparr>)
      in case find_index (\<lambda>r. case r of Some row \<Rightarrow> row_name row = cap_name cap | None \<Rightarrow> False) rows of
           Some i \<Rightarrow>
             (case rows ! i of
                None \<Rightarrow> (Err CapCensusError, c)
              | Some row \<Rightarrow>
                  if \<not> (row_entries_max row = cap_entries cap \<and> row_fill row = cap_fill cap) \<or> cap_fill cap = FillAssembly
                  then (Err CapCensusError, c)
                  else (handle i, note_violations late c))
         | None \<Rightarrow>
             (case find_index (\<lambda>r. r = None) rows of
                None \<Rightarrow> (Err CapCensusError, c)
              | Some i \<Rightarrow>
                  (handle i, note_violations late (c\<lparr>cs_rows := rows[i := Some \<lparr>row_name = cap_name cap,
                     row_entries_max = cap_entries cap, row_fill = cap_fill cap, row_high_water = 0,
                     row_crossings = 0, row_assembly_live = 0\<rparr>]\<rparr>))))"

definition with_row :: "nat \<Rightarrow> (CapRow \<Rightarrow> CapRow) \<Rightarrow> CapCensus \<Rightarrow> CapCensus" where
  "with_row i edit c = c\<lparr>cs_rows := (cs_rows c)[i := map_option edit (cs_rows c ! i)]\<rparr>"

definition late_on :: "CapRowHandle \<Rightarrow> CapCensus \<Rightarrow> u32" where
  "late_on h c = (if rh_fill h = FillAssembly \<and> cs_phase c \<noteq> Assembling then 1 else 0)"

definition report_publish :: "CapRowHandle \<Rightarrow> u32 \<Rightarrow> CapCensus \<Rightarrow> CapCensus" where
  "report_publish h live c =
     note_violations (late_on h c)
       (with_row (rh_index h) (\<lambda>row.
          let row = row\<lparr>row_high_water := max (row_high_water row) live\<rparr>
          in if rh_fill h = FillAssembly then row\<lparr>row_assembly_live := live\<rparr> else row) c)"

definition report_removal :: "CapRowHandle \<Rightarrow> u32 \<Rightarrow> CapCensus \<Rightarrow> CapCensus" where
  "report_removal h live c =
     (if rh_fill h = FillAssembly then with_row (rh_index h) (\<lambda>row. row\<lparr>row_assembly_live := live\<rparr>) c else c)"

definition report_full :: "CapRowHandle \<Rightarrow> CapCensus \<Rightarrow> CapCensus" where
  "report_full h c =
     note_violations (late_on h c)
       (with_row (rh_index h) (\<lambda>row. row\<lparr>row_crossings := saturating_add (row_crossings row) 1\<rparr>) c)"

subsection \<open>The deque\<close>

record 'a CappedDeque =
  dq_backing :: "'a list"
  dq_entries_max :: u32
  dq_high_water :: u32
  dq_row :: CapRowHandle

definition deque_new :: "nat \<Rightarrow> bool \<Rightarrow> Cap \<Rightarrow> CapCensus \<Rightarrow> (CapError + 'a CappedDeque) \<times> CapCensus" where
  "deque_new stride allocated cap c =
     (if cap_fill cap = FillAssembly then (Err CapCensusError, c)
      else if unat (cap_entries cap) * stride \<ge> 2 ^ 64 then (Err CapLayout, c)
      else if unat (cap_entries cap) * stride > DEQUE_BACKING_BYTES_MAX then (Err CapLayout, c)
      else case register cap c of
          (Inl e, c') \<Rightarrow> (Err e, c')
        | (Inr row, c') \<Rightarrow>
            if allocated
            then (Ok \<lparr>dq_backing = [], dq_entries_max = cap_entries cap, dq_high_water = 0, dq_row = row\<rparr>, c')
            else (Err CapAlloc, c'))"

definition published_count :: "'a CappedDeque \<Rightarrow> u32" where
  "published_count d = of_nat (length (dq_backing d))"

definition has_room :: "'a CappedDeque \<Rightarrow> bool" where
  "has_room d \<longleftrightarrow> published_count d < dq_entries_max d"

definition published :: "'a CappedDeque \<Rightarrow> CapCensus \<Rightarrow> 'a CappedDeque \<times> CapCensus" where
  "published d c =
     (let live = published_count d
      in if live > dq_high_water d then (d\<lparr>dq_high_water := live\<rparr>, report_publish (dq_row d) live c) else (d, c))"

definition push_back :: "'a \<Rightarrow> 'a CappedDeque \<Rightarrow> 'a CappedDeque" where
  "push_back v d = d\<lparr>dq_backing := dq_backing d @ [v]\<rparr>"

definition reserve :: "'a CappedDeque \<Rightarrow> CapCensus \<Rightarrow> bool \<times> CapCensus" where
  "reserve d c = (if has_room d then (True, c) else (False, report_full (dq_row d) c))"

definition publish_slot :: "'a \<Rightarrow> 'a CappedDeque \<Rightarrow> CapCensus \<Rightarrow> 'a CappedDeque \<times> CapCensus" where
  "publish_slot v d c = published (push_back v d) c"

definition pop_front :: "'a CappedDeque \<Rightarrow> 'a option \<times> 'a CappedDeque" where
  "pop_front d = (case dq_backing d of [] \<Rightarrow> (None, d) | x # xs \<Rightarrow> (Some x, d\<lparr>dq_backing := xs\<rparr>))"

definition merge_at_cap :: "('a \<Rightarrow> 'a \<Rightarrow> 'a) \<Rightarrow> 'a \<Rightarrow> 'a CappedDeque \<Rightarrow> CapCensus \<Rightarrow> 'a CappedDeque \<times> CapCensus" where
  "merge_at_cap merge v d c =
     (if dq_backing d = [] then d
      else d\<lparr>dq_backing := butlast (dq_backing d) @ [merge (last (dq_backing d)) v]\<rparr>,
      report_full (dq_row d) c)"

definition push :: "('a \<Rightarrow> 'a \<Rightarrow> 'a) \<Rightarrow> 'a \<Rightarrow> 'a CappedDeque \<Rightarrow> CapCensus \<Rightarrow> 'a CappedDeque \<times> CapCensus" where
  "push merge v d c = (if has_room d then published (push_back v d) c else merge_at_cap merge v d c)"

text \<open>One step of \<open>merge_adjacent\<close> takes the front entry and replaces the last or is appended.\<close>

fun merge_loop :: "('a \<Rightarrow> 'a \<Rightarrow> bool) \<Rightarrow> nat \<Rightarrow> bool \<Rightarrow> 'a list \<Rightarrow> 'a list" where
  "merge_loop same 0 kept xs = xs"
| "merge_loop same (Suc n) kept xs =
     (case xs of
        [] \<Rightarrow> []
      | entry # rest \<Rightarrow>
          if rest \<noteq> [] \<and> kept \<and> same (last rest) entry
          then merge_loop same n kept (butlast rest @ [entry])
          else merge_loop same n True (rest @ [entry]))"

definition merge_adjacent :: "('a \<Rightarrow> 'a \<Rightarrow> bool) \<Rightarrow> 'a CappedDeque \<Rightarrow> 'a CappedDeque" where
  "merge_adjacent same d = d\<lparr>dq_backing := merge_loop same (length (dq_backing d)) False (dq_backing d)\<rparr>"

section \<open>Merging neighbours\<close>

text \<open>Of each run of neighbours that are the same, the last entry stays.\<close>

definition merge_spec :: "('a \<Rightarrow> 'a \<Rightarrow> bool) \<Rightarrow> 'a list \<Rightarrow> 'a list" where
  "merge_spec same xs =
     foldl (\<lambda>acc e. if acc \<noteq> [] \<and> same (last acc) e then butlast acc @ [e] else acc @ [e]) [] xs"

lemma merge_loop_spec:
  "merge_loop same (length todo) (acc \<noteq> []) (todo @ acc) =
    foldl (\<lambda>acc e. if acc \<noteq> [] \<and> same (last acc) e then butlast acc @ [e] else acc @ [e]) acc todo"
proof (induction todo arbitrary: acc)
  case (Cons e todo)
  show ?case
  proof (cases "acc = []")
    case True
    then show ?thesis using Cons.IH [of "[e]"] by simp
  next
    case False
    then show ?thesis using Cons.IH [of "butlast acc @ [e]"] Cons.IH [of "acc @ [e]"] by (simp add: butlast_append)
  qed
qed simp

lemma merge_adjacent_spec: "dq_backing (merge_adjacent same d) = merge_spec same (dq_backing d)"
  using merge_loop_spec [of same "dq_backing d" "[]"] by (simp add: merge_adjacent_def merge_spec_def)

lemma merge_spec_length: "length (merge_spec same xs) \<le> length xs"
proof -
  have "length (foldl (\<lambda>acc e. if acc \<noteq> [] \<and> same (last acc) e then butlast acc @ [e] else acc @ [e]) acc xs) \<le>
      length acc + length xs" for acc
  proof (induction xs arbitrary: acc)
    case (Cons x xs)
    show ?case using Cons [of "butlast acc @ [x]"] Cons [of "acc @ [x]"] by (cases "acc = []") simp_all
  qed simp
  from this [of "[]"] show ?thesis by (simp add: merge_spec_def)
qed

lemma merge_spec_snoc:
  "merge_spec same (xs @ [e]) =
    (let acc = merge_spec same xs in if acc \<noteq> [] \<and> same (last acc) e then butlast acc @ [e] else acc @ [e])"
  by (simp add: merge_spec_def Let_def)

lemma merge_spec_last: "xs \<noteq> [] \<Longrightarrow> merge_spec same xs \<noteq> [] \<and> last (merge_spec same xs) = last xs"
  by (induction xs rule: rev_induct) (auto simp: merge_spec_snoc Let_def)

lemma remdups_adj_snoc:
  "remdups_adj (xs @ [x]) = (if xs \<noteq> [] \<and> last xs = x then remdups_adj xs else remdups_adj xs @ [x])"
  by (induction xs rule: remdups_adj.induct) auto

lemma merge_spec_key: "map f (merge_spec (\<lambda>a b. f a = f b) xs) = remdups_adj (map f xs)"
proof (induction xs rule: rev_induct)
  case Nil
  then show ?case by (simp add: merge_spec_def)
next
  case (snoc e xs)
  show ?case
  proof (cases "xs = []")
    case True
    then show ?thesis by (simp add: merge_spec_def)
  next
    case False
    let ?acc = "merge_spec (\<lambda>a b. f a = f b) xs"
    have acc: "?acc \<noteq> []" "last ?acc = last xs" using merge_spec_last [OF False] by auto
    show ?thesis
    proof (cases "f (last xs) = f e")
      case True
      have "map f (butlast ?acc @ [e]) = map f (butlast ?acc @ [last ?acc])" using acc True by simp
      also have "\<dots> = map f ?acc" unfolding append_butlast_last_id [OF acc(1)] ..
      finally show ?thesis using True False acc snoc by (simp add: merge_spec_snoc Let_def remdups_adj_snoc last_map)
    next
      case False
      then show ?thesis using acc snoc \<open>xs \<noteq> []\<close> by (simp add: merge_spec_snoc Let_def remdups_adj_snoc last_map)
    qed
  qed
qed

text \<open>The entries that survive, by their positions: those whose next neighbour is not the same.\<close>

definition run_ends :: "('a \<Rightarrow> 'a \<Rightarrow> bool) \<Rightarrow> 'a list \<Rightarrow> nat list" where
  "run_ends same xs = filter (\<lambda>i. \<not> (Suc i < length xs \<and> same (xs ! i) (xs ! Suc i))) [0..<length xs]"

lemma run_ends_snoc:
  "map ((!) (xs @ [e])) (run_ends same (xs @ [e])) =
    map ((!) xs) (filter (\<lambda>i. \<not> same ((xs @ [e]) ! i) ((xs @ [e]) ! Suc i)) [0..<length xs]) @ [e]"
proof -
  have "run_ends same (xs @ [e]) = filter (\<lambda>i. \<not> same ((xs @ [e]) ! i) ((xs @ [e]) ! Suc i)) [0..<length xs] @ [length xs]"
    by (auto simp: run_ends_def intro!: filter_cong)
  then show ?thesis by (auto simp: nth_append)
qed

lemma merge_spec_run_ends: "merge_spec same xs = map ((!) xs) (run_ends same xs)"
proof (induction xs rule: rev_induct)
  case Nil
  then show ?case by (simp add: merge_spec_def run_ends_def)
next
  case (snoc e xs)
  show ?case
  proof (cases xs rule: rev_cases)
    case Nil
    then show ?thesis by (simp add: merge_spec_def run_ends_def)
  next
    case (snoc ys l)
    let ?front = "map ((!) ys) (filter (\<lambda>i. \<not> same ((ys @ [l]) ! i) ((ys @ [l]) ! Suc i)) [0..<length ys])"
    have acc: "merge_spec same xs = ?front @ [l]" using snoc.IH run_ends_snoc [of ys l same] snoc by simp
    have "map ((!) (ys @ [l])) (filter (\<lambda>i. \<not> same ((ys @ [l, e]) ! i) ((ys @ [l, e]) ! Suc i)) [0..<length ys]) = ?front"
      by (rule map_cong) (auto simp: nth_append less_Suc_eq intro!: filter_cong)
    moreover have "(ys @ [l, e]) ! length ys = l" "(ys @ [l, e]) ! Suc (length ys) = e" "(ys @ [l]) ! length ys = l"
      by (simp_all add: nth_append)
    ultimately have "map ((!) (xs @ [e])) (run_ends same (xs @ [e])) = ?front @ (if same l e then [] else [l]) @ [e]"
      unfolding run_ends_snoc by (simp add: snoc)
    moreover have "merge_spec same (xs @ [e]) = ?front @ (if same l e then [] else [l]) @ [e]"
      using acc by (simp add: merge_spec_snoc Let_def)
    ultimately show ?thesis by simp
  qed
qed

text \<open>
  C30: \<open>merge_adjacent\<close> leaves exactly the last entry of each run of neighbours that \<open>same\<close> calls the same: an entry
  survives if and only if it is the last of the deque or \<open>same\<close> tells it from its next neighbour, whatever relation
  \<open>same\<close> is. The survivors keep their order, cap and high water are untouched, and when \<open>same\<close> compares keys the keys
  are those of the entries with adjacent duplicates removed; all this although it works by rotating the deque through
  itself.
\<close>

theorem merge_adjacent_collapses:
  "dq_backing (merge_adjacent same d) =
     map ((!) (dq_backing d))
       (filter (\<lambda>i. \<not> (Suc i < length (dq_backing d) \<and> same (dq_backing d ! i) (dq_backing d ! Suc i))) [0..<length (dq_backing d)]) \<and>
   merge_adjacent same d = d\<lparr>dq_backing := dq_backing (merge_adjacent same d)\<rparr> \<and>
   map f (dq_backing (merge_adjacent (\<lambda>a b. f a = f b) d)) = remdups_adj (map f (dq_backing d))"
proof (intro conjI)
  show "merge_adjacent same d = d\<lparr>dq_backing := dq_backing (merge_adjacent same d)\<rparr>"
    by (simp add: merge_adjacent_def)
qed (simp_all only: merge_adjacent_spec merge_spec_key merge_spec_run_ends [of same] run_ends_def)

section \<open>A bounded queue\<close>

text \<open>A client reserves and publishes, or keeps its value; it drains by popping.\<close>

definition deque_put :: "'a \<Rightarrow> 'a CappedDeque \<times> CapCensus \<Rightarrow> ('a + unit) \<times> 'a CappedDeque \<times> CapCensus" where
  "deque_put v s =
     (case s of (d, c) \<Rightarrow> case reserve d c of
        (True, c') \<Rightarrow> (Ok (), publish_slot v d c')
      | (False, c') \<Rightarrow> (Err v, d, c'))"

fun pops :: "nat \<Rightarrow> 'a CappedDeque \<Rightarrow> 'a list \<times> 'a CappedDeque" where
  "pops 0 d = ([], d)"
| "pops (Suc n) d =
     (case pop_front d of (None, d') \<Rightarrow> ([], d') | (Some v, d') \<Rightarrow> (case pops n d' of (vs, d'') \<Rightarrow> (v # vs, d'')))"

definition deque_get :: "usize \<Rightarrow> 'a CappedDeque \<times> CapCensus \<Rightarrow> 'a list \<times> 'a CappedDeque \<times> CapCensus" where
  "deque_get n s = (case s of (d, c) \<Rightarrow> case pops (unat n) d of (vs, d') \<Rightarrow> (vs, d', c))"

definition deque_ok :: "'a CappedDeque \<Rightarrow> bool" where
  "deque_ok d \<longleftrightarrow> length (dq_backing d) \<le> unat (dq_high_water d) \<and> unat (dq_high_water d) \<le> unat (dq_entries_max d) \<and>
     0 < unat (dq_entries_max d)"

lemma published_count_nat: "deque_ok d \<Longrightarrow> unat (published_count d) = length (dq_backing d)"
  using unat_less_u32 [of "dq_entries_max d"]
  by (simp add: published_count_def deque_ok_def unat_of_nat_u32)

lemma has_room_iff: "deque_ok d \<Longrightarrow> has_room d \<longleftrightarrow> length (dq_backing d) < unat (dq_entries_max d)"
  using published_count_nat [of d] by (simp add: has_room_def word_less_nat_alt)

lemma published_deque:
  assumes "published d c = (d', c')"
  shows "dq_backing d' = dq_backing d" and "dq_entries_max d' = dq_entries_max d" and "dq_row d' = dq_row d"
    and "dq_high_water d' = max (dq_high_water d) (published_count d)"
    and "c' = (if published_count d > dq_high_water d then report_publish (dq_row d) (published_count d) c else c)"
  using assms by (auto simp: published_def Let_def max_def split: if_splits)

lemma push_back_ok:
  assumes "deque_ok d" and "has_room d" and "published (push_back v d) c = (d', c')"
  shows "deque_ok d'" and "dq_backing d' = dq_backing d @ [v]" and "unat (published_count (push_back v d)) = Suc (length (dq_backing d))"
proof -
  have lt: "Suc (length (dq_backing d)) \<le> unat (dq_entries_max d)" using assms(1,2) has_room_iff by fastforce
  then show u: "unat (published_count (push_back v d)) = Suc (length (dq_backing d))"
    using unat_less_u32 [of "dq_entries_max d"] by (simp add: published_count_def push_back_def unat_of_nat_u32 del: of_nat_Suc)
  note p = published_deque [OF assms(3)]
  show "dq_backing d' = dq_backing d @ [v]" using p(1) by (simp add: push_back_def)
  show "deque_ok d'" using p(1,2,4) assms(1) lt u
    by (auto simp: deque_ok_def push_back_def max_def word_le_nat_alt)
qed

lemma pops_spec: "pops n d = (take n (dq_backing d), d\<lparr>dq_backing := drop n (dq_backing d)\<rparr>)"
  by (induction n d rule: pops.induct) (auto simp: pop_front_def split: list.splits)

interpretation capped: bounded_fifo "\<lambda>s. deque_ok (fst s)" "\<lambda>s. dq_backing (fst s)" "\<lambda>s. unat (dq_entries_max (fst s))"
  deque_put deque_get
proof
  fix s :: "'a CappedDeque \<times> CapCensus" and v r s'
  assume ok: "deque_ok (fst s)" and put: "deque_put v s = (r, s')"
  obtain d c where s: "s = (d, c)" by fastforce
  show "deque_ok (fst s') \<and> unat (dq_entries_max (fst s')) = unat (dq_entries_max (fst s)) \<and>
      (r, dq_backing (fst s')) = list_put (unat (dq_entries_max (fst s))) v (dq_backing (fst s))"
  proof (cases "has_room d")
    case True
    obtain d' c' where p: "published (push_back v d) c = (d', c')" by fastforce
    then have "r = Ok ()" "s' = (d', c')"
      using True put s by (auto simp: deque_put_def reserve_def publish_slot_def)
    then show ?thesis using push_back_ok [OF _ True p] published_deque(2) [OF p] True has_room_iff [of d] ok s
      by (simp add: list_put_def push_back_def)
  next
    case False
    then show ?thesis using put s ok has_room_iff [of d] by (auto simp: deque_put_def reserve_def list_put_def)
  qed
next
  fix s :: "'a CappedDeque \<times> CapCensus" and n vs s'
  assume "deque_ok (fst s)" and "deque_get n s = (vs, s')"
  then show "deque_ok (fst s') \<and> unat (dq_entries_max (fst s')) = unat (dq_entries_max (fst s)) \<and>
      (vs, dq_backing (fst s')) = list_get n (dq_backing (fst s))"
    by (auto simp: deque_get_def pops_spec list_get_def deque_ok_def split: prod.splits)
qed

text \<open>
  C29: a capped deque is a bounded queue: every sequence of reserve-and-publish and pop calls answers as the list
  queue of the cap's length does, for any census, and the deque never holds more than its cap.
\<close>

theorem capped_deque_refines_queue:
  assumes "deque_new stride True cap c = (Ok d, c')" and "cap_entries cap \<noteq> 0"
    and "fifo_run deque_put deque_get ops (d, c') = (outs, d'', c'')"
  shows "fifo_run (list_put (unat (cap_entries cap))) list_get ops [] = (outs, dq_backing d'') \<and>
    length (dq_backing d'') \<le> unat (cap_entries cap)"
proof -
  have d: "deque_ok d" "dq_backing d = []" "dq_entries_max d = cap_entries cap"
    using assms(1,2) by (auto simp: deque_new_def deque_ok_def unat_gt_0 split: if_splits prod.splits sum.splits)
  from capped.run_refines [of "(d, c')", OF _ assms(3)] d
  have "fifo_run (list_put (unat (cap_entries cap))) list_get ops [] = (outs, dq_backing d'')" by simp
  moreover have "length (dq_backing d'') \<le> unat (cap_entries cap)"
    using capped.items_bounded [of "(d, c')", OF _ _ assms(3)] d by simp
  ultimately show ?thesis by blast
qed

definition two_cap :: Cap where
  "two_cap = \<lparr>cap_name = ''marks'', cap_entries = 2, cap_fill = FillServing\<rparr>"

lemma find_index_replicate: "find_index P (replicate n x) = (if P x \<and> 0 < n then Some 0 else None)"
  by (induction n) auto

lemma two_cap_new:
  "\<exists>d c. deque_new 8 True two_cap census_new = (Ok d :: CapError + nat CappedDeque, c) \<and> dq_backing d = []"
  by (simp add: deque_new_def two_cap_def register_def census_new_def CAP_CENSUS_ROWS_MAX_def
      DEQUE_BACKING_BYTES_MAX_def Let_def find_index_replicate)

theorem capped_deque_refines_queue_witness:
  "\<exists>d c d' c' outs. deque_new 8 True two_cap census_new = (Ok d :: CapError + nat CappedDeque, c) \<and>
    fifo_run deque_put deque_get [Put 1, Put 2, Put 3, Get 1] (d, c) = (outs, d', c') \<and>
    outs = [Accepted, Accepted, Refused 3, Got [1]] \<and> dq_backing d' = [2]"
proof -
  obtain d :: "nat CappedDeque" and c where d: "deque_new 8 True two_cap census_new = (Ok d, c)" using two_cap_new by blast
  obtain outs d' c' where r: "fifo_run deque_put deque_get [Put 1, Put 2, Put 3, Get 1] (d, c) = (outs, d', c')"
    by (metis prod_cases3)
  have "cap_entries two_cap \<noteq> 0" by (simp add: two_cap_def)
  from capped_deque_refines_queue [OF d this r] have "outs = [Accepted, Accepted, Refused 3, Got [1]]" "dq_backing d' = [2]"
    by (auto simp: two_cap_def list_put_def list_get_def)
  with d r show ?thesis by blast
qed

section \<open>The containers of a cell and its census\<close>

text \<open>
  A cell: the census, the deques built on it and, for the statement, how often each row was crossed. A step is one
  call on the census or on one deque.
\<close>

record 'a cell =
  cl_census :: CapCensus
  cl_deques :: "'a CappedDeque list"
  cl_crossed :: "nat \<Rightarrow> nat"

definition crossed_once :: "'a CappedDeque \<Rightarrow> (nat \<Rightarrow> nat) \<Rightarrow> nat \<Rightarrow> nat" where
  "crossed_once d n = n(rh_index (dq_row d) := Suc (n (rh_index (dq_row d))))"

inductive cell_step :: "'a cell \<Rightarrow> 'a cell \<Rightarrow> bool" where
  New: "deque_new stride allocated cap (cl_census s) = (Ok d, c') \<Longrightarrow> cap_entries cap \<noteq> 0 \<Longrightarrow>
    cell_step s (s\<lparr>cl_census := c', cl_deques := cl_deques s @ [d]\<rparr>)"
| New_refused: "deque_new stride allocated cap (cl_census s) = (Err e :: CapError + 'a CappedDeque, c') \<Longrightarrow>
    cap_entries cap \<noteq> 0 \<Longrightarrow> cell_step s (s\<lparr>cl_census := c'\<rparr>)"
| Publish: "k < length (cl_deques s) \<Longrightarrow> reserve (cl_deques s ! k) (cl_census s) = (True, c) \<Longrightarrow>
    publish_slot v (cl_deques s ! k) c = (d', c') \<Longrightarrow>
    cell_step s (s\<lparr>cl_census := c', cl_deques := (cl_deques s)[k := d']\<rparr>)"
| Full: "k < length (cl_deques s) \<Longrightarrow> reserve (cl_deques s ! k) (cl_census s) = (False, c') \<Longrightarrow>
    cell_step s (s\<lparr>cl_census := c', cl_crossed := crossed_once (cl_deques s ! k) (cl_crossed s)\<rparr>)"
| Push: "k < length (cl_deques s) \<Longrightarrow> push merge v (cl_deques s ! k) (cl_census s) = (d', c') \<Longrightarrow>
    cell_step s (s\<lparr>cl_census := c', cl_deques := (cl_deques s)[k := d'],
      cl_crossed := (if has_room (cl_deques s ! k) then cl_crossed s else crossed_once (cl_deques s ! k) (cl_crossed s))\<rparr>)"
| Pop: "k < length (cl_deques s) \<Longrightarrow> pop_front (cl_deques s ! k) = (r, d') \<Longrightarrow>
    cell_step s (s\<lparr>cl_deques := (cl_deques s)[k := d']\<rparr>)"
| Merge_adjacent: "k < length (cl_deques s) \<Longrightarrow>
    cell_step s (s\<lparr>cl_deques := (cl_deques s)[k := merge_adjacent same (cl_deques s ! k)]\<rparr>)"
| Mark_serving: "cs_phase (cl_census s) = Assembling \<Longrightarrow> cell_step s (s\<lparr>cl_census := mark_serving (cl_census s)\<rparr>)"
| Mark_stopping: "cell_step s (s\<lparr>cl_census := mark_stopping (cl_census s)\<rparr>)"

inductive cell_reachable :: "'a cell \<Rightarrow> bool" where
  "cell_reachable \<lparr>cl_census = census_new, cl_deques = [], cl_crossed = (\<lambda>_. 0)\<rparr>"
| "cell_reachable s \<Longrightarrow> cell_step s s' \<Longrightarrow> cell_reachable s'"

text \<open>A deque is within its cap and its row is the row of its cap.\<close>

definition deque_on :: "CapRow option list \<Rightarrow> 'a CappedDeque \<Rightarrow> bool" where
  "deque_on rows d \<longleftrightarrow> deque_ok d \<and> rh_fill (dq_row d) = FillServing \<and> rh_index (dq_row d) < length rows \<and>
     (\<exists>row. rows ! rh_index (dq_row d) = Some row \<and> row_entries_max row = dq_entries_max d)"

text \<open>The row's high water is the largest of its instances, its crossings their number, saturating.\<close>

definition row_on :: "'a CappedDeque list \<Rightarrow> (nat \<Rightarrow> nat) \<Rightarrow> nat \<Rightarrow> CapRow \<Rightarrow> bool" where
  "row_on ds crossed i row \<longleftrightarrow> row_fill row = FillServing \<and>
     (\<forall>d\<in>set ds. rh_index (dq_row d) = i \<longrightarrow> dq_high_water d \<le> row_high_water row) \<and>
     (row_high_water row = 0 \<or> (\<exists>d\<in>set ds. rh_index (dq_row d) = i \<and> dq_high_water d = row_high_water row)) \<and>
     unat (row_crossings row) = min (crossed i) (2 ^ 64 - 1)"

definition names_distinct :: "CapRow option list \<Rightarrow> bool" where
  "names_distinct rows \<longleftrightarrow> (\<forall>i j row row'. i < length rows \<longrightarrow> j < length rows \<longrightarrow> rows ! i = Some row \<longrightarrow> rows ! j = Some row' \<longrightarrow>
     row_name row = row_name row' \<longrightarrow> i = j)"

definition cell_inv :: "'a cell \<Rightarrow> bool" where
  "cell_inv s \<longleftrightarrow> length (cs_rows (cl_census s)) = CAP_CENSUS_ROWS_MAX \<and> cs_violations (cl_census s) = 0 \<and>
     names_distinct (cs_rows (cl_census s)) \<and>
     (\<forall>d\<in>set (cl_deques s). deque_on (cs_rows (cl_census s)) d) \<and>
     (\<forall>i<length (cs_rows (cl_census s)). (cs_rows (cl_census s) ! i = None \<longrightarrow> cl_crossed s i = 0) \<and>
        (\<forall>row. cs_rows (cl_census s) ! i = Some row \<longrightarrow> row_on (cl_deques s) (cl_crossed s) i row))"

lemma cell_inv_rows:
  assumes "cell_inv s" and "i < length (cs_rows (cl_census s))"
  shows "cs_rows (cl_census s) ! i = None \<Longrightarrow> cl_crossed s i = 0"
    and "cs_rows (cl_census s) ! i = Some row \<Longrightarrow> row_on (cl_deques s) (cl_crossed s) i row"
  using assms by (auto simp: cell_inv_def)

lemma find_index_Some: "find_index P xs = Some i \<Longrightarrow> i < length xs \<and> P (xs ! i)"
  by (induction xs arbitrary: i) (auto split: if_splits)

lemma find_index_None: "find_index P xs = None \<Longrightarrow> i < length xs \<Longrightarrow> \<not> P (xs ! i)"
  by (induction xs arbitrary: i) (auto split: if_splits simp: nth_Cons')

lemma rows_with_row [simp]:
  "length (cs_rows (with_row i f c)) = length (cs_rows c)" "cs_violations (with_row i f c) = cs_violations c"
  "cs_phase (with_row i f c) = cs_phase c"
  "j < length (cs_rows c) \<Longrightarrow> cs_rows (with_row i f c) ! j = (if i = j then map_option f (cs_rows c ! i) else cs_rows c ! j)"
  by (auto simp: with_row_def nth_list_update)

lemma with_row_Some:
  assumes "j < length (cs_rows c)" and "cs_rows (with_row i f c) ! j = Some row"
  obtains row0 where "cs_rows c ! j = Some row0" "row = (if i = j then f row0 else row0)"
  using assms by (cases "i = j") auto

lemma report_publish_serving:
  "rh_fill h = FillServing \<Longrightarrow> report_publish h live c =
    with_row (rh_index h) (\<lambda>row. row\<lparr>row_high_water := max (row_high_water row) live\<rparr>) c"
  by (simp add: report_publish_def late_on_def note_violations_def Let_def)

lemma report_full_serving:
  "rh_fill h = FillServing \<Longrightarrow> report_full h c =
    with_row (rh_index h) (\<lambda>row. row\<lparr>row_crossings := saturating_add (row_crossings row) 1\<rparr>) c"
  by (simp add: report_full_def late_on_def note_violations_def)

lemma saturating_inc: "unat (saturating_add (x :: u64) 1) = min (Suc (unat x)) (2 ^ 64 - 1)"
proof (cases "unat x + 1 < 2 ^ 64")
  case True
  then have "unat (x + 1) = Suc (unat x)" by (simp add: unat_word_ariths)
  then show ?thesis using True by (simp add: saturating_add_def)
next
  case False
  then have "unat x = 2 ^ 64 - 1" using unat_less_u64 [of x] by simp
  then show ?thesis by (simp add: saturating_add_def unsigned_minus_1_eq_mask mask_eq_exp_minus_1)
qed

lemma saturating_count: "unat x = min n (2 ^ 64 - 1) \<Longrightarrow> unat (saturating_add (x :: u64) 1) = min (Suc n) (2 ^ 64 - 1)"
  by (simp add: saturating_inc min_def)

lemma names_distinct_with_row:
  "names_distinct (cs_rows c) \<Longrightarrow> (\<And>row. row_name (f row) = row_name row) \<Longrightarrow> names_distinct (cs_rows (with_row i f c))"
  unfolding names_distinct_def by (auto split: if_splits)

lemma deque_on_with_row:
  "deque_on (cs_rows c) d \<Longrightarrow> (\<And>row. row_entries_max (f row) = row_entries_max row) \<Longrightarrow> deque_on (cs_rows (with_row i f c)) d"
  by (auto simp: deque_on_def)

lemma set_update_split: "k < length xs \<Longrightarrow> x \<in> set (xs[k := y]) \<Longrightarrow> x = y \<or> (\<exists>j<length xs. j \<noteq> k \<and> x = xs ! j)"
  by (auto simp: in_set_conv_nth nth_list_update split: if_splits)

lemma all_update: "\<forall>x\<in>set xs. P x \<Longrightarrow> P y \<Longrightarrow> \<forall>x\<in>set (xs[k := y]). P x"
  using set_update_subset_insert [of xs k y] by blast

lemma cell_inv_deques: "cell_inv s \<Longrightarrow> \<forall>d\<in>set (cl_deques s). deque_on (cs_rows (cl_census s)) d"
  by (simp add: cell_inv_def)

lemma cell_inv_deque_ok: "cell_inv s \<Longrightarrow> k < length (cl_deques s) \<Longrightarrow> deque_ok (cl_deques s ! k)"
  using cell_inv_deques [of s] by (simp add: deque_on_def)

lemma in_update_other: "j < length xs \<Longrightarrow> j \<noteq> k \<Longrightarrow> xs ! j \<in> set (xs[k := y])"
  by (metis length_list_update nth_list_update_neq nth_mem)

lemma row_on_update:
  assumes "row_on ds crossed i row" and "k < length ds" and "dq_row d' = dq_row (ds ! k)"
    and "dq_high_water (ds ! k) \<le> dq_high_water d'"
  shows "row_on (ds[k := d']) crossed i
    (if rh_index (dq_row d') = i then row\<lparr>row_high_water := max (row_high_water row) (dq_high_water d')\<rparr> else row)"
proof -
  have le: "rh_index (dq_row d) = i \<Longrightarrow> dq_high_water d \<le> row_high_water row" if "d \<in> set ds" for d
    using assms(1) that by (auto simp: row_on_def)
  have new: "d' \<in> set (ds[k := d'])" using assms(2) by (simp add: set_update_memI)
  show ?thesis
  proof (cases "rh_index (dq_row d') = i")
    case True
    have "max (row_high_water row) (dq_high_water d') = 0 \<or>
        (\<exists>d\<in>set (ds[k := d']). rh_index (dq_row d) = i \<and> dq_high_water d = max (row_high_water row) (dq_high_water d'))"
    proof (cases "row_high_water row \<le> dq_high_water d'")
      case True
      then show ?thesis using new \<open>rh_index (dq_row d') = i\<close> by (auto simp: max_def)
    next
      case False
      then have "row_high_water row \<noteq> 0" by (auto simp: word_le_nat_alt)
      then obtain d where d: "d \<in> set ds" "rh_index (dq_row d) = i" "dq_high_water d = row_high_water row"
        using assms(1) by (auto simp: row_on_def)
      then obtain j where j: "j < length ds" "ds ! j = d" by (auto simp: in_set_conv_nth)
      have "j \<noteq> k" using False d(3) j(2) assms(4) by auto
      then show ?thesis using in_update_other [OF j(1), of k d'] j(2) d False by (auto simp: max_def)
    qed
    moreover have "dq_high_water d \<le> max (row_high_water row) (dq_high_water d')"
      if "d \<in> set (ds[k := d'])" "rh_index (dq_row d) = i" for d
      using set_update_split [OF assms(2) that(1)] le that(2) by (auto simp: le_max_iff_disj)
    ultimately show ?thesis using assms(1) True by (simp add: row_on_def)
  next
    case False
    then have "\<And>d. rh_index (dq_row d) = i \<Longrightarrow> d \<in> set (ds[k := d']) \<longleftrightarrow> d \<in> set ds"
      using assms(2,3) by (auto simp: in_set_conv_nth nth_list_update)
    then show ?thesis using assms(1) False by (auto simp: row_on_def)
  qed
qed

lemma inv_update_deque:
  assumes "cell_inv s" and "k < length (cl_deques s)" and "deque_ok d'"
    and "dq_row d' = dq_row (cl_deques s ! k)" and "dq_entries_max d' = dq_entries_max (cl_deques s ! k)"
    and "dq_high_water d' = dq_high_water (cl_deques s ! k)"
  shows "cell_inv (s\<lparr>cl_deques := (cl_deques s)[k := d']\<rparr>)"
proof -
  let ?ds = "cl_deques s" and ?rows = "cs_rows (cl_census s)"
  have mem: "?ds ! k \<in> set ?ds" using assms(2) by simp
  then have on: "deque_on ?rows (?ds ! k)" using assms(1) by (simp add: cell_inv_def)
  then have "deque_on ?rows d'" using assms by (auto simp: deque_on_def)
  then have "\<forall>d\<in>set (?ds[k := d']). deque_on ?rows d" by (rule all_update [OF cell_inv_deques [OF assms(1)]])
  moreover have "row_on (?ds[k := d']) (cl_crossed s) i row" if "i < length ?rows" "?rows ! i = Some row" for i row
  proof -
    have r: "row_on ?ds (cl_crossed s) i row" using cell_inv_rows(2) [OF assms(1)] that by blast
    have "rh_index (dq_row d') = i \<Longrightarrow> max (row_high_water row) (dq_high_water d') = row_high_water row"
      using r mem assms(4,6) by (auto simp: row_on_def max_def)
    with row_on_update [OF r assms(2,4)] assms(6) show ?thesis by (simp split: if_splits)
  qed
  ultimately show ?thesis using assms(1) by (simp add: cell_inv_def)
qed

lemma inv_raise:
  assumes "cell_inv s" and "k < length (cl_deques s)" and "deque_ok d'"
    and "dq_row d' = dq_row (cl_deques s ! k)" and "dq_entries_max d' = dq_entries_max (cl_deques s ! k)"
    and "dq_high_water (cl_deques s ! k) \<le> dq_high_water d'"
  shows "cell_inv (s\<lparr>cl_census := report_publish (dq_row d') (dq_high_water d') (cl_census s), cl_deques := (cl_deques s)[k := d']\<rparr>)"
proof -
  let ?ds = "cl_deques s" and ?c = "cl_census s" and ?i = "rh_index (dq_row d')"
  let ?f = "\<lambda>row. row\<lparr>row_high_water := max (row_high_water row) (dq_high_water d')\<rparr>"
  have mem: "?ds ! k \<in> set ?ds" using assms(2) by simp
  then have on: "deque_on (cs_rows ?c) (?ds ! k)" using assms(1) by (simp add: cell_inv_def)
  then have f: "rh_fill (dq_row d') = FillServing" and on': "deque_on (cs_rows ?c) d'" using assms by (auto simp: deque_on_def)
  let ?c' = "with_row ?i ?f ?c"
  have "\<forall>d\<in>set (?ds[k := d']). deque_on (cs_rows ?c) d" using on' by (rule all_update [OF cell_inv_deques [OF assms(1)]])
  then have "\<forall>d\<in>set (?ds[k := d']). deque_on (cs_rows ?c') d" by (auto intro: deque_on_with_row)
  moreover have "names_distinct (cs_rows ?c')" using assms(1) by (auto simp: cell_inv_def intro: names_distinct_with_row)
  moreover have "row_on (?ds[k := d']) (cl_crossed s) i row" if row: "i < length (cs_rows ?c)" "cs_rows ?c' ! i = Some row" for i row
  proof -
    obtain row0 where r: "cs_rows ?c ! i = Some row0" "row = (if ?i = i then ?f row0 else row0)"
      using with_row_Some [OF row] .
    from row_on_update [OF cell_inv_rows(2) [OF assms(1) row(1) r(1)] assms(2,4,6)] r(2) show ?thesis by simp
  qed
  moreover have "cs_rows ?c' ! i = None \<Longrightarrow> cl_crossed s i = 0" if "i < length (cs_rows ?c)" for i
    using cell_inv_rows(1) [OF assms(1) that] that by (auto split: if_splits)
  ultimately show ?thesis using assms(1) unfolding report_publish_serving [OF f] by (simp add: cell_inv_def)
qed

lemma inv_crossing:
  assumes "cell_inv s" and "k < length (cl_deques s)"
  shows "cell_inv (s\<lparr>cl_census := report_full (dq_row (cl_deques s ! k)) (cl_census s),
    cl_crossed := crossed_once (cl_deques s ! k) (cl_crossed s)\<rparr>)"
proof -
  let ?ds = "cl_deques s" and ?c = "cl_census s"
  let ?d = "?ds ! k"
  let ?i = "rh_index (dq_row ?d)"
  let ?f = "\<lambda>row. row\<lparr>row_crossings := saturating_add (row_crossings row) 1\<rparr>"
  have "?d \<in> set ?ds" using assms(2) by simp
  then have on: "deque_on (cs_rows ?c) ?d" using assms(1) by (simp add: cell_inv_def)
  then have f: "rh_fill (dq_row ?d) = FillServing" by (simp add: deque_on_def)
  let ?c' = "with_row ?i ?f ?c"
  have "\<forall>d\<in>set ?ds. deque_on (cs_rows ?c') d" using assms(1) by (auto simp: cell_inv_def intro: deque_on_with_row)
  moreover have "names_distinct (cs_rows ?c')" using assms(1) by (auto simp: cell_inv_def intro: names_distinct_with_row)
  moreover have "row_on ?ds (crossed_once ?d (cl_crossed s)) i row" if row: "i < length (cs_rows ?c)" "cs_rows ?c' ! i = Some row" for i row
  proof -
    obtain row0 where r: "cs_rows ?c ! i = Some row0" "row = (if ?i = i then ?f row0 else row0)"
      using with_row_Some [OF row] .
    from cell_inv_rows(2) [OF assms(1) row(1) r(1)] r(2) saturating_count [of "row_crossings row0" "cl_crossed s i"]
    show ?thesis by (cases "?i = i") (auto simp: row_on_def crossed_once_def)
  qed
  moreover have "cs_rows ?c' ! i = None \<Longrightarrow> crossed_once ?d (cl_crossed s) i = 0" if "i < length (cs_rows ?c)" for i
    using cell_inv_rows(1) [OF assms(1) that] that on by (auto simp: deque_on_def crossed_once_def split: if_splits)
  ultimately show ?thesis using assms(1) unfolding report_full_serving [OF f] by (simp add: cell_inv_def)
qed

lemma inv_add_deque:
  assumes "cell_inv s" and "deque_on (cs_rows (cl_census s)) d" and "dq_high_water d = 0"
  shows "cell_inv (s\<lparr>cl_deques := cl_deques s @ [d]\<rparr>)"
proof -
  have "row_on (cl_deques s @ [d]) crossed i row" if "row_on (cl_deques s) crossed i row" for crossed i row
    using that assms(3) by (auto simp: row_on_def)
  then show ?thesis using assms(1,2) by (auto simp: cell_inv_def)
qed

lemma names_distinct_update:
  assumes "names_distinct rows" and "i < length rows"
    and "\<And>j row'. j < length rows \<Longrightarrow> rows ! j = Some row' \<Longrightarrow> row_name row' \<noteq> row_name row"
  shows "names_distinct (rows[i := Some row])"
  unfolding names_distinct_def
proof (intro allI impI)
  fix j k r r'
  assume j: "j < length (rows[i := Some row])" "rows[i := Some row] ! j = Some r"
    and k: "k < length (rows[i := Some row])" "rows[i := Some row] ! k = Some r'" and eq: "row_name r = row_name r'"
  consider "j = i \<and> k = i" | "j = i \<and> k \<noteq> i" | "j \<noteq> i \<and> k = i" | "j \<noteq> i \<and> k \<noteq> i" by blast
  then show "j = k"
  proof cases
    case 2
    then have "rows ! k = Some r'" "r = row" using j k assms(2) by auto
    then show ?thesis using assms(3) [of k r'] k(1) eq by simp
  next
    case 3
    then have "rows ! j = Some r" "r' = row" using j k assms(2) by auto
    then show ?thesis using assms(3) [of j r] j(1) eq by simp
  next
    case 4
    then have "rows ! j = Some r" "rows ! k = Some r'" using j k by auto
    then show ?thesis using assms(1) j(1) k(1) eq unfolding names_distinct_def by (metis length_list_update)
  qed simp
qed

lemma inv_new_row:
  assumes "cell_inv s" and "i < length (cs_rows (cl_census s))" and "cs_rows (cl_census s) ! i = None"
    and "\<And>j row'. j < length (cs_rows (cl_census s)) \<Longrightarrow> cs_rows (cl_census s) ! j = Some row' \<Longrightarrow> row_name row' \<noteq> row_name row"
    and "row_fill row = FillServing" and "row_high_water row = 0" and "row_crossings row = 0"
  shows "cell_inv (s\<lparr>cl_census := (cl_census s)\<lparr>cs_rows := (cs_rows (cl_census s))[i := Some row]\<rparr>\<rparr>)"
proof -
  let ?rows = "cs_rows (cl_census s)"
  let ?rows' = "?rows[i := Some row]"
  have on: "\<forall>d\<in>set (cl_deques s). deque_on ?rows' d"
  proof
    fix d assume "d \<in> set (cl_deques s)"
    then have "deque_on ?rows d" using assms(1) by (simp add: cell_inv_def)
    then show "deque_on ?rows' d" using assms(2,3) by (auto simp: deque_on_def nth_list_update)
  qed
  have none: "rh_index (dq_row d) \<noteq> i" if "d \<in> set (cl_deques s)" for d
    using cell_inv_deques [OF assms(1)] that assms(3) by (auto simp: deque_on_def)
  have "names_distinct ?rows'"
    using assms(1) by (intro names_distinct_update [OF _ assms(2,4)]) (simp add: cell_inv_def)
  moreover have "row_on (cl_deques s) (cl_crossed s) j r" if "j < length ?rows" "?rows' ! j = Some r" for j r
  proof (cases "j = i")
    case True
    then show ?thesis using that assms(2,5-7) none cell_inv_rows(1) [OF assms(1,2,3)] by (auto simp: row_on_def)
  next
    case False
    then show ?thesis using that cell_inv_rows(2) [OF assms(1) that(1)] by simp
  qed
  moreover have "cl_crossed s j = 0" if "j < length ?rows" "?rows' ! j = None" for j
    using that cell_inv_rows(1) [OF assms(1) that(1)] assms(2) by (auto simp: nth_list_update split: if_splits)
  ultimately show ?thesis using assms(1) on by (simp add: cell_inv_def)
qed

lemma register_inv:
  assumes "cell_inv s" and "cap_fill cap = FillServing" and "register cap (cl_census s) = (r, c')"
  shows "cell_inv (s\<lparr>cl_census := c'\<rparr>)"
    and "r = Ok h \<Longrightarrow> rh_fill h = FillServing \<and> rh_index h < length (cs_rows c') \<and>
      (\<exists>row. cs_rows c' ! rh_index h = Some row \<and> row_entries_max row = cap_entries cap)"
proof -
  let ?c = "cl_census s"
  let ?P = "\<lambda>r. case r of Some row \<Rightarrow> row_name row = cap_name cap | None \<Rightarrow> False"
  have nv: "note_violations 0 c = c" for c by (simp add: note_violations_def)
  have "cell_inv (s\<lparr>cl_census := c'\<rparr>) \<and> (\<forall>h. r = Ok h \<longrightarrow> rh_fill h = FillServing \<and> rh_index h < length (cs_rows c') \<and>
      (\<exists>row. cs_rows c' ! rh_index h = Some row \<and> row_entries_max row = cap_entries cap))"
  proof (cases "find_index ?P (cs_rows ?c)")
    case (Some i)
    obtain row where "i < length (cs_rows ?c)" "cs_rows ?c ! i = Some row"
      using find_index_Some [OF Some] by (cases "cs_rows ?c ! i") auto
    then show ?thesis using assms Some by (auto simp: register_def Let_def nv split: if_splits)
  next
    case None
    note fresh = find_index_None [OF None]
    show ?thesis
    proof (cases "find_index (\<lambda>r. r = None) (cs_rows ?c)")
      case N: None
      then show ?thesis using assms None by (auto simp: register_def)
    next
      case (Some i)
      note i = find_index_Some [OF Some]
      let ?row = "\<lparr>row_name = cap_name cap, row_entries_max = cap_entries cap, row_fill = cap_fill cap, row_high_water = 0,
        row_crossings = 0, row_assembly_live = 0\<rparr>"
      have c': "c' = ?c\<lparr>cs_rows := (cs_rows ?c)[i := Some ?row]\<rparr>" "r = Ok \<lparr>rh_index = i, rh_fill = cap_fill cap\<rparr>"
        using assms(2,3) None Some by (auto simp: register_def Let_def nv)
      have "row_name row' \<noteq> cap_name cap" if "j < length (cs_rows ?c)" "cs_rows ?c ! j = Some row'" for j row'
        using fresh [OF that(1)] that(2) by simp
      then show ?thesis using inv_new_row [OF assms(1), of i ?row] i assms(2) unfolding c' by simp
    qed
  qed
  then show "cell_inv (s\<lparr>cl_census := c'\<rparr>)"
    "r = Ok h \<Longrightarrow> rh_fill h = FillServing \<and> rh_index h < length (cs_rows c') \<and>
      (\<exists>row. cs_rows c' ! rh_index h = Some row \<and> row_entries_max row = cap_entries cap)" by blast+
qed

lemma new_inv:
  fixes s :: "'a cell"
  assumes "cell_inv s" and "deque_new stride allocated cap (cl_census s) = (r, c')" and "cap_entries cap \<noteq> 0"
  shows "case r of Inl e \<Rightarrow> cell_inv (s\<lparr>cl_census := c'\<rparr>)
    | Inr d \<Rightarrow> cell_inv (s\<lparr>cl_census := c', cl_deques := cl_deques s @ [d]\<rparr>)"
proof (cases "cap_fill cap = FillAssembly \<or> DEQUE_BACKING_BYTES_MAX < unat (cap_entries cap) * stride \<or>
    2 ^ 64 \<le> unat (cap_entries cap) * stride")
  case True
  then show ?thesis using assms(1,2) by (auto simp: deque_new_def split: if_splits)
next
  case False
  then have fill: "cap_fill cap = FillServing" by (cases "cap_fill cap") auto
  obtain q c1 where reg: "register cap (cl_census s) = (q, c1)" by fastforce
  note inv = register_inv [OF assms(1) fill reg]
  show ?thesis
  proof (cases q)
    case (Inl e)
    then show ?thesis using assms(2) False reg inv(1) by (auto simp: deque_new_def split: if_splits)
  next
    case (Inr h)
    define d :: "'a CappedDeque" where "d = \<lparr>dq_backing = [], dq_entries_max = cap_entries cap, dq_high_water = 0, dq_row = h\<rparr>"
    have "deque_on (cs_rows c1) d" using inv(2) [OF Inr] assms(3) by (auto simp: deque_on_def deque_ok_def d_def unat_gt_0)
    then have "cell_inv (s\<lparr>cl_census := c1, cl_deques := cl_deques s @ [d]\<rparr>)"
      using inv_add_deque [OF inv(1), of d] by (simp add: d_def)
    then show ?thesis using assms(2) False reg inv(1) Inr by (auto simp: deque_new_def d_def split: if_splits)
  qed
qed

lemma publish_inv:
  assumes "cell_inv s" and "k < length (cl_deques s)" and "has_room (cl_deques s ! k)"
    and "published (push_back v (cl_deques s ! k)) (cl_census s) = (d', c')"
  shows "cell_inv (s\<lparr>cl_census := c', cl_deques := (cl_deques s)[k := d']\<rparr>)"
proof -
  let ?d = "cl_deques s ! k"
  have ok: "deque_ok ?d" using assms(1,2) by (rule cell_inv_deque_ok)
  note ok' = push_back_ok(1) [OF ok assms(3,4)] and p = published_deque [OF assms(4)]
  have sel: "dq_row d' = dq_row ?d" "dq_entries_max d' = dq_entries_max ?d" "dq_high_water (push_back v ?d) = dq_high_water ?d"
    using p(2,3) by (simp_all add: push_back_def)
  show ?thesis
  proof (cases "published_count (push_back v ?d) > dq_high_water ?d")
    case True
    then have "dq_high_water d' = published_count (push_back v ?d)" using p(4) sel(3) by simp
    then have "c' = report_publish (dq_row d') (dq_high_water d') (cl_census s)" using p(3,5) sel(3) True by simp
    moreover have "dq_high_water ?d \<le> dq_high_water d'" using True p(4) sel(3) by simp
    ultimately show ?thesis using inv_raise [OF assms(1,2) ok' sel(1,2)] by simp
  next
    case False
    then have "dq_high_water d' = dq_high_water ?d" "c' = cl_census s" using p(4,5) sel(3) by simp_all
    then show ?thesis using inv_update_deque [OF assms(1,2) ok' sel(1,2)] by simp
  qed
qed

lemma merge_at_cap_inv:
  assumes "cell_inv s" and "k < length (cl_deques s)" and "merge_at_cap merge v (cl_deques s ! k) (cl_census s) = (d', c')"
  shows "cell_inv (s\<lparr>cl_census := c', cl_deques := (cl_deques s)[k := d'],
    cl_crossed := crossed_once (cl_deques s ! k) (cl_crossed s)\<rparr>)"
proof -
  let ?d = "cl_deques s ! k"
  have ok: "deque_ok ?d" using assms(1,2) by (rule cell_inv_deque_ok)
  have d': "deque_ok d'" "dq_row d' = dq_row ?d" "dq_entries_max d' = dq_entries_max ?d" "dq_high_water d' = dq_high_water ?d"
      "c' = report_full (dq_row ?d) (cl_census s)"
    using assms(3) ok by (auto simp: merge_at_cap_def deque_ok_def split: if_splits)
  from inv_update_deque [OF inv_crossing [OF assms(1,2)], of k d'] assms(2) d' show ?thesis by (cases s) simp
qed

lemma no_short:
  "(\<And>r. r \<in> set rows \<Longrightarrow> \<not> short_row r) \<Longrightarrow>
    foldl (\<lambda>short r. if short_row r then saturating_add short 1 else short) (n :: u32) rows = n"
  by (induction rows) auto

lemma mark_serving_inv: "cell_inv s \<Longrightarrow> cell_inv (s\<lparr>cl_census := mark_serving (cl_census s)\<rparr>)"
proof -
  assume inv: "cell_inv s"
  have "\<not> short_row r" if "r \<in> set (cs_rows (cl_census s))" for r
  proof (cases r)
    case (Some row)
    then have "row_fill row = FillServing"
      using that cell_inv_rows(2) [OF inv] by (auto simp: in_set_conv_nth row_on_def)
    then show ?thesis by (simp add: short_row_def Some)
  qed (simp add: short_row_def)
  then have "foldl (\<lambda>short r. if short_row r then saturating_add short 1 else short) (0 :: u32) (cs_rows (cl_census s)) = 0"
    by (rule no_short)
  then show ?thesis using inv by (simp add: mark_serving_def note_violations_def cell_inv_def)
qed

lemma step_inv: "cell_step s s' \<Longrightarrow> cell_inv s \<Longrightarrow> cell_inv s'"
proof (induction rule: cell_step.induct)
  case (New stride allocated cap s d c')
  then show ?case using new_inv [OF New.prems New.hyps] by simp
next
  case (New_refused stride allocated cap s e c')
  then show ?case using new_inv [OF New_refused.prems New_refused.hyps] by simp
next
  case (Publish k s c v d' c')
  then have "has_room (cl_deques s ! k)" "c = cl_census s" by (auto simp: reserve_def split: if_splits)
  then show ?case using publish_inv [OF Publish.prems Publish.hyps(1)] Publish.hyps(3) by (simp add: publish_slot_def)
next
  case (Full k s c')
  then show ?case using inv_crossing [OF Full.prems Full.hyps(1)] by (auto simp: reserve_def split: if_splits)
next
  case (Push k s merge v d' c')
  then show ?case using publish_inv [OF Push.prems Push.hyps(1)] merge_at_cap_inv [OF Push.prems Push.hyps(1)]
    by (auto simp: push_def split: if_splits)
next
  case (Pop k s r d')
  then have ok: "deque_ok (cl_deques s ! k)" by (intro cell_inv_deque_ok)
  with Pop.hyps(2) have "deque_ok d'" "dq_row d' = dq_row (cl_deques s ! k)" "dq_entries_max d' = dq_entries_max (cl_deques s ! k)"
      "dq_high_water d' = dq_high_water (cl_deques s ! k)"
    by (auto simp: pop_front_def deque_ok_def split: list.splits)
  then show ?case by (rule inv_update_deque [OF Pop.prems Pop.hyps(1)])
next
  case (Merge_adjacent k s same)
  then have ok: "deque_ok (cl_deques s ! k)" by (intro cell_inv_deque_ok)
  have "deque_ok (merge_adjacent same (cl_deques s ! k))"
    using ok merge_adjacent_spec [of same "cl_deques s ! k"] merge_spec_length [of same "dq_backing (cl_deques s ! k)"]
    by (auto simp: deque_ok_def merge_adjacent_def)
  then show ?case by (rule inv_update_deque [OF Merge_adjacent.prems Merge_adjacent.hyps(1)]) (simp_all add: merge_adjacent_def)
next
  case (Mark_serving s)
  then show ?case by (intro mark_serving_inv)
next
  case (Mark_stopping s)
  then show ?case by (simp add: mark_stopping_def cell_inv_def)
qed

text \<open>
  C28: in every state a cell can reach, whatever deques it builds and whatever calls follow in whatever order, each
  deque holds at most its cap, the high water of a census row is the largest any of its deques has reached and never
  above the cap, the row's crossings count the refusals and merges, each name has one row, and no assembly violation
  is recorded.
\<close>

theorem census_tells_the_truth:
  assumes "cell_reachable s"
  shows "cs_violations (cl_census s) = 0 \<and> names_distinct (cs_rows (cl_census s)) \<and>
    (\<forall>d\<in>set (cl_deques s). length (dq_backing d) \<le> unat (dq_high_water d) \<and> unat (dq_high_water d) \<le> unat (dq_entries_max d)) \<and>
    (\<forall>i<CAP_CENSUS_ROWS_MAX. \<forall>row. cs_rows (cl_census s) ! i = Some row \<longrightarrow> row_on (cl_deques s) (cl_crossed s) i row)"
proof -
  have inv: "cell_inv s"
    using assms
  proof (induction rule: cell_reachable.induct)
    case 1
    then show ?case by (simp add: cell_inv_def census_new_def names_distinct_def)
  next
    case (2 s s')
    then show ?case using step_inv by blast
  qed
  then have len: "length (cs_rows (cl_census s)) = CAP_CENSUS_ROWS_MAX" by (simp add: cell_inv_def)
  show ?thesis
    using inv cell_inv_deques [OF inv] cell_inv_rows(2) [OF inv, unfolded len]
    by (auto simp: cell_inv_def deque_on_def deque_ok_def)
qed

theorem census_tells_the_truth_witness:
  "\<exists>s :: nat cell. cell_reachable s \<and> map dq_backing (cl_deques s) = [[7]] \<and> cs_violations (cl_census s) = 0 \<and>
    (\<exists>row. cs_rows (cl_census s) ! 0 = Some row \<and> row_high_water row = 1 \<and> row_on (cl_deques s) (cl_crossed s) 0 row)"
proof -
  let ?s0 = "\<lparr>cl_census = census_new, cl_deques = [], cl_crossed = (\<lambda>_. 0)\<rparr> :: nat cell"
  let ?row = "\<lparr>row_name = ''marks'', row_entries_max = 2, row_fill = FillServing, row_high_water = 0, row_crossings = 0,
    row_assembly_live = 0\<rparr>"
  let ?d = "\<lparr>dq_backing = [], dq_entries_max = 2, dq_high_water = 0, dq_row = \<lparr>rh_index = 0, rh_fill = FillServing\<rparr>\<rparr> :: nat CappedDeque"
  let ?c = "census_new\<lparr>cs_rows := (replicate 64 None)[0 := Some ?row]\<rparr>"
  have new: "deque_new 8 True two_cap (cl_census ?s0) = (Ok ?d, ?c)"
    by (simp add: deque_new_def two_cap_def register_def census_new_def CAP_CENSUS_ROWS_MAX_def
        DEQUE_BACKING_BYTES_MAX_def Let_def find_index_replicate note_violations_def)
  have s1: "cell_reachable (?s0\<lparr>cl_census := ?c, cl_deques := cl_deques ?s0 @ [?d]\<rparr>)" (is "cell_reachable ?s1")
    using cell_reachable.intros(2) [OF cell_reachable.intros(1) cell_step.New [OF new]] by (simp add: two_cap_def)
  let ?d' = "?d\<lparr>dq_backing := [7], dq_high_water := 1\<rparr>"
  let ?c' = "report_publish (dq_row ?d) 1 ?c"
  have push: "push (\<lambda>_ b. b) 7 (cl_deques ?s1 ! 0) (cl_census ?s1) = (?d', ?c')"
    by (simp add: push_def has_room_def published_def push_back_def published_count_def)
  have room: "has_room (cl_deques ?s1 ! 0)" by (simp add: has_room_def published_count_def)
  define s2 where "s2 = ?s1\<lparr>cl_census := ?c', cl_deques := (cl_deques ?s1)[0 := ?d'], cl_crossed := cl_crossed ?s1\<rparr>"
  define row where "row = ?row\<lparr>row_high_water := 1\<rparr>"
  have s2: "cell_reachable s2" using cell_reachable.intros(2) [OF s1 cell_step.Push [OF _ push]] room by (simp add: s2_def)
  have row: "cs_rows (cl_census s2) ! 0 = Some row" "row_high_water row = 1"
    by (simp_all add: report_publish_serving with_row_def s2_def row_def)
  have "map dq_backing (cl_deques s2) = [[7]]" by (simp add: s2_def)
  with census_tells_the_truth [OF s2] s2 row show ?thesis by (auto simp: CAP_CENSUS_ROWS_MAX_def)
qed

end
