(* ===== verification/PathProgram.thy ===== *)
theory PathProgram
  imports Varint Utf8
begin

text \<open>
  \<^verbatim>\<open>crates/inf-doc/src/path/program.rs\<close> with the syntax tree of \<^verbatim>\<open>ast.rs\<close>: path programs. A program is its bytes; the
  encoders return the bytes they push. The trusted readers (\<open>read_leaf\<close>, \<open>path_read_op\<close>, \<open>path_decode\<close>) return \<open>None\<close>
  where the code panics on bytes that are not a validated program.
\<close>

section \<open>Model\<close>

datatype PathErrorKind = FilterUnsupported | UnexpectedChar | Unterminated | BadEscape | BadNumber | BadSlice
  | BadUnionMember | TrailingDescend | PathTooLong | PathTooDeep | InvalidUtf8 | Truncated | BadVersion | BadFlags
  | BadOpcode | MissingRoot

datatype PathError = PathError (pe_offset: nat) (pe_kind: PathErrorKind)

record SliceSpec =
  sl_start :: "i64 option"
  sl_end :: "i64 option"
  sl_step :: "i64 option"

datatype Member = MName bytes | MIndex i64 | MSlice SliceSpec

datatype Segment = GChild bytes | GChildAny | GIndex i64 | GSlice SliceSpec | GUnion "Member list" | GDescend Segment

record PathAst =
  pa_legacy :: bool
  pa_segments :: "Segment list"

definition SEGMENTS_MAX :: nat where "SEGMENTS_MAX = 128"
definition UNION_MEMBERS_MAX :: nat where "UNION_MEMBERS_MAX = 16"
definition PATH_BYTES_CEILING :: nat where "PATH_BYTES_CEILING = 0xFFFF"

definition PATH_PROGRAM_VERSION :: byte where "PATH_PROGRAM_VERSION = 1"
definition FLAG_LEGACY :: byte where "FLAG_LEGACY = 1"
definition OP_ROOT :: byte where "OP_ROOT = 0x01"
definition OP_CHILD :: byte where "OP_CHILD = 0x02"
definition OP_CHILD_ANY :: byte where "OP_CHILD_ANY = 0x03"
definition OP_INDEX :: byte where "OP_INDEX = 0x04"
definition OP_SLICE :: byte where "OP_SLICE = 0x05"
definition OP_UNION :: byte where "OP_UNION = 0x06"
definition OP_DESCEND :: byte where "OP_DESCEND = 0x07"
definition SLICE_HAS_START :: byte where "SLICE_HAS_START = 1"
definition SLICE_HAS_END :: byte where "SLICE_HAS_END = 2"
definition SLICE_HAS_STEP :: byte where "SLICE_HAS_STEP = 4"

lemmas path_ops = OP_ROOT_def OP_CHILD_def OP_CHILD_ANY_def OP_INDEX_def OP_SLICE_def OP_UNION_def OP_DESCEND_def
lemmas slice_bits = SLICE_HAS_START_def SLICE_HAS_END_def SLICE_HAS_STEP_def

text \<open>The zigzag code of \<^verbatim>\<open>tape.rs\<close>; the shift of a signed integer keeps its sign.\<close>

definition zigzag :: "i64 \<Rightarrow> u64" where
  "zigzag v = push_bit 1 v XOR signed_drop_bit 63 v"

definition unzigzag :: "u64 \<Rightarrow> i64" where
  "unzigzag u = drop_bit 1 u XOR - (u AND 1)"

subsection \<open>Encoding\<close>

definition slice_presence :: "SliceSpec \<Rightarrow> byte" where
  "slice_presence s =
     (case sl_start s of None \<Rightarrow> 0 | Some _ \<Rightarrow> SLICE_HAS_START) OR
     (case sl_end s of None \<Rightarrow> 0 | Some _ \<Rightarrow> SLICE_HAS_END) OR
     (case sl_step s of None \<Rightarrow> 0 | Some _ \<Rightarrow> SLICE_HAS_STEP)"

definition encode_slice :: "SliceSpec \<Rightarrow> bytes" where
  "encode_slice s =
     [OP_SLICE, slice_presence s] @
     concat (map (\<lambda>field. encode_u64 (zigzag field)) (List.map_filter id [sl_start s, sl_end s, sl_step s]))"

definition encode_name :: "bytes \<Rightarrow> bytes" where
  "encode_name name = OP_CHILD # encode_u64 (of_nat (length name)) @ name"

definition encode_index :: "i64 \<Rightarrow> bytes" where
  "encode_index i = OP_INDEX # encode_u64 (zigzag i)"

fun encode_member :: "Member \<Rightarrow> bytes" where
  "encode_member (MName name) = encode_name name"
| "encode_member (MIndex i) = encode_index i"
| "encode_member (MSlice s) = encode_slice s"

definition union_count :: "Member list \<Rightarrow> PathError + byte" where
  "union_count members =
     (if length members < 256 \<and> 2 \<le> length members \<and> length members \<le> UNION_MEMBERS_MAX
      then Ok (of_nat (length members)) else Err (PathError 0 BadUnionMember))"

fun encode_leaf_segment :: "Segment \<Rightarrow> (PathError + bytes) option" where
  "encode_leaf_segment (GChild name) = Some (Ok (encode_name name))"
| "encode_leaf_segment GChildAny = Some (Ok [OP_CHILD_ANY])"
| "encode_leaf_segment (GIndex i) = Some (Ok (encode_index i))"
| "encode_leaf_segment (GSlice s) = Some (Ok (encode_slice s))"
| "encode_leaf_segment (GUnion members) =
     Some (rbind (union_count members) (\<lambda>count. Ok ([OP_UNION, count] @ concat (map encode_member members))))"
| "encode_leaf_segment (GDescend _) = None"

fun encode_segment :: "Segment \<Rightarrow> (PathError + bytes) option" where
  "encode_segment (GDescend inner) = map_option (\<lambda>r. rbind r (\<lambda>bs. Ok (OP_DESCEND # bs))) (encode_leaf_segment inner)"
| "encode_segment segment = encode_leaf_segment segment"

fun encode_segments :: "Segment list \<Rightarrow> (PathError + bytes) option" where
  "encode_segments [] = Some (Ok [])"
| "encode_segments (s # ss) =
     Option.bind (encode_segment s) (\<lambda>r. case r of
        Inl e \<Rightarrow> Some (Err e)
      | Inr bs \<Rightarrow> map_option (\<lambda>r. rbind r (\<lambda>bs'. Ok (bs @ bs'))) (encode_segments ss))"

definition path_encode :: "PathAst \<Rightarrow> (PathError + bytes) option" where
  "path_encode ast =
     map_option (\<lambda>r. rbind r (\<lambda>bs.
        let out = [PATH_PROGRAM_VERSION, if pa_legacy ast then FLAG_LEGACY else 0, OP_ROOT] @ bs
        in if length out \<ge> PATH_BYTES_CEILING then Err (PathError 0 PathTooLong) else Ok out))
       (encode_segments (pa_segments ast))"

subsection \<open>Reading validated bytes\<close>

datatype PathOp = OpRoot | OpChild bytes | OpChildAny | OpIndex i64 | OpSlice SliceSpec | OpUnion byte nat | OpDescend

definition read_field :: "bytes \<Rightarrow> bool \<Rightarrow> nat \<Rightarrow> (i64 option \<times> nat) option" where
  "read_field bytes present at =
     (if present
      then map_option (\<lambda>(raw, used). (Some (unzigzag raw), at + used)) (decode_u64 (drop at bytes))
      else Some (None, at))"

definition read_slice :: "bytes \<Rightarrow> nat \<Rightarrow> (SliceSpec \<times> nat) option" where
  "read_slice bytes at =
     (if at + 1 < length bytes then
        let presence = bytes ! (at + 1)
        in Option.bind (read_field bytes (presence AND SLICE_HAS_START \<noteq> 0) (at + 2)) (\<lambda>(start, i).
           Option.bind (read_field bytes (presence AND SLICE_HAS_END \<noteq> 0) i) (\<lambda>(stop, j).
           Option.bind (read_field bytes (presence AND SLICE_HAS_STEP \<noteq> 0) j) (\<lambda>(step, k).
             Some (\<lparr>sl_start = start, sl_end = stop, sl_step = step\<rparr>, k))))
      else None)"

definition read_leaf :: "bytes \<Rightarrow> nat \<Rightarrow> (PathOp \<times> nat) option" where
  "read_leaf bytes at =
     (if at < length bytes then
        let opcode = bytes ! at
        in if opcode = OP_ROOT then Some (OpRoot, at + 1)
           else if opcode = OP_CHILD then
             Option.bind (decode_u64 (drop (at + 1) bytes)) (\<lambda>(len, used).
               let data_at = at + 1 + used
               in if data_at + unat len \<le> length bytes
                  then Some (OpChild (take (unat len) (drop data_at bytes)), data_at + unat len) else None)
           else if opcode = OP_CHILD_ANY then Some (OpChildAny, at + 1)
           else if opcode = OP_INDEX then
             map_option (\<lambda>(raw, used). (OpIndex (unzigzag raw), at + 1 + used)) (decode_u64 (drop (at + 1) bytes))
           else if opcode = OP_SLICE then map_option (\<lambda>(s, j). (OpSlice s, j)) (read_slice bytes at)
           else if opcode = OP_DESCEND then Some (OpDescend, at + 1)
           else None
      else None)"

fun read_leaves :: "bytes \<Rightarrow> nat \<Rightarrow> nat \<Rightarrow> nat option" where
  "read_leaves bytes at 0 = Some at"
| "read_leaves bytes at (Suc n) = Option.bind (read_leaf bytes at) (\<lambda>(_, after). read_leaves bytes after n)"

definition path_read_op :: "bytes \<Rightarrow> nat \<Rightarrow> (PathOp \<times> nat) option" where
  "path_read_op bytes at =
     (if at < length bytes then
        if bytes ! at \<noteq> OP_UNION then read_leaf bytes at
        else if at + 1 < length bytes then
          let count = bytes ! (at + 1)
          in map_option (\<lambda>j. (OpUnion count (at + 2), j)) (read_leaves bytes (at + 2) (unat count))
        else None
      else None)"

fun member_at_loop :: "bytes \<Rightarrow> nat \<Rightarrow> nat \<Rightarrow> nat option" where
  "member_at_loop bytes at 0 = Some at"
| "member_at_loop bytes at (Suc m) = Option.bind (path_read_op bytes at) (\<lambda>(_, j). member_at_loop bytes j m)"

definition member_at :: "bytes \<Rightarrow> nat \<Rightarrow> byte \<Rightarrow> nat option" where
  "member_at bytes members_at m = member_at_loop bytes members_at (unat m)"

fun decode_members :: "bytes \<Rightarrow> nat \<Rightarrow> nat \<Rightarrow> Member list option" where
  "decode_members bytes at 0 = Some []"
| "decode_members bytes at (Suc n) =
     Option.bind (path_read_op bytes at) (\<lambda>(op, j).
       Option.bind (case op of OpChild key \<Rightarrow> Some (MName key) | OpIndex i \<Rightarrow> Some (MIndex i) | OpSlice s \<Rightarrow> Some (MSlice s) | _ \<Rightarrow> None)
         (\<lambda>m. map_option ((#) m) (decode_members bytes j n)))"

fun op_to_segment :: "bytes \<Rightarrow> PathOp \<Rightarrow> Segment option" where
  "op_to_segment bytes (OpChild key) = Some (GChild key)"
| "op_to_segment bytes OpChildAny = Some GChildAny"
| "op_to_segment bytes (OpIndex i) = Some (GIndex i)"
| "op_to_segment bytes (OpSlice s) = Some (GSlice s)"
| "op_to_segment bytes (OpUnion count members_at) = map_option GUnion (decode_members bytes members_at (unat count))"
| "op_to_segment bytes _ = None"

text \<open>The loop of \<open>decode\<close>: each round moves past one segment, so \<open>length bytes\<close> rounds suffice.\<close>

fun decode_segments :: "nat \<Rightarrow> bytes \<Rightarrow> nat \<Rightarrow> Segment list option" where
  "decode_segments 0 bytes at = (if at < length bytes then None else Some [])"
| "decode_segments (Suc n) bytes at =
     (if at < length bytes then
        Option.bind (path_read_op bytes at) (\<lambda>(op, j).
          Option.bind
            (case op of
               OpDescend \<Rightarrow> Option.bind (path_read_op bytes j) (\<lambda>(inner, k). map_option (\<lambda>s. (GDescend s, k)) (op_to_segment bytes inner))
             | _ \<Rightarrow> map_option (\<lambda>s. (s, j)) (op_to_segment bytes op))
            (\<lambda>(segment, k). map_option ((#) segment) (decode_segments n bytes k)))
      else Some [])"

definition is_legacy :: "bytes \<Rightarrow> bool option" where
  "is_legacy bytes = (if 1 < length bytes then Some (bytes ! 1 AND FLAG_LEGACY \<noteq> 0) else None)"

definition path_decode :: "bytes \<Rightarrow> PathAst option" where
  "path_decode bytes =
     Option.bind (is_legacy bytes) (\<lambda>legacy.
       map_option (\<lambda>segments. \<lparr>pa_legacy = legacy, pa_segments = segments\<rparr>) (decode_segments (length bytes) bytes 3))"

subsection \<open>Validation\<close>

definition validate_field :: "bytes \<Rightarrow> bool \<Rightarrow> bool \<Rightarrow> nat \<Rightarrow> PathError + nat" where
  "validate_field bytes present is_step at =
     (if present then
        rbind (ok_or (decode_u64 (drop at bytes)) (PathError at Truncated)) (\<lambda>(raw, used).
          if is_step \<and> unzigzag raw = 0 then Err (PathError at BadSlice) else Ok (at + used))
      else Ok at)"

definition validate_selector :: "bytes \<Rightarrow> nat \<Rightarrow> bool \<Rightarrow> PathError + nat" where
  "validate_selector bytes at union_member =
     (if at < length bytes then
        let opcode = bytes ! at
        in if opcode = OP_CHILD then
             rbind (ok_or (decode_u64 (drop (at + 1) bytes)) (PathError (at + 1) Truncated)) (\<lambda>(len, used).
               let data_at = at + 1 + used
               in case checked_add_usize (unat len) data_at of
                    None \<Rightarrow> Err (PathError at Truncated)
                  | Some j \<Rightarrow>
                      if j \<le> length bytes then
                        if utf8_valid (sub_slice bytes data_at j) then Ok j else Err (PathError data_at InvalidUtf8)
                      else Err (PathError at Truncated))
           else if opcode = OP_INDEX then
             rbind (ok_or (decode_u64 (drop (at + 1) bytes)) (PathError (at + 1) Truncated)) (\<lambda>(_, used). Ok (at + 1 + used))
           else if opcode = OP_SLICE then
             if at + 1 < length bytes then
               let presence = bytes ! (at + 1)
               in if presence AND NOT (SLICE_HAS_START OR SLICE_HAS_END OR SLICE_HAS_STEP) \<noteq> 0
                  then Err (PathError (at + 1) BadFlags)
                  else rbind (validate_field bytes (presence AND SLICE_HAS_START \<noteq> 0) False (at + 2)) (\<lambda>i.
                       rbind (validate_field bytes (presence AND SLICE_HAS_END \<noteq> 0) False i) (\<lambda>j.
                         validate_field bytes (presence AND SLICE_HAS_STEP \<noteq> 0) True j))
             else Err (PathError (at + 1) Truncated)
           else if opcode = OP_CHILD_ANY \<and> \<not> union_member then Ok (at + 1)
           else Err (PathError at (if union_member then BadUnionMember else BadOpcode))
      else Err (PathError at Truncated))"

fun validate_members :: "bytes \<Rightarrow> nat \<Rightarrow> nat \<Rightarrow> PathError + nat" where
  "validate_members bytes at 0 = Ok at"
| "validate_members bytes at (Suc n) = rbind (validate_selector bytes at True) (\<lambda>j. validate_members bytes j n)"

definition validate_segment :: "bytes \<Rightarrow> nat \<Rightarrow> PathError + nat" where
  "validate_segment bytes at =
     (if bytes ! at = OP_UNION then
        if at + 1 < length bytes then
          let count = unat (bytes ! (at + 1))
          in if \<not> (2 \<le> count \<and> count \<le> UNION_MEMBERS_MAX) then Err (PathError (at + 1) BadUnionMember)
             else validate_members bytes (at + 2) count
        else Err (PathError (at + 1) Truncated)
      else if bytes ! at = OP_ROOT then Err (PathError at BadOpcode)
      else validate_selector bytes at False)"

lemma validate_field_ge: "validate_field bytes present step at = Ok j \<Longrightarrow> at \<le> j"
  by (auto simp: validate_field_def rbind_Ok split: if_splits)

lemma validate_selector_gt: "validate_selector bytes at um = Ok j \<Longrightarrow> at < j"
  by (auto simp: validate_selector_def rbind_Ok Let_def checked_add_usize_Some split: if_splits option.splits
      dest!: validate_field_ge)

lemma validate_members_ge: "validate_members bytes at n = Ok j \<Longrightarrow> at \<le> j"
  by (induction n arbitrary: at) (fastforce simp: rbind_Ok dest: validate_selector_gt)+

lemma validate_segment_gt: "validate_segment bytes at = Ok j \<Longrightarrow> at < j"
  by (fastforce simp: validate_segment_def Let_def split: if_splits dest: validate_selector_gt validate_members_ge)

function validate_loop :: "bytes \<Rightarrow> nat \<Rightarrow> nat \<Rightarrow> bool \<Rightarrow> PathError + nat \<times> nat \<times> bool" where
  "validate_loop bytes at segments descend_pending =
     (if at < length bytes then
        if segments = SEGMENTS_MAX then Err (PathError at PathTooDeep)
        else if bytes ! at = OP_DESCEND then
          if descend_pending then Err (PathError at BadOpcode) else validate_loop bytes (at + 1) segments True
        else (case validate_segment bytes at of
            Inl e \<Rightarrow> Err e
          | Inr j \<Rightarrow> validate_loop bytes j (segments + 1) False)
      else Ok (at, segments, descend_pending))"
  by pat_completeness auto
termination
  by (relation "measure (\<lambda>(bytes, at, _). length bytes - at)") (auto dest!: validate_segment_gt)

declare validate_loop.simps [simp del]

definition path_validate :: "bytes \<Rightarrow> PathError + unit" where
  "path_validate bytes =
     (if length bytes < 3 then Err (PathError (length bytes) Truncated)
      else if length bytes \<ge> PATH_BYTES_CEILING then Err (PathError 0 PathTooLong)
      else if bytes ! 0 \<noteq> PATH_PROGRAM_VERSION then Err (PathError 0 BadVersion)
      else if bytes ! 1 AND NOT FLAG_LEGACY \<noteq> 0 then Err (PathError 1 BadFlags)
      else if bytes ! 2 \<noteq> OP_ROOT then Err (PathError 2 MissingRoot)
      else rbind (validate_loop bytes 3 0 False) (\<lambda>(at, segments, descend_pending).
        if descend_pending then Err (PathError (length bytes) TrailingDescend)
        else if segments = 0 \<and> length bytes \<noteq> 3 then Err (PathError at Truncated)
        else Ok ()))"

definition path_from_bytes :: "bytes \<Rightarrow> PathError + bytes" where
  "path_from_bytes bytes = rbind (path_validate bytes) (\<lambda>_. Ok bytes)"

subsection \<open>Walks over a program\<close>

definition is_root :: "bytes \<Rightarrow> bool" where "is_root bytes \<longleftrightarrow> length bytes = 3"

text \<open>\<open>within_index_fence\<close> and the scan of \<open>simple_steps\<close>: do all operations satisfy \<open>P\<close>? Each round moves on, so
  \<open>length bytes\<close> rounds suffice.\<close>

fun all_ops :: "(PathOp \<Rightarrow> bool) \<Rightarrow> nat \<Rightarrow> bytes \<Rightarrow> nat \<Rightarrow> bool option" where
  "all_ops P 0 bytes at = (if at < length bytes then None else Some True)"
| "all_ops P (Suc n) bytes at =
     (if at < length bytes then
        Option.bind (path_read_op bytes at) (\<lambda>(op, j). if P op then all_ops P n bytes j else Some False)
      else Some True)"

fun fence_op :: "PathOp \<Rightarrow> bool" where
  "fence_op (OpChild _) = True" | "fence_op OpChildAny = True" | "fence_op (OpIndex _) = True" | "fence_op _ = False"

definition within_index_fence :: "bytes \<Rightarrow> bool option" where
  "within_index_fence bytes = all_ops fence_op (length bytes) bytes 3"

fun simple_op :: "PathOp \<Rightarrow> bool" where
  "simple_op (OpChild _) = True" | "simple_op (OpIndex _) = True" | "simple_op _ = False"

definition simple_steps :: "bytes \<Rightarrow> nat option option" where
  "simple_steps bytes = map_option (\<lambda>simple. if simple then Some 3 else None) (all_ops simple_op (length bytes) bytes 3)"

datatype SimpleStep = StepChild bytes | StepIndex i64

definition simple_next :: "bytes \<Rightarrow> nat \<Rightarrow> (SimpleStep \<times> nat) option option" where
  "simple_next bytes at =
     (if at = length bytes then Some None
      else Option.bind (path_read_op bytes at) (\<lambda>(op, j). case op of
          OpChild key \<Rightarrow> Some (Some (StepChild key, j))
        | OpIndex i \<Rightarrow> Some (Some (StepIndex i, j))
        | _ \<Rightarrow> None))"

datatype PathStep = PsChild bytes | PsIndex i64 | PsWild | PsOther

definition steps_next :: "bytes \<Rightarrow> nat \<Rightarrow> (PathStep \<times> nat) option option" where
  "steps_next bytes at =
     (if at \<ge> length bytes then Some None
      else Option.bind (path_read_op bytes at) (\<lambda>(op, j). case op of
          OpChild key \<Rightarrow> Some (Some (PsChild key, j))
        | OpIndex i \<Rightarrow> Some (Some (PsIndex i, j))
        | OpChildAny \<Rightarrow> Some (Some (PsWild, j))
        | OpRoot \<Rightarrow> None
        | _ \<Rightarrow> Some (Some (PsOther, j))))"

section \<open>Codes at an offset\<close>

lemma bit_zigzag: "bit (zigzag v) n \<longleftrightarrow> n < 64 \<and> ((0 < n \<and> bit v (n - 1)) \<noteq> bit v 63)"
proof (cases "n < 64")
  case True
  then have "bit (signed_drop_bit 63 v) n = bit v 63"
    unfolding bit_signed_drop_bit_iff by (cases n) auto
  then show ?thesis using True unfolding zigzag_def bit_xor_iff bit_push_bit_iff by auto
qed (auto dest: u64_bit_less)

lemma low_bit: "(u :: u64) AND 1 = (if bit u 0 then 1 else 0)"
  by (rule bit_word_eqI) (auto simp: bit_simps intro: gr0I)

lemma bit_unzigzag: "bit (unzigzag u) n \<longleftrightarrow> n < 64 \<and> (bit u (Suc n) \<noteq> bit u 0)"
  unfolding unzigzag_def low_bit bit_xor_iff bit_drop_bit_eq by (auto dest: u64_bit_less)

lemma unzigzag_zigzag [simp]: "unzigzag (zigzag v) = v"
proof (rule bit_word_eqI)
  fix n assume "n < LENGTH(64)"
  then show "bit (unzigzag (zigzag v)) n = bit v n"
    by (cases "n = 63") (auto simp: bit_unzigzag bit_zigzag)
qed

lemma zigzag_unzigzag [simp]: "zigzag (unzigzag u) = u"
proof (rule bit_word_eqI)
  fix n assume "n < LENGTH(64)"
  then show "bit (zigzag (unzigzag u)) n = bit u n"
    by (cases n) (auto simp: bit_unzigzag bit_zigzag dest: u64_bit_less)
qed

lemma decode_u64_at: "decode_u64 (drop at bs) = Some (v, n) \<longleftrightarrow> n = length (encode_u64 v) \<and> code_at bs at (encode_u64 v)"
proof
  assume d: "decode_u64 (drop at bs) = Some (v, n)"
  note e = encode_decode_u64 [OF d]
  then have "drop at bs = encode_u64 v @ drop n (drop at bs)" by (simp only: append_take_drop_id)
  then show "n = length (encode_u64 v) \<and> code_at bs at (encode_u64 v)" using e by (auto simp: code_at_def)
qed (auto simp: code_at_def decode_encode_u64)

definition field_bytes :: "i64 option \<Rightarrow> bytes" where
  "field_bytes f = (case f of None \<Rightarrow> [] | Some v \<Rightarrow> encode_u64 (zigzag v))"

lemma field_bytes_simps [simp]: "field_bytes None = []" "field_bytes (Some v) = encode_u64 (zigzag v)"
  by (simp_all add: field_bytes_def)

lemma read_field_at:
  "read_field bytes present at = Some (f, j) \<longleftrightarrow>
    (f \<noteq> None \<longleftrightarrow> present) \<and> code_at bytes at (field_bytes f) \<and> j = at + length (field_bytes f)"
  by (cases f) (auto simp: read_field_def decode_u64_at)

lemma validate_field_at:
  "validate_field bytes present is_step at = Ok j \<longleftrightarrow>
    (\<exists>f. (f \<noteq> None \<longleftrightarrow> present) \<and> (is_step \<longrightarrow> f \<noteq> Some 0) \<and> code_at bytes at (field_bytes f) \<and> j = at + length (field_bytes f))"
  (is "?L \<longleftrightarrow> ?R")
proof
  assume ?L
  show ?R
  proof (cases present)
    case True
    with \<open>?L\<close> obtain raw used where "decode_u64 (drop at bytes) = Some (raw, used)" "\<not> (is_step \<and> unzigzag raw = 0)" "j = at + used"
      by (auto simp: validate_field_def rbind_Ok ok_or_Ok split: if_splits)
    then show ?thesis using True by (intro exI [of _ "Some (unzigzag raw)"]) (auto simp: decode_u64_at)
  next
    case False
    then show ?thesis using \<open>?L\<close> by (intro exI [of _ None]) (auto simp: validate_field_def)
  qed
next
  assume ?R
  then obtain f where f: "f \<noteq> None \<longleftrightarrow> present" "is_step \<longrightarrow> f \<noteq> Some 0" "code_at bytes at (field_bytes f)"
    "j = at + length (field_bytes f)" by blast
  show ?L
  proof (cases f)
    case None
    then show ?thesis using f by (simp add: validate_field_def)
  next
    case (Some v)
    then have "decode_u64 (drop at bytes) = Some (zigzag v, length (encode_u64 (zigzag v)))" using f by (simp add: decode_u64_at)
    then show ?thesis using f Some by (auto simp: validate_field_def)
  qed
qed

text \<open>
  The slices \<open>bytes[next..]\<close> of the validator never start past the end: the first starts behind the presence byte, which
  was read, and every field ends within the bytes.
\<close>

lemma validate_field_le: "validate_field bytes present is_step at = Ok j \<Longrightarrow> at \<le> length bytes \<Longrightarrow> j \<le> length bytes"
  using code_at_le by (fastforce simp: validate_field_at)

lemma encode_slice_fields:
  "encode_slice s = [OP_SLICE, slice_presence s] @ field_bytes (sl_start s) @ field_bytes (sl_end s) @ field_bytes (sl_step s)"
  by (cases "sl_start s"; cases "sl_end s"; cases "sl_step s") (simp_all add: encode_slice_def List.map_filter_simps)

lemma presence_bits:
  "slice_presence s AND SLICE_HAS_START \<noteq> 0 \<longleftrightarrow> sl_start s \<noteq> None"
  "slice_presence s AND SLICE_HAS_END \<noteq> 0 \<longleftrightarrow> sl_end s \<noteq> None"
  "slice_presence s AND SLICE_HAS_STEP \<noteq> 0 \<longleftrightarrow> sl_step s \<noteq> None"
  "slice_presence s AND NOT (SLICE_HAS_START OR SLICE_HAS_END OR SLICE_HAS_STEP) = 0"
  by (cases "sl_start s"; cases "sl_end s"; cases "sl_step s"; simp add: slice_presence_def slice_bits)+

lemma presence_unique:
  assumes "p AND NOT (SLICE_HAS_START OR SLICE_HAS_END OR SLICE_HAS_STEP) = 0"
    and "sl_start s \<noteq> None \<longleftrightarrow> p AND SLICE_HAS_START \<noteq> 0" and "sl_end s \<noteq> None \<longleftrightarrow> p AND SLICE_HAS_END \<noteq> 0"
    and "sl_step s \<noteq> None \<longleftrightarrow> p AND SLICE_HAS_STEP \<noteq> 0"
  shows "p = slice_presence s"
proof -
  have "p = (p AND NOT 7) OR (p AND 7)" by (rule bit_word_eqI) (auto simp: bit_simps)
  then have "p = take_bit 3 p" using assms(1) by (simp add: slice_bits take_bit_eq_mask mask_eq_exp_minus_1)
  then have "unat p = unat (take_bit 3 p)" by (rule arg_cong)
  also have "\<dots> < 8" using take_bit_nat_less_exp [of 3 "unat p"] by (simp add: unsigned_take_bit_eq)
  finally have "unat p = 0 \<or> unat p = 1 \<or> unat p = 2 \<or> unat p = 3 \<or> unat p = 4 \<or> unat p = 5 \<or> unat p = 6 \<or> unat p = 7" by linarith
  then have "p = 0 \<or> p = 1 \<or> p = 2 \<or> p = 3 \<or> p = 4 \<or> p = 5 \<or> p = 6 \<or> p = 7"
    by (simp add: word_unat_eq_iff)
  then show ?thesis
    using assms(2-4)
    by (cases "sl_start s"; cases "sl_end s"; cases "sl_step s") (auto simp: slice_presence_def slice_bits)
qed

text \<open>The bytes of a segment, and the segments a program may hold.\<close>

fun member_seg :: "Member \<Rightarrow> Segment" where
  "member_seg (MName name) = GChild name"
| "member_seg (MIndex i) = GIndex i"
| "member_seg (MSlice s) = GSlice s"

fun seg_bytes :: "Segment \<Rightarrow> bytes" where
  "seg_bytes (GChild name) = encode_name name"
| "seg_bytes GChildAny = [OP_CHILD_ANY]"
| "seg_bytes (GIndex i) = encode_index i"
| "seg_bytes (GSlice s) = encode_slice s"
| "seg_bytes (GUnion members) = [OP_UNION, of_nat (length members)] @ concat (map encode_member members)"
| "seg_bytes (GDescend s) = OP_DESCEND # seg_bytes s"

fun sel_ok :: "Segment \<Rightarrow> bool" where
  "sel_ok (GChild name) \<longleftrightarrow> utf8_valid name \<and> length name < 2 ^ 64"
| "sel_ok GChildAny = True"
| "sel_ok (GIndex i) = True"
| "sel_ok (GSlice s) \<longleftrightarrow> sl_step s \<noteq> Some 0"
| "sel_ok _ = False"

fun leaf_ok :: "Segment \<Rightarrow> bool" where
  "leaf_ok (GUnion members) \<longleftrightarrow>
     2 \<le> length members \<and> length members \<le> UNION_MEMBERS_MAX \<and> (\<forall>m\<in>set members. sel_ok (member_seg m))"
| "leaf_ok s = sel_ok s"

fun seg_ok :: "Segment \<Rightarrow> bool" where
  "seg_ok (GDescend s) = leaf_ok s"
| "seg_ok s = leaf_ok s"

text \<open>The segments a reader can read back: names may hold any bytes and a step may be zero.\<close>

fun sel_coded :: "Segment \<Rightarrow> bool" where
  "sel_coded (GChild name) \<longleftrightarrow> length name < 2 ^ 64"
| "sel_coded (GUnion _) = False"
| "sel_coded (GDescend _) = False"
| "sel_coded _ = True"

fun leaf_coded :: "Segment \<Rightarrow> bool" where
  "leaf_coded (GUnion members) \<longleftrightarrow>
     2 \<le> length members \<and> length members \<le> UNION_MEMBERS_MAX \<and> (\<forall>m\<in>set members. sel_coded (member_seg m))"
| "leaf_coded s = sel_coded s"

fun seg_coded :: "Segment \<Rightarrow> bool" where
  "seg_coded (GDescend s) = leaf_coded s"
| "seg_coded s = leaf_coded s"

lemma sel_ok_coded: "sel_ok s \<Longrightarrow> sel_coded s"
  by (cases s) simp_all

lemma leaf_ok_coded: "leaf_ok s \<Longrightarrow> leaf_coded s"
  by (cases s) (auto simp: sel_ok_coded)

lemma seg_ok_coded: "seg_ok s \<Longrightarrow> seg_coded s"
  by (cases s) (auto simp: leaf_ok_coded sel_ok_coded)

lemma sel_coded_leaf: "sel_coded s \<Longrightarrow> leaf_coded s"
  by (cases s) auto

fun seg_op :: "Segment \<Rightarrow> nat \<Rightarrow> PathOp" where
  "seg_op (GChild name) at = OpChild name"
| "seg_op GChildAny at = OpChildAny"
| "seg_op (GIndex i) at = OpIndex i"
| "seg_op (GSlice s) at = OpSlice s"
| "seg_op (GUnion members) at = OpUnion (of_nat (length members)) (at + 2)"
| "seg_op (GDescend s) at = OpDescend"

lemma encode_member_seg: "encode_member m = seg_bytes (member_seg m)"
  by (cases m) simp_all

lemma seg_bytes_nonempty [simp]: "seg_bytes s \<noteq> []" "0 < length (seg_bytes s)"
  by (cases s; simp add: encode_name_def encode_index_def encode_slice_def)+

lemma sel_ok_leaf: "sel_ok s \<Longrightarrow> leaf_ok s"
  by (cases s) auto

lemma encode_name_at:
  "code_at bytes at (encode_name name) \<longleftrightarrow> at < length bytes \<and> bytes ! at = OP_CHILD \<and>
    code_at bytes (at + 1) (encode_u64 (of_nat (length name))) \<and>
    code_at bytes (at + 1 + length (encode_u64 (of_nat (length name)))) name"
  by (simp add: encode_name_def)

lemma encode_slice_at:
  "code_at bytes at (encode_slice s) \<longleftrightarrow> at + 1 < length bytes \<and> bytes ! at = OP_SLICE \<and> bytes ! (at + 1) = slice_presence s \<and>
    code_at bytes (at + 2) (field_bytes (sl_start s)) \<and>
    code_at bytes (at + 2 + length (field_bytes (sl_start s))) (field_bytes (sl_end s)) \<and>
    code_at bytes (at + 2 + length (field_bytes (sl_start s)) + length (field_bytes (sl_end s))) (field_bytes (sl_step s))"
  by (auto simp: encode_slice_fields)

lemma read_slice_at:
  assumes "code_at bytes at (encode_slice s)"
  shows "read_slice bytes at = Some (s, at + length (encode_slice s))"
proof -
  note c = assms [unfolded encode_slice_at]
  have "read_field bytes (slice_presence s AND SLICE_HAS_START \<noteq> 0) (at + 2) =
      Some (sl_start s, at + 2 + length (field_bytes (sl_start s)))"
    using c by (simp add: read_field_at presence_bits)
  moreover have "read_field bytes (slice_presence s AND SLICE_HAS_END \<noteq> 0) (at + 2 + length (field_bytes (sl_start s))) =
      Some (sl_end s, at + 2 + length (field_bytes (sl_start s)) + length (field_bytes (sl_end s)))"
    using c by (simp add: read_field_at presence_bits)
  moreover have "read_field bytes (slice_presence s AND SLICE_HAS_STEP \<noteq> 0)
      (at + 2 + length (field_bytes (sl_start s)) + length (field_bytes (sl_end s))) =
      Some (sl_step s, at + length (encode_slice s))"
    using c by (simp add: read_field_at presence_bits encode_slice_fields)
  ultimately show ?thesis using c by (simp add: read_slice_def Let_def)
qed

lemma read_leaf_coded:
  assumes "sel_coded s" and "code_at bytes at (seg_bytes s)"
  shows "read_leaf bytes at = Some (seg_op s at, at + length (seg_bytes s))"
proof (cases s)
  case (GChild name)
  let ?len = "of_nat (length name) :: u64"
  have c: "at < length bytes" "bytes ! at = OP_CHILD" "code_at bytes (at + 1) (encode_u64 ?len)"
      "code_at bytes (at + 1 + length (encode_u64 ?len)) name"
    using assms(2) GChild by (simp_all add: encode_name_at)
  have len: "unat ?len = length name" using assms(1) GChild by (simp add: unat_of_nat_u64)
  have d: "decode_u64 (drop (at + 1) bytes) = Some (?len, length (encode_u64 ?len))" using c(3) by (simp add: decode_u64_at)
  have "at + 1 + length (encode_u64 ?len) \<le> length bytes" using code_at_le [OF c(3)] encode_u64_bound [of ?len] by fastforce
  then have "at + 1 + length (encode_u64 ?len) + length name \<le> length bytes" using code_at_le [OF c(4)] by simp
  then show ?thesis using c(1,2) d code_at_take [OF c(4)] GChild
    by (simp add: read_leaf_def len path_ops encode_name_def Let_def)
next
  case (GSlice sl)
  then show ?thesis using assms read_slice_at [of bytes at sl] by (auto simp: read_leaf_def path_ops encode_slice_at)
next
  case (GIndex i)
  then have "decode_u64 (drop (Suc at) bytes) = Some (zigzag i, length (encode_u64 (zigzag i)))"
    using assms(2) by (simp add: decode_u64_at encode_index_def)
  then show ?thesis using assms GIndex by (simp add: read_leaf_def path_ops encode_index_def)
qed (use assms in \<open>auto simp: read_leaf_def path_ops\<close>)

lemma read_op_coded:
  assumes "leaf_coded s" and "code_at bytes at (seg_bytes s)"
  shows "path_read_op bytes at = Some (seg_op s at, at + length (seg_bytes s))"
proof (cases "sel_coded s")
  case True
  then have "bytes ! at \<noteq> OP_UNION \<and> at < length bytes"
    using assms(2) by (cases s) (auto simp: path_ops encode_name_def encode_index_def encode_slice_def)
  then show ?thesis using read_leaf_coded [OF True assms(2)] by (simp add: path_read_op_def)
next
  case False
  then obtain ms where s: "s = GUnion ms" using assms(1) by (cases s) auto
  have leaves: "read_leaves bytes i (length ms') = Some (i + length (concat (map encode_member ms')))"
    if "code_at bytes i (concat (map encode_member ms'))" "\<forall>m\<in>set ms'. sel_coded (member_seg m)" for ms' i
    using that
  proof (induction ms' arbitrary: i)
    case (Cons m ms')
    then show ?case using read_leaf_coded [of "member_seg m" bytes i] by (simp add: encode_member_seg add.assoc)
  qed simp
  have "unat (of_nat (length ms) :: byte) = length ms"
    using assms(1) s by (simp add: unat_of_nat take_bit_nat_eq_self UNION_MEMBERS_MAX_def)
  then show ?thesis using assms s leaves [of "at + 2" ms] by (simp add: path_read_op_def Let_def)
qed

lemmas read_leaf_at = read_leaf_coded [OF sel_ok_coded]
lemmas read_op_at = read_op_coded [OF leaf_ok_coded]

lemma validate_selector_sound:
  assumes "validate_selector bytes at um = Ok j" and "length bytes < 2 ^ 64"
  shows "\<exists>s. sel_ok s \<and> (um \<longrightarrow> s \<noteq> GChildAny) \<and> code_at bytes at (seg_bytes s) \<and> j = at + length (seg_bytes s)"
proof -
  have at: "at < length bytes" using assms(1) by (auto simp: validate_selector_def split: if_splits)
  consider "bytes ! at = OP_CHILD" | "bytes ! at = OP_INDEX" | "bytes ! at = OP_SLICE" | "bytes ! at = OP_CHILD_ANY" "\<not> um"
    using assms(1) by (auto simp: validate_selector_def Let_def split: if_splits)
  then show ?thesis
  proof cases
    case 1
    then obtain len used where d: "decode_u64 (drop (at + 1) bytes) = Some (len, used)"
        and j: "unat len + (at + 1 + used) = j" "j \<le> length bytes" "utf8_valid (sub_slice bytes (at + 1 + used) j)"
      using assms(1) at by (auto simp: validate_selector_def Let_def rbind_Ok ok_or_Ok checked_add_usize_Some split: if_splits option.splits)
    let ?name = "sub_slice bytes (at + 1 + used) j"
    have len: "length ?name = unat len" using j by simp
    then have "of_nat (length ?name) = len" by simp
    moreover have "code_at bytes (at + 1 + used) ?name" unfolding sub_slice_def by (rule code_at_self)
    ultimately have "code_at bytes at (encode_name ?name)" using d 1 at by (simp add: encode_name_at decode_u64_at)
    moreover have "j = at + length (encode_name ?name)" using d j(1) len by (simp add: encode_name_def decode_u64_at)
    ultimately show ?thesis using j len unat_less_u64 [of len] by (intro exI [of _ "GChild ?name"]) simp
  next
    case 2
    then obtain raw used where "decode_u64 (drop (at + 1) bytes) = Some (raw, used)" "j = at + 1 + used"
      using assms(1) at by (auto simp: validate_selector_def path_ops rbind_Ok ok_or_Ok)
    then show ?thesis using 2 at
      by (intro exI [of _ "GIndex (unzigzag raw)"]) (simp add: encode_index_def decode_u64_at)
  next
    case 3
    let ?p = "bytes ! (at + 1)"
    from 3 obtain i k where p: "at + 1 < length bytes" "?p AND NOT (SLICE_HAS_START OR SLICE_HAS_END OR SLICE_HAS_STEP) = 0"
        and v: "validate_field bytes (?p AND SLICE_HAS_START \<noteq> 0) False (at + 2) = Ok i"
          "validate_field bytes (?p AND SLICE_HAS_END \<noteq> 0) False i = Ok k"
          "validate_field bytes (?p AND SLICE_HAS_STEP \<noteq> 0) True k = Ok j"
      using assms(1) at by (auto simp: validate_selector_def path_ops Let_def rbind_Ok split: if_splits)
    obtain f1 f2 f3 where f: "f1 \<noteq> None \<longleftrightarrow> ?p AND SLICE_HAS_START \<noteq> 0" "f2 \<noteq> None \<longleftrightarrow> ?p AND SLICE_HAS_END \<noteq> 0"
        "f3 \<noteq> None \<longleftrightarrow> ?p AND SLICE_HAS_STEP \<noteq> 0" "f3 \<noteq> Some 0"
        "code_at bytes (at + 2) (field_bytes f1)" "i = at + 2 + length (field_bytes f1)"
        "code_at bytes i (field_bytes f2)" "k = i + length (field_bytes f2)"
        "code_at bytes k (field_bytes f3)" "j = k + length (field_bytes f3)"
      using v unfolding validate_field_at by blast
    let ?s = "\<lparr>sl_start = f1, sl_end = f2, sl_step = f3\<rparr>"
    have "?p = slice_presence ?s" using presence_unique [OF p(2), of ?s] f(1-3) by simp
    then show ?thesis using p(1) 3 f by (intro exI [of _ "GSlice ?s"]) (simp add: encode_slice_at encode_slice_fields)
  next
    case 4
    then show ?thesis using assms(1) at
      by (intro exI [of _ GChildAny]) (auto simp: validate_selector_def path_ops)
  qed
qed

lemma validate_selector_complete:
  assumes "sel_ok s" and "um \<longrightarrow> s \<noteq> GChildAny" and "code_at bytes at (seg_bytes s)" and "length bytes < 2 ^ 64"
  shows "validate_selector bytes at um = Ok (at + length (seg_bytes s))"
proof (cases s)
  case (GChild name)
  let ?len = "of_nat (length name) :: u64"
  have c: "at < length bytes" "bytes ! at = OP_CHILD" "code_at bytes (at + 1) (encode_u64 ?len)"
      "code_at bytes (at + 1 + length (encode_u64 ?len)) name"
    using assms(3) GChild by (simp_all add: encode_name_at)
  have len: "unat ?len = length name" using assms(1) GChild by (simp add: unat_of_nat_u64)
  have d: "decode_u64 (drop (at + 1) bytes) = Some (?len, length (encode_u64 ?len))" using c(3) by (simp add: decode_u64_at)
  let ?data = "at + 1 + length (encode_u64 ?len)"
  have "?data \<le> length bytes" using code_at_le [OF c(3)] encode_u64_bound [of ?len] by fastforce
  then have le: "?data + length name \<le> length bytes" using code_at_le [OF c(4)] by simp
  then have "checked_add_usize (length name) ?data = Some (?data + length name)"
    using assms(4) by (simp add: checked_add_usize_Some)
  moreover have "sub_slice bytes ?data (?data + length name) = name" using code_at_take [OF c(4)] by (simp add: sub_slice_def)
  ultimately show ?thesis using c(1,2) d le GChild assms(1) by (simp add: validate_selector_def len path_ops encode_name_def Let_def)
next
  case (GIndex i)
  then have "decode_u64 (drop (Suc at) bytes) = Some (zigzag i, length (encode_u64 (zigzag i)))"
    using assms(3) by (simp add: decode_u64_at encode_index_def)
  then show ?thesis using assms GIndex by (simp add: validate_selector_def path_ops encode_index_def)
next
  case (GSlice sl)
  let ?f1 = "field_bytes (sl_start sl)" and ?f2 = "field_bytes (sl_end sl)" and ?f3 = "field_bytes (sl_step sl)"
  note c = assms(3) [unfolded GSlice seg_bytes.simps encode_slice_at]
  have "validate_field bytes (slice_presence sl AND SLICE_HAS_START \<noteq> 0) False (at + 2) = Ok (at + 2 + length ?f1)"
    "validate_field bytes (slice_presence sl AND SLICE_HAS_END \<noteq> 0) False (at + 2 + length ?f1) = Ok (at + 2 + length ?f1 + length ?f2)"
    "validate_field bytes (slice_presence sl AND SLICE_HAS_STEP \<noteq> 0) True (at + 2 + length ?f1 + length ?f2) =
      Ok (at + 2 + length ?f1 + length ?f2 + length ?f3)"
    using c assms(1) GSlice unfolding validate_field_at presence_bits by auto
  then show ?thesis using c GSlice presence_bits(4) [of sl]
    by (simp add: validate_selector_def path_ops Let_def encode_slice_fields)
qed (use assms in \<open>auto simp: validate_selector_def path_ops\<close>)

lemma sel_member: "sel_ok s \<Longrightarrow> s \<noteq> GChildAny \<Longrightarrow> \<exists>m. s = member_seg m"
  by (cases s) (auto intro: member_seg.simps [symmetric])

lemma member_not_any: "member_seg m \<noteq> GChildAny"
  by (cases m) auto

lemma validate_members_sound:
  assumes "validate_members bytes at n = Ok j" and "length bytes < 2 ^ 64"
  shows "\<exists>ms. length ms = n \<and> (\<forall>m\<in>set ms. sel_ok (member_seg m)) \<and> code_at bytes at (concat (map encode_member ms)) \<and>
    j = at + length (concat (map encode_member ms))"
  using assms(1)
proof (induction n arbitrary: at)
  case (Suc n)
  then obtain i where i: "validate_selector bytes at True = Ok i" "validate_members bytes i n = Ok j" by (auto simp: rbind_Ok)
  obtain s where s: "sel_ok s" "s \<noteq> GChildAny" "code_at bytes at (seg_bytes s)" "i = at + length (seg_bytes s)"
    using validate_selector_sound [OF i(1) assms(2)] by blast
  obtain m where m: "s = member_seg m" using sel_member [OF s(1,2)] by blast
  obtain ms where "length ms = n" "\<forall>m\<in>set ms. sel_ok (member_seg m)" "code_at bytes i (concat (map encode_member ms))"
      "j = i + length (concat (map encode_member ms))"
    using Suc.IH [OF i(2)] by blast
  then show ?case using s m by (intro exI [of _ "m # ms"]) (simp add: encode_member_seg [of m])
qed simp

lemma validate_members_complete:
  assumes "\<forall>m\<in>set ms. sel_ok (member_seg m)" and "code_at bytes at (concat (map encode_member ms))" and "length bytes < 2 ^ 64"
  shows "validate_members bytes at (length ms) = Ok (at + length (concat (map encode_member ms)))"
  using assms(1,2)
proof (induction ms arbitrary: at)
  case (Cons m ms)
  then show ?case using validate_selector_complete [of "member_seg m" True bytes at] assms(3)
    by (simp add: encode_member_seg [of m] member_not_any add.assoc)
qed simp

lemma unat_union_count: "length ms \<le> UNION_MEMBERS_MAX \<Longrightarrow> unat (of_nat (length ms) :: byte) = length ms"
  by (simp add: unat_of_nat take_bit_nat_eq_self UNION_MEMBERS_MAX_def)

lemma validate_segment_sound:
  assumes "validate_segment bytes at = Ok j" and "at < length bytes" and "length bytes < 2 ^ 64"
  shows "\<exists>s. leaf_ok s \<and> code_at bytes at (seg_bytes s) \<and> j = at + length (seg_bytes s)"
proof (cases "bytes ! at = OP_UNION")
  case True
  let ?n = "unat (bytes ! (at + 1))"
  from True have n: "at + 1 < length bytes" "2 \<le> ?n" "?n \<le> UNION_MEMBERS_MAX" "validate_members bytes (at + 2) ?n = Ok j"
    using assms(1) by (auto simp: validate_segment_def Let_def split: if_splits)
  obtain ms where ms: "length ms = ?n" "\<forall>m\<in>set ms. sel_ok (member_seg m)" "code_at bytes (at + 2) (concat (map encode_member ms))"
      "j = at + 2 + length (concat (map encode_member ms))"
    using validate_members_sound [OF n(4) assms(3)] by blast
  then have "of_nat (length ms) = bytes ! (at + 1)" by simp
  then show ?thesis using True n ms assms(2) by (intro exI [of _ "GUnion ms"]) simp
next
  case False
  then have "validate_selector bytes at False = Ok j" using assms(1) by (auto simp: validate_segment_def split: if_splits)
  then show ?thesis using validate_selector_sound [OF _ assms(3)] sel_ok_leaf by blast
qed

lemma validate_segment_complete:
  assumes "leaf_ok s" and "code_at bytes at (seg_bytes s)" and "length bytes < 2 ^ 64"
  shows "validate_segment bytes at = Ok (at + length (seg_bytes s))" and "bytes ! at \<noteq> OP_DESCEND" and "at < length bytes"
proof -
  show "bytes ! at \<noteq> OP_DESCEND" and at: "at < length bytes"
    using assms(1,2) by (cases s; auto simp: path_ops encode_name_def encode_index_def encode_slice_def)+
  show "validate_segment bytes at = Ok (at + length (seg_bytes s))"
  proof (cases "sel_ok s")
    case True
    then have "bytes ! at \<noteq> OP_UNION" "bytes ! at \<noteq> OP_ROOT"
      using assms(2) by (cases s; auto simp: path_ops encode_name_def encode_index_def encode_slice_def)+
    then show ?thesis using validate_selector_complete [OF True _ assms(2,3), of False] by (simp add: validate_segment_def)
  next
    case False
    then obtain ms where s: "s = GUnion ms" using assms(1) by (cases s) auto
    then show ?thesis using assms validate_members_complete [of ms bytes "at + 2"] unat_union_count [of ms]
      by (simp add: validate_segment_def Let_def)
  qed
qed

lemma leaf_ok_seg: "leaf_ok s \<Longrightarrow> seg_ok s"
  by (cases s) auto

lemma code_at_drop: "code_at bs at xs \<Longrightarrow> drop at bs = xs @ drop (at + length xs) bs"
  by (auto simp: code_at_def) (metis add.commute append_eq_conv_conj drop_drop)

lemma validate_loop_sound:
  assumes "validate_loop bytes at n pending = Ok (at', n', False)" and "n \<le> SEGMENTS_MAX" and "length bytes < 2 ^ 64"
  shows "\<exists>segs. (\<forall>s\<in>set segs. seg_ok s) \<and> (if pending then [OP_DESCEND] else []) @ drop at bytes = concat (map seg_bytes segs) \<and>
    n' = n + length segs \<and> n' \<le> SEGMENTS_MAX"
  using assms
proof (induction bytes at n pending rule: validate_loop.induct)
  case (1 bytes at n pending)
  show ?case
  proof (cases "at < length bytes")
    case False
    then have "pending = False" "n' = n" using "1.prems"(1) by (simp_all add: validate_loop.simps [of bytes at])
    then show ?thesis using False "1.prems"(2) by (intro exI [of _ "[]"]) simp
  next
    case True
    have n: "n \<noteq> SEGMENTS_MAX" using True "1.prems"(1) by (auto simp: validate_loop.simps [of bytes at])
    show ?thesis
    proof (cases "bytes ! at = OP_DESCEND")
      case d: True
      then have "\<not> pending" "validate_loop bytes (at + 1) n True = Ok (at', n', False)"
        using "1.prems"(1) True n by (auto simp: validate_loop.simps [of bytes at] split: if_splits)
      moreover have "drop at bytes = OP_DESCEND # drop (at + 1) bytes" using d True by (simp add: Cons_nth_drop_Suc [symmetric])
      ultimately show ?thesis using "1.IH"(1) [OF True n d _ _ "1.prems"(2,3)] by simp
    next
      case nd: False
      then obtain j where j: "validate_segment bytes at = Ok j" "validate_loop bytes j (n + 1) False = Ok (at', n', False)"
        using "1.prems"(1) True n by (auto simp: validate_loop.simps [of bytes at] split: sum.splits)
      obtain s where s: "leaf_ok s" "code_at bytes at (seg_bytes s)" "j = at + length (seg_bytes s)"
        using validate_segment_sound [OF j(1) True "1.prems"(3)] by blast
      have "n + 1 \<le> SEGMENTS_MAX" using n "1.prems"(2) by simp
      from "1.IH"(2) [OF True n nd j(1) j(2) this "1.prems"(3)] obtain segs where
        segs: "\<forall>s\<in>set segs. seg_ok s" "drop j bytes = concat (map seg_bytes segs)" "n' = n + 1 + length segs" "n' \<le> SEGMENTS_MAX"
        by auto
      have "drop at bytes = seg_bytes s @ concat (map seg_bytes segs)" using code_at_drop [OF s(2)] s(3) segs(2) by simp
      then show ?thesis using segs s(1) leaf_ok_seg [OF s(1)]
        by (intro exI [of _ "(if pending then GDescend s else s) # segs"]) auto
    qed
  qed
qed

lemma validate_loop_leaf:
  assumes "leaf_ok s" and "code_at bytes at (seg_bytes s)" and "length bytes < 2 ^ 64" and "n \<noteq> SEGMENTS_MAX"
  shows "validate_loop bytes at n pending = validate_loop bytes (at + length (seg_bytes s)) (n + 1) False"
  using validate_segment_complete [OF assms(1-3)] assms(4) by (subst validate_loop.simps) simp

lemma validate_loop_complete:
  assumes "\<forall>s\<in>set segs. seg_ok s" and "code_at bytes at (concat (map seg_bytes segs))" and "n + length segs \<le> SEGMENTS_MAX"
    and "length bytes < 2 ^ 64" and "length bytes = at + length (concat (map seg_bytes segs))"
  shows "validate_loop bytes at n False = Ok (length bytes, n + length segs, False)"
  using assms
proof (induction segs arbitrary: at n)
  case Nil
  then show ?case by (simp add: validate_loop.simps [of bytes at])
next
  case (Cons s segs)
  have IH: "validate_loop bytes (at + length (seg_bytes s)) (n + 1) False = Ok (length bytes, n + length (s # segs), False)"
    using Cons.IH [of "at + length (seg_bytes s)" "n + 1"] Cons.prems by simp
  have n: "n \<noteq> SEGMENTS_MAX" using Cons.prems(3) by simp
  show ?case
  proof (cases "leaf_ok s")
    case True
    then show ?thesis using validate_loop_leaf [OF True _ Cons.prems(4) n] Cons.prems(2) IH by simp
  next
    case False
    then obtain l where l: "s = GDescend l" "leaf_ok l" using Cons.prems(1) by (cases s) auto
    then have "validate_loop bytes at n False = validate_loop bytes (at + 1) n True"
      using Cons.prems(2) n by (subst validate_loop.simps) simp
    also have "\<dots> = validate_loop bytes (at + 1 + length (seg_bytes l)) (n + 1) False"
      using validate_loop_leaf [OF l(2) _ Cons.prems(4) n] Cons.prems(2) l(1) by simp
    finally show ?thesis using IH l(1) by simp
  qed
qed

section \<open>One program, one encoding\<close>

definition ast_ok :: "PathAst \<Rightarrow> bool" where
  "ast_ok ast \<longleftrightarrow> length (pa_segments ast) \<le> SEGMENTS_MAX \<and> (\<forall>s\<in>set (pa_segments ast). seg_ok s)"

definition path_bytes :: "PathAst \<Rightarrow> bytes" where
  "path_bytes ast =
     [PATH_PROGRAM_VERSION, if pa_legacy ast then FLAG_LEGACY else 0, OP_ROOT] @ concat (map seg_bytes (pa_segments ast))"

lemma union_count_Ok: "2 \<le> length ms \<Longrightarrow> length ms \<le> UNION_MEMBERS_MAX \<Longrightarrow> union_count ms = Ok (of_nat (length ms))"
  by (simp add: union_count_def UNION_MEMBERS_MAX_def)

lemma encode_leaf_ok: "leaf_ok s \<Longrightarrow> encode_leaf_segment s = Some (Ok (seg_bytes s))"
  by (cases s) (simp_all add: union_count_Ok)

lemma encode_segment_ok: "seg_ok s \<Longrightarrow> encode_segment s = Some (Ok (seg_bytes s))"
  by (cases s) (simp_all add: encode_leaf_ok [simplified] union_count_Ok)

lemma encode_segments_ok: "\<forall>s\<in>set segs. seg_ok s \<Longrightarrow> encode_segments segs = Some (Ok (concat (map seg_bytes segs)))"
  by (induction segs) (simp_all add: encode_segment_ok)

lemma path_encode_ok:
  "ast_ok ast \<Longrightarrow> path_encode ast = Some (if length (path_bytes ast) \<ge> PATH_BYTES_CEILING then Err (PathError 0 PathTooLong)
    else Ok (path_bytes ast))"
  by (simp add: path_encode_def ast_ok_def encode_segments_ok path_bytes_def Let_def)

lemma decode_members_at:
  assumes "\<forall>m\<in>set ms. sel_coded (member_seg m)" and "code_at bytes at (concat (map encode_member ms))"
  shows "decode_members bytes at (length ms) = Some ms"
  using assms
proof (induction ms arbitrary: at)
  case (Cons m ms)
  then show ?case using read_op_coded [OF sel_coded_leaf, of "member_seg m" bytes at]
    by (cases m) (simp_all add: encode_member_seg [of m])
qed simp

lemma op_to_segment_coded:
  assumes "leaf_coded s" and "code_at bytes at (seg_bytes s)"
  shows "op_to_segment bytes (seg_op s at) = Some s" and "seg_op s at \<noteq> OpDescend"
proof -
  show "op_to_segment bytes (seg_op s at) = Some s"
  proof (cases s)
    case (GUnion ms)
    then show ?thesis using assms decode_members_at [of ms bytes "at + 2"] unat_union_count [of ms] by simp
  qed (use assms in simp_all)
  show "seg_op s at \<noteq> OpDescend" using assms(1) by (cases s) simp_all
qed

lemmas op_to_segment_at = op_to_segment_coded [OF leaf_ok_coded]

lemma decode_segments_at:
  assumes "\<forall>s\<in>set segs. seg_coded s" and "code_at bytes at (concat (map seg_bytes segs))"
    and "length bytes = at + length (concat (map seg_bytes segs))" and "length segs \<le> n"
  shows "decode_segments n bytes at = Some segs"
  using assms
proof (induction segs arbitrary: at n)
  case Nil
  then show ?case by (cases n) simp_all
next
  case (Cons s segs)
  obtain n' where n: "n = Suc n'" using Cons.prems(4) by (cases n) auto
  have IH: "decode_segments n' bytes (at + length (seg_bytes s)) = Some segs"
    using Cons.IH [of "at + length (seg_bytes s)" n'] Cons.prems n by simp
  have at: "at < length bytes" using Cons.prems(3) seg_bytes_nonempty(2) [of s] by simp
  show ?case
  proof (cases "leaf_coded s")
    case True
    have c: "code_at bytes at (seg_bytes s)" using Cons.prems(2) by simp
    show ?thesis using read_op_coded [OF True c] op_to_segment_coded [OF True c] n IH at by (cases "seg_op s at") (auto simp del: op_to_segment.simps)
  next
    case False
    then obtain l where l: "s = GDescend l" "leaf_coded l" using Cons.prems(1) by (cases s) auto
    have c: "bytes ! at = OP_DESCEND" "code_at bytes (at + 1) (seg_bytes l)" using Cons.prems(2) l(1) by simp_all
    have "path_read_op bytes at = Some (OpDescend, at + 1)" using c(1) at by (simp add: path_read_op_def read_leaf_def path_ops)
    then show ?thesis using read_op_coded [OF l(2) c(2)] op_to_segment_coded [OF l(2) c(2)] n IH at l(1) by simp
  qed
qed

lemma length_segs_le: "length segs \<le> length (concat (map seg_bytes segs))"
proof (induction segs)
  case (Cons s segs)
  have "length (s # segs) = length segs + 1" "length (concat (map seg_bytes (s # segs))) =
      length (seg_bytes s) + length (concat (map seg_bytes segs))" by simp_all
  then show ?case using Cons seg_bytes_nonempty(2) [of s] by linarith
qed simp

lemma path_bytes_at: "code_at (path_bytes ast) 3 (concat (map seg_bytes (pa_segments ast)))"
  by (simp add: path_bytes_def code_at_def)

lemma path_decode_coded: "\<forall>s\<in>set (pa_segments ast). seg_coded s \<Longrightarrow> path_decode (path_bytes ast) = Some ast"
proof -
  assume ok: "\<forall>s\<in>set (pa_segments ast). seg_coded s"
  have "decode_segments (length (path_bytes ast)) (path_bytes ast) 3 = Some (pa_segments ast)"
    using ok length_segs_le [of "pa_segments ast"] by (intro decode_segments_at [OF _ path_bytes_at]) (simp_all add: path_bytes_def)
  moreover have "is_legacy (path_bytes ast) = Some (pa_legacy ast)" by (simp add: is_legacy_def path_bytes_def FLAG_LEGACY_def)
  ultimately show ?thesis by (simp add: path_decode_def)
qed

lemma path_decode_ok: "ast_ok ast \<Longrightarrow> path_decode (path_bytes ast) = Some ast"
  by (intro path_decode_coded) (simp add: ast_ok_def seg_ok_coded)

text \<open>Whatever the encoder writes can be read back.\<close>

lemma union_count_iff:
  "union_count ms = Ok c \<longleftrightarrow> 2 \<le> length ms \<and> length ms \<le> UNION_MEMBERS_MAX \<and> c = of_nat (length ms)"
  by (auto simp: union_count_def UNION_MEMBERS_MAX_def)

lemma member_bytes_le: "m \<in> set ms \<Longrightarrow> length (seg_bytes (member_seg m)) \<le> length (concat (map encode_member ms))"
  by (induction ms) (auto simp: encode_member_seg)

lemma sel_coded_member: "length (seg_bytes (member_seg m)) < 2 ^ 64 \<Longrightarrow> sel_coded (member_seg m)"
  by (cases m) (simp_all add: encode_name_def)

lemma encode_leaf_coded:
  assumes "encode_leaf_segment s = Some (Ok bs)" and "length bs < 2 ^ 64"
  shows "leaf_coded s \<and> bs = seg_bytes s"
proof (cases s)
  case (GUnion ms)
  have c: "2 \<le> length ms" "length ms \<le> UNION_MEMBERS_MAX" "bs = seg_bytes s"
    using assms(1) GUnion by (auto simp: rbind_Ok union_count_iff)
  have "sel_coded (member_seg m)" if "m \<in> set ms" for m
    using member_bytes_le [OF that] assms(2) c(3) GUnion by (intro sel_coded_member) simp
  then show ?thesis using c GUnion by simp
qed (use assms in \<open>auto simp: encode_name_def\<close>)

lemma encode_segment_coded:
  assumes "encode_segment s = Some (Ok bs)" and "length bs < 2 ^ 64"
  shows "seg_coded s \<and> bs = seg_bytes s"
proof (cases s)
  case (GDescend inner)
  then obtain bs' where "encode_leaf_segment inner = Some (Ok bs')" "bs = OP_DESCEND # bs'"
    using assms(1) by (auto simp: rbind_Ok)
  then show ?thesis using encode_leaf_coded [of inner bs'] assms(2) GDescend by simp
qed (use assms encode_leaf_coded [of s bs] in simp_all)

lemma encode_segments_coded:
  assumes "encode_segments segs = Some (Ok bs)" and "length bs < 2 ^ 64"
  shows "(\<forall>s\<in>set segs. seg_coded s) \<and> bs = concat (map seg_bytes segs)"
  using assms
proof (induction segs arbitrary: bs)
  case (Cons s segs)
  then obtain b bs' where b: "encode_segment s = Some (Ok b)" "encode_segments segs = Some (Ok bs')" "bs = b @ bs'"
    by (auto simp: rbind_Ok split: Option.bind_splits sum.splits)
  then show ?case using Cons.IH [of bs'] encode_segment_coded [of s b] Cons.prems(2) by simp
qed simp

lemma path_encode_coded:
  assumes "path_encode ast = Some (Ok bytes)"
  shows "bytes = path_bytes ast" and "length bytes < PATH_BYTES_CEILING" and "path_decode bytes = Some ast"
proof -
  obtain bs where bs: "encode_segments (pa_segments ast) = Some (Ok bs)" and
      b: "bytes = [PATH_PROGRAM_VERSION, if pa_legacy ast then FLAG_LEGACY else 0, OP_ROOT] @ bs" "length bytes < PATH_BYTES_CEILING"
    using assms by (auto simp: path_encode_def Let_def rbind_Ok split: if_splits)
  have "length bs < 2 ^ 64" using b by (simp add: PATH_BYTES_CEILING_def)
  note c = encode_segments_coded [OF bs this]
  then show "bytes = path_bytes ast" using b(1) by (simp add: path_bytes_def)
  then show "path_decode bytes = Some ast" using c path_decode_coded by simp
  show "length bytes < PATH_BYTES_CEILING" by (rule b(2))
qed

lemma flag_byte: "b AND NOT FLAG_LEGACY = 0 \<Longrightarrow> b = (if b AND FLAG_LEGACY \<noteq> 0 then FLAG_LEGACY else 0)"
proof -
  assume a: "b AND NOT FLAG_LEGACY = 0"
  have "b = (b AND NOT 1) OR (b AND 1)" by (rule bit_word_eqI) (auto simp: bit_simps)
  then have "b = b AND 1" using a by (simp add: FLAG_LEGACY_def)
  then show ?thesis by (auto simp: FLAG_LEGACY_def and_one_eq mod2_eq_if split: if_splits)
qed

lemma path_validate_iff:
  "path_validate bytes = Ok () \<longleftrightarrow> (\<exists>ast. ast_ok ast \<and> bytes = path_bytes ast \<and> length bytes < PATH_BYTES_CEILING)"
proof
  assume v: "path_validate bytes = Ok ()"
  then have b: "3 \<le> length bytes" "length bytes < PATH_BYTES_CEILING" "bytes ! 0 = PATH_PROGRAM_VERSION"
      "bytes ! 1 AND NOT FLAG_LEGACY = 0" "bytes ! 2 = OP_ROOT"
    by (auto simp: path_validate_def split: if_splits)
  from v b obtain at n where l: "validate_loop bytes 3 0 False = Ok (at, n, False)"
    by (auto simp: path_validate_def rbind_Ok split: if_splits)
  have "length bytes < 2 ^ 64" using b(2) by (simp add: PATH_BYTES_CEILING_def)
  from validate_loop_sound [OF l _ this] obtain segs where
    segs: "\<forall>s\<in>set segs. seg_ok s" "drop 3 bytes = concat (map seg_bytes segs)" "length segs \<le> SEGMENTS_MAX" by auto
  let ?ast = "\<lparr>pa_legacy = (bytes ! 1 AND FLAG_LEGACY \<noteq> 0), pa_segments = segs\<rparr>"
  have "bytes = [bytes ! 0, bytes ! 1, bytes ! 2] @ drop 3 bytes"
    using b(1) by (auto simp: numeral_3_eq_3 numeral_2_eq_2 Suc_le_length_iff)
  then have "bytes = path_bytes ?ast" using b(3,5) segs(2) flag_byte [OF b(4)] by (simp add: path_bytes_def)
  then show "\<exists>ast. ast_ok ast \<and> bytes = path_bytes ast \<and> length bytes < PATH_BYTES_CEILING"
    using segs b(2) by (intro exI [of _ ?ast]) (simp add: ast_ok_def)
next
  assume "\<exists>ast. ast_ok ast \<and> bytes = path_bytes ast \<and> length bytes < PATH_BYTES_CEILING"
  then obtain ast where ast: "ast_ok ast" "bytes = path_bytes ast" "length bytes < PATH_BYTES_CEILING" by blast
  have len: "length bytes = 3 + length (concat (map seg_bytes (pa_segments ast)))" using ast(2) by (simp add: path_bytes_def)
  have "validate_loop bytes 3 0 False = Ok (length bytes, length (pa_segments ast), False)"
    using validate_loop_complete [of "pa_segments ast" bytes 3 0] path_bytes_at [of ast] ast len
    by (simp add: ast_ok_def PATH_BYTES_CEILING_def)
  moreover have "bytes ! 0 = PATH_PROGRAM_VERSION" "bytes ! 1 AND NOT FLAG_LEGACY = 0" "bytes ! 2 = OP_ROOT"
    using ast(2) by (simp_all add: path_bytes_def FLAG_LEGACY_def)
  ultimately show "path_validate bytes = Ok ()" using ast(3) len by (auto simp: path_validate_def)
qed

text \<open>The programs of \<open>$..[-1]\<close> and \<open>$.a\<close>.\<close>

lemma descend_last_bytes: "path_bytes \<lparr>pa_legacy = False, pa_segments = [GDescend (GIndex (- 1))]\<rparr> = [1, 0, 1, 7, 4, 1]"
proof -
  have "encode_u64 1 = [1]" by (simp add: encode_u64.simps)
  moreover have "zigzag (- 1) = 1" by (simp add: zigzag_def)
  ultimately show ?thesis by (simp add: path_bytes_def encode_index_def path_ops PATH_PROGRAM_VERSION_def)
qed

lemma descend_last_program: "path_from_bytes [1, 0, 1, 7, 4, 1] = Ok [1, 0, 1, 7, 4, 1]"
  "path_decode [1, 0, 1, 7, 4, 1] = Some \<lparr>pa_legacy = False, pa_segments = [GDescend (GIndex (- 1))]\<rparr>"
proof -
  let ?ast = "\<lparr>pa_legacy = False, pa_segments = [GDescend (GIndex (- 1))]\<rparr>"
  have "ast_ok ?ast" by (simp add: ast_ok_def SEGMENTS_MAX_def)
  then show "path_from_bytes [1, 0, 1, 7, 4, 1] = Ok [1, 0, 1, 7, 4, 1]"
    "path_decode [1, 0, 1, 7, 4, 1] = Some \<lparr>pa_legacy = False, pa_segments = [GDescend (GIndex (- 1))]\<rparr>"
    using path_validate_iff [of "[1, 0, 1, 7, 4, 1]"] path_decode_ok [of ?ast] descend_last_bytes
    by (auto simp: path_from_bytes_def PATH_BYTES_CEILING_def intro!: exI [of _ ?ast])
qed

lemma field_a_program: "path_from_bytes [1, 0, 1, 2, 1, 0x61] = Ok [1, 0, 1, 2, 1, 0x61]"
  "path_decode [1, 0, 1, 2, 1, 0x61] = Some \<lparr>pa_legacy = False, pa_segments = [GChild [0x61]]\<rparr>"
proof -
  let ?ast = "\<lparr>pa_legacy = False, pa_segments = [GChild [0x61]]\<rparr>"
  have b: "path_bytes ?ast = [1, 0, 1, 2, 1, 0x61]"
    by (simp add: path_bytes_def encode_name_def encode_u64.simps path_ops PATH_PROGRAM_VERSION_def)
  have "ast_ok ?ast" by (simp add: ast_ok_def utf8_valid.simps SEGMENTS_MAX_def)
  then show "path_from_bytes [1, 0, 1, 2, 1, 0x61] = Ok [1, 0, 1, 2, 1, 0x61]"
    "path_decode [1, 0, 1, 2, 1, 0x61] = Some \<lparr>pa_legacy = False, pa_segments = [GChild [0x61]]\<rparr>"
    using path_validate_iff [of "[1, 0, 1, 2, 1, 0x61]"] path_decode_ok [of ?ast] b
    by (auto simp: path_from_bytes_def PATH_BYTES_CEILING_def intro!: exI [of _ ?ast])
qed

text \<open>
  C31: bytes pass \<open>from_bytes\<close> if and only if they are the encoding of a well-formed path, one with at most
  \<open>SEGMENTS_MAX\<close> segments, UTF-8 names and no zero step. The encoder itself checks none of these three, and accepts
  other trees: whatever it writes decodes to the tree it was given, so a tree has one encoding, and the validator
  accepts what it wrote if and only if that tree is well-formed.
\<close>

theorem path_program_canonical:
  "(path_from_bytes bytes = Ok program \<longleftrightarrow> program = bytes \<and> (\<exists>ast. ast_ok ast \<and> path_encode ast = Some (Ok bytes))) \<and>
   (\<forall>ast. path_encode ast = Some (Ok bytes) \<longrightarrow>
      path_decode bytes = Some ast \<and> (path_from_bytes bytes = Ok bytes \<longleftrightarrow> ast_ok ast))"
proof -
  have valid: "path_from_bytes bytes = Ok program \<longleftrightarrow> program = bytes \<and> (\<exists>ast. ast_ok ast \<and> path_encode ast = Some (Ok bytes))" for program
    using path_validate_iff [of bytes] path_encode_ok by (auto simp: path_from_bytes_def rbind_Ok split: if_splits)
  moreover have "path_decode bytes = Some ast \<and> (path_from_bytes bytes = Ok bytes \<longleftrightarrow> ast_ok ast)"
    if "path_encode ast = Some (Ok bytes)" for ast
  proof -
    note d = path_encode_coded(3) [OF that]
    have "a = ast" if "path_encode a = Some (Ok bytes)" for a using path_encode_coded(3) [OF that] d by simp
    then show ?thesis using d valid [of bytes] that by blast
  qed
  ultimately show ?thesis by blast
qed

theorem path_program_canonical_witness:
  "path_decode [1, 0, 1, 2, 1, 0x61, 7, 4, 1] = Some \<lparr>pa_legacy = False, pa_segments = [GChild [0x61], GDescend (GIndex (- 1))]\<rparr> \<and>
   path_from_bytes [1, 0, 1, 2, 1, 0x61, 7, 4, 1] = Ok [1, 0, 1, 2, 1, 0x61, 7, 4, 1] \<and>
   path_encode \<lparr>pa_legacy = False, pa_segments = [GSlice \<lparr>sl_start = None, sl_end = None, sl_step = Some 0\<rparr>]\<rparr> =
     Some (Ok [1, 0, 1, 5, 4, 0]) \<and>
   path_from_bytes [1, 0, 1, 5, 4, 0] \<noteq> Ok [1, 0, 1, 5, 4, 0]"
proof -
  let ?ast = "\<lparr>pa_legacy = False, pa_segments = [GChild [0x61], GDescend (GIndex (- 1))]\<rparr>"
  let ?zero = "\<lparr>pa_legacy = False, pa_segments = [GSlice \<lparr>sl_start = None, sl_end = None, sl_step = Some 0\<rparr>]\<rparr>"
  have u: "encode_u64 0 = [0]" "encode_u64 1 = [1]" "zigzag (- 1) = 1" "zigzag 0 = 0"
    by (simp_all add: encode_u64.simps zigzag_def)
  have e: "path_encode ?ast = Some (Ok [1, 0, 1, 2, 1, 0x61, 7, 4, 1])" "path_encode ?zero = Some (Ok [1, 0, 1, 5, 4, 0])"
    by (simp_all add: path_encode_def encode_name_def encode_index_def encode_slice_def slice_presence_def slice_bits
        List.map_filter_simps u path_ops PATH_PROGRAM_VERSION_def PATH_BYTES_CEILING_def)
  moreover have "ast_ok ?ast" "\<not> ast_ok ?zero" by (simp_all add: ast_ok_def utf8_valid.simps SEGMENTS_MAX_def)
  ultimately show ?thesis
    using path_program_canonical [of "[1, 0, 1, 2, 1, 0x61, 7, 4, 1]" "[]"] path_program_canonical [of "[1, 0, 1, 5, 4, 0]" "[]"]
    by blast
qed

end
