(* ===== verification/PathEval.thy ===== *)
theory PathEval
  imports PathProgram "HOL-Library.Sublist"
begin

text \<open>
  \<^verbatim>\<open>crates/inf-doc/src/path/eval.rs\<close>: evaluation of a path program on a document. A document value (\<open>DocValue\<close> of
  \<^verbatim>\<open>cursor.rs\<close>) is the tree its cursors walk, so an iterator is the list of the entries it has still to give; the
  physical forms behind the cursors are not modelled. Program counters, ordinals and budgets are natural numbers.
  Indices are integers: \<open>v + len\<close> is taken for negative \<open>v\<close> only and cannot overflow, the cursor of a slice saturates.
  \<open>None\<close> is a panic or, in the loops, also a run that does not end. A visitor is a function on its own state that
  answers whether it breaks.
\<close>

section \<open>Model\<close>

datatype DocValue = VNull | VBool bool | VI64 i64 | VF64 u64 | VStr bytes | VObj "(bytes \<times> DocValue) list" | VArr "DocValue list"

subsection \<open>Match sets\<close>

datatype EvalError = TooManyMatches

record Span =
  sp_at :: nat
  sp_len :: nat

record Matches =
  mt_steps :: "nat list"
  mt_spans :: "Span list"

definition no_matches :: Matches where "no_matches = \<lparr>mt_steps = [], mt_spans = []\<rparr>"

definition matches_get :: "Matches \<Rightarrow> nat \<Rightarrow> nat list" where
  "matches_get m i = (let span = mt_spans m ! i in sub_slice (mt_steps m) (sp_at span) (sp_at span + sp_len span))"

definition matches_iter :: "Matches \<Rightarrow> nat list list" where
  "matches_iter m = map (matches_get m) [0..<length (mt_spans m)]"

definition record_match :: "Matches \<Rightarrow> nat list \<Rightarrow> nat option \<Rightarrow> nat \<Rightarrow> EvalError + Matches" where
  "record_match m path step cap =
     (if length (mt_spans m) \<ge> cap then Err TooManyMatches
      else let len = length path + (if step = None then 0 else 1); at = length (mt_steps m)
      in if len \<ge> 2 ^ 16 then Err TooManyMatches
         else if at \<ge> 2 ^ 32 then Err TooManyMatches
         else if at + len \<ge> 2 ^ 32 then Err TooManyMatches
         else Ok \<lparr>mt_steps = mt_steps m @ path @ (case step of None \<Rightarrow> [] | Some s \<Rightarrow> [s]),
                  mt_spans = mt_spans m @ [\<lparr>sp_at = at, sp_len = len\<rparr>]\<rparr>)"

fun resolve :: "DocValue \<Rightarrow> nat list \<Rightarrow> DocValue option" where
  "resolve node [] = Some node"
| "resolve (VObj es) (step # steps) = (if step < length es then resolve (snd (es ! step)) steps else None)"
| "resolve (VArr vs) (step # steps) = (if step < length vs then resolve (vs ! step) steps else None)"
| "resolve _ (step # steps) = None"

subsection \<open>Selections\<close>

datatype Progress = PFresh | PDone
  | PObj "(bytes \<times> DocValue) list" nat | PArr "DocValue list" nat | PSlice int int int | PUnion byte
  | PDescObj "(bytes \<times> DocValue) list" nat | PDescArr "DocValue list" nat

record Frame =
  fm_op_at :: nat
  fm_next_pc :: nat
  fm_node :: DocValue
  fm_stepped :: bool
  fm_progress :: Progress

record Item =
  im_node :: DocValue
  im_pc :: nat
  im_cont :: nat
  im_step :: "nat option"

definition cont_of :: "bytes \<Rightarrow> nat \<Rightarrow> nat option" where
  "cont_of bytes pc = (if pc \<ge> length bytes then Some (length bytes) else map_option snd (path_read_op bytes pc))"

definition child_item :: "Frame \<Rightarrow> bytes \<Rightarrow> DocValue \<Rightarrow> nat \<Rightarrow> Item option" where
  "child_item frame bytes v ord =
     map_option (\<lambda>cont. \<lparr>im_node = v, im_pc = fm_next_pc frame, im_cont = cont, im_step = Some ord\<rparr>)
       (cont_of bytes (fm_next_pc frame))"

fun find_entry :: "bytes \<Rightarrow> (bytes \<times> DocValue) list \<Rightarrow> nat \<Rightarrow> (nat \<times> DocValue) option" where
  "find_entry key [] ord = None"
| "find_entry key ((k, v) # es) ord = (if k = key then Some (ord, v) else find_entry key es (Suc ord))"

definition u32_try_from :: "int \<Rightarrow> nat option" where
  "u32_try_from x = (if 0 \<le> x \<and> x < 2 ^ 32 then Some (nat x) else None)"

definition resolve_index :: "i64 \<Rightarrow> int \<Rightarrow> nat option" where
  "resolve_index i len = u32_try_from (if sint i < 0 then sint i + len else sint i)"

definition clamp :: "int \<Rightarrow> int \<Rightarrow> int \<Rightarrow> int" where
  "clamp lo hi x = (if x < lo then lo else if x > hi then hi else x)"

definition resolve_slice :: "SliceSpec \<Rightarrow> int \<Rightarrow> int \<times> int \<times> int" where
  "resolve_slice spec len =
     (let step = (case sl_step spec of None \<Rightarrow> 1 | Some s \<Rightarrow> sint s);
          resolve = (\<lambda>v. if sint v < 0 then sint v + len else sint v)
      in if step > 0
         then (clamp 0 len (case sl_start spec of None \<Rightarrow> 0 | Some v \<Rightarrow> resolve v),
               clamp 0 len (case sl_end spec of None \<Rightarrow> len | Some v \<Rightarrow> resolve v), step)
         else (clamp (- 1) (len - 1) (case sl_start spec of None \<Rightarrow> len - 1 | Some v \<Rightarrow> resolve v),
               clamp (- 1) (len - 1) (case sl_end spec of None \<Rightarrow> - 1 | Some v \<Rightarrow> resolve v), step))"

definition saturating_add_i64 :: "int \<Rightarrow> int \<Rightarrow> int" where
  "saturating_add_i64 a b = max (- (2 ^ 63)) (min (2 ^ 63 - 1) (a + b))"

text \<open>One selection of a frame: the item, if any, and the frame moved on.\<close>

definition advance_child :: "bytes \<Rightarrow> Frame \<Rightarrow> bytes \<Rightarrow> (Item option \<times> Frame) option" where
  "advance_child key frame bytes =
     (if fm_progress frame \<noteq> PFresh then Some (None, frame)
      else let frame = frame\<lparr>fm_progress := PDone\<rparr>
      in case fm_node frame of
           VObj es \<Rightarrow>
             (case find_entry key es 0 of
                None \<Rightarrow> Some (None, frame)
              | Some (ord, v) \<Rightarrow> map_option (\<lambda>item. (Some item, frame)) (child_item frame bytes v ord))
         | _ \<Rightarrow> Some (None, frame))"

definition advance_index :: "i64 \<Rightarrow> Frame \<Rightarrow> bytes \<Rightarrow> (Item option \<times> Frame) option" where
  "advance_index i frame bytes =
     (if fm_progress frame \<noteq> PFresh then Some (None, frame)
      else let frame = frame\<lparr>fm_progress := PDone\<rparr>
      in case fm_node frame of
           VArr vs \<Rightarrow>
             (case resolve_index i (int (length vs)) of
                None \<Rightarrow> Some (None, frame)
              | Some ord \<Rightarrow>
                  if ord < length vs then map_option (\<lambda>item. (Some item, frame)) (child_item frame bytes (vs ! ord) ord)
                  else Some (None, frame))
         | _ \<Rightarrow> Some (None, frame))"

definition advance_any :: "Frame \<Rightarrow> bytes \<Rightarrow> (Item option \<times> Frame) option" where
  "advance_any frame bytes =
     (let frame = (if fm_progress frame = PFresh
        then frame\<lparr>fm_progress := (case fm_node frame of VObj es \<Rightarrow> PObj es 0 | VArr vs \<Rightarrow> PArr vs 0 | _ \<Rightarrow> PDone)\<rparr> else frame)
      in case fm_progress frame of
           PObj ((_, v) # es) ord \<Rightarrow>
             let frame = frame\<lparr>fm_progress := PObj es (Suc ord)\<rparr>
             in map_option (\<lambda>item. (Some item, frame)) (child_item frame bytes v ord)
         | PArr (v # vs) ord \<Rightarrow>
             let frame = frame\<lparr>fm_progress := PArr vs (Suc ord)\<rparr>
             in map_option (\<lambda>item. (Some item, frame)) (child_item frame bytes v ord)
         | _ \<Rightarrow> Some (None, frame))"

definition advance_slice :: "SliceSpec \<Rightarrow> Frame \<Rightarrow> bytes \<Rightarrow> (Item option \<times> Frame) option" where
  "advance_slice spec frame bytes =
     (let frame = (if fm_progress frame = PFresh
        then frame\<lparr>fm_progress := (case fm_node frame of
               VArr vs \<Rightarrow> (case resolve_slice spec (int (length vs)) of (i, stop, step) \<Rightarrow> PSlice i stop step)
             | _ \<Rightarrow> PDone)\<rparr> else frame)
      in case fm_progress frame of
           PSlice i stop step \<Rightarrow>
             if step > 0 \<and> i \<ge> stop \<or> step < 0 \<and> i \<le> stop then Some (None, frame)
             else let frame = frame\<lparr>fm_progress := PSlice (saturating_add_i64 i step) stop step\<rparr>
             in (case fm_node frame of
                   VArr vs \<Rightarrow>
                     if 0 \<le> i \<and> nat i < length vs
                     then map_option (\<lambda>item. (Some item, frame)) (child_item frame bytes (vs ! nat i) (nat i)) else None
                 | _ \<Rightarrow> None)
         | _ \<Rightarrow> Some (None, frame))"

definition advance_union :: "byte \<Rightarrow> nat \<Rightarrow> Frame \<Rightarrow> bytes \<Rightarrow> (Item option \<times> Frame) option" where
  "advance_union count members_at frame bytes =
     (case (case fm_progress frame of PFresh \<Rightarrow> Some 0 | PUnion member \<Rightarrow> Some member | _ \<Rightarrow> None) of
        None \<Rightarrow> Some (None, frame)
      | Some member \<Rightarrow>
          let frame = frame\<lparr>fm_progress := PUnion member\<rparr>
          in if member = count then Some (None, frame)
             else let frame = frame\<lparr>fm_progress := PUnion (member + 1)\<rparr>
             in map_option (\<lambda>pc. (Some \<lparr>im_node = fm_node frame, im_pc = pc, im_cont = fm_next_pc frame, im_step = None\<rparr>, frame))
                  (member_at bytes members_at member))"

definition advance_descend :: "Frame \<Rightarrow> bytes \<Rightarrow> (Item option \<times> Frame) option" where
  "advance_descend frame bytes =
     (let sel_at = fm_op_at frame + 1
      in case fm_progress frame of
           PFresh \<Rightarrow>
             let frame = frame\<lparr>fm_progress := (case fm_node frame of VObj es \<Rightarrow> PDescObj es 0 | VArr vs \<Rightarrow> PDescArr vs 0 | _ \<Rightarrow> PDone)\<rparr>
             in map_option (\<lambda>cont. (Some \<lparr>im_node = fm_node frame, im_pc = sel_at, im_cont = cont, im_step = None\<rparr>, frame))
                  (cont_of bytes sel_at)
         | PDescObj ((_, v) # es) ord \<Rightarrow>
             Some (Some \<lparr>im_node = v, im_pc = fm_op_at frame, im_cont = sel_at, im_step = Some ord\<rparr>,
               frame\<lparr>fm_progress := PDescObj es (Suc ord)\<rparr>)
         | PDescArr (v # vs) ord \<Rightarrow>
             Some (Some \<lparr>im_node = v, im_pc = fm_op_at frame, im_cont = sel_at, im_step = Some ord\<rparr>,
               frame\<lparr>fm_progress := PDescArr vs (Suc ord)\<rparr>)
         | _ \<Rightarrow> Some (None, frame))"

definition advance :: "bytes \<Rightarrow> Frame \<Rightarrow> (Item option \<times> Frame) option" where
  "advance bytes frame =
     (case path_read_op bytes (fm_op_at frame) of
        None \<Rightarrow> None
      | Some (op, _) \<Rightarrow>
          (case op of
             OpChild key \<Rightarrow> advance_child key frame bytes
           | OpIndex i \<Rightarrow> advance_index i frame bytes
           | OpChildAny \<Rightarrow> advance_any frame bytes
           | OpSlice spec \<Rightarrow> advance_slice spec frame bytes
           | OpUnion count members_at \<Rightarrow> advance_union count members_at frame bytes
           | OpDescend \<Rightarrow> advance_descend frame bytes
           | OpRoot \<Rightarrow> None))"

definition fresh_frame :: "Item \<Rightarrow> bool \<Rightarrow> Frame" where
  "fresh_frame item stepped =
     \<lparr>fm_op_at = im_pc item, fm_next_pc = im_cont item, fm_node = im_node item, fm_stepped = stepped, fm_progress = PFresh\<rparr>"

subsection \<open>The streaming walk\<close>

datatype VisitEnd = Complete | Stopped | Exhausted

record VisitOutcome =
  vo_end :: VisitEnd
  vo_nodes_visited :: nat

definition VISIT_FRAMES_HOT :: nat where "VISIT_FRAMES_HOT = 16"

record VisitFrames =
  vf_hot :: "Frame list"
  vf_spill :: "Frame list"

definition frames_new :: VisitFrames where "frames_new = \<lparr>vf_hot = [], vf_spill = []\<rparr>"

definition frames_push :: "VisitFrames \<Rightarrow> Frame \<Rightarrow> VisitFrames" where
  "frames_push fs frame =
     (if length (vf_hot fs) < VISIT_FRAMES_HOT then fs\<lparr>vf_hot := vf_hot fs @ [frame]\<rparr>
      else fs\<lparr>vf_spill := vf_spill fs @ [frame]\<rparr>)"

definition pop_discard :: "VisitFrames \<Rightarrow> VisitFrames" where
  "pop_discard fs =
     (if vf_spill fs \<noteq> [] then fs\<lparr>vf_spill := butlast (vf_spill fs)\<rparr> else fs\<lparr>vf_hot := butlast (vf_hot fs)\<rparr>)"

definition frames_last :: "VisitFrames \<Rightarrow> Frame option" where
  "frames_last fs =
     (if vf_spill fs \<noteq> [] then Some (last (vf_spill fs))
      else if vf_hot fs = [] then None else Some (last (vf_hot fs)))"

definition set_last :: "VisitFrames \<Rightarrow> Frame \<Rightarrow> VisitFrames" where
  "set_last fs frame =
     (if vf_spill fs \<noteq> [] then fs\<lparr>vf_spill := butlast (vf_spill fs) @ [frame]\<rparr>
      else fs\<lparr>vf_hot := butlast (vf_hot fs) @ [frame]\<rparr>)"

definition stage_visit :: "Item \<Rightarrow> VisitFrames \<Rightarrow> nat \<Rightarrow> ('s \<Rightarrow> DocValue \<Rightarrow> 's \<times> bool) \<Rightarrow> 's \<Rightarrow> VisitFrames \<times> 's \<times> bool" where
  "stage_visit item fs end_pc on_match s =
     (if im_pc item = end_pc then (fs, on_match s (im_node item))
      else (frames_push fs (fresh_frame item False), s, False))"

partial_function (option) visit_loop ::
  "bytes \<Rightarrow> ('s \<Rightarrow> DocValue \<Rightarrow> 's \<times> bool) \<Rightarrow> VisitFrames \<Rightarrow> nat \<Rightarrow> nat \<Rightarrow> 's \<Rightarrow> ('s \<times> VisitOutcome) option" where
  "visit_loop bytes on_match fs budget nodes s =
     (case frames_last fs of
        None \<Rightarrow> Some (s, \<lparr>vo_end = Complete, vo_nodes_visited = nodes\<rparr>)
      | Some frame \<Rightarrow>
          (case advance bytes frame of
             None \<Rightarrow> None
           | Some (None, frame') \<Rightarrow> visit_loop bytes on_match (pop_discard (set_last fs frame')) budget nodes s
           | Some (Some item, frame') \<Rightarrow>
               if budget = 0 then Some (s, \<lparr>vo_end = Exhausted, vo_nodes_visited = nodes\<rparr>)
               else (case stage_visit item (set_last fs frame') (length bytes) on_match s of
                   (fs', s', brk) \<Rightarrow>
                     if brk then Some (s', \<lparr>vo_end = Stopped, vo_nodes_visited = nodes + 1\<rparr>)
                     else visit_loop bytes on_match fs' (budget - 1) (nodes + 1) s')))"

text \<open>The lane for chains of \<open>Child\<close> and \<open>Index\<close>; each step moves on, so \<open>length bytes\<close> rounds suffice.\<close>

definition simple_child :: "SimpleStep \<Rightarrow> DocValue \<Rightarrow> DocValue option" where
  "simple_child step node =
     (case step of
        StepChild key \<Rightarrow> (case node of VObj es \<Rightarrow> map_option snd (find (\<lambda>(k, _). k = key) es) | _ \<Rightarrow> None)
      | StepIndex i \<Rightarrow>
          (case node of
             VArr vs \<Rightarrow> Option.bind (resolve_index i (int (length vs))) (\<lambda>ord. if ord < length vs then Some (vs ! ord) else None)
           | _ \<Rightarrow> None))"

fun visit_simple ::
  "nat \<Rightarrow> bytes \<Rightarrow> nat \<Rightarrow> DocValue \<Rightarrow> nat \<Rightarrow> nat \<Rightarrow> ('s \<Rightarrow> DocValue \<Rightarrow> 's \<times> bool) \<Rightarrow> 's \<Rightarrow> ('s \<times> VisitOutcome) option" where
  "visit_simple fuel bytes at node budget nodes on_match s =
     (case simple_next bytes at of
        None \<Rightarrow> None
      | Some None \<Rightarrow>
          (case on_match s node of (s', brk) \<Rightarrow>
             Some (s', \<lparr>vo_end = (if brk then Stopped else Complete), vo_nodes_visited = nodes\<rparr>))
      | Some (Some (step, at')) \<Rightarrow>
          (case simple_child step node of
             None \<Rightarrow> Some (s, \<lparr>vo_end = Complete, vo_nodes_visited = nodes\<rparr>)
           | Some child \<Rightarrow>
               if budget = 0 then Some (s, \<lparr>vo_end = Exhausted, vo_nodes_visited = nodes\<rparr>)
               else (case fuel of 0 \<Rightarrow> None
                 | Suc fuel \<Rightarrow> visit_simple fuel bytes at' child (budget - 1) (nodes + 1) on_match s)))"

declare visit_simple.simps [simp del]

definition eval_visit ::
  "bytes \<Rightarrow> DocValue \<Rightarrow> nat \<Rightarrow> ('s \<Rightarrow> DocValue \<Rightarrow> 's \<times> bool) \<Rightarrow> 's \<Rightarrow> ('s \<times> VisitOutcome) option" where
  "eval_visit bytes root budget_nodes on_match s =
     Option.bind (simple_steps bytes) (\<lambda>steps. case steps of
        Some at \<Rightarrow> visit_simple (length bytes) bytes at root budget_nodes 0 on_match s
      | None \<Rightarrow>
          Option.bind (cont_of bytes 3) (\<lambda>cont.
            let staged = \<lparr>im_node = root, im_pc = 3, im_cont = cont, im_step = None\<rparr>
            in case stage_visit staged frames_new (length bytes) on_match s of
                 (fs, s', brk) \<Rightarrow>
                   if brk then Some (s', \<lparr>vo_end = Stopped, vo_nodes_visited = 0\<rparr>)
                   else visit_loop bytes on_match fs budget_nodes 0 s'))"

subsection \<open>Resumable evaluation\<close>

datatype SavedProgress = SFresh | SDone | SIter nat | SSlice int int int | SUnion byte | SDescendIter nat

record SavedFrame =
  sf_op_at :: nat
  sf_next_pc :: nat
  sf_stepped :: bool
  sf_progress :: SavedProgress

record EvalState =
  es_frames :: "SavedFrame list"
  es_path :: "nat list"
  es_matches :: Matches

datatype EvalStep = StepDone Matches | StepYield EvalState

fun save_progress :: "Progress \<Rightarrow> SavedProgress" where
  "save_progress PFresh = SFresh"
| "save_progress PDone = SDone"
| "save_progress (PObj _ ord) = SIter ord"
| "save_progress (PArr _ ord) = SIter ord"
| "save_progress (PSlice i stop step) = SSlice i stop step"
| "save_progress (PUnion member) = SUnion member"
| "save_progress (PDescObj _ ord) = SDescendIter ord"
| "save_progress (PDescArr _ ord) = SDescendIter ord"

definition save_frame :: "Frame \<Rightarrow> SavedFrame" where
  "save_frame f = \<lparr>sf_op_at = fm_op_at f, sf_next_pc = fm_next_pc f, sf_stepped = fm_stepped f, sf_progress = save_progress (fm_progress f)\<rparr>"

definition save :: "Frame list \<Rightarrow> nat list \<Rightarrow> Matches \<Rightarrow> EvalState" where
  "save stack path m = \<lparr>es_frames = map save_frame stack, es_path = path, es_matches = m\<rparr>"

fun rebuild_progress :: "SavedProgress \<Rightarrow> DocValue \<Rightarrow> Progress option" where
  "rebuild_progress SFresh node = Some PFresh"
| "rebuild_progress SDone node = Some PDone"
| "rebuild_progress (SIter ord) node = (case node of
       VObj es \<Rightarrow> if ord \<le> length es then Some (PObj (drop ord es) ord) else None
     | VArr vs \<Rightarrow> if ord \<le> length vs then Some (PArr (drop ord vs) ord) else None
     | _ \<Rightarrow> None)"
| "rebuild_progress (SSlice i stop step) node = Some (PSlice i stop step)"
| "rebuild_progress (SUnion member) node = Some (PUnion member)"
| "rebuild_progress (SDescendIter ord) node = (case node of
       VObj es \<Rightarrow> if ord \<le> length es then Some (PDescObj (drop ord es) ord) else None
     | VArr vs \<Rightarrow> if ord \<le> length vs then Some (PDescArr (drop ord vs) ord) else None
     | _ \<Rightarrow> None)"

fun rebuild_frames :: "SavedFrame list \<Rightarrow> nat list \<Rightarrow> DocValue \<Rightarrow> Frame list option" where
  "rebuild_frames [] path node = Some []"
| "rebuild_frames (sf # sfs) path node =
     Option.bind
       (if sf_stepped sf then (case path of [] \<Rightarrow> None | step # path' \<Rightarrow> map_option (\<lambda>n. (n, path')) (resolve node [step]))
        else Some (node, path))
       (\<lambda>(node, path). Option.bind (rebuild_progress (sf_progress sf) node) (\<lambda>progress.
          map_option ((#) \<lparr>fm_op_at = sf_op_at sf, fm_next_pc = sf_next_pc sf, fm_node = node, fm_stepped = sf_stepped sf,
            fm_progress = progress\<rparr>) (rebuild_frames sfs path node)))"

definition consume :: "Item \<Rightarrow> Frame list \<Rightarrow> nat list \<Rightarrow> Matches \<Rightarrow> nat \<Rightarrow> nat \<Rightarrow> EvalError + Frame list \<times> nat list \<times> Matches" where
  "consume item stack path m end_pc cap =
     (if im_pc item = end_pc then rbind (record_match m path (im_step item) cap) (\<lambda>m. Ok (stack, path, m))
      else Ok (stack @ [fresh_frame item (im_step item \<noteq> None)],
               path @ (case im_step item of None \<Rightarrow> [] | Some s \<Rightarrow> [s]), m))"

partial_function (option) run_loop ::
  "bytes \<Rightarrow> nat \<Rightarrow> Frame list \<Rightarrow> nat list \<Rightarrow> Matches \<Rightarrow> nat \<Rightarrow> (EvalError + EvalStep) option" where
  "run_loop bytes cap stack path m budget =
     (if stack = [] then Some (Ok (StepDone m))
      else case advance bytes (last stack) of
          None \<Rightarrow> None
        | Some (None, frame) \<Rightarrow>
            run_loop bytes cap (butlast stack) (if fm_stepped frame then butlast path else path) m budget
        | Some (Some item, frame) \<Rightarrow>
            (case consume item (butlast stack @ [frame]) path m (length bytes) cap of
               Inl e \<Rightarrow> Some (Err e)
             | Inr (stack', path', m') \<Rightarrow>
                 if budget = 0 then Some (Ok (StepYield (save stack' path' m')))
                 else run_loop bytes cap stack' path' m' (budget - 1)))"

definition run_path :: "bytes \<Rightarrow> DocValue \<Rightarrow> nat \<Rightarrow> nat \<Rightarrow> EvalState option \<Rightarrow> (EvalError + EvalStep) option" where
  "run_path bytes root cap budget resume =
     (case resume of
        Some state \<Rightarrow>
          Option.bind (rebuild_frames (es_frames state) (es_path state) root) (\<lambda>stack.
            run_loop bytes cap stack (es_path state) (es_matches state) budget)
      | None \<Rightarrow>
          Option.bind (cont_of bytes 3) (\<lambda>cont.
            case consume \<lparr>im_node = root, im_pc = 3, im_cont = cont, im_step = None\<rparr> [] [] no_matches (length bytes) cap of
              Inl e \<Rightarrow> Some (Err e)
            | Inr (stack, path, m) \<Rightarrow> run_loop bytes cap stack path m budget))"

definition eval_budgeted :: "bytes \<Rightarrow> DocValue \<Rightarrow> nat \<Rightarrow> nat \<Rightarrow> EvalState option \<Rightarrow> (EvalError + EvalStep) option" where
  "eval_budgeted bytes root max_matches budget_nodes resume = run_path bytes root max_matches budget_nodes resume"

definition path_eval :: "bytes \<Rightarrow> DocValue \<Rightarrow> nat \<Rightarrow> (EvalError + Matches) option" where
  "path_eval bytes root max_matches =
     Option.bind (run_path bytes root max_matches (2 ^ 64 - 1) None) (\<lambda>r. case r of
        Inl e \<Rightarrow> Some (Err e)
      | Inr (StepDone m) \<Rightarrow> Some (Ok m)
      | Inr (StepYield _) \<Rightarrow> None)"

end
