(* ===== verification/PathTrace.thy ===== *)
theory PathTrace
  imports PathEval
begin

text \<open>
  What evaluating a path means: \<open>trace\<close> lists, by recursion on the syntax tree and the document, the nodes a walk
  visits and the values it finds, each with its location. The frames of \<open>advance\<close> stand for the part of the trace
  still to come (\<open>rest_events\<close>), and one call of \<open>advance\<close> gives its next event.
\<close>

section \<open>The meaning of a path\<close>

datatype event = Visit | Hit "nat list" DocValue

fun children :: "DocValue \<Rightarrow> DocValue list" where
  "children (VObj es) = map snd es"
| "children (VArr vs) = vs"
| "children _ = []"

text \<open>Slices as in Python: the ordinals from \<open>start\<close> on, in steps, up to \<open>stop\<close> exclusively.\<close>

definition slice_rest :: "int \<Rightarrow> int \<Rightarrow> int \<Rightarrow> nat \<Rightarrow> nat list" where
  "slice_rest start stop step n =
     (if step > 0 then filter (\<lambda>i. start \<le> int i \<and> int i < stop \<and> step dvd int i - start) [0..<n]
      else rev (filter (\<lambda>i. stop < int i \<and> int i \<le> start \<and> step dvd start - int i) [0..<n]))"

definition from_end :: "int \<Rightarrow> i64 \<Rightarrow> int" where
  "from_end n v = (if sint v < 0 then sint v + n else sint v)"

definition slice_ords :: "SliceSpec \<Rightarrow> nat \<Rightarrow> nat list" where
  "slice_ords spec n =
     (let step = (case sl_step spec of None \<Rightarrow> 1 | Some s \<Rightarrow> sint s); bound = (\<lambda>d v. case v of None \<Rightarrow> d | Some v \<Rightarrow> from_end (int n) v)
      in if step > 0 then slice_rest (max 0 (bound 0 (sl_start spec))) (bound (int n) (sl_end spec)) step n
         else slice_rest (min (int n - 1) (bound (int n - 1) (sl_start spec))) (bound (- 1) (sl_end spec)) step n)"

text \<open>The nodes a selector picks, with their ordinals.\<close>

fun sel_nodes :: "Segment \<Rightarrow> DocValue \<Rightarrow> (nat \<times> DocValue) list" where
  "sel_nodes (GChild key) (VObj es) =
     take 1 (map (\<lambda>(i, _, v). (i, v)) (filter (\<lambda>(_, k, _). k = key) (enumerate 0 es)))"
| "sel_nodes GChildAny v = enumerate 0 (children v)"
| "sel_nodes (GIndex i) (VArr vs) =
     (let r = from_end (int (length vs)) i in if 0 \<le> r \<and> r < int (length vs) then [(nat r, vs ! nat r)] else [])"
| "sel_nodes (GSlice spec) (VArr vs) = map (\<lambda>i. (i, vs ! i)) (slice_ords spec (length vs))"
| "sel_nodes _ _ = []"

fun weight :: "Segment \<Rightarrow> nat" where
  "weight (GDescend s) = 3 + weight s"
| "weight (GUnion ms) = 2"
| "weight _ = 1"

lemma children_size: "c \<in> set (children v) \<Longrightarrow> size c < size v"
proof (cases v)
  case (VObj es)
  assume "c \<in> set (children v)"
  then obtain k where "(k, c) \<in> set es" using VObj by auto
  then show ?thesis using size_list_estimation' [of "(k, c)" es "size c" "\<lambda>p. size_prod (\<lambda>_. 0) size p"] VObj
    by simp
next
  case (VArr vs)
  assume "c \<in> set (children v)"
  then show ?thesis using VArr size_list_estimation' [of c vs "size c" size] by (simp add: less_Suc_eq_le)
qed simp_all

lemma enumerate_children_size: "(i, c) \<in> set (enumerate n (children v)) \<Longrightarrow> size c < size v"
  by (auto simp: in_set_enumerate_eq intro: children_size)

lemma member_weight: "weight (member_seg m) = 1"
  by (cases m) simp_all

function trace :: "Segment list \<Rightarrow> DocValue \<Rightarrow> nat list \<Rightarrow> event list" where
  "trace [] v loc = [Hit loc v]"
| "trace (GDescend s # ss) v loc =
     Visit # trace (s # ss) v loc @
     concat (map (\<lambda>(i, c). Visit # trace (GDescend s # ss) c (loc @ [i])) (enumerate 0 (children v)))"
| "trace (GUnion ms # ss) v loc = concat (map (\<lambda>m. Visit # trace (member_seg m # ss) v loc) ms)"
| "trace (GChild key # ss) v loc = concat (map (\<lambda>(i, c). Visit # trace ss c (loc @ [i])) (sel_nodes (GChild key) v))"
| "trace (GChildAny # ss) v loc = concat (map (\<lambda>(i, c). Visit # trace ss c (loc @ [i])) (sel_nodes GChildAny v))"
| "trace (GIndex n # ss) v loc = concat (map (\<lambda>(i, c). Visit # trace ss c (loc @ [i])) (sel_nodes (GIndex n) v))"
| "trace (GSlice s # ss) v loc = concat (map (\<lambda>(i, c). Visit # trace ss c (loc @ [i])) (sel_nodes (GSlice s) v))"
  by pat_completeness auto
termination
  by (relation "measures [\<lambda>(ss, v, loc). sum_list (map weight ss), \<lambda>(ss, v, loc). size v]")
    (auto simp: member_weight dest: enumerate_children_size)

declare sel_nodes.simps [simp del] trace.simps(2) [simp del]

lemma trace_sel: "sel_ok s \<Longrightarrow> trace (s # ss) v loc = concat (map (\<lambda>(i, c). Visit # trace ss c (loc @ [i])) (sel_nodes s v))"
  by (cases s) simp_all

section \<open>Slices step by step\<close>

lemma upt_split: "x < n \<Longrightarrow> [0..<n] = [0..<x] @ x # [Suc x..<n]"
  using upt_add_eq_append [of 0 x "n - x"] by (simp add: upt_rec)

lemma filter_upt_first:
  assumes "x < n" and "P x" and "\<And>i. i < x \<Longrightarrow> \<not> P i" and "\<And>i. i < n \<Longrightarrow> Q i \<longleftrightarrow> P i \<and> i \<noteq> x"
  shows "filter P [0..<n] = x # filter Q [0..<n]"
proof -
  have split: "[0..<n] = [0..<x] @ x # [Suc x..<n]" using assms(1) by (rule upt_split)
  have "filter P [0..<x] = []" "filter Q [0..<x] = []" using assms(1,3,4) by (auto simp: filter_empty_conv)
  moreover have "filter P [Suc x..<n] = filter Q [Suc x..<n]" using assms(4) by (intro filter_cong) auto
  ultimately show ?thesis unfolding split using assms(1,2,4) by simp
qed

lemma filter_upt_last:
  assumes "x < n" and "P x" and "\<And>i. x < i \<Longrightarrow> i < n \<Longrightarrow> \<not> P i" and "\<And>i. i < n \<Longrightarrow> Q i \<longleftrightarrow> P i \<and> i \<noteq> x"
  shows "rev (filter P [0..<n]) = x # rev (filter Q [0..<n])"
proof -
  have split: "[0..<n] = [0..<x] @ x # [Suc x..<n]" using assms(1) by (rule upt_split)
  have "filter P [Suc x..<n] = []" "filter Q [Suc x..<n] = []" using assms(3,4) by (auto simp: filter_empty_conv)
  moreover have "filter P [0..<x] = filter Q [0..<x]" using assms(1,4) by (intro filter_cong) auto
  ultimately show ?thesis unfolding split using assms(1,2,4) by simp
qed

lemma slice_rest_done: "step > 0 \<and> i \<ge> stop \<or> step < 0 \<and> i \<le> stop \<Longrightarrow> slice_rest i stop step n = []"
  by (auto simp: slice_rest_def filter_empty_conv)

lemma dvd_step_up:
  fixes step :: int
  assumes "0 < step"
  shows "i \<le> x \<and> step dvd x - i \<and> x \<noteq> i \<longleftrightarrow> i + step \<le> x \<and> step dvd x - (i + step)"
proof
  assume a: "i \<le> x \<and> step dvd x - i \<and> x \<noteq> i"
  then have "step \<le> x - i" by (auto intro: zdvd_imp_le)
  moreover have "step dvd (x - i) - step" by (rule dvd_diff) (use a in auto)
  ultimately show "i + step \<le> x \<and> step dvd x - (i + step)" by (simp add: algebra_simps)
next
  assume a: "i + step \<le> x \<and> step dvd x - (i + step)"
  have "step dvd (x - (i + step)) + step" by (rule dvd_add) (use a in auto)
  then show "i \<le> x \<and> step dvd x - i \<and> x \<noteq> i" using a assms by (simp add: algebra_simps)
qed

lemma slice_rest_step:
  assumes "step \<noteq> 0" and "\<not> (step > 0 \<and> i \<ge> stop \<or> step < 0 \<and> i \<le> stop)" and "n < 2 ^ 63"
    and "step > 0 \<Longrightarrow> 0 \<le> i \<and> stop \<le> int n" and "step < 0 \<Longrightarrow> i < int n \<and> - 1 \<le> stop"
  shows "slice_rest i stop step n = nat i # slice_rest (saturating_add_i64 i step) stop step n" and "0 \<le> i" and "i < int n"
proof -
  show i: "0 \<le> i" "i < int n" using assms(1,2,4,5) by (cases "step > 0"; auto)+
  show "slice_rest i stop step n = nat i # slice_rest (saturating_add_i64 i step) stop step n"
  proof (cases "step > 0")
    case True
    have next_x: "saturating_add_i64 i step \<le> x \<and> x < stop \<and> step dvd x - saturating_add_i64 i step \<longleftrightarrow>
        (i \<le> x \<and> x < stop \<and> step dvd x - i) \<and> x \<noteq> i" if "x < int n" for x
    proof (cases "i + step < 2 ^ 63")
      case small: True
      then have "saturating_add_i64 i step = i + step" using i True by (simp add: saturating_add_i64_def)
      then show ?thesis using dvd_step_up [OF True, of i x] by auto
    next
      case False
      then have "saturating_add_i64 i step = 2 ^ 63 - 1" using i True by (simp add: saturating_add_i64_def)
      moreover have "x < 2 ^ 63 - 1" using that assms(3) by simp
      moreover have "\<not> (i + step \<le> x)" using False \<open>x < 2 ^ 63 - 1\<close> by simp
      ultimately show ?thesis using dvd_step_up [OF True, of i x] by auto
    qed
    have "filter (\<lambda>x. i \<le> int x \<and> int x < stop \<and> step dvd int x - i) [0..<n] = nat i #
        filter (\<lambda>x. saturating_add_i64 i step \<le> int x \<and> int x < stop \<and> step dvd int x - saturating_add_i64 i step) [0..<n]"
    proof (rule filter_upt_first)
      fix x assume "x < n"
      then show "(saturating_add_i64 i step \<le> int x \<and> int x < stop \<and> step dvd int x - saturating_add_i64 i step) =
          ((i \<le> int x \<and> int x < stop \<and> step dvd int x - i) \<and> x \<noteq> nat i)" using next_x [of "int x"] i by auto
    qed (use True i assms(2) in auto)
    then show ?thesis using True by (simp add: slice_rest_def)
  next
    case False
    then have neg: "0 < - step" using assms(1) by simp
    have next_x: "stop < x \<and> x \<le> saturating_add_i64 i step \<and> step dvd saturating_add_i64 i step - x \<longleftrightarrow>
        (stop < x \<and> x \<le> i \<and> step dvd i - x) \<and> x \<noteq> i" if "0 \<le> x" for x
    proof (cases "- (2 ^ 63) \<le> i + step")
      case small: True
      then have "saturating_add_i64 i step = i + step" using i False assms(3) by (simp add: saturating_add_i64_def)
      then show ?thesis using dvd_step_up [OF neg, of "- i" "- x"] by (auto simp: algebra_simps)
    next
      case big: False
      then have "saturating_add_i64 i step = - (2 ^ 63)" using i False by (simp add: saturating_add_i64_def)
      then show ?thesis using dvd_step_up [OF neg, of "- i" "- x"] big that by (auto simp: algebra_simps)
    qed
    have "rev (filter (\<lambda>x. stop < int x \<and> int x \<le> i \<and> step dvd i - int x) [0..<n]) = nat i #
        rev (filter (\<lambda>x. stop < int x \<and> int x \<le> saturating_add_i64 i step \<and> step dvd saturating_add_i64 i step - int x) [0..<n])"
    proof (rule filter_upt_last)
      fix x assume "x < n"
      then show "(stop < int x \<and> int x \<le> saturating_add_i64 i step \<and> step dvd saturating_add_i64 i step - int x) =
          ((stop < int x \<and> int x \<le> i \<and> step dvd i - int x) \<and> x \<noteq> nat i)" using next_x [of "int x"] i by auto
    qed (use False i assms(1,2) in auto)
    then show ?thesis using False by (simp add: slice_rest_def)
  qed
qed

lemma slice_ords_resolve:
  assumes "resolve_slice spec (int n) = (i, stop, step)" and "sl_step spec \<noteq> Some 0"
  shows "slice_ords spec n = slice_rest i stop step n" and "step \<noteq> 0" and "step > 0 \<Longrightarrow> 0 \<le> i \<and> stop \<le> int n"
    and "step < 0 \<Longrightarrow> i < int n \<and> - 1 \<le> stop"
proof -
  let ?step = "case sl_step spec of None \<Rightarrow> 1 | Some s \<Rightarrow> sint s"
  have step: "step = ?step" using assms(1) by (auto simp: resolve_slice_def Let_def split: if_splits)
  show nz: "step \<noteq> 0" using assms(2) step by (auto simp: signed_eq_0_iff split: option.splits)
  let ?b = "\<lambda>d v. case v of None \<Rightarrow> d | Some v \<Rightarrow> from_end (int n) v"
  have fe: "(case v of None \<Rightarrow> d | Some v \<Rightarrow> if sint v < 0 then sint v + int n else sint v) = ?b d v" for d v
    by (simp add: from_end_def split: option.splits)
  show "step > 0 \<Longrightarrow> 0 \<le> i \<and> stop \<le> int n" "step < 0 \<Longrightarrow> i < int n \<and> - 1 \<le> stop"
    using assms(1) by (auto simp: resolve_slice_def Let_def clamp_def split: if_splits)
  show "slice_ords spec n = slice_rest i stop step n"
  proof (cases "step > 0")
    case True
    then have cl: "i = clamp 0 (int n) (?b 0 (sl_start spec))" "stop = clamp 0 (int n) (?b (int n) (sl_end spec))"
      using assms(1) step unfolding resolve_slice_def Let_def fe by auto
    have "slice_ords spec n = slice_rest (max 0 (?b 0 (sl_start spec))) (?b (int n) (sl_end spec)) step n"
      using True step unfolding slice_ords_def Let_def by simp
    also have "\<dots> = slice_rest i stop step n"
      using True unfolding slice_rest_def cl by (auto simp: clamp_def max_def intro!: filter_cong)
    finally show ?thesis .
  next
    case False
    then have cl: "i = clamp (- 1) (int n - 1) (?b (int n - 1) (sl_start spec))" "stop = clamp (- 1) (int n - 1) (?b (- 1) (sl_end spec))"
      using assms(1) step unfolding resolve_slice_def Let_def fe by auto
    have "slice_ords spec n = slice_rest (min (int n - 1) (?b (int n - 1) (sl_start spec))) (?b (- 1) (sl_end spec)) step n"
      using False step unfolding slice_ords_def Let_def by simp
    also have "\<dots> = slice_rest i stop step n"
      using False unfolding slice_rest_def cl by (auto simp: clamp_def min_def intro!: filter_cong)
    finally show ?thesis .
  qed
qed

section \<open>Frames\<close>

text \<open>Containers of a document hold at most \<open>u32::MAX\<close> entries.\<close>

function doc_ok :: "DocValue \<Rightarrow> bool" where
  "doc_ok v \<longleftrightarrow> length (children v) < 2 ^ 32 \<and> (\<forall>c\<in>set (children v). doc_ok c)"
  by pat_completeness auto
termination
  by (relation "measure size") (auto dest: children_size)

declare doc_ok.simps [simp del]

lemma doc_ok_child: "doc_ok v \<Longrightarrow> c \<in> set (children v) \<Longrightarrow> doc_ok c"
  by (subst (asm) doc_ok.simps) blast

lemma doc_ok_length: "doc_ok v \<Longrightarrow> length (children v) < 2 ^ 32"
  by (subst (asm) doc_ok.simps) blast

lemma resolve_child: "resolve v [i] = Some c \<longleftrightarrow> i < length (children v) \<and> c = children v ! i"
  by (cases v) auto

text \<open>The segments left at a program counter, and those an operation with its continuation stands for.\<close>

definition segs_at :: "bytes \<Rightarrow> nat \<Rightarrow> Segment list \<Rightarrow> bool" where
  "segs_at bytes pc ss \<longleftrightarrow> (\<forall>s\<in>set ss. seg_ok s) \<and> code_at bytes pc (concat (map seg_bytes ss)) \<and>
     length bytes = pc + length (concat (map seg_bytes ss))"

definition op_rel :: "bytes \<Rightarrow> nat \<Rightarrow> nat \<Rightarrow> Segment list \<Rightarrow> bool" where
  "op_rel bytes pc cont segs \<longleftrightarrow> (case segs of
       [] \<Rightarrow> pc = length bytes
     | s # ss \<Rightarrow> pc < length bytes \<and> (if leaf_ok s then code_at bytes pc (seg_bytes s) \<and> segs_at bytes cont ss
         else (\<exists>l. s = GDescend l) \<and> segs_at bytes pc segs))"

lemma segs_at_op_rel:
  assumes "segs_at bytes pc segs"
  shows "\<exists>cont. cont_of bytes pc = Some cont \<and> op_rel bytes pc cont segs"
proof (cases segs)
  case Nil
  then show ?thesis using assms by (simp add: segs_at_def cont_of_def op_rel_def)
next
  case (Cons s ss)
  have pc: "pc < length bytes" using assms Cons by (simp add: segs_at_def)
  have c: "code_at bytes pc (seg_bytes s)" using assms Cons by (simp add: segs_at_def)
  show ?thesis
  proof (cases "leaf_ok s")
    case True
    have "segs_at bytes (pc + length (seg_bytes s)) ss" using assms Cons by (simp add: segs_at_def)
    then show ?thesis using read_op_at [OF True c] pc c Cons True by (simp add: cont_of_def op_rel_def)
  next
    case False
    then obtain l where l: "s = GDescend l" using assms Cons by (cases s) (auto simp: segs_at_def)
    then have "path_read_op bytes pc = Some (OpDescend, pc + 1)"
      using c pc by (simp add: path_read_op_def read_leaf_def path_ops)
    then show ?thesis using assms pc Cons False l by (simp add: cont_of_def op_rel_def)
  qed
qed

fun progress_ok :: "Segment \<Rightarrow> DocValue \<Rightarrow> Progress \<Rightarrow> bool" where
  "progress_ok s v PFresh = True"
| "progress_ok s v PDone = True"
| "progress_ok s v (PObj es k) \<longleftrightarrow> s = GChildAny \<and> (\<exists>all. v = VObj all \<and> k \<le> length all \<and> es = drop k all)"
| "progress_ok s v (PArr vs k) \<longleftrightarrow> s = GChildAny \<and> (\<exists>all. v = VArr all \<and> k \<le> length all \<and> vs = drop k all)"
| "progress_ok s v (PSlice i stop step) \<longleftrightarrow> (\<exists>spec. s = GSlice spec) \<and> (\<exists>vs. v = VArr vs \<and> step \<noteq> 0 \<and>
     (step > 0 \<longrightarrow> 0 \<le> i \<and> stop \<le> int (length vs)) \<and> (step < 0 \<longrightarrow> i < int (length vs) \<and> - 1 \<le> stop))"
| "progress_ok s v (PUnion m) \<longleftrightarrow> (\<exists>ms. s = GUnion ms \<and> unat m \<le> length ms)"
| "progress_ok s v (PDescObj es k) \<longleftrightarrow> (\<exists>l. s = GDescend l) \<and> (\<exists>all. v = VObj all \<and> k \<le> length all \<and> es = drop k all)"
| "progress_ok s v (PDescArr vs k) \<longleftrightarrow> (\<exists>l. s = GDescend l) \<and> (\<exists>all. v = VArr all \<and> k \<le> length all \<and> vs = drop k all)"

text \<open>What is left of the trace of a frame.\<close>

fun rest_events :: "Segment \<Rightarrow> Segment list \<Rightarrow> DocValue \<Rightarrow> nat list \<Rightarrow> Progress \<Rightarrow> event list" where
  "rest_events s ss v loc PFresh = trace (s # ss) v loc"
| "rest_events s ss v loc PDone = []"
| "rest_events s ss v loc (PObj es k) = concat (map (\<lambda>(i, c). Visit # trace ss c (loc @ [i])) (enumerate k (map snd es)))"
| "rest_events s ss v loc (PArr vs k) = concat (map (\<lambda>(i, c). Visit # trace ss c (loc @ [i])) (enumerate k vs))"
| "rest_events s ss v loc (PSlice i stop step) = (case v of
       VArr vs \<Rightarrow> concat (map (\<lambda>i. Visit # trace ss (vs ! i) (loc @ [i])) (slice_rest i stop step (length vs)))
     | _ \<Rightarrow> [])"
| "rest_events s ss v loc (PUnion m) = (case s of
       GUnion ms \<Rightarrow> concat (map (\<lambda>m. Visit # trace (member_seg m # ss) v loc) (drop (unat m) ms))
     | _ \<Rightarrow> [])"
| "rest_events s ss v loc (PDescObj es k) = concat (map (\<lambda>(i, c). Visit # trace (s # ss) c (loc @ [i])) (enumerate k (map snd es)))"
| "rest_events s ss v loc (PDescArr vs k) = concat (map (\<lambda>(i, c). Visit # trace (s # ss) c (loc @ [i])) (enumerate k vs))"

text \<open>One call of \<open>advance\<close>: no item and nothing left, or the next item and the rest.\<close>

definition advances :: "bytes \<Rightarrow> Frame \<Rightarrow> Segment \<Rightarrow> Segment list \<Rightarrow> (Item option \<times> Frame) option \<Rightarrow> bool" where
  "advances bytes f s ss res \<longleftrightarrow> (\<exists>r p. res = Some (r, f\<lparr>fm_progress := p\<rparr>) \<and> progress_ok s (fm_node f) p \<and>
     (case r of
        None \<Rightarrow> \<forall>loc. rest_events s ss (fm_node f) loc (fm_progress f) = []
      | Some item \<Rightarrow> \<exists>segs. op_rel bytes (im_pc item) (im_cont item) segs \<and> doc_ok (im_node item) \<and>
          (case im_step item of None \<Rightarrow> im_node item = fm_node f | Some k \<Rightarrow> resolve (fm_node f) [k] = Some (im_node item)) \<and>
          (\<forall>loc. rest_events s ss (fm_node f) loc (fm_progress f) =
             Visit # trace segs (im_node item) (loc @ (case im_step item of None \<Rightarrow> [] | Some k \<Rightarrow> [k])) @
             rest_events s ss (fm_node f) loc p)))"

lemma advances_end:
  "progress_ok s (fm_node f) p \<Longrightarrow> (\<And>loc. rest_events s ss (fm_node f) loc (fm_progress f) = []) \<Longrightarrow>
    advances bytes f s ss (Some (None, f\<lparr>fm_progress := p\<rparr>))"
  by (auto simp: advances_def)

lemma advances_same:
  "progress_ok s (fm_node f) (fm_progress f) \<Longrightarrow> (\<And>loc. rest_events s ss (fm_node f) loc (fm_progress f) = []) \<Longrightarrow>
    advances bytes f s ss (Some (None, f))"
  using advances_end [of s f "fm_progress f" ss bytes] by (cases f) simp

text \<open>A child taken with \<open>child_item\<close> continues with the segments at \<open>next_pc\<close>.\<close>

lemma advances_child:
  assumes "segs_at bytes (fm_next_pc f) ss" and "doc_ok (fm_node f)" and "k < length (children (fm_node f))"
    and "progress_ok s (fm_node f) p"
    and "\<And>loc. rest_events s ss (fm_node f) loc (fm_progress f) =
      Visit # trace ss (children (fm_node f) ! k) (loc @ [k]) @ rest_events s ss (fm_node f) loc p"
    and "c = children (fm_node f) ! k"
  shows "advances bytes f s ss (map_option (\<lambda>item. (Some item, f\<lparr>fm_progress := p\<rparr>)) (child_item (f\<lparr>fm_progress := p\<rparr>) bytes c k))"
proof -
  obtain cont where cont: "cont_of bytes (fm_next_pc f) = Some cont" "op_rel bytes (fm_next_pc f) cont ss"
    using segs_at_op_rel [OF assms(1)] by blast
  have "doc_ok c" using doc_ok_child [OF assms(2)] assms(3,6) by simp
  then show ?thesis using cont assms(3-6)
    by (simp add: advances_def child_item_def resolve_child) blast
qed

lemma find_entry_sel:
  "find_entry key es n = (case filter (\<lambda>(_, k, _). k = key) (enumerate n es) of [] \<Rightarrow> None | (i, _, v) # _ \<Rightarrow> Some (i, v))"
  by (induction key es n rule: find_entry.induct) (auto split: list.splits)

lemma find_entry_nth: "find_entry key es n = Some (i, v) \<Longrightarrow> n \<le> i \<and> i - n < length es \<and> v = snd (es ! (i - n))"
  by (induction key es n rule: find_entry.induct) (auto split: if_splits simp: Suc_diff_le nth_Cons' Suc_le_eq)

lemma sel_child: "sel_nodes (GChild key) v = (case v of VObj es \<Rightarrow> (case find_entry key es 0 of None \<Rightarrow> [] | Some p \<Rightarrow> [p]) | _ \<Rightarrow> [])"
  by (cases v) (auto simp: sel_nodes.simps find_entry_sel split: list.splits)

lemma advance_child_spec:
  assumes "segs_at bytes (fm_next_pc f) ss" and "doc_ok (fm_node f)" and "progress_ok (GChild key) (fm_node f) (fm_progress f)"
  shows "advances bytes f (GChild key) ss (advance_child key f bytes)"
proof (cases "fm_progress f = PFresh")
  case False
  then have "fm_progress f = PDone" using assms(3) by (cases "fm_progress f") auto
  then show ?thesis using advances_same [of "GChild key" f ss bytes] by (simp add: advance_child_def)
next
  case True
  show ?thesis
  proof (cases "\<exists>es i c. fm_node f = VObj es \<and> find_entry key es 0 = Some (i, c)")
    case found: True
    then obtain es i c where e: "fm_node f = VObj es" "find_entry key es 0 = Some (i, c)" by blast
    have "i < length es" "c = snd (es ! i)" using find_entry_nth [OF e(2)] by simp_all
    then show ?thesis using advances_child [OF assms(1,2), of i "GChild key" PDone c] e True
      by (simp add: advance_child_def sel_child Let_def)
  next
    case none: False
    then have no: "find_entry key es 0 = None" if "fm_node f = VObj es" for es using that by (cases "find_entry key es 0") auto
    have "advance_child key f bytes = Some (None, f\<lparr>fm_progress := PDone\<rparr>)"
      using no True by (cases "fm_node f") (simp_all add: advance_child_def Let_def)
    moreover have "rest_events (GChild key) ss (fm_node f) loc (fm_progress f) = []" for loc
      using no True by (cases "fm_node f") (simp_all add: sel_child)
    ultimately show ?thesis by (simp add: advances_end)
  qed
qed

lemma sel_index:
  assumes "length vs < 2 ^ 32"
  shows "sel_nodes (GIndex i) (VArr vs) = (case resolve_index i (int (length vs)) of None \<Rightarrow> [] |
    Some ord \<Rightarrow> if ord < length vs then [(ord, vs ! ord)] else [])"
  using assms by (auto simp: sel_nodes.simps resolve_index_def u32_try_from_def from_end_def Let_def)

lemma sel_index_other: "(\<And>vs. v \<noteq> VArr vs) \<Longrightarrow> sel_nodes (GIndex i) v = []"
  by (cases v) (auto simp: sel_nodes.simps)

lemma advance_index_spec:
  assumes "segs_at bytes (fm_next_pc f) ss" and "doc_ok (fm_node f)" and "progress_ok (GIndex i) (fm_node f) (fm_progress f)"
  shows "advances bytes f (GIndex i) ss (advance_index i f bytes)"
proof (cases "fm_progress f = PFresh")
  case False
  then have "fm_progress f = PDone" using assms(3) by (cases "fm_progress f") auto
  then show ?thesis using advances_same [of "GIndex i" f ss bytes] by (simp add: advance_index_def)
next
  case True
  show ?thesis
  proof (cases "\<exists>vs ord. fm_node f = VArr vs \<and> resolve_index i (int (length vs)) = Some ord \<and> ord < length vs")
    case found: True
    then obtain vs ord where e: "fm_node f = VArr vs" "resolve_index i (int (length vs)) = Some ord" "ord < length vs" by blast
    then show ?thesis using advances_child [OF assms(1,2), of ord "GIndex i" PDone] True doc_ok_length [OF assms(2)]
      by (simp add: advance_index_def sel_index Let_def)
  next
    case none: False
    then have no: "resolve_index i (int (length vs)) = Some ord \<Longrightarrow> \<not> ord < length vs" if "fm_node f = VArr vs" for vs ord
      using that by auto
    have "advance_index i f bytes = Some (None, f\<lparr>fm_progress := PDone\<rparr>)"
      using no True by (cases "fm_node f") (simp_all add: advance_index_def Let_def split: option.splits)
    moreover have "sel_nodes (GIndex i) (fm_node f) = []"
    proof (cases "\<exists>vs. fm_node f = VArr vs")
      case arr: True
      then show ?thesis using no doc_ok_length [OF assms(2)] by (auto simp: sel_index split: option.splits)
    next
      case False
      then show ?thesis by (intro sel_index_other) auto
    qed
    ultimately show ?thesis using advances_end [of "GIndex i" f PDone ss bytes] True by simp
  qed
qed

lemma enumerate_drop: "k < length xs \<Longrightarrow> enumerate k (drop k xs) = (k, xs ! k) # enumerate (Suc k) (drop (Suc k) xs)"
  by (subst Cons_nth_drop_Suc [symmetric]) simp_all

lemma enumerate_map_drop:
  "k < length xs \<Longrightarrow> enumerate k (map f (drop k xs)) = (k, f (xs ! k)) # enumerate (Suc k) (map f (drop (Suc k) xs))"
  using enumerate_drop [of k "map f xs"] by (simp add: drop_map)

lemma trace_any: "trace (GChildAny # ss) v loc = concat (map (\<lambda>(i, c). Visit # trace ss c (loc @ [i])) (enumerate 0 (children v)))"
  by (simp add: sel_nodes.simps)

lemma advance_any_spec:
  assumes "segs_at bytes (fm_next_pc f) ss" and "doc_ok (fm_node f)" and "progress_ok GChildAny (fm_node f) (fm_progress f)"
  shows "advances bytes f GChildAny ss (advance_any f bytes)"
proof -
  define p where "p = (if fm_progress f = PFresh
    then (case fm_node f of VObj es \<Rightarrow> PObj es 0 | VArr vs \<Rightarrow> PArr vs 0 | _ \<Rightarrow> PDone) else fm_progress f)"
  have ok: "progress_ok GChildAny (fm_node f) p" using assms(3) by (auto simp: p_def split: DocValue.splits)
  have rest: "rest_events GChildAny ss (fm_node f) loc (fm_progress f) = rest_events GChildAny ss (fm_node f) loc p" for loc
    by (auto simp: p_def sel_nodes.simps split: DocValue.splits)
  have adv: "advance_any f bytes = (case p of
           PObj ((_, v) # es) ord \<Rightarrow> map_option (\<lambda>item. (Some item, f\<lparr>fm_progress := PObj es (Suc ord)\<rparr>))
             (child_item (f\<lparr>fm_progress := PObj es (Suc ord)\<rparr>) bytes v ord)
         | PArr (v # vs) ord \<Rightarrow> map_option (\<lambda>item. (Some item, f\<lparr>fm_progress := PArr vs (Suc ord)\<rparr>))
             (child_item (f\<lparr>fm_progress := PArr vs (Suc ord)\<rparr>) bytes v ord)
         | _ \<Rightarrow> Some (None, f\<lparr>fm_progress := p\<rparr>))"
    by (cases f) (simp add: advance_any_def p_def Let_def split: Progress.splits list.splits)
  show ?thesis
  proof (cases p)
    case (PObj es k)
    then obtain all where all: "fm_node f = VObj all" "k \<le> length all" "es = drop k all" using ok by auto
    show ?thesis
    proof (cases "k < length all")
      case True
      then have es: "es = all ! k # drop (Suc k) all" using all(3) by (simp add: Cons_nth_drop_Suc)
      have "advances bytes f GChildAny ss (map_option (\<lambda>item. (Some item, f\<lparr>fm_progress := PObj (drop (Suc k) all) (Suc k)\<rparr>))
             (child_item (f\<lparr>fm_progress := PObj (drop (Suc k) all) (Suc k)\<rparr>) bytes (snd (all ! k)) k))"
        by (rule advances_child [OF assms(1,2)]) (use True all PObj rest in \<open>simp_all add: enumerate_map_drop\<close>)
      then show ?thesis unfolding adv PObj es by (cases "all ! k") simp
    next
      case False
      then show ?thesis using advances_end [OF ok, of ss bytes] rest PObj all unfolding adv by simp
    qed
  next
    case (PArr vs k)
    then obtain all where all: "fm_node f = VArr all" "k \<le> length all" "vs = drop k all" using ok by auto
    show ?thesis
    proof (cases "k < length all")
      case True
      then have vs: "vs = all ! k # drop (Suc k) all" using all(3) by (simp add: Cons_nth_drop_Suc)
      have "advances bytes f GChildAny ss (map_option (\<lambda>item. (Some item, f\<lparr>fm_progress := PArr (drop (Suc k) all) (Suc k)\<rparr>))
             (child_item (f\<lparr>fm_progress := PArr (drop (Suc k) all) (Suc k)\<rparr>) bytes (all ! k) k))"
        by (rule advances_child [OF assms(1,2)]) (use True all PArr rest in \<open>simp_all add: enumerate_drop\<close>)
      then show ?thesis unfolding adv PArr vs by simp
    next
      case False
      then show ?thesis using advances_end [OF ok, of ss bytes] rest PArr all unfolding adv by simp
    qed
  next
    case PDone
    then show ?thesis using advances_end [OF ok, of ss bytes] rest unfolding adv by simp
  qed (use ok in \<open>auto simp: p_def split: DocValue.splits if_splits\<close>)
qed

lemma advance_slice_spec:
  assumes "segs_at bytes (fm_next_pc f) ss" and "doc_ok (fm_node f)" and "progress_ok (GSlice spec) (fm_node f) (fm_progress f)"
    and "sl_step spec \<noteq> Some 0"
  shows "advances bytes f (GSlice spec) ss (advance_slice spec f bytes)"
proof -
  define p where "p = (if fm_progress f = PFresh
    then (case fm_node f of VArr vs \<Rightarrow> (case resolve_slice spec (int (length vs)) of (i, stop, step) \<Rightarrow> PSlice i stop step) | _ \<Rightarrow> PDone)
    else fm_progress f)"
  have ok: "progress_ok (GSlice spec) (fm_node f) p"
    and rest: "rest_events (GSlice spec) ss (fm_node f) loc (fm_progress f) = rest_events (GSlice spec) ss (fm_node f) loc p" for loc
  proof -
    have "progress_ok (GSlice spec) (fm_node f) p \<and>
      (\<forall>loc. rest_events (GSlice spec) ss (fm_node f) loc (fm_progress f) = rest_events (GSlice spec) ss (fm_node f) loc p)"
    proof (cases "fm_progress f = PFresh \<and> (\<exists>vs. fm_node f = VArr vs)")
      case True
      then obtain vs where vs: "fm_node f = VArr vs" by blast
      obtain i stop step where r: "resolve_slice spec (int (length vs)) = (i, stop, step)" by (metis prod_cases3)
      show ?thesis using True vs r slice_ords_resolve [OF r assms(4)] by (simp add: p_def sel_nodes.simps comp_def)
    next
      case False
      then show ?thesis using assms(3) by (cases "fm_node f") (auto simp: p_def sel_nodes.simps)
    qed
    then show "progress_ok (GSlice spec) (fm_node f) p"
      "rest_events (GSlice spec) ss (fm_node f) loc (fm_progress f) = rest_events (GSlice spec) ss (fm_node f) loc p" for loc
      by blast+
  qed
  have adv: "advance_slice spec f bytes = (case p of
           PSlice i stop step \<Rightarrow>
             if step > 0 \<and> i \<ge> stop \<or> step < 0 \<and> i \<le> stop then Some (None, f\<lparr>fm_progress := p\<rparr>)
             else (case fm_node f of
                   VArr vs \<Rightarrow>
                     if 0 \<le> i \<and> nat i < length vs
                     then map_option (\<lambda>item. (Some item, f\<lparr>fm_progress := PSlice (saturating_add_i64 i step) stop step\<rparr>))
                       (child_item (f\<lparr>fm_progress := PSlice (saturating_add_i64 i step) stop step\<rparr>) bytes (vs ! nat i) (nat i))
                     else None
                 | _ \<Rightarrow> None)
         | _ \<Rightarrow> Some (None, f\<lparr>fm_progress := p\<rparr>))"
  proof -
    have frame: "(if fm_progress f = PFresh
        then f\<lparr>fm_progress := (case fm_node f of
               VArr vs \<Rightarrow> (case resolve_slice spec (int (length vs)) of (i, stop, step) \<Rightarrow> PSlice i stop step)
             | _ \<Rightarrow> PDone)\<rparr> else f) = f\<lparr>fm_progress := p\<rparr>"
      by (cases f) (simp add: p_def)
    show ?thesis unfolding advance_slice_def Let_def frame by (simp split: Progress.split DocValue.split)
  qed
  show ?thesis
  proof (cases p)
    case (PSlice i stop step)
    then obtain vs where vs: "fm_node f = VArr vs" "step \<noteq> 0" "step > 0 \<Longrightarrow> 0 \<le> i \<and> stop \<le> int (length vs)"
        "step < 0 \<Longrightarrow> i < int (length vs) \<and> - 1 \<le> stop"
      using ok by auto
    show ?thesis
    proof (cases "step > 0 \<and> i \<ge> stop \<or> step < 0 \<and> i \<le> stop")
      case True
      then show ?thesis using advances_end [OF ok, of ss bytes] rest PSlice vs(1) slice_rest_done [OF True]
        unfolding adv by simp
    next
      case False
      have "length vs < 2 ^ 63" using doc_ok_length [OF assms(2)] vs(1) by simp
      note st = slice_rest_step [OF vs(2) False this vs(3,4)]
      have p': "progress_ok (GSlice spec) (fm_node f) (PSlice (saturating_add_i64 i step) stop step)"
        using vs st(2,3) by (auto simp: saturating_add_i64_def)
      have "advances bytes f (GSlice spec) ss (map_option (\<lambda>item. (Some item, f\<lparr>fm_progress := PSlice (saturating_add_i64 i step) stop step\<rparr>))
             (child_item (f\<lparr>fm_progress := PSlice (saturating_add_i64 i step) stop step\<rparr>) bytes (vs ! nat i) (nat i)))"
        by (rule advances_child [OF assms(1,2) _ p']) (use st vs(1) rest PSlice in simp_all)
      moreover have "nat i < length vs" using st(2,3) by simp
      ultimately show ?thesis using False vs(1) st(2) PSlice unfolding adv by auto
    qed
  next
    case PDone
    then show ?thesis using advances_end [OF ok, of ss bytes] rest unfolding adv by simp
  qed (use ok in \<open>auto simp: p_def split: DocValue.splits if_splits prod.splits\<close>)
qed

lemma member_at_spec:
  assumes "\<forall>m\<in>set ms. sel_ok (member_seg m)" and "code_at bytes at (concat (map encode_member ms))" and "n < length ms"
  shows "\<exists>pc. member_at_loop bytes at n = Some pc \<and> code_at bytes pc (seg_bytes (member_seg (ms ! n)))"
  using assms
proof (induction ms arbitrary: at n)
  case (Cons m ms)
  show ?case
  proof (cases n)
    case 0
    then show ?thesis using Cons.prems by (simp add: encode_member_seg [of m])
  next
    case (Suc k)
    have "path_read_op bytes at = Some (seg_op (member_seg m) at, at + length (seg_bytes (member_seg m)))"
      using Cons.prems by (intro read_op_at) (simp_all add: sel_ok_leaf encode_member_seg [of m])
    then show ?thesis using Cons.IH [of "at + length (seg_bytes (member_seg m))" k] Cons.prems Suc
      by (simp add: encode_member_seg [of m])
  qed
qed simp

lemma unat_Suc_byte: "unat (m :: byte) < 255 \<Longrightarrow> unat (m + 1) = Suc (unat m)"
  by (simp add: unat_word_ariths)

lemma advance_union_spec:
  assumes "segs_at bytes (fm_next_pc f) ss" and "doc_ok (fm_node f)" and "progress_ok (GUnion ms) (fm_node f) (fm_progress f)"
    and "leaf_ok (GUnion ms)" and "code_at bytes at (seg_bytes (GUnion ms))"
  shows "advances bytes f (GUnion ms) ss (advance_union (of_nat (length ms)) (at + 2) f bytes)"
proof (cases "fm_progress f = PDone")
  case True
  then show ?thesis using advances_same [of "GUnion ms" f ss bytes] by (simp add: advance_union_def)
next
  case False
  then obtain m where m: "fm_progress f = PFresh \<and> m = 0 \<or> fm_progress f = PUnion m" "unat m \<le> length ms"
    using assms(3) by (cases "fm_progress f") auto
  have rest: "rest_events (GUnion ms) ss (fm_node f) loc (fm_progress f) =
      concat (map (\<lambda>m. Visit # trace (member_seg m # ss) (fm_node f) loc) (drop (unat m) ms))" for loc
    using m(1) by auto
  have len: "length ms \<le> 16" "unat (of_nat (length ms) :: byte) = length ms"
    using assms(4) unat_union_count [of ms] by (simp_all add: UNION_MEMBERS_MAX_def)
  show ?thesis
  proof (cases "unat m = length ms")
    case True
    then have "m = of_nat (length ms)" using len(2) by (simp add: word_unat_eq_iff)
    then have "advance_union (of_nat (length ms)) (at + 2) f bytes = Some (None, f\<lparr>fm_progress := PUnion m\<rparr>)"
      using m(1) by (auto simp: advance_union_def Let_def)
    then show ?thesis using advances_end [of "GUnion ms" f "PUnion m" ss bytes] rest True by simp
  next
    case less: False
    then have lt: "unat m < length ms" using m(2) by simp
    then have ne: "m \<noteq> of_nat (length ms)" using len(2) by auto
    have sels: "\<forall>m\<in>set ms. sel_ok (member_seg m)" using assms(4) by simp
    have "code_at bytes (at + 2) (concat (map encode_member ms))" using assms(5) by simp
    from member_at_spec [OF sels this lt] obtain pc where
      pc: "member_at bytes (at + 2) m = Some pc" "code_at bytes pc (seg_bytes (member_seg (ms ! unat m)))"
      by (auto simp: member_at_def)
    have "pc + length (seg_bytes (member_seg (ms ! unat m))) \<le> length bytes" using code_at_le [OF pc(2)] by simp
    then have "pc < length bytes" using seg_bytes_nonempty(2) [of "member_seg (ms ! unat m)"] by linarith
    then have op: "op_rel bytes pc (fm_next_pc f) (member_seg (ms ! unat m) # ss)"
      using pc(2) assms(1) sels lt by (simp add: op_rel_def sel_ok_leaf)
    have "unat (m + 1) = Suc (unat m)" using lt len(1) by (intro unat_Suc_byte) simp
    then have "advances bytes f (GUnion ms) ss (Some (Some \<lparr>im_node = fm_node f, im_pc = pc, im_cont = fm_next_pc f, im_step = None\<rparr>,
        f\<lparr>fm_progress := PUnion (m + 1)\<rparr>))"
      unfolding advances_def using op assms(2) lt rest
      by (intro exI [of _ "Some \<lparr>im_node = fm_node f, im_pc = pc, im_cont = fm_next_pc f, im_step = None\<rparr>"]
          exI [of _ "PUnion (m + 1)"] conjI) (auto simp: Cons_nth_drop_Suc [symmetric])
    then show ?thesis using m(1) ne pc(1) by (auto simp: advance_union_def Let_def)
  qed
qed

lemma op_rel_descend:
  "segs_at bytes pc (GDescend l # ss) \<Longrightarrow> op_rel bytes pc cont (GDescend l # ss)"
  by (simp add: op_rel_def segs_at_def)

lemma segs_at_descend:
  "segs_at bytes pc (GDescend l # ss) \<Longrightarrow> segs_at bytes (pc + 1) (l # ss)"
  by (auto simp: segs_at_def leaf_ok_seg)

lemma advance_descend_spec:
  assumes "segs_at bytes (fm_op_at f) (GDescend l # ss)" and "doc_ok (fm_node f)"
    and "progress_ok (GDescend l) (fm_node f) (fm_progress f)"
  shows "advances bytes f (GDescend l) ss (advance_descend f bytes)"
proof -
  let ?s = "GDescend l" and ?at = "fm_op_at f"
  have child: "advances bytes f ?s ss (Some (Some \<lparr>im_node = c, im_pc = ?at, im_cont = ?at + 1, im_step = Some k\<rparr>,
        f\<lparr>fm_progress := p\<rparr>))"
    if "k < length (children (fm_node f))" "c = children (fm_node f) ! k" "progress_ok ?s (fm_node f) p"
      "\<And>loc. rest_events ?s ss (fm_node f) loc (fm_progress f) = Visit # trace (?s # ss) c (loc @ [k]) @ rest_events ?s ss (fm_node f) loc p"
    for k c p
  proof -
    have "doc_ok c" using doc_ok_child [OF assms(2)] that(1,2) by simp
    then show ?thesis using that op_rel_descend [OF assms(1)] unfolding advances_def
      by (intro exI [of _ "Some \<lparr>im_node = c, im_pc = ?at, im_cont = ?at + 1, im_step = Some k\<rparr>"] exI [of _ p] conjI)
        (auto simp: resolve_child)
  qed
  show ?thesis
  proof (cases "fm_progress f")
    case PFresh
    let ?p = "case fm_node f of VObj es \<Rightarrow> PDescObj es 0 | VArr vs \<Rightarrow> PDescArr vs 0 | _ \<Rightarrow> PDone"
    obtain cont where cont: "cont_of bytes (?at + 1) = Some cont" "op_rel bytes (?at + 1) cont (l # ss)"
      using segs_at_op_rel [OF segs_at_descend [OF assms(1)]] by blast
    have "rest_events ?s ss (fm_node f) loc PFresh = Visit # trace (l # ss) (fm_node f) loc @ rest_events ?s ss (fm_node f) loc ?p" for loc
      unfolding rest_events.simps(1) by (subst trace.simps(2)) (cases "fm_node f"; simp)
    then show ?thesis using PFresh cont assms(2) unfolding advances_def
      by (intro exI [of _ "Some \<lparr>im_node = fm_node f, im_pc = ?at + 1, im_cont = cont, im_step = None\<rparr>"] exI [of _ ?p] conjI)
        (auto simp: advance_descend_def Let_def split: DocValue.splits)
  next
    case (PDescObj es k)
    then obtain all where all: "fm_node f = VObj all" "k \<le> length all" "es = drop k all" using assms(3) by auto
    show ?thesis
    proof (cases "k < length all")
      case True
      have "es = all ! k # drop (Suc k) all" using True all(3) by (simp add: Cons_nth_drop_Suc)
      then have "advance_descend f bytes = Some (Some \<lparr>im_node = snd (all ! k), im_pc = ?at, im_cont = ?at + 1, im_step = Some k\<rparr>,
          f\<lparr>fm_progress := PDescObj (drop (Suc k) all) (Suc k)\<rparr>)"
        using PDescObj by (cases "all ! k") (simp add: advance_descend_def)
      then show ?thesis using child [of k "snd (all ! k)" "PDescObj (drop (Suc k) all) (Suc k)"] True all PDescObj
        by (simp add: enumerate_map_drop)
    next
      case False
      then show ?thesis using advances_same [of ?s f ss bytes] all PDescObj assms(3) by (simp add: advance_descend_def)
    qed
  next
    case (PDescArr vs k)
    then obtain all where all: "fm_node f = VArr all" "k \<le> length all" "vs = drop k all" using assms(3) by auto
    show ?thesis
    proof (cases "k < length all")
      case True
      have "vs = all ! k # drop (Suc k) all" using True all(3) by (simp add: Cons_nth_drop_Suc)
      then have "advance_descend f bytes = Some (Some \<lparr>im_node = all ! k, im_pc = ?at, im_cont = ?at + 1, im_step = Some k\<rparr>,
          f\<lparr>fm_progress := PDescArr (drop (Suc k) all) (Suc k)\<rparr>)"
        using PDescArr by (simp add: advance_descend_def)
      then show ?thesis using child [of k "all ! k" "PDescArr (drop (Suc k) all) (Suc k)"] True all PDescArr
        by (simp add: enumerate_drop)
    next
      case False
      then show ?thesis using advances_same [of ?s f ss bytes] all PDescArr assms(3) by (simp add: advance_descend_def)
    qed
  next
    case PDone
    then show ?thesis using advances_same [of ?s f ss bytes] by (simp add: advance_descend_def)
  qed (use assms(3) in simp_all)
qed

text \<open>A live frame and the rest of its trace.\<close>

definition frame_ok :: "bytes \<Rightarrow> Frame \<Rightarrow> Segment \<Rightarrow> Segment list \<Rightarrow> bool" where
  "frame_ok bytes f s ss \<longleftrightarrow> op_rel bytes (fm_op_at f) (fm_next_pc f) (s # ss) \<and> doc_ok (fm_node f) \<and>
     progress_ok s (fm_node f) (fm_progress f)"

lemma advance_spec:
  assumes "frame_ok bytes f s ss"
  shows "advances bytes f s ss (advance bytes f)"
proof -
  note f = assms [unfolded frame_ok_def op_rel_def list.case]
  show ?thesis
  proof (cases "leaf_ok s")
    case True
    then have c: "code_at bytes (fm_op_at f) (seg_bytes s)" and ss: "segs_at bytes (fm_next_pc f) ss" using f by simp_all
    have adv: "advance bytes f = (case seg_op s (fm_op_at f) of
             OpChild key \<Rightarrow> advance_child key f bytes
           | OpIndex i \<Rightarrow> advance_index i f bytes
           | OpChildAny \<Rightarrow> advance_any f bytes
           | OpSlice spec \<Rightarrow> advance_slice spec f bytes
           | OpUnion count members_at \<Rightarrow> advance_union count members_at f bytes
           | OpDescend \<Rightarrow> advance_descend f bytes
           | OpRoot \<Rightarrow> None)"
      using read_op_at [OF True c] by (simp add: advance_def)
    show ?thesis
      using f True c ss advance_child_spec advance_index_spec advance_any_spec advance_slice_spec advance_union_spec
      by (cases s) (simp_all add: adv)
  next
    case False
    then obtain l where l: "s = GDescend l" and ss: "segs_at bytes (fm_op_at f) (GDescend l # ss)" using f by auto
    then have "bytes ! fm_op_at f = OP_DESCEND" by (simp add: segs_at_def)
    then have "advance bytes f = advance_descend f bytes"
      using f by (simp add: advance_def path_read_op_def read_leaf_def path_ops)
    then show ?thesis using advance_descend_spec [OF ss] f l by simp
  qed
qed

end
