(* ===== verification/PathVisit.thy ===== *)
theory PathVisit
  imports PathTrace
begin

text \<open>
  The two lanes of \<open>eval_visit\<close>, the frame stack with its fixed part and its spill, and the chain lane, deliver the
  trace of the path: the same values in the same order, for the same budget, to any visitor.
\<close>

section \<open>Delivering a trace\<close>

text \<open>A visitor meets the values of a trace until it breaks or the budget of visited nodes is used up.\<close>

fun deliver :: "('s \<Rightarrow> DocValue \<Rightarrow> 's \<times> bool) \<Rightarrow> event list \<Rightarrow> nat \<Rightarrow> nat \<Rightarrow> 's \<Rightarrow> 's \<times> VisitOutcome" where
  "deliver f [] budget nodes s = (s, \<lparr>vo_end = Complete, vo_nodes_visited = nodes\<rparr>)"
| "deliver f (Visit # es) budget nodes s =
     (if budget = 0 then (s, \<lparr>vo_end = Exhausted, vo_nodes_visited = nodes\<rparr>)
      else deliver f es (budget - 1) (nodes + 1) s)"
| "deliver f (Hit loc v # es) budget nodes s =
     (case f s v of (s', brk) \<Rightarrow>
        if brk then (s', \<lparr>vo_end = Stopped, vo_nodes_visited = nodes\<rparr>) else deliver f es budget nodes s')"

section \<open>The frame stack\<close>

definition stack_of :: "VisitFrames \<Rightarrow> Frame list" where
  "stack_of fs = rev (vf_hot fs @ vf_spill fs)"

definition frames_ok :: "VisitFrames \<Rightarrow> bool" where
  "frames_ok fs \<longleftrightarrow> length (vf_hot fs) \<le> VISIT_FRAMES_HOT \<and> (vf_spill fs = [] \<or> length (vf_hot fs) = VISIT_FRAMES_HOT)"

lemma stack_ops:
  assumes "frames_ok fs"
  shows "frames_last fs = (case stack_of fs of [] \<Rightarrow> None | f # _ \<Rightarrow> Some f)"
    and "stack_of fs = f # rest \<Longrightarrow> stack_of (set_last fs f') = f' # rest \<and> frames_ok (set_last fs f')"
    and "stack_of fs = f # rest \<Longrightarrow> stack_of (pop_discard fs) = rest \<and> frames_ok (pop_discard fs)"
    and "stack_of (frames_push fs g) = g # stack_of fs \<and> frames_ok (frames_push fs g)"
proof -
  show "frames_last fs = (case stack_of fs of [] \<Rightarrow> None | f # _ \<Rightarrow> Some f)"
    by (cases "vf_spill fs" rule: rev_cases; cases "vf_hot fs" rule: rev_cases) (simp_all add: frames_last_def stack_of_def)
  show "stack_of fs = f # rest \<Longrightarrow> stack_of (set_last fs f') = f' # rest \<and> frames_ok (set_last fs f')"
    using assms by (cases "vf_spill fs" rule: rev_cases; cases "vf_hot fs" rule: rev_cases)
      (auto simp: set_last_def stack_of_def frames_ok_def)
  show "stack_of fs = f # rest \<Longrightarrow> stack_of (pop_discard fs) = rest \<and> frames_ok (pop_discard fs)"
    using assms by (cases "vf_spill fs" rule: rev_cases; cases "vf_hot fs" rule: rev_cases)
      (auto simp: pop_discard_def stack_of_def frames_ok_def)
  show "stack_of (frames_push fs g) = g # stack_of fs \<and> frames_ok (frames_push fs g)"
    using assms by (auto simp: frames_push_def stack_of_def frames_ok_def)
qed

inductive stands_for :: "bytes \<Rightarrow> Frame list \<Rightarrow> event list \<Rightarrow> bool" where
  "stands_for bytes [] []"
| "frame_ok bytes f s ss \<Longrightarrow> stands_for bytes fs es \<Longrightarrow>
    stands_for bytes (f # fs) (rest_events s ss (fm_node f) loc (fm_progress f) @ es)"

inductive_cases stands_forE: "stands_for bytes (f # fs) es"
inductive_cases stands_for_NilE: "stands_for bytes [] es"

lemma fresh_frame_ok: "op_rel bytes (im_pc item) (im_cont item) (s # ss) \<Longrightarrow> doc_ok (im_node item) \<Longrightarrow> frame_ok bytes (fresh_frame item st) s ss"
  by (simp add: frame_ok_def fresh_frame_def)

lemma op_rel_end: "op_rel bytes pc cont segs \<Longrightarrow> pc = length bytes \<longleftrightarrow> segs = []"
  by (auto simp: op_rel_def split: list.splits)

lemma advancesE:
  assumes "advances bytes f s ss res"
  obtains p where "res = Some (None, f\<lparr>fm_progress := p\<rparr>)" "\<And>loc. rest_events s ss (fm_node f) loc (fm_progress f) = []"
  | p item segs where "res = Some (Some item, f\<lparr>fm_progress := p\<rparr>)" "progress_ok s (fm_node f) p"
      "op_rel bytes (im_pc item) (im_cont item) segs" "doc_ok (im_node item)"
      "case im_step item of None \<Rightarrow> im_node item = fm_node f | Some k \<Rightarrow> resolve (fm_node f) [k] = Some (im_node item)"
      "\<And>loc. rest_events s ss (fm_node f) loc (fm_progress f) =
         Visit # trace segs (im_node item) (loc @ (case im_step item of None \<Rightarrow> [] | Some k \<Rightarrow> [k])) @ rest_events s ss (fm_node f) loc p"
proof -
  from assms obtain r p where r: "res = Some (r, f\<lparr>fm_progress := p\<rparr>)" "progress_ok s (fm_node f) p"
    unfolding advances_def by blast
  show thesis
  proof (cases r)
    case None
    then show thesis using assms r that(1) by (auto simp: advances_def)
  next
    case (Some item)
    then have "\<exists>segs. op_rel bytes (im_pc item) (im_cont item) segs \<and> doc_ok (im_node item) \<and>
          (case im_step item of None \<Rightarrow> im_node item = fm_node f | Some k \<Rightarrow> resolve (fm_node f) [k] = Some (im_node item)) \<and>
          (\<forall>loc. rest_events s ss (fm_node f) loc (fm_progress f) =
             Visit # trace segs (im_node item) (loc @ (case im_step item of None \<Rightarrow> [] | Some k \<Rightarrow> [k])) @
             rest_events s ss (fm_node f) loc p)"
      using assms r unfolding advances_def by (auto dest!: arg_cong [where f = fm_progress])
    then show thesis using Some r that(2) by blast
  qed
qed

lemma frame_ok_progress: "frame_ok bytes f s ss \<Longrightarrow> progress_ok s (fm_node f) p \<Longrightarrow> frame_ok bytes (f\<lparr>fm_progress := p\<rparr>) s ss"
  by (simp add: frame_ok_def)

lemma visit_loop_delivers:
  assumes "stands_for bytes (stack_of fs) es" and "frames_ok fs"
  shows "visit_loop bytes on_match fs budget nodes s = Some (deliver on_match es budget nodes s)"
  using assms
proof (induction "2 * length es + length (stack_of fs)" arbitrary: fs es budget nodes s rule: less_induct)
  case less
  note last = stack_ops(1) [OF less.prems(2)]
  show ?case
  proof (cases "stack_of fs")
    case Nil
    then have "es = []" using less.prems(1) by (auto elim: stands_for_NilE)
    then show ?thesis using last Nil by (subst visit_loop.simps) simp
  next
    case (Cons f rest)
    obtain sg ss loc es' where f: "frame_ok bytes f sg ss" "stands_for bytes rest es'"
        "es = rest_events sg ss (fm_node f) loc (fm_progress f) @ es'"
      using less.prems(1) Cons by (auto elim: stands_forE)
    show ?thesis
      using advance_spec [OF f(1)]
    proof (cases rule: advancesE)
      case (1 p)
      let ?fs = "pop_discard (set_last fs (f\<lparr>fm_progress := p\<rparr>))"
      have set: "stack_of (set_last fs (f\<lparr>fm_progress := p\<rparr>)) = f\<lparr>fm_progress := p\<rparr> # rest" "frames_ok (set_last fs (f\<lparr>fm_progress := p\<rparr>))"
        using stack_ops(2) [OF less.prems(2) Cons] by blast+
      have pop: "stack_of ?fs = rest" "frames_ok ?fs" using stack_ops(3) [OF set(2,1)] by blast+
      have "visit_loop bytes on_match ?fs budget nodes s = Some (deliver on_match es' budget nodes s)"
        using less.hyps [of es' ?fs] pop f(2,3) Cons by simp
      then show ?thesis using last Cons 1 f(3) by (subst visit_loop.simps) simp
    next
      case (2 p item segs)
      let ?f = "f\<lparr>fm_progress := p\<rparr>"
      let ?loc = "loc @ (case im_step item of None \<Rightarrow> [] | Some k \<Rightarrow> [k])"
      let ?tail = "rest_events sg ss (fm_node f) loc p @ es'"
      have es: "es = Visit # trace segs (im_node item) ?loc @ ?tail" using 2(6) f(3) by simp
      have set: "stack_of (set_last fs ?f) = ?f # rest" "frames_ok (set_last fs ?f)"
        using stack_ops(2) [OF less.prems(2) Cons] by blast+
      have tail: "stands_for bytes (?f # rest) ?tail"
        using stands_for.intros(2) [OF frame_ok_progress [OF f(1) 2(2)] f(2), of loc] by simp
      show ?thesis
      proof (cases "budget = 0")
        case True
        then show ?thesis using last Cons 2(1) es by (subst visit_loop.simps) simp
      next
        case False
        show ?thesis
        proof (cases segs)
          case Nil
          obtain s' brk where m: "on_match s (im_node item) = (s', brk)" by fastforce
          have stage: "stage_visit item (set_last fs ?f) (length bytes) on_match s = (set_last fs ?f, s', brk)"
            using op_rel_end [OF 2(3)] Nil m by (simp add: stage_visit_def)
          have "visit_loop bytes on_match (set_last fs ?f) (budget - 1) (nodes + 1) s' =
              Some (deliver on_match ?tail (budget - 1) (nodes + 1) s')"
            using less.hyps [of ?tail "set_last fs ?f"] set tail es Nil Cons by simp
          then show ?thesis using last Cons 2(1) es False stage m Nil by (subst visit_loop.simps) simp
        next
          case (Cons s' ss')
          let ?fs = "frames_push (set_last fs ?f) (fresh_frame item False)"
          have push: "stack_of ?fs = fresh_frame item False # ?f # rest" "frames_ok ?fs"
            using stack_ops(4) [OF set(2)] set(1) by simp_all
          have stage: "stage_visit item (set_last fs ?f) (length bytes) on_match s = (?fs, s, False)"
            using op_rel_end [OF 2(3)] Cons by (simp add: stage_visit_def)
          have "frame_ok bytes (fresh_frame item False) s' ss'" using 2(3,4) Cons by (intro fresh_frame_ok) simp_all
          from stands_for.intros(2) [OF this tail, of ?loc]
          have "stands_for bytes (stack_of ?fs) (trace segs (im_node item) ?loc @ ?tail)"
            using push Cons by (simp add: fresh_frame_def)
          then have "visit_loop bytes on_match ?fs (budget - 1) (nodes + 1) s =
              Some (deliver on_match (trace segs (im_node item) ?loc @ ?tail) (budget - 1) (nodes + 1) s)"
            using less.hyps [of "trace segs (im_node item) ?loc @ ?tail" ?fs] push es \<open>stack_of fs = f # rest\<close> by simp
          then show ?thesis using last \<open>stack_of fs = f # rest\<close> 2(1) es False stage by (subst visit_loop.simps) simp
        qed
      qed
    qed
  qed
qed

section \<open>The chain lane\<close>

fun simple_seg :: "Segment \<Rightarrow> bool" where
  "simple_seg (GChild _) = True" | "simple_seg (GIndex _) = True" | "simple_seg _ = False"

lemma segs_at_Cons:
  assumes "segs_at bytes at (s # ss)"
  shows "at < length bytes" and "seg_ok s" and "code_at bytes at (seg_bytes s)" and "segs_at bytes (at + length (seg_bytes s)) ss"
  using assms by (simp_all add: segs_at_def)

lemma seg_op_simple: "seg_ok s \<Longrightarrow> simple_op (seg_op s at) = simple_seg s"
  by (cases s) simp_all

lemma read_op_seg:
  assumes "segs_at bytes at (s # ss)"
  shows "\<exists>j. path_read_op bytes at = Some (seg_op s at, j) \<and> (leaf_ok s \<longrightarrow> j = at + length (seg_bytes s))"
proof (cases "leaf_ok s")
  case True
  then show ?thesis using read_op_at [OF True] segs_at_Cons(3) [OF assms] by blast
next
  case False
  then obtain l where "s = GDescend l" using segs_at_Cons(2) [OF assms] by (cases s) auto
  then show ?thesis using False segs_at_Cons(1,3) [OF assms] by (simp add: path_read_op_def read_leaf_def path_ops)
qed

lemma all_ops_simple:
  assumes "segs_at bytes at segs" and "length segs \<le> n"
  shows "all_ops simple_op n bytes at = Some (\<forall>s\<in>set segs. simple_seg s)"
  using assms
proof (induction segs arbitrary: at n)
  case Nil
  then show ?case by (cases n) (simp_all add: segs_at_def)
next
  case (Cons s segs)
  obtain k where n: "n = Suc k" using Cons.prems(2) by (cases n) auto
  note c = segs_at_Cons [OF Cons.prems(1)]
  obtain j where j: "path_read_op bytes at = Some (seg_op s at, j)" "leaf_ok s \<longrightarrow> j = at + length (seg_bytes s)"
    using read_op_seg [OF Cons.prems(1)] by blast
  show ?case
  proof (cases "simple_seg s")
    case True
    then have "leaf_ok s" using c(2) by (cases s) auto
    then show ?thesis using j c(1,2,4) n True Cons.IH [of j k] Cons.prems(2) by (simp add: seg_op_simple)
  next
    case False
    then show ?thesis using j c(1,2) n by (simp add: seg_op_simple)
  qed
qed

fun simple_step :: "Segment \<Rightarrow> SimpleStep" where
  "simple_step (GChild key) = StepChild key" | "simple_step (GIndex i) = StepIndex i" | "simple_step _ = undefined"

lemma find_find_entry: "map_option snd (find (\<lambda>(k, _). k = key) es) = map_option snd (find_entry key es n)"
  by (induction key es n rule: find_entry.induct) auto

lemma simple_child_sel:
  assumes "doc_ok v" and "simple_seg s"
  shows "simple_child (simple_step s) v = None \<and> sel_nodes s v = [] \<or>
    (\<exists>i c. simple_child (simple_step s) v = Some c \<and> sel_nodes s v = [(i, c)] \<and> doc_ok c)"
proof (cases s)
  case (GChild key)
  show ?thesis
  proof (cases v)
    case (VObj es)
    show ?thesis
    proof (cases "find_entry key es 0")
      case None
      then show ?thesis using GChild VObj find_find_entry [of key es 0] by (simp add: simple_child_def sel_child)
    next
      case (Some p)
      obtain i c where p: "p = (i, c)" by fastforce
      have "doc_ok c" using doc_ok_child [OF assms(1)] find_entry_nth [of key es 0 i c] Some p VObj by simp
      then show ?thesis using GChild VObj Some p find_find_entry [of key es 0] by (simp add: simple_child_def sel_child)
    qed
  qed (simp_all add: GChild simple_child_def sel_child)
next
  case (GIndex i)
  show ?thesis
  proof (cases v)
    case (VArr vs)
    have "doc_ok (vs ! k)" if "k < length vs" for k using doc_ok_child [OF assms(1)] VArr that by simp
    then show ?thesis using GIndex VArr doc_ok_length [OF assms(1)]
      by (simp add: simple_child_def sel_index split: option.splits)
  qed (simp_all add: GIndex simple_child_def sel_nodes.simps)
qed (use assms(2) in simp_all)

lemma visit_simple_delivers:
  assumes "segs_at bytes at segs" and "\<forall>s\<in>set segs. simple_seg s" and "length segs \<le> fuel" and "doc_ok node"
  shows "visit_simple fuel bytes at node budget nodes on_match s = Some (deliver on_match (trace segs node loc) budget nodes s)"
  using assms
proof (induction segs arbitrary: at fuel node budget nodes loc)
  case Nil
  then have "at = length bytes" by (simp add: segs_at_def)
  then show ?case by (subst visit_simple.simps) (simp add: simple_next_def split: prod.splits)
next
  case (Cons g segs)
  obtain k where fuel: "fuel = Suc k" using Cons.prems(3) by (cases fuel) auto
  note c = segs_at_Cons [OF Cons.prems(1)]
  have simple: "simple_seg g" using Cons.prems(2) by simp
  then have leaf: "leaf_ok g" "sel_ok g" using c(2) by (cases g; simp)+
  let ?at = "at + length (seg_bytes g)"
  have step: "simple_next bytes at = Some (Some (simple_step g, ?at))"
    using read_op_at [OF leaf(1) c(3)] c(1) simple by (cases g) (simp_all add: simple_next_def)
  from simple_child_sel [OF Cons.prems(4) simple] show ?case
  proof
    assume "simple_child (simple_step g) node = None \<and> sel_nodes g node = []"
    then show ?thesis using step trace_sel [OF leaf(2)] by (subst visit_simple.simps) simp
  next
    assume "\<exists>i c. simple_child (simple_step g) node = Some c \<and> sel_nodes g node = [(i, c)] \<and> doc_ok c"
    then obtain i c where i: "simple_child (simple_step g) node = Some c" "sel_nodes g node = [(i, c)]" "doc_ok c" by blast
    have "visit_simple k bytes ?at c (budget - 1) (nodes + 1) on_match s =
        Some (deliver on_match (trace segs c (loc @ [i])) (budget - 1) (nodes + 1) s)"
      using Cons.IH [of ?at k c] Cons.prems fuel segs_at_Cons(4) [OF Cons.prems(1)] i(3) by simp
    then show ?thesis using step i trace_sel [OF leaf(2)] fuel by (subst visit_simple.simps) simp
  qed
qed

section \<open>Both lanes\<close>

lemma path_bytes_segs_at: "ast_ok ast \<Longrightarrow> segs_at (path_bytes ast) 3 (pa_segments ast)"
  using path_bytes_at [of ast] by (simp add: segs_at_def ast_ok_def path_bytes_def)

lemma validated_path:
  assumes "path_from_bytes bytes = Ok program"
  obtains ast where "ast_ok ast" "bytes = path_bytes ast" "path_decode bytes = Some ast" "length bytes < PATH_BYTES_CEILING"
  using assms path_validate_iff [of bytes] path_decode_ok by (auto simp: path_from_bytes_def rbind_Ok)

lemma eval_visit_delivers:
  assumes "ast_ok ast" and "doc_ok root"
  shows "eval_visit (path_bytes ast) root budget on_match s = Some (deliver on_match (trace (pa_segments ast) root []) budget 0 s)"
proof -
  let ?bytes = "path_bytes ast" and ?segs = "pa_segments ast"
  have at: "segs_at ?bytes 3 ?segs" using assms(1) by (rule path_bytes_segs_at)
  have len: "length ?segs \<le> length ?bytes" using length_segs_le [of ?segs] by (simp add: path_bytes_def)
  show ?thesis
  proof (cases "\<forall>s\<in>set ?segs. simple_seg s")
    case True
    then show ?thesis using all_ops_simple [OF at len] visit_simple_delivers [OF at True len assms(2), of budget 0 on_match s "[]"]
      by (simp add: eval_visit_def simple_steps_def)
  next
    case False
    then obtain g gs where segs: "?segs = g # gs" by (cases ?segs) auto
    obtain cont where cont: "cont_of ?bytes 3 = Some cont" "op_rel ?bytes 3 cont ?segs" using segs_at_op_rel [OF at] by blast
    let ?item = "\<lparr>im_node = root, im_pc = 3, im_cont = cont, im_step = None\<rparr>"
    have "frame_ok ?bytes (fresh_frame ?item False) g gs" using cont(2) segs assms(2) by (intro fresh_frame_ok) simp_all
    from stands_for.intros(2) [OF this stands_for.intros(1), of "[]"]
    have "stands_for ?bytes (stack_of (frames_push frames_new (fresh_frame ?item False))) (trace ?segs root [])"
      using segs stack_ops(4) [of frames_new] by (simp add: fresh_frame_def frames_ok_def frames_new_def stack_of_def)
    moreover have "frames_ok (frames_push frames_new (fresh_frame ?item False))"
      using stack_ops(4) [of frames_new] by (simp add: frames_ok_def frames_new_def)
    ultimately have "visit_loop ?bytes on_match (frames_push frames_new (fresh_frame ?item False)) budget 0 s =
        Some (deliver on_match (trace ?segs root []) budget 0 s)" by (rule visit_loop_delivers)
    moreover have "3 \<noteq> length ?bytes" using op_rel_end [OF cont(2)] segs by simp
    ultimately show ?thesis using False all_ops_simple [OF at len] cont(1)
      by (auto simp: eval_visit_def simple_steps_def stage_visit_def)
  qed
qed

text \<open>
  C32: streaming evaluation of a validated path never panics and always returns, and it delivers to any visitor exactly
  the values the path's syntax tree denotes on the document, in that order, charging one unit per visited node and
  stopping when the visitor breaks or the budget is used up; this holds for the frame machine and for the lane of
  plain chains alike.
\<close>

theorem path_visit_correct:
  assumes "path_from_bytes bytes = Ok program" and "doc_ok root"
  shows "\<exists>ast. path_decode bytes = Some ast \<and>
    eval_visit program root budget on_match s = Some (deliver on_match (trace (pa_segments ast) root []) budget 0 s)"
proof -
  obtain ast where ast: "ast_ok ast" "bytes = path_bytes ast" "path_decode bytes = Some ast"
    using validated_path [OF assms(1)] .
  have "program = bytes" using assms(1) by (auto simp: path_from_bytes_def rbind_Ok)
  then show ?thesis using ast eval_visit_delivers [OF ast(1) assms(2)] by auto
qed

lemma descend_last_trace:
  "trace [GDescend (GIndex (- 1))] (VArr [VI64 1, VArr [VI64 2]]) [] =
    [Visit, Visit, Hit [1] (VArr [VI64 2]), Visit, Visit, Visit, Visit, Visit, Hit [1, 0] (VI64 2), Visit, Visit]"
  by (simp add: trace.simps(2) [where v = "VArr vs" for vs] trace.simps(2) [where v = "VI64 i" for i] sel_nodes.simps from_end_def)

theorem path_visit_correct_witness:
  "eval_visit [1, 0, 1, 7, 4, 1] (VArr [VI64 1, VArr [VI64 2]]) 100 (\<lambda>vs v. (vs @ [v], False)) [] =
    Some ([VArr [VI64 2], VI64 2], \<lparr>vo_end = Complete, vo_nodes_visited = 9\<rparr>)"
proof -
  have "doc_ok (VArr [VI64 1, VArr [VI64 2]])" by (simp add: doc_ok.simps [of "VArr vs" for vs] doc_ok.simps [of "VI64 i" for i])
  from path_visit_correct [OF descend_last_program(1) this, of 100 "\<lambda>vs v. (vs @ [v], False)" "[]"]
  show ?thesis by (simp add: descend_last_program(2) descend_last_trace)
qed

end
