(* ===== verification/PathResume.thy ===== *)
theory PathResume
  imports PathVisit
begin

text \<open>
  Evaluation into a match set, in slices: the state an exhausted budget leaves behind holds no cursor, and resuming
  rebuilds the frames exactly. However a run is cut into slices, it ends, with the match set of the uncut run.
\<close>

section \<open>Match sets\<close>

fun hits :: "event list \<Rightarrow> (nat list \<times> DocValue) list" where
  "hits [] = []"
| "hits (Visit # es) = hits es"
| "hits (Hit loc v # es) = (loc, v) # hits es"

fun visits :: "event list \<Rightarrow> nat" where
  "visits [] = 0"
| "visits (Visit # es) = Suc (visits es)"
| "visits (Hit loc v # es) = visits es"

lemma hits_append [simp]: "hits (xs @ ys) = hits xs @ hits ys"
  by (induction xs rule: hits.induct) auto

lemma visits_append [simp]: "visits (xs @ ys) = visits xs + visits ys"
  by (induction xs rule: visits.induct) auto

lemma visits_le: "visits es \<le> length es"
  by (induction es rule: visits.induct) auto

text \<open>Recording the locations of a trace, up to the cap.\<close>

fun gather :: "nat \<Rightarrow> event list \<Rightarrow> Matches \<Rightarrow> EvalError + Matches" where
  "gather cap [] m = Ok m"
| "gather cap (Visit # es) m = gather cap es m"
| "gather cap (Hit loc v # es) m = rbind (record_match m loc None cap) (gather cap es)"

lemma record_match_loc:
  "record_match m path step cap = record_match m (path @ (case step of None \<Rightarrow> [] | Some k \<Rightarrow> [k])) None cap"
  by (simp add: record_match_def Let_def split: option.splits)

definition matches_ok :: "Matches \<Rightarrow> bool" where
  "matches_ok m \<longleftrightarrow> (\<forall>sp\<in>set (mt_spans m). sp_at sp + sp_len sp \<le> length (mt_steps m))"

lemma record_match_iter:
  assumes "record_match m loc None cap = Ok m'" and "matches_ok m"
  shows "matches_iter m' = matches_iter m @ [loc]" and "matches_ok m'"
proof -
  have m': "m' = \<lparr>mt_steps = mt_steps m @ loc, mt_spans = mt_spans m @ [\<lparr>sp_at = length (mt_steps m), sp_len = length loc\<rparr>]\<rparr>"
    using assms(1) by (auto simp: record_match_def Let_def split: if_splits)
  have "matches_get m' i = matches_get m i" if "i < length (mt_spans m)" for i
    using assms(2) that by (simp add: m' matches_get_def matches_ok_def Let_def nth_append sub_slice_append_left)
  moreover have "matches_get m' (length (mt_spans m)) = loc" by (simp add: m' matches_get_def sub_slice_def)
  ultimately show "matches_iter m' = matches_iter m @ [loc]" by (simp add: matches_iter_def m')
  show "matches_ok m'" using assms(2) by (auto simp: m' matches_ok_def trans_le_add1)
qed

lemma gather_iter: "gather cap es m = Ok m' \<Longrightarrow> matches_ok m \<Longrightarrow> matches_iter m' = matches_iter m @ map fst (hits es)"
proof (induction es arbitrary: m rule: hits.induct)
  case (3 loc v es)
  then obtain m1 where m1: "record_match m loc None cap = Ok m1" "gather cap es m1 = Ok m'" by (auto simp: rbind_Ok)
  then show ?case using "3.IH" [of m1] record_match_iter [OF m1(1) "3.prems"(2)] by simp
qed simp_all

lemma no_matches_iter [simp]: "matches_iter no_matches = []" "matches_ok no_matches"
  by (simp_all add: matches_iter_def no_matches_def matches_ok_def)

text \<open>A location leads to the value found there.\<close>

lemma resolve_Cons: "resolve v [i] = Some c \<Longrightarrow> resolve v (i # suf) = resolve c suf"
  by (cases v) (auto split: if_splits)

lemma slice_rest_less: "i \<in> set (slice_rest start stop step n) \<Longrightarrow> i < n"
  by (auto simp: slice_rest_def split: if_splits)

lemma slice_ords_less: "i \<in> set (slice_ords spec n) \<Longrightarrow> i < n"
  by (auto simp: slice_ords_def Let_def dest: slice_rest_less split: if_splits)

lemma sel_nodes_resolve: "(i, c) \<in> set (sel_nodes s v) \<Longrightarrow> resolve v [i] = Some c"
proof (cases s)
  case (GChild key)
  assume "(i, c) \<in> set (sel_nodes s v)"
  then obtain es where "v = VObj es" "find_entry key es 0 = Some (i, c)"
    using GChild by (cases v) (auto simp: sel_child split: option.splits)
  then show ?thesis using find_entry_nth [of key es 0 i c] by simp
next
  case (GSlice spec)
  assume "(i, c) \<in> set (sel_nodes s v)"
  then show ?thesis using GSlice by (cases v) (auto simp: sel_nodes.simps dest: slice_ords_less)
next
  case (GIndex n)
  assume "(i, c) \<in> set (sel_nodes s v)"
  then show ?thesis using GIndex by (cases v) (auto simp: sel_nodes.simps Let_def split: if_splits)
next
  case GChildAny
  assume "(i, c) \<in> set (sel_nodes s v)"
  then show ?thesis using GChildAny by (auto simp: sel_nodes.simps resolve_child in_set_enumerate_eq)
qed (auto simp: sel_nodes.simps)

lemma hits_concat: "hits (concat (map f xs)) = concat (map (\<lambda>x. hits (f x)) xs)"
  by (induction xs) auto

lemma child_traces_resolve:
  assumes "(loc', v') \<in> set (hits (concat (map (\<lambda>(i, c). Visit # trace ss c (loc @ [i])) xs)))"
    and "\<And>i c. (i, c) \<in> set xs \<Longrightarrow> resolve v [i] = Some c"
    and "\<And>i c. (i, c) \<in> set xs \<Longrightarrow> (loc', v') \<in> set (hits (trace ss c (loc @ [i]))) \<Longrightarrow>
      \<exists>suf. loc' = (loc @ [i]) @ suf \<and> resolve c suf = Some v'"
  shows "\<exists>suf. loc' = loc @ suf \<and> resolve v suf = Some v'"
proof -
  obtain i c where c: "(i, c) \<in> set xs" "(loc', v') \<in> set (hits (trace ss c (loc @ [i])))"
    using assms(1) by (auto simp: hits_concat)
  obtain suf where "loc' = (loc @ [i]) @ suf" "resolve c suf = Some v'" using assms(3) [OF c] by blast
  then show ?thesis using resolve_Cons [OF assms(2) [OF c(1)]] by (intro exI [of _ "i # suf"]) simp
qed

lemma enumerate_children_resolve: "(i, c) \<in> set (enumerate 0 (children v)) \<Longrightarrow> resolve v [i] = Some c"
  by (auto simp: resolve_child in_set_enumerate_eq)

lemma trace_resolve: "(loc', v') \<in> set (hits (trace segs v loc)) \<Longrightarrow> \<exists>suf. loc' = loc @ suf \<and> resolve v suf = Some v'"
proof (induction segs v loc rule: trace.induct)
  case (2 s ss v loc)
  show ?case
  proof (cases "(loc', v') \<in> set (hits (trace (s # ss) v loc))")
    case False
    then have "(loc', v') \<in> set (hits (concat (map (\<lambda>(i, c). Visit # trace (GDescend s # ss) c (loc @ [i])) (enumerate 0 (children v)))))"
      using "2.prems" by (auto simp: trace.simps(2) [of s ss v])
    then show ?thesis by (rule child_traces_resolve [OF _ enumerate_children_resolve]) (use "2.IH"(2) in auto)
  qed (use 2 in blast)
next
  case (3 ms ss v loc)
  then show ?case by (auto simp: hits_concat)
next
  case (4 key ss v loc)
  show ?case by (rule child_traces_resolve [OF "4.prems" [unfolded trace.simps] sel_nodes_resolve]) (use "4.IH" in auto)
next
  case (5 ss v loc)
  show ?case by (rule child_traces_resolve [OF "5.prems" [unfolded trace.simps] sel_nodes_resolve]) (use "5.IH" in auto)
next
  case (6 n ss v loc)
  show ?case by (rule child_traces_resolve [OF "6.prems" [unfolded trace.simps] sel_nodes_resolve]) (use "6.IH" in auto)
next
  case (7 s ss v loc)
  show ?case by (rule child_traces_resolve [OF "7.prems" [unfolded trace.simps] sel_nodes_resolve]) (use "7.IH" in auto)
qed simp

section \<open>Live stacks\<close>

text \<open>
  A stack, top first, with the trail of steps, the node on top and the trace to come: a frame sits on the node below
  it or on the child its step leads to.
\<close>

inductive live :: "bytes \<Rightarrow> DocValue \<Rightarrow> Frame list \<Rightarrow> nat list \<Rightarrow> DocValue \<Rightarrow> event list \<Rightarrow> bool" for bytes root where
  "live bytes root [] [] root []"
| "live bytes root fs path v es \<Longrightarrow> frame_ok bytes f s ss \<Longrightarrow> \<not> fm_stepped f \<Longrightarrow> fm_node f = v \<Longrightarrow>
    live bytes root (f # fs) path v (rest_events s ss v path (fm_progress f) @ es)"
| "live bytes root fs path v es \<Longrightarrow> frame_ok bytes f s ss \<Longrightarrow> fm_stepped f \<Longrightarrow> resolve v [k] = Some (fm_node f) \<Longrightarrow>
    live bytes root (f # fs) (path @ [k]) (fm_node f) (rest_events s ss (fm_node f) (path @ [k]) (fm_progress f) @ es)"

inductive_cases live_ConsE: "live bytes root (f # fs) path v es"
inductive_cases live_NilE: "live bytes root [] path v es"

lemma rebuild_save_progress: "progress_ok s v p \<Longrightarrow> rebuild_progress (save_progress p) v = Some p"
  by (cases p) auto

lemma rebuild_live:
  assumes "live bytes root fs path v es"
  shows "rebuild_frames (map save_frame (rev fs) @ sfs) (path @ path') root = map_option ((@) (rev fs)) (rebuild_frames sfs path' v)"
  using assms
proof (induction arbitrary: sfs path' rule: live.induct)
  case 1
  then show ?case by (simp add: option.map_ident)
next
  case (2 fs path v es f s ss)
  have "rebuild_progress (save_progress (fm_progress f)) v = Some (fm_progress f)"
    using rebuild_save_progress 2(2,4) by (auto simp: frame_ok_def)
  then show ?case using 2 by (cases f) (simp add: save_frame_def option.map_comp comp_def)
next
  case (3 fs path v es f s ss k)
  have "rebuild_progress (save_progress (fm_progress f)) (fm_node f) = Some (fm_progress f)"
    using rebuild_save_progress 3(2) by (auto simp: frame_ok_def)
  then show ?case using 3 by (cases f) (simp add: save_frame_def option.map_comp comp_def)
qed

lemma resume_live: "live bytes root fs path v es \<Longrightarrow> rebuild_frames (map save_frame (rev fs)) path root = Some (rev fs)"
  using rebuild_live [of bytes root fs path v es "[]" "[]"] by simp

text \<open>Taking an item of the top frame, or the root: the match recorded or a fresh frame on top.\<close>

lemma consume_live:
  assumes "live bytes root fs path v tail" and "op_rel bytes (im_pc item) (im_cont item) segs" and "doc_ok (im_node item)"
    and "case im_step item of None \<Rightarrow> im_node item = v | Some k \<Rightarrow> resolve v [k] = Some (im_node item)"
  shows "case consume item (rev fs) path m (length bytes) cap of
      Inl e \<Rightarrow> gather cap (trace segs (im_node item) (path @ (case im_step item of None \<Rightarrow> [] | Some k \<Rightarrow> [k])) @ tail) m = Err e
    | Inr (stack, path', m') \<Rightarrow> \<exists>fs' v' es'. stack = rev fs' \<and> live bytes root fs' path' v' es' \<and> length fs' \<le> length fs + 1 \<and>
        gather cap (trace segs (im_node item) (path @ (case im_step item of None \<Rightarrow> [] | Some k \<Rightarrow> [k])) @ tail) m = gather cap es' m' \<and>
        length es' \<le> length (trace segs (im_node item) (path @ (case im_step item of None \<Rightarrow> [] | Some k \<Rightarrow> [k])) @ tail) \<and>
        visits es' = visits (trace segs (im_node item) (path @ (case im_step item of None \<Rightarrow> [] | Some k \<Rightarrow> [k])) @ tail)"
proof (cases segs)
  case Nil
  then have "im_pc item = length bytes" using op_rel_end [OF assms(2)] by simp
  then have "consume item (rev fs) path m (length bytes) cap =
      rbind (record_match m (path @ (case im_step item of None \<Rightarrow> [] | Some k \<Rightarrow> [k])) None cap) (\<lambda>m. Ok (rev fs, path, m))"
    by (simp add: consume_def record_match_loc [of m path "im_step item"])
  then show ?thesis using Nil assms(1)
    by (cases "record_match m (path @ (case im_step item of None \<Rightarrow> [] | Some k \<Rightarrow> [k])) None cap")
      (auto intro!: exI [of _ fs] exI [of _ v] exI [of _ tail])
next
  case (Cons g gs)
  let ?loc = "path @ (case im_step item of None \<Rightarrow> [] | Some k \<Rightarrow> [k])"
  let ?fs = "fresh_frame item (im_step item \<noteq> None) # fs"
  have "im_pc item \<noteq> length bytes" using op_rel_end [OF assms(2)] Cons by simp
  then have c: "consume item (rev fs) path m (length bytes) cap = Ok (rev ?fs, ?loc, m)" by (simp add: consume_def)
  have ok: "frame_ok bytes (fresh_frame item st) g gs" for st using assms(2,3) Cons by (intro fresh_frame_ok) simp_all
  have l: "live bytes root ?fs ?loc (im_node item) (trace segs (im_node item) ?loc @ tail)"
  proof (cases "im_step item")
    case None
    then show ?thesis using live.intros(2) [OF assms(1) ok [of False]] assms(4) Cons by (simp add: fresh_frame_def)
  next
    case (Some k)
    then show ?thesis using live.intros(3) [OF assms(1) ok [of True], of k] assms(4) Cons by (simp add: fresh_frame_def)
  qed
  show ?thesis unfolding c sum.case prod.case
    by (intro exI [of _ ?fs] exI [of _ "im_node item"] exI [of _ "trace segs (im_node item) ?loc @ tail"] conjI) (use l in simp_all)
qed

lemma live_top:
  assumes "live bytes root (f # fs) path v es"
  obtains s ss es' where "frame_ok bytes f s ss" "v = fm_node f" "es = rest_events s ss v path (fm_progress f) @ es'"
    "\<And>p. progress_ok s v p \<Longrightarrow> live bytes root (f\<lparr>fm_progress := p\<rparr> # fs) path v (rest_events s ss v path p @ es')"
    "\<exists>v'. live bytes root fs (if fm_stepped f then butlast path else path) v' es'"
proof (rule live_ConsE [OF assms])
  fix es' s ss
  assume 1: "es = rest_events s ss v path (fm_progress f) @ es'" "live bytes root fs path v es'" "frame_ok bytes f s ss"
    "\<not> fm_stepped f" "fm_node f = v"
  have "live bytes root (f\<lparr>fm_progress := p\<rparr> # fs) path v (rest_events s ss v path p @ es')" if "progress_ok s v p" for p
    using live.intros(2) [OF 1(2) frame_ok_progress [OF 1(3), of p]] 1 that by simp
  then show thesis using that [of s ss es'] 1 by auto
next
  fix path' v' es' s ss k
  assume 2: "path = path' @ [k]" "v = fm_node f" "es = rest_events s ss (fm_node f) (path' @ [k]) (fm_progress f) @ es'"
    "live bytes root fs path' v' es'" "frame_ok bytes f s ss" "fm_stepped f" "resolve v' [k] = Some (fm_node f)"
  have "live bytes root (f\<lparr>fm_progress := p\<rparr> # fs) path v (rest_events s ss v path p @ es')" if "progress_ok s v p" for p
    using live.intros(3) [OF 2(4) frame_ok_progress [OF 2(5), of p], of k] 2 that by simp
  then show thesis using that [of s ss es'] 2 by auto
qed

text \<open>What a slice of \<open>budget\<close> may return when the trace \<open>es\<close> is still to come and \<open>m\<close> is recorded.\<close>

definition sliced :: "bytes \<Rightarrow> DocValue \<Rightarrow> nat \<Rightarrow> nat \<Rightarrow> event list \<Rightarrow> Matches \<Rightarrow> EvalError + EvalStep \<Rightarrow> bool" where
  "sliced bytes root cap budget es m r \<longleftrightarrow> (case r of
      Inl e \<Rightarrow> gather cap es m = Err e
    | Inr (StepDone m') \<Rightarrow> gather cap es m = Ok m'
    | Inr (StepYield st) \<Rightarrow> budget < visits es \<and> (\<exists>fs' path' v' es' m'. st = save (rev fs') path' m' \<and> live bytes root fs' path' v' es' \<and>
        gather cap es m = gather cap es' m' \<and> visits es' < visits es))"

lemma sliced_yield:
  "sliced bytes root cap budget es m (Inr (StepYield st)) \<longleftrightarrow> budget < visits es \<and> (\<exists>fs' path' v' es' m'. st = save (rev fs') path' m' \<and>
     live bytes root fs' path' v' es' \<and> gather cap es m = gather cap es' m' \<and> visits es' < visits es)"
  by (simp add: sliced_def)

lemma sliced_later:
  assumes "sliced bytes root cap (budget - 1) es' m' r" and "gather cap es m = gather cap es' m'" and "visits es = Suc (visits es')"
    and "budget \<noteq> 0"
  shows "sliced bytes root cap budget es m r"
proof (cases "\<exists>st. r = Inr (StepYield st)")
  case True
  then obtain st where st: "r = Inr (StepYield st)" by blast
  have "budget < visits es" if "budget - 1 < visits es'" using that assms(3,4) by simp
  then show ?thesis using assms(1-3) unfolding st sliced_yield by (metis less_SucI)
next
  case False
  then show ?thesis using assms(1,2) by (auto simp: sliced_def split: sum.splits EvalStep.splits)
qed

lemma run_loop_spec:
  assumes "live bytes root fs path v es"
  shows "\<exists>r. run_loop bytes cap (rev fs) path m budget = Some r \<and> sliced bytes root cap budget es m r"
  using assms
proof (induction "2 * length es + length fs" arbitrary: fs path v es m budget rule: less_induct)
  case less
  show ?case
  proof (cases fs)
    case Nil
    then have "es = []" using less.prems by (auto elim: live_NilE)
    then show ?thesis using Nil by (subst run_loop.simps) (simp add: sliced_def)
  next
    case (Cons f rest)
    obtain s ss es' where f: "frame_ok bytes f s ss" "v = fm_node f" "es = rest_events s ss v path (fm_progress f) @ es'"
        "\<And>p. progress_ok s v p \<Longrightarrow> live bytes root (f\<lparr>fm_progress := p\<rparr> # rest) path v (rest_events s ss v path p @ es')"
        "\<exists>v'. live bytes root rest (if fm_stepped f then butlast path else path) v' es'"
      using live_top [OF less.prems [unfolded Cons]] by metis
    show ?thesis
      using advance_spec [OF f(1)]
    proof (cases rule: advancesE)
      case (1 p)
      obtain v' where v': "live bytes root rest (if fm_stepped f then butlast path else path) v' es'" using f(5) by blast
      have es: "es' = es" using 1(2) f(2,3) by simp
      have run: "run_loop bytes cap (rev fs) path m budget =
          run_loop bytes cap (rev rest) (if fm_stepped f then butlast path else path) m budget"
        using Cons 1(1) by (subst run_loop.simps) simp
      show ?thesis unfolding run using less.hyps [OF _ v' [unfolded es], of m budget] Cons by simp
    next
      case (2 p item segs)
      let ?f = "f\<lparr>fm_progress := p\<rparr>" and ?tail = "rest_events s ss v path p @ es'"
      let ?es = "trace segs (im_node item) (path @ (case im_step item of None \<Rightarrow> [] | Some k \<Rightarrow> [k])) @ ?tail"
      have es: "es = Visit # ?es" using 2(6) f(2,3) by simp
      have top: "live bytes root (?f # rest) path v ?tail" using f(4) 2(2) f(2) by simp
      have node: "case im_step item of None \<Rightarrow> im_node item = v | Some k \<Rightarrow> resolve v [k] = Some (im_node item)"
        using 2(5) unfolding f(2) .
      note step = consume_live [OF top 2(3,4) node, where m = m and cap = cap]
      let ?c = "consume item (rev (?f # rest)) path m (length bytes) cap"
      have run: "run_loop bytes cap (rev fs) path m budget = (case ?c of
               Inl e \<Rightarrow> Some (Err e)
             | Inr (stack', path', m') \<Rightarrow>
                 if budget = 0 then Some (Ok (StepYield (save stack' path' m')))
                 else run_loop bytes cap stack' path' m' (budget - 1))"
        using Cons 2(1) by (subst run_loop.simps) simp
      show ?thesis
      proof (cases ?c)
        case (Inl e)
        then show ?thesis using step run unfolding es by (simp add: sliced_def)
      next
        case (Inr q)
        obtain stack' path' m' where q: "q = (stack', path', m')" by (metis prod_cases3)
        obtain fs' v' es'' where n: "stack' = rev fs'" "live bytes root fs' path' v' es''" "length fs' \<le> length rest + 2"
            "gather cap ?es m = gather cap es'' m'" "length es'' \<le> length ?es" "visits es'' = visits ?es"
          using step Inr q by auto
        show ?thesis
        proof (cases "budget = 0")
          case True
          then have "run_loop bytes cap (rev fs) path m budget = Some (Ok (StepYield (save (rev fs') path' m')))"
            using run Inr q n(1) by simp
          moreover have "gather cap es m = gather cap es'' m'" "visits es'' < visits es" using n(4,6) unfolding es by simp_all
          ultimately show ?thesis using n(2) True
            by (auto simp: sliced_yield intro!: exI [of _ fs'] exI [of _ path'] exI [of _ v'] exI [of _ es''] exI [of _ m'])
        next
          case False
          have "2 * length es'' + length fs' < 2 * length es + length fs" using n(3,5) Cons unfolding es by simp
          from less.hyps [OF this n(2), of m' "budget - 1"] obtain r where
            r: "run_loop bytes cap (rev fs') path' m' (budget - 1) = Some r" "sliced bytes root cap (budget - 1) es'' m' r"
            by blast
          have "run_loop bytes cap (rev fs) path m budget = Some r" using run Inr q n(1) r(1) False by simp
          moreover have "gather cap es m = gather cap es'' m'" "visits es = Suc (visits es'')" using n(4,6) unfolding es by simp_all
          ultimately show ?thesis using sliced_later [OF r(2)] False by blast
        qed
      qed
    qed
  qed
qed

section \<open>Slices\<close>

text \<open>The driver of a sliced evaluation: call \<open>i\<close> gets the budget \<open>budgets i\<close> and the state the call before it left.\<close>

fun drive_eval :: "nat \<Rightarrow> bytes \<Rightarrow> DocValue \<Rightarrow> nat \<Rightarrow> (nat \<Rightarrow> nat) \<Rightarrow> EvalState option \<Rightarrow> (EvalError + Matches) option" where
  "drive_eval 0 bytes root cap budgets resume = None"
| "drive_eval (Suc calls) bytes root cap budgets resume =
     Option.bind (eval_budgeted bytes root cap (budgets 0) resume) (\<lambda>r. case r of
        Inl e \<Rightarrow> Some (Err e)
      | Inr (StepDone m) \<Rightarrow> Some (Ok m)
      | Inr (StepYield state) \<Rightarrow> drive_eval calls bytes root cap (\<lambda>i. budgets (Suc i)) (Some state))"

lemma resume_run:
  assumes "live bytes root fs path v es"
  shows "eval_budgeted bytes root cap budget (Some (save (rev fs) path m)) = run_loop bytes cap (rev fs) path m budget"
  using resume_live [OF assms] by (simp add: eval_budgeted_def run_path_def save_def)

lemma drive_live:
  assumes "live bytes root fs path v es" and "visits es < calls"
  shows "drive_eval calls bytes root cap budgets (Some (save (rev fs) path m)) = Some (gather cap es m)"
  using assms
proof (induction calls arbitrary: fs path v es m budgets)
  case (Suc calls)
  obtain r where r: "run_loop bytes cap (rev fs) path m (budgets 0) = Some r" "sliced bytes root cap (budgets 0) es m r"
    using run_loop_spec [OF Suc.prems(1), of cap m "budgets 0"] by blast
  show ?case
  proof (cases "\<exists>st. r = Inr (StepYield st)")
    case True
    then obtain fs' path' v' es' m' where y: "r = Inr (StepYield (save (rev fs') path' m'))" "live bytes root fs' path' v' es'"
        "gather cap es m = gather cap es' m'" "visits es' < visits es"
      using r(2) by (auto simp: sliced_yield)
    then show ?thesis using Suc.IH [OF y(2), of "\<lambda>i. budgets (Suc i)" m'] Suc.prems(2) r(1) resume_run [OF Suc.prems(1)] by simp
  next
    case False
    then show ?thesis using r resume_run [OF Suc.prems(1)] by (auto simp: sliced_def split: sum.splits EvalStep.splits)
  qed
qed simp

text \<open>The first call starts as a resumption would from the state after the root.\<close>

lemma first_call:
  assumes "ast_ok ast" and "doc_ok root"
  shows "(\<exists>e. (\<forall>budget. eval_budgeted (path_bytes ast) root cap budget None = Some (Err e)) \<and>
      gather cap (trace (pa_segments ast) root []) no_matches = Err e) \<or>
    (\<exists>fs path v es m. live (path_bytes ast) root fs path v es \<and> visits es = visits (trace (pa_segments ast) root []) \<and>
      gather cap (trace (pa_segments ast) root []) no_matches = gather cap es m \<and>
      (\<forall>budget. eval_budgeted (path_bytes ast) root cap budget None =
        eval_budgeted (path_bytes ast) root cap budget (Some (save (rev fs) path m))))"
proof -
  let ?bytes = "path_bytes ast" and ?segs = "pa_segments ast"
  have at: "segs_at ?bytes 3 ?segs" using assms(1) by (rule path_bytes_segs_at)
  obtain cont where cont: "cont_of ?bytes 3 = Some cont" "op_rel ?bytes 3 cont ?segs"
    using segs_at_op_rel [OF at] by blast
  let ?item = "\<lparr>im_node = root, im_pc = 3, im_cont = cont, im_step = None\<rparr>"
  note step = consume_live [OF live.intros(1), of ?bytes ?item ?segs root cap no_matches, simplified, OF cont(2) assms(2)]
  show ?thesis
  proof (cases "consume ?item [] [] no_matches (length ?bytes) cap")
    case (Inl e)
    then show ?thesis using step cont(1) by (auto simp: eval_budgeted_def run_path_def)
  next
    case (Inr q)
    obtain stack path m where q: "q = (stack, path, m)" by (metis prod_cases3)
    then obtain fs v es where n: "stack = rev fs" "live ?bytes root fs path v es"
        "gather cap (trace ?segs root []) no_matches = gather cap es m" "visits es = visits (trace ?segs root [])"
      using step Inr by auto
    moreover have "eval_budgeted ?bytes root cap budget None = run_loop ?bytes cap (rev fs) path m budget" for budget
      using Inr q n(1) cont(1) by (simp add: eval_budgeted_def run_path_def)
    ultimately show ?thesis using resume_run by metis
  qed
qed

lemma eval_sliced:
  assumes "ast_ok ast" and "doc_ok root"
  defines "es \<equiv> trace (pa_segments ast) root []"
  shows "Suc (visits es) \<le> calls \<Longrightarrow> drive_eval calls (path_bytes ast) root cap budgets None = Some (gather cap es no_matches)"
    and "visits es < 2 ^ 64 \<Longrightarrow> path_eval (path_bytes ast) root cap = Some (gather cap es no_matches)"
proof -
  let ?bytes = "path_bytes ast"
  consider (refused) e where "\<And>budget. eval_budgeted ?bytes root cap budget None = Some (Err e)" "gather cap es no_matches = Err e"
    | (started) fs path v es' m where "live ?bytes root fs path v es'" "visits es' = visits es"
        "gather cap es no_matches = gather cap es' m" "\<And>budget. eval_budgeted ?bytes root cap budget None =
          eval_budgeted ?bytes root cap budget (Some (save (rev fs) path m))"
    using first_call [OF assms(1,2), of cap] unfolding es_def by metis
  note start = this
  show "drive_eval calls ?bytes root cap budgets None = Some (gather cap es no_matches)" if "Suc (visits es) \<le> calls"
  proof (cases rule: start)
    case refused
    then show ?thesis using that by (cases calls) simp_all
  next
    case started
    then show ?thesis using that drive_live [OF started(1), of calls cap budgets m] by (cases calls) simp_all
  qed
  show "path_eval ?bytes root cap = Some (gather cap es no_matches)" if "visits es < 2 ^ 64"
  proof (cases rule: start)
    case refused
    then show ?thesis using refused(1) [unfolded eval_budgeted_def] by (simp add: path_eval_def)
  next
    case started
    obtain r where r: "run_loop ?bytes cap (rev fs) path m (2 ^ 64 - 1) = Some r" "sliced ?bytes root cap (2 ^ 64 - 1) es' m r"
      using run_loop_spec [OF started(1)] by blast
    have "r \<noteq> Inr (StepYield st)" for st using r(2) that started(2) by (auto simp: sliced_yield)
    then show ?thesis using r started(3) started(4) [of "2 ^ 64 - 1"] resume_run [OF started(1), of cap "2 ^ 64 - 1" m]
      by (auto simp: path_eval_def eval_budgeted_def sliced_def split: sum.splits EvalStep.splits)
  qed
qed

text \<open>
  C33: a sliced evaluation of a validated path always finishes: whatever budgets the calls are given, zero included, after
  at most one call more than the nodes visited the driver holds the same answer as the uncut evaluation, and that answer
  is a match set of exactly the locations the path denotes, in order, each leading back to its value, or the error of
  recording them.
\<close>

theorem path_eval_resumable:
  assumes "path_from_bytes bytes = Ok program" and "doc_ok root"
  shows "\<exists>ast. path_decode bytes = Some ast \<and> (let es = trace (pa_segments ast) root []; answer = gather cap es no_matches in
      drive_eval (Suc (visits es)) program root cap budgets None = Some answer \<and>
      (visits es < 2 ^ 64 \<longrightarrow> path_eval program root cap = Some answer) \<and>
      (\<forall>m. answer = Ok m \<longrightarrow> matches_iter m = map fst (hits es) \<and> map (resolve root) (matches_iter m) = map (Some \<circ> snd) (hits es)))"
proof -
  obtain ast where ast: "ast_ok ast" "bytes = path_bytes ast" "path_decode bytes = Some ast"
    using validated_path [OF assms(1)] .
  let ?es = "trace (pa_segments ast) root []"
  have "program = bytes" using assms(1) by (auto simp: path_from_bytes_def rbind_Ok)
  moreover have "map (resolve root) (map fst (hits ?es)) = map (Some \<circ> snd) (hits ?es)"
    using trace_resolve [of _ _ "pa_segments ast" root "[]"] by auto
  moreover have "matches_iter m = map fst (hits ?es)" if "gather cap ?es no_matches = Ok m" for m
    using gather_iter [OF that] by simp
  ultimately show ?thesis
    using ast eval_sliced [OF ast(1) assms(2)] by (auto simp: Let_def simp del: drive_eval.simps)
qed

theorem path_eval_resumable_witness:
  "drive_eval 10 [1, 0, 1, 7, 4, 1] (VArr [VI64 1, VArr [VI64 2]]) 5 (\<lambda>i. 0) None =
    Some (Ok \<lparr>mt_steps = [1, 1, 0], mt_spans = [\<lparr>sp_at = 0, sp_len = 1\<rparr>, \<lparr>sp_at = 1, sp_len = 2\<rparr>]\<rparr>)"
proof -
  have "doc_ok (VArr [VI64 1, VArr [VI64 2]])" by (simp add: doc_ok.simps [of "VArr vs" for vs] doc_ok.simps [of "VI64 i" for i])
  note run = path_eval_resumable [OF descend_last_program(1) this, of 5 "\<lambda>i. 0"]
  have ten: "10 = Suc (Suc (Suc (Suc (Suc (Suc (Suc (Suc (Suc (Suc 0)))))))))" and two: "2 = Suc (Suc 0)" by simp_all
  show ?thesis using run unfolding ten two
    by (simp add: descend_last_program(2) descend_last_trace Let_def record_match_def no_matches_def del: drive_eval.simps)
qed

end
