(* ===== verification/PathCanonical.thy ===== *)
theory PathCanonical
  imports PathEval "HOL-Library.List_Lexorder"
begin

text \<open>
  The document-order view of a match set (crates/inf-doc/src/path/eval.rs, \<open>Matches::canonical\<close>): ids sorted by
  location, deduplicated, and the verdict whether one match lies inside another, which is taken from neighbours only.
\<close>

record CanonicalMatches =
  cm_ids :: "nat list"
  cm_any_overlap :: bool

text \<open>\<open>Vec::dedup_by\<close> on equal locations: an element equal to the last one kept is dropped.\<close>

fun dedup_ids :: "Matches \<Rightarrow> nat list \<Rightarrow> nat list" where
  "dedup_ids m (b # a # ids) = (if matches_get m a = matches_get m b then dedup_ids m (b # ids) else b # dedup_ids m (a # ids))"
| "dedup_ids m ids = ids"

fun overlap_in_windows :: "Matches \<Rightarrow> nat list \<Rightarrow> bool" where
  "overlap_in_windows m (a # b # ids) =
     (let shorter = matches_get m a; longer = matches_get m b
      in if length longer > length shorter \<and> take (length shorter) longer = shorter then True
         else overlap_in_windows m (b # ids))"
| "overlap_in_windows m ids = False"

definition canonical :: "Matches \<Rightarrow> CanonicalMatches" where
  "canonical m =
     (let ids = sort_key (matches_get m) [0..<length (mt_spans m)];
          ids = dedup_ids m ids
      in \<lparr>cm_ids = ids, cm_any_overlap = overlap_in_windows m ids\<rparr>)"

section \<open>Order and prefixes\<close>

lemma between_prefix: "p \<le> r \<Longrightarrow> r \<le> p @ s \<Longrightarrow> prefix p r" for p :: "'a :: linorder list"
proof (induction p arbitrary: r)
  case (Cons x p)
  then obtain y r' where "r = y # r'" by (cases r) auto
  then show ?case using Cons by auto
qed simp

lemma prefix_le: "prefix p q \<Longrightarrow> p \<le> q" for p :: "'a :: linorder list"
proof (induction p arbitrary: q)
  case (Cons a p)
  then show ?case by (cases q) auto
qed simp

lemma overlap_in_windows_iff:
  assumes "sorted_wrt (<) (map (matches_get m) ids)"
  shows "overlap_in_windows m ids \<longleftrightarrow> (\<exists>a\<in>set ids. \<exists>b\<in>set ids. strict_prefix (matches_get m a) (matches_get m b))"
  using assms
proof (induction m ids rule: overlap_in_windows.induct)
  case (1 m a b ids)
  let ?g = "matches_get m"
  have lt: "?g a < ?g b" "\<forall>c\<in>set ids. ?g a < ?g c \<and> ?g b < ?g c" using "1.prems" by auto
  have win: "length (?g b) > length (?g a) \<and> take (length (?g a)) (?g b) = ?g a \<longleftrightarrow> strict_prefix (?g a) (?g b)"
    using lt(1) by (metis less_irrefl prefix_length_less strict_prefix_def take_is_prefix append_eq_conv_conj prefix_def)
  show ?case
  proof (cases "strict_prefix (?g a) (?g b)")
    case False
    have "\<not> strict_prefix (?g a) (?g c)" if "c \<in> set ids" for c
    proof
      assume "strict_prefix (?g a) (?g c)"
      then obtain s where "?g c = ?g a @ s" by (auto simp: strict_prefix_def prefix_def)
      then have "prefix (?g a) (?g b)" using between_prefix [of "?g a" "?g b" s] lt that by auto
      then show False using False lt(1) by (simp add: strict_prefix_def less_le)
    qed
    moreover have "\<not> strict_prefix (?g c) (?g a)" if "c \<in> set (b # ids)" for c
      using prefix_le [of "?g c" "?g a"] lt that by (auto simp: strict_prefix_def)
    ultimately show ?thesis using 1 win False by (auto simp: Let_def)
  qed (use win in \<open>auto simp: Let_def\<close>)
qed auto

section \<open>The view\<close>

lemma set_dedup_ids: "matches_get m ` set (dedup_ids m ids) = matches_get m ` set ids"
  by (induction m ids rule: dedup_ids.induct) auto

lemma hd_dedup_ids [simp]: "dedup_ids m (b # ids) \<noteq> [] \<and> hd (dedup_ids m (b # ids)) = b"
  by (induction m "b # ids" arbitrary: ids rule: dedup_ids.induct) auto

lemma dedup_ids_sorted:
  "sorted (map (matches_get m) ids) \<Longrightarrow> sorted_wrt (<) (map (matches_get m) (dedup_ids m ids))"
proof (induction m ids rule: dedup_ids.induct)
  case (1 m b a ids)
  have "matches_get m b < matches_get m c" if "matches_get m a \<noteq> matches_get m b" "c \<in> set (dedup_ids m (a # ids))" for c
  proof -
    have "matches_get m c \<in> matches_get m ` set (a # ids)" using that(2) set_dedup_ids [of m "a # ids"] by blast
    then have "matches_get m a \<le> matches_get m c" using "1.prems" by auto
    then show ?thesis using that(1) "1.prems" by (metis list.simps(9) order_le_neq_trans order_less_le_trans sorted2)
  qed
  then show ?case using 1 by auto
qed auto

text \<open>
  C34: the document-order view of a match set lists each matched location exactly once, strictly ascending, and its
  overlap verdict, computed from neighbouring locations only, holds exactly when some match lies strictly inside
  another.
\<close>

theorem canonical_correct:
  "sorted_wrt (<) (map (matches_get m) (cm_ids (canonical m))) \<and>
   set (map (matches_get m) (cm_ids (canonical m))) = set (matches_iter m) \<and>
   (cm_any_overlap (canonical m) \<longleftrightarrow> (\<exists>p q. p \<in> set (matches_iter m) \<and> q \<in> set (matches_iter m) \<and> strict_prefix p q))"
proof -
  let ?ids = "sort_key (matches_get m) [0..<length (mt_spans m)]"
  have sorted: "sorted_wrt (<) (map (matches_get m) (dedup_ids m ?ids))" by (simp add: dedup_ids_sorted)
  have set: "matches_get m ` set (dedup_ids m ?ids) = set (matches_iter m)" by (simp add: set_dedup_ids matches_iter_def)
  have "overlap_in_windows m (dedup_ids m ?ids) \<longleftrightarrow>
      (\<exists>p\<in>matches_get m ` set (dedup_ids m ?ids). \<exists>q\<in>matches_get m ` set (dedup_ids m ?ids). strict_prefix p q)"
    unfolding overlap_in_windows_iff [OF sorted] by blast
  then show ?thesis using sorted unfolding canonical_def Let_def set set_map by (simp add: set) blast
qed

end
