(* ===== verification/PathText.thy ===== *)
theory PathText
  imports PathProgram Decimal
begin

text \<open>
  Path text (crates/inf-doc/src/path/parse.rs, the printer of \<^verbatim>\<open>ast.rs\<close> and \<open>compile\<close> of \<^verbatim>\<open>mod.rs\<close>). The parser is a
  left-to-right pass with a cursor into the text; errors carry the byte offset the source reports, and \<open>None\<close> is a
  panic. Strings are their UTF-8 bytes.
\<close>

section \<open>Parsing\<close>

subsection \<open>Names\<close>

definition is_alpha :: "byte \<Rightarrow> bool" where
  "is_alpha b \<longleftrightarrow> 0x41 \<le> b \<and> b \<le> 0x5A \<or> 0x61 \<le> b \<and> b \<le> 0x7A"

definition starts_shorthand :: "byte \<Rightarrow> bool" where
  "starts_shorthand b \<longleftrightarrow> is_alpha b \<or> b = 0x5F \<or> 0x80 \<le> b"

definition name_byte :: "byte \<Rightarrow> bool" where
  "name_byte b \<longleftrightarrow> is_alpha b \<or> is_digit b \<or> b = 0x5F \<or> 0x80 \<le> b"

function shorthand_end :: "bytes \<Rightarrow> nat \<Rightarrow> nat" where
  "shorthand_end text i =
     (case index_at text i of
        Some b \<Rightarrow> if name_byte b then shorthand_end text (i + 1) else i
      | None \<Rightarrow> i)"
  by pat_completeness auto
termination
  by (relation "measure (\<lambda>(text, i). length text - i)") (auto simp: index_at_def split: if_splits)

declare shorthand_end.simps [simp del]

definition take_shorthand :: "bytes \<Rightarrow> nat \<Rightarrow> (bytes \<times> nat) option" where
  "take_shorthand text at =
     map_option (\<lambda>_. let i = shorthand_end text (at + 1) in (sub_slice text at i, i)) (index_at text at)"

function skip_ws :: "bytes \<Rightarrow> nat \<Rightarrow> nat" where
  "skip_ws text at = (if index_at text at = Some 0x20 \<or> index_at text at = Some 0x09 then skip_ws text (at + 1) else at)"
  by pat_completeness auto
termination
  by (relation "measure (\<lambda>(text, at). length text - at)") (auto simp: index_at_def split: if_splits)

declare skip_ws.simps [simp del]

subsection \<open>Quoted names\<close>

text \<open>\<open>char::to_digit(16)\<close>, \<open>char::from_u32\<close> and \<open>char::encode_utf8\<close>.\<close>

definition hex_digit :: "byte \<Rightarrow> nat option" where
  "hex_digit b =
     (if is_digit b then Some (unat b - 0x30)
      else if 0x61 \<le> b \<and> b \<le> 0x66 then Some (unat b - 0x57)
      else if 0x41 \<le> b \<and> b \<le> 0x46 then Some (unat b - 0x37)
      else None)"

definition char_from_u32 :: "nat \<Rightarrow> nat option" where
  "char_from_u32 code = (if code > 0x10FFFF \<or> 0xD800 \<le> code \<and> code \<le> 0xDFFF then None else Some code)"

definition encode_char :: "nat \<Rightarrow> bytes" where
  "encode_char c =
     (if c < 0x80 then [of_nat c]
      else if c < 0x800 then [of_nat (0xC0 + c div 0x40), of_nat (0x80 + c mod 0x40)]
      else if c < 0x10000 then [of_nat (0xE0 + c div 0x1000), of_nat (0x80 + c div 0x40 mod 0x40), of_nat (0x80 + c mod 0x40)]
      else [of_nat (0xF0 + c div 0x40000), of_nat (0x80 + c div 0x1000 mod 0x40), of_nat (0x80 + c div 0x40 mod 0x40),
            of_nat (0x80 + c mod 0x40)])"

fun hex_number :: "nat \<Rightarrow> bytes \<Rightarrow> nat option" where
  "hex_number v [] = Some v"
| "hex_number v (b # bs) = Option.bind (hex_digit b) (\<lambda>d. hex_number (v * 16 + d) bs)"

definition parse_hex4 :: "bytes \<Rightarrow> nat option" where
  "parse_hex4 digits = Option.bind (get_range digits 0 4) (hex_number 0)"

text \<open>\<open>tail.get(n..)\<close>.\<close>

definition get_from :: "bytes \<Rightarrow> nat \<Rightarrow> bytes option" where
  "get_from tail n = (if n \<le> length tail then Some (drop n tail) else None)"

text \<open>The inner \<open>None\<close> is a bad escape; otherwise the bytes consumed and the bytes of the character.\<close>

definition unicode_code :: "bytes \<Rightarrow> (nat \<times> nat) option" where
  "unicode_code tail =
     Option.bind (get_from tail 2) (\<lambda>digits. Option.bind (parse_hex4 digits) (\<lambda>hi.
       if 0xD800 \<le> hi \<and> hi \<le> 0xDBFF then
         Option.bind (get_from tail 6) (\<lambda>low.
           if index_at low 0 \<noteq> Some 0x5C \<or> index_at low 1 \<noteq> Some 0x75 then None
           else Option.bind (get_from low 2) (\<lambda>digits. Option.bind (parse_hex4 digits) (\<lambda>lo.
             if \<not> (0xDC00 \<le> lo \<and> lo \<le> 0xDFFF) then None
             else Some (0x10000 + (hi - 0xD800) * 2 ^ 10 + (lo - 0xDC00), 12))))
       else if 0xDC00 \<le> hi \<and> hi \<le> 0xDFFF then None
       else Some (hi, 6)))"

definition push_unicode_escape :: "bytes \<Rightarrow> (nat \<times> bytes) option option" where
  "push_unicode_escape tail =
     (case unicode_code tail of
        None \<Rightarrow> Some None
      | Some (code, used) \<Rightarrow> map_option (\<lambda>ch. Some (used, encode_char ch)) (char_from_u32 code))"

lemma push_unicode_escape_used: "push_unicode_escape tail = Some (Some (used, bs)) \<Longrightarrow> 0 < used"
  by (auto simp: push_unicode_escape_def unicode_code_def bind_eq_Some_conv split: option.splits if_splits)

definition simple_escape :: "byte \<Rightarrow> byte option" where
  "simple_escape esc =
     (if esc = 0x27 \<or> esc = 0x22 \<or> esc = 0x5C \<or> esc = 0x2F then Some esc
      else if esc = 0x62 then Some 0x08
      else if esc = 0x66 then Some 0x0C
      else if esc = 0x6E then Some 0x0A
      else if esc = 0x72 then Some 0x0D
      else if esc = 0x74 then Some 0x09
      else None)"

function quoted_loop :: "bytes \<Rightarrow> byte \<Rightarrow> nat \<Rightarrow> nat \<Rightarrow> bytes \<Rightarrow> (PathError + bytes \<times> nat) option" where
  "quoted_loop text quot opn i name =
     (case index_at text i of
        None \<Rightarrow> Some (Err (PathError opn Unterminated))
      | Some b \<Rightarrow>
          if b = quot then Some (Ok (name, i + 1))
          else if b = 0x5C then
            (case index_at text (i + 1) of
               None \<Rightarrow> Some (Err (PathError i BadEscape))
             | Some esc \<Rightarrow>
                 (case simple_escape esc of
                    Some c \<Rightarrow> quoted_loop text quot opn (i + 2) (name @ [c])
                  | None \<Rightarrow>
                      if esc = 0x75 then
                        (case push_unicode_escape (drop i text) of
                           None \<Rightarrow> None
                         | Some None \<Rightarrow> Some (Err (PathError i BadEscape))
                         | Some (Some (used, bs)) \<Rightarrow> quoted_loop text quot opn (i + used) (name @ bs))
                      else Some (Err (PathError i BadEscape))))
          else if b < 0x20 then Some (Err (PathError i UnexpectedChar))
          else quoted_loop text quot opn (i + 1) (name @ [b]))"
  by pat_completeness auto
termination
  by (relation "measure (\<lambda>(text, _, _, i, _). length text - i)")
    (auto simp: index_at_def dest: push_unicode_escape_used split: if_splits)

declare quoted_loop.simps [simp del]

definition parse_quoted :: "bytes \<Rightarrow> nat \<Rightarrow> (PathError + bytes \<times> nat) option" where
  "parse_quoted text opn = Option.bind (index_at text opn) (\<lambda>quot. quoted_loop text quot opn (opn + 1) [])"

subsection \<open>Indices and slices\<close>

text \<open>\<open>i64\<close> results, \<open>None\<close> on overflow; the digits are subtracted, so that the least \<open>i64\<close> is in reach.\<close>

definition checked_i64 :: "int \<Rightarrow> int option" where
  "checked_i64 v = (if - (2 ^ 63) \<le> v \<and> v < 2 ^ 63 then Some v else None)"

fun negated_digits :: "int \<Rightarrow> bytes \<Rightarrow> int option" where
  "negated_digits v [] = Some v"
| "negated_digits v (b # bs) =
     Option.bind (checked_i64 (v * 10)) (\<lambda>v. Option.bind (checked_i64 (v - int (unat b - 0x30))) (\<lambda>v. negated_digits v bs))"

function digits_end :: "bytes \<Rightarrow> nat \<Rightarrow> nat" where
  "digits_end text i =
     (case index_at text i of
        Some b \<Rightarrow> if is_digit b then digits_end text (i + 1) else i
      | None \<Rightarrow> i)"
  by pat_completeness auto
termination
  by (relation "measure (\<lambda>(text, i). length text - i)") (auto simp: index_at_def split: if_splits)

declare digits_end.simps [simp del]

definition parse_opt_int :: "bytes \<Rightarrow> nat \<Rightarrow> PathError + i64 option \<times> nat" where
  "parse_opt_int text at =
     (let negative = (index_at text at = Some 0x2D);
          digits_at = at + (if negative then 1 else 0);
          i = digits_end text digits_at
      in if i = digits_at then
           if negative then Err (PathError at BadNumber) else Ok (None, skip_ws text at)
         else if text ! digits_at = 0x30 \<and> i > digits_at + 1 then Err (PathError at BadNumber)
         else case negated_digits 0 (sub_slice text digits_at i) of
             None \<Rightarrow> Err (PathError at BadNumber)
           | Some v \<Rightarrow>
               if negative then
                 if v = 0 then Err (PathError at BadNumber) else Ok (Some (of_int v), skip_ws text i)
               else case checked_i64 (- v) of
                   None \<Rightarrow> Err (PathError at BadNumber)
                 | Some v \<Rightarrow> Ok (Some (of_int v), skip_ws text i))"

definition parse_index_or_slice :: "bytes \<Rightarrow> nat \<Rightarrow> PathError + Member \<times> nat" where
  "parse_index_or_slice text at =
     rbind (parse_opt_int text at) (\<lambda>(start, i).
       if index_at text i \<noteq> Some 0x3A then
         (case start of None \<Rightarrow> Err (PathError at UnexpectedChar) | Some v \<Rightarrow> Ok (MIndex v, i))
       else rbind (parse_opt_int text (skip_ws text (i + 1))) (\<lambda>(stop, i).
         if index_at text i = Some 0x3A then
           let i = skip_ws text (i + 1)
           in rbind (parse_opt_int text i) (\<lambda>(parsed, following).
                if parsed = Some 0 then Err (PathError i BadSlice)
                else Ok (MSlice \<lparr>sl_start = start, sl_end = stop, sl_step = parsed\<rparr>, following))
         else Ok (MSlice \<lparr>sl_start = start, sl_end = stop, sl_step = None\<rparr>, i)))"

subsection \<open>Brackets\<close>

definition parse_selector :: "bytes \<Rightarrow> nat \<Rightarrow> (PathError + Member \<times> nat) option" where
  "parse_selector text at =
     (case index_at text at of
        None \<Rightarrow> Some (Err (PathError at Unterminated))
      | Some b \<Rightarrow>
          if b = 0x27 \<or> b = 0x22 then pbind (parse_quoted text at) (\<lambda>(name, following). Some (Ok (MName name, following)))
          else if b = 0x2D \<or> is_digit b \<or> b = 0x3A then Some (parse_index_or_slice text at)
          else if b = 0x3F \<and> index_at text (at + 1) = Some 0x28 then Some (Err (PathError at FilterUnsupported))
          else if b = 0x2A then Some (Err (PathError at BadUnionMember))
          else Some (Err (PathError at UnexpectedChar)))"

text \<open>
  The loop of \<open>parse_bracket\<close>: it reads a member in every round and stops at the cap. The list grows by one from the
  empty list, so the test \<open>==\<close> of the source is the test \<open>\<ge>\<close> here; the same holds for the segments below.
\<close>

function bracket_loop :: "bytes \<Rightarrow> nat \<Rightarrow> nat \<Rightarrow> Member list \<Rightarrow> (PathError + Member list \<times> nat) option" where
  "bracket_loop text opn at members =
     pbind (parse_selector text at) (\<lambda>(member, following).
       if length members \<ge> UNION_MEMBERS_MAX then Some (Err (PathError at BadUnionMember))
       else let members = members @ [member]; at = skip_ws text following
            in case index_at text at of
                 None \<Rightarrow> Some (Err (PathError opn Unterminated))
               | Some b \<Rightarrow>
                   if b = 0x5D then Some (Ok (members, at))
                   else if b = 0x2C then bracket_loop text opn (skip_ws text (at + 1)) members
                   else Some (Err (PathError at UnexpectedChar)))"
  by pat_completeness auto
termination
  by (relation "measure (\<lambda>(_, _, _, members). UNION_MEMBERS_MAX - length members)") auto

declare bracket_loop.simps [simp del]

definition parse_bracket :: "bytes \<Rightarrow> nat \<Rightarrow> (PathError + Segment \<times> nat) option" where
  "parse_bracket text opn =
     (if index_at text opn \<noteq> Some 0x5B then Some (Err (PathError opn UnexpectedChar))
      else let at = skip_ws text (opn + 1)
           in if index_at text at = Some 0x2A then
                let close = skip_ws text (at + 1)
                in Some (case index_at text close of
                     Some b \<Rightarrow>
                       if b = 0x5D then Ok (GChildAny, close + 1)
                       else if b = 0x2C then Err (PathError close BadUnionMember)
                       else Err (PathError (min close (length text)) UnexpectedChar)
                   | None \<Rightarrow> Err (PathError (min close (length text)) UnexpectedChar))
              else pbind (bracket_loop text opn at []) (\<lambda>(members, at).
                if length members = 1 then map_option (\<lambda>m. Ok (member_seg m, at + 1)) (index_at members 0)
                else Some (Ok (GUnion members, at + 1))))"

subsection \<open>Segments and paths\<close>

definition parse_segment :: "bytes \<Rightarrow> nat \<Rightarrow> (PathError + Segment \<times> nat) option" where
  "parse_segment text at =
     Option.bind (index_at text at) (\<lambda>b.
       if b = 0x5B then parse_bracket text at
       else if b = 0x2E \<and> index_at text (at + 1) = Some 0x2E then
         let sel_at = at + 2
         in pbind (case index_at text sel_at of
                None \<Rightarrow> Some (Err (PathError at TrailingDescend))
              | Some c \<Rightarrow>
                  if c = 0x5B then parse_bracket text sel_at
                  else if c = 0x2A then Some (Ok (GChildAny, sel_at + 1))
                  else if starts_shorthand c then
                    map_option (\<lambda>(name, following). Ok (GChild name, following)) (take_shorthand text sel_at)
                  else if c = 0x3F \<and> index_at text (sel_at + 1) = Some 0x28 then Some (Err (PathError sel_at FilterUnsupported))
                  else Some (Err (PathError sel_at UnexpectedChar)))
              (\<lambda>(inner, following). Some (Ok (GDescend inner, following)))
       else if b = 0x2E then
         let sel_at = at + 1
         in (case index_at text sel_at of
               Some c \<Rightarrow>
                 if c = 0x2A then Some (Ok (GChildAny, sel_at + 1))
                 else if starts_shorthand c then
                   map_option (\<lambda>(name, following). Ok (GChild name, following)) (take_shorthand text sel_at)
                 else Some (Err (PathError (min sel_at (length text)) UnexpectedChar))
             | None \<Rightarrow> Some (Err (PathError (min sel_at (length text)) UnexpectedChar)))
       else if b = 0x3F \<and> index_at text (at + 1) = Some 0x28 then Some (Err (PathError at FilterUnsupported))
       else Some (Err (PathError at UnexpectedChar)))"

function parse_loop :: "bytes \<Rightarrow> nat \<Rightarrow> Segment list \<Rightarrow> (PathError + Segment list) option" where
  "parse_loop text at segments =
     (if \<not> at < length text then Some (Ok segments)
      else if length segments \<ge> SEGMENTS_MAX then Some (Err (PathError at PathTooDeep))
      else pbind (parse_segment text at) (\<lambda>(segment, following). parse_loop text following (segments @ [segment])))"
  by pat_completeness auto
termination
  by (relation "measure (\<lambda>(_, _, segments). SEGMENTS_MAX - length segments)") auto

declare parse_loop.simps [simp del]

definition path_parse :: "bytes \<Rightarrow> (PathError + PathAst) option" where
  "path_parse text =
     (let legacy = (index_at text 0 \<noteq> Some 0x24)
      in if legacy \<and> (text = [] \<or> text = [0x2E]) then Some (Ok \<lparr>pa_legacy = legacy, pa_segments = []\<rparr>)
         else Option.bind
             (if legacy then
                Option.bind (index_at text 0) (\<lambda>b.
                  if starts_shorthand b then map_option (\<lambda>(name, following). ([GChild name], following)) (take_shorthand text 0)
                  else Some ([], 0))
              else Some ([], 1))
             (\<lambda>(segments, at). pbind (parse_loop text at segments) (\<lambda>segments.
                Some (Ok \<lparr>pa_legacy = legacy, pa_segments = segments\<rparr>))))"

text \<open>\<open>inf_simd::utf8_is_valid\<close> in its portable form, and where \<open>str::from_utf8\<close> stops.\<close>

definition utf8_is_valid :: "bytes \<Rightarrow> bool" where "utf8_is_valid input = utf8_valid input"

fun valid_up_to :: "bytes \<Rightarrow> nat" where
  "valid_up_to [] = 0"
| "valid_up_to (b # bs) =
     (let n = (if b < 0x80 then 1 else if b < 0xE0 then 2 else if b < 0xF0 then 3 else 4)
      in if n \<le> length (b # bs) \<and> utf8_valid (take n (b # bs)) then n + valid_up_to (drop (n - 1) bs) else 0)"

declare valid_up_to.simps(2) [simp del]

definition PATH_BYTES_DEFAULT :: nat where "PATH_BYTES_DEFAULT = 4096"

definition compile_with_max_bytes :: "bytes \<Rightarrow> nat \<Rightarrow> (PathError + bytes) option" where
  "compile_with_max_bytes text max_bytes =
     (if length text > min max_bytes PATH_BYTES_CEILING then Some (Err (PathError 0 PathTooLong))
      else if \<not> utf8_is_valid text then Some (Err (PathError (if utf8_valid text then 0 else valid_up_to text) InvalidUtf8))
      else pbind (path_parse text) path_encode)"

definition path_compile :: "bytes \<Rightarrow> (PathError + bytes) option" where
  "path_compile text = compile_with_max_bytes text PATH_BYTES_DEFAULT"

definition parse_ast :: "bytes \<Rightarrow> (PathError + PathAst) option" where
  "parse_ast text =
     (if length text > PATH_BYTES_CEILING then Some (Err (PathError 0 PathTooLong))
      else if \<not> utf8_is_valid text then Some (Err (PathError (if utf8_valid text then 0 else valid_up_to text) InvalidUtf8))
      else path_parse text)"

section \<open>Printing\<close>

text \<open>\<open>i64::to_string\<close>; the bytes of a character other than the two escaped ones and the controls are copied.\<close>

definition i64_text :: "i64 \<Rightarrow> bytes" where
  "i64_text v = (if sint v < 0 then 0x2D # dec_digits (nat (- sint v)) else dec_digits (nat (sint v)))"

definition hex_lower :: "nat \<Rightarrow> byte" where
  "hex_lower d = (if d < 10 then of_nat (0x30 + d) else of_nat (0x57 + d))"

definition quote_byte :: "byte \<Rightarrow> bytes" where
  "quote_byte b =
     (if b = 0x5C then [0x5C, 0x5C]
      else if b = 0x27 then [0x5C, 0x27]
      else if b < 0x20 then [0x5C, 0x75, 0x30, 0x30, hex_lower (unat b div 16), hex_lower (unat b mod 16)]
      else [b])"

definition print_quoted :: "bytes \<Rightarrow> bytes option" where
  "print_quoted name = (if utf8_valid name then Some (0x27 # concat (map quote_byte name) @ [0x27]) else None)"

definition is_shorthand :: "bytes \<Rightarrow> bool" where
  "is_shorthand name = (case name of [] \<Rightarrow> False | b # bs \<Rightarrow> starts_shorthand b \<and> list_all name_byte bs)"

definition print_slice :: "SliceSpec \<Rightarrow> bytes" where
  "print_slice s =
     (case sl_start s of Some a \<Rightarrow> i64_text a | None \<Rightarrow> []) @ [0x3A] @
     (case sl_end s of Some b \<Rightarrow> i64_text b | None \<Rightarrow> []) @
     (case sl_step s of Some c \<Rightarrow> 0x3A # i64_text c | None \<Rightarrow> [])"

fun print_member :: "Member \<Rightarrow> bytes option" where
  "print_member (MName name) = print_quoted name"
| "print_member (MIndex v) = Some (i64_text v)"
| "print_member (MSlice s) = Some (print_slice s)"

text \<open>Members with a comma before each but the first.\<close>

fun print_members :: "Member list \<Rightarrow> bytes option" where
  "print_members [] = Some []"
| "print_members (m # ms) =
     Option.bind (print_member m) (\<lambda>t.
       if ms = [] then Some t else map_option (\<lambda>rest. t @ 0x2C # rest) (print_members ms))"

definition print_name :: "bytes \<Rightarrow> bytes option" where
  "print_name name = (if utf8_valid name then Some name else None)"

fun print_leaf_segment :: "Segment \<Rightarrow> bytes option" where
  "print_leaf_segment (GChild name) =
     (if is_shorthand name then map_option (\<lambda>t. 0x2E # t) (print_name name)
      else map_option (\<lambda>t. 0x5B # t @ [0x5D]) (print_quoted name))"
| "print_leaf_segment GChildAny = Some [0x2E, 0x2A]"
| "print_leaf_segment (GIndex i) = Some (0x5B # i64_text i @ [0x5D])"
| "print_leaf_segment (GSlice s) = Some (0x5B # print_slice s @ [0x5D])"
| "print_leaf_segment (GUnion members) = map_option (\<lambda>t. 0x5B # t @ [0x5D]) (print_members members)"
| "print_leaf_segment (GDescend _) = None"

fun print_segment :: "Segment \<Rightarrow> bytes option" where
  "print_segment (GDescend inner) =
     (case inner of
        GChild name \<Rightarrow>
          if is_shorthand name then map_option (\<lambda>t. [0x2E, 0x2E] @ t) (print_name name)
          else map_option (\<lambda>t. [0x2E, 0x2E] @ t) (print_leaf_segment inner)
      | GChildAny \<Rightarrow> Some [0x2E, 0x2E, 0x2A]
      | _ \<Rightarrow> map_option (\<lambda>t. [0x2E, 0x2E] @ t) (print_leaf_segment inner))"
| "print_segment segment = print_leaf_segment segment"

fun print_segments :: "Segment list \<Rightarrow> bytes option" where
  "print_segments [] = Some []"
| "print_segments (s # ss) = Option.bind (print_segment s) (\<lambda>t. map_option (\<lambda>rest. t @ rest) (print_segments ss))"

definition path_print :: "PathAst \<Rightarrow> bytes option" where
  "path_print ast =
     (if pa_legacy ast \<and> pa_segments ast = [] then Some [0x2E]
      else map_option (\<lambda>t. (if pa_legacy ast then [] else [0x24]) @ t) (print_segments (pa_segments ast)))"

end
