(* ===== verification/PathGrammar.thy ===== *)
theory PathGrammar
  imports PathText
begin

text \<open>
  The parser reads back what the printer writes, and what it accepts is a well-formed syntax tree: path text, syntax tree
  and bytecode are three forms of the same path.
\<close>

section \<open>Scanning\<close>

lemma index_at_code: "code_at text at (b # xs) \<Longrightarrow> index_at text at = Some b"
  by simp

lemma index_at_None [simp]: "index_at xs i = None \<longleftrightarrow> length xs \<le> i"
  by (auto simp: index_at_def)

lemma index_at_SomeD: "index_at xs i = Some x \<Longrightarrow> i < length xs \<and> xs ! i = x"
  by (auto simp: index_at_def split: if_splits)

lemma shorthand_end_code:
  "code_at text i xs \<Longrightarrow> list_all name_byte xs \<Longrightarrow> (\<And>b. index_at text (i + length xs) = Some b \<Longrightarrow> \<not> name_byte b) \<Longrightarrow>
    shorthand_end text i = i + length xs"
proof (induction xs arbitrary: i)
  case Nil
  then show ?case by (subst shorthand_end.simps) (auto split: option.splits)
next
  case (Cons x xs)
  then have "shorthand_end text (Suc i) = Suc i + length xs" by (intro Cons.IH) auto
  then show ?case using Cons.prems by (subst shorthand_end.simps) auto
qed

lemma digits_end_code:
  "code_at text i xs \<Longrightarrow> list_all is_digit xs \<Longrightarrow> (\<And>b. index_at text (i + length xs) = Some b \<Longrightarrow> \<not> is_digit b) \<Longrightarrow>
    digits_end text i = i + length xs"
proof (induction xs arbitrary: i)
  case Nil
  then show ?case by (subst digits_end.simps) (auto split: option.splits)
next
  case (Cons x xs)
  then have "digits_end text (Suc i) = Suc i + length xs" by (intro Cons.IH) auto
  then show ?case using Cons.prems by (subst digits_end.simps) auto
qed

lemma skip_ws_stay: "index_at text at \<noteq> Some 0x20 \<Longrightarrow> index_at text at \<noteq> Some 0x09 \<Longrightarrow> skip_ws text at = at"
  by (subst skip_ws.simps) simp

section \<open>Quoted names\<close>

lemma hex_lower_digit: "d < 16 \<Longrightarrow> hex_digit (hex_lower d) = Some d"
proof -
  assume d: "d < 16"
  have u: "unat (of_nat (0x30 + d) :: byte) = 0x30 + d" "unat (of_nat (0x57 + d) :: byte) = 0x57 + d"
    using d by (intro unat_of_nat_byte; simp)+
  show ?thesis using d u by (auto simp: hex_lower_def hex_digit_def is_digit_def word_le_nat_alt simp del: of_nat_add)
qed

lemma control_escape:
  assumes "b < (0x20 :: byte)"
  shows "push_unicode_escape ([0x5C, 0x75, 0x30, 0x30, hex_lower (unat b div 16), hex_lower (unat b mod 16)] @ rest) = Some (Some (6, [b]))"
proof -
  have n: "unat b < 32" using assms by (simp add: word_less_nat_alt)
  have z: "hex_digit 0x30 = Some 0" by (simp add: hex_digit_def is_digit_def)
  have "parse_hex4 ([0x30, 0x30, hex_lower (unat b div 16), hex_lower (unat b mod 16)] @ rest) = Some (unat b)"
    using n by (simp add: parse_hex4_def get_range_def z hex_lower_digit)
  then show ?thesis using n
    by (simp add: push_unicode_escape_def unicode_code_def get_from_def char_from_u32_def encode_char_def)
qed

lemma quoted_loop_plain:
  "index_at text i = Some b \<Longrightarrow> b \<noteq> quot \<Longrightarrow> b \<noteq> 0x5C \<Longrightarrow> \<not> b < 0x20 \<Longrightarrow>
    quoted_loop text quot opn i acc = quoted_loop text quot opn (i + 1) (acc @ [b])"
  by (subst quoted_loop.simps) simp

lemma quoted_loop_simple:
  "index_at text i = Some 0x5C \<Longrightarrow> quot \<noteq> 0x5C \<Longrightarrow> index_at text (i + 1) = Some esc \<Longrightarrow> simple_escape esc = Some c \<Longrightarrow>
    quoted_loop text quot opn i acc = quoted_loop text quot opn (i + 2) (acc @ [c])"
  by (subst quoted_loop.simps) auto

lemma quoted_loop_unicode:
  "index_at text i = Some 0x5C \<Longrightarrow> quot \<noteq> 0x5C \<Longrightarrow> index_at text (i + 1) = Some 0x75 \<Longrightarrow>
    push_unicode_escape (drop i text) = Some (Some (used, bs)) \<Longrightarrow>
    quoted_loop text quot opn i acc = quoted_loop text quot opn (i + used) (acc @ bs)"
  by (subst quoted_loop.simps) (auto simp: simple_escape_def)

lemma quoted_loop_reads:
  assumes "code_at text i (concat (map quote_byte name) @ [0x27])"
  shows "quoted_loop text 0x27 opn i acc = Some (Ok (acc @ name, i + length (concat (map quote_byte name)) + 1))"
  using assms
proof (induction name arbitrary: i acc)
  case Nil
  then show ?case by (subst quoted_loop.simps) simp
next
  case (Cons b name)
  let ?q = "quote_byte b"
  have IH: "quoted_loop text 0x27 opn (i + length ?q) (acc @ [b]) =
      Some (Ok (acc @ b # name, i + length ?q + length (concat (map quote_byte name)) + 1))"
    using Cons.IH [of "i + length ?q" "acc @ [b]"] Cons.prems by simp
  have code: "code_at text i ?q" using Cons.prems by simp
  have "quoted_loop text 0x27 opn i acc = quoted_loop text 0x27 opn (i + length ?q) (acc @ [b])"
  proof -
    consider "b = 0x5C" | "b = 0x27" | "b \<noteq> 0x5C" "b \<noteq> 0x27" "\<not> b < 0x20" | "b \<noteq> 0x5C" "b \<noteq> 0x27" "b < 0x20" by blast
    then show ?thesis
    proof cases
      case 1
      then show ?thesis using code quoted_loop_simple [of "text" i "0x27" "0x5C" "0x5C"] by (simp add: quote_byte_def simple_escape_def)
    next
      case 2
      then show ?thesis using code quoted_loop_simple [of "text" i "0x27" "0x27" "0x27"] by (simp add: quote_byte_def simple_escape_def)
    next
      case 3
      then show ?thesis using code quoted_loop_plain [of "text" i b "0x27"] by (simp add: quote_byte_def)
    next
      case 4
      have "drop i text = ?q @ drop (i + length ?q) text" using code by (rule code_at_drop)
      then have "push_unicode_escape (drop i text) = Some (Some (6, [b]))" using 4 control_escape [of b] by (simp add: quote_byte_def)
      moreover have "length ?q = 6" "index_at text i = Some 0x5C" "index_at text (i + 1) = Some 0x75"
        using 4 code by (simp_all add: quote_byte_def)
      ultimately show ?thesis using quoted_loop_unicode [of "text" i "0x27" "6" "[b]"] by simp
    qed
  qed
  then show ?case using IH by (simp add: add.assoc)
qed

section \<open>Numbers\<close>

lemma negated_digits_fold:
  "int (foldl (\<lambda>n d. n * 10 + digit_val d) a ds) \<le> 2 ^ 63 \<Longrightarrow>
    negated_digits (- int a) ds = Some (- int (foldl (\<lambda>n d. n * 10 + digit_val d) a ds))"
proof (induction ds arbitrary: a)
  case (Cons d ds)
  have mono: "n \<le> foldl (\<lambda>n d. n * 10 + digit_val d) n es" for n es
  proof (induction es arbitrary: n)
    case (Cons e es)
    have "n \<le> n * 10 + digit_val e" by simp
    then show ?case using Cons [of "n * 10 + digit_val e"] by simp
  qed simp
  have "int (a * 10 + digit_val d) \<le> 2 ^ 63" using mono [of "a * 10 + digit_val d" ds] Cons.prems by simp
  then have "checked_i64 (- int a * 10) = Some (- int a * 10)"
    "checked_i64 (- int a * 10 - int (unat d - 48)) = Some (- int (a * 10 + digit_val d))"
    by (simp_all add: checked_i64_def digit_val_def)
  then show ?case using Cons.IH [of "a * 10 + digit_val d"] Cons.prems by simp
qed simp

lemma dec_digits_hd: "0 < n \<Longrightarrow> hd (dec_digits n) \<noteq> 0x30"
proof (induction n rule: dec_digits.induct)
  case (1 n)
  show ?case
  proof (cases "n < 10")
    case True
    then have d: "digit_val (0x30 + of_nat n) = n" by (rule digit_byte(2))
    have "0x30 + of_nat n \<noteq> (0x30 :: byte)"
    proof
      assume "0x30 + of_nat n = (0x30 :: byte)"
      then have "n = digit_val 0x30" using d by argo
      then show False using "1.prems" by (simp add: digit_val_def)
    qed
    then show ?thesis using True by (subst dec_digits.simps) simp
  next
    case False
    then show ?thesis using 1 by (subst dec_digits.simps) (simp add: hd_append)
  qed
qed

text \<open>The bytes that may follow a number in a bracket.\<close>

definition stops :: "bytes \<Rightarrow> nat \<Rightarrow> bool" where
  "stops text i \<longleftrightarrow> index_at text i = Some 0x5D \<or> index_at text i = Some 0x2C \<or> index_at text i = Some 0x3A"

lemma stops_facts:
  assumes "stops text i"
  shows "skip_ws text i = i" and "index_at text i = Some b \<Longrightarrow> \<not> is_digit b" and "index_at text i \<noteq> Some 0x2D"
  using assms by (auto simp: stops_def is_digit_def intro: skip_ws_stay)

lemma parse_opt_int_none: "stops text at \<Longrightarrow> parse_opt_int text at = Ok (None, at)"
  using digits_end_code [of "text" at "[]"] stops_facts [of "text" at] by (simp add: parse_opt_int_def)

lemma negated_decimal: "n \<le> 2 ^ 63 \<Longrightarrow> negated_digits 0 (dec_digits n) = Some (- int n)"
  using negated_digits_fold [of 0 "dec_digits n"] decimal_dec_digits [of n] by (simp add: decimal_def)

lemma sub_slice_code: "code_at text i xs \<Longrightarrow> sub_slice text i (i + length xs) = xs"
  using code_at_take by (simp add: sub_slice_def)

lemma parse_opt_int_some:
  assumes "code_at text at (i64_text v)" and "stops text (at + length (i64_text v))"
  shows "parse_opt_int text at = Ok (Some v, at + length (i64_text v))"
proof -
  define n where "n = nat \<bar>sint v\<bar>"
  define neg where "neg \<longleftrightarrow> sint v < 0"
  let ?d = "at + (if neg then 1 else 0)"
  have v: "i64_text v = (if neg then [0x2D] else []) @ dec_digits n" by (simp add: i64_text_def neg_def n_def)
  have bound: "n \<le> 2 ^ 63" "neg \<or> n < 2 ^ 63" "neg \<longrightarrow> 0 < n"
    using sint_ge [of v] sint_lt [of v] by (auto simp: n_def neg_def)
  have int: "sint v = (if neg then - int n else int n)" by (simp add: n_def neg_def)
  have code: "code_at text ?d (dec_digits n)" using assms(1) v by (cases neg) auto
  have "at + length (i64_text v) = ?d + length (dec_digits n)" using v by simp
  then have e: "digits_end text ?d = ?d + length (dec_digits n)" "skip_ws text (?d + length (dec_digits n)) = ?d + length (dec_digits n)"
    using digits_end_code [OF code dec_digits_digits] assms(2) stops_facts by auto
  obtain c cs where dd: "dec_digits n = c # cs" by (cases "dec_digits n") auto
  have first: "is_digit c" using dec_digits_digits [of n] dd by simp
  have sign: "index_at text at = Some 0x2D \<longleftrightarrow> neg"
    using assms(1) v dd first by (auto simp: is_digit_def split: if_splits)
  have "text ! ?d = c" using code dd by simp
  moreover have "c = 0x30 \<Longrightarrow> length (dec_digits n) = 1"
    using dec_digits_hd [of n] dd by (cases "n = 0") (auto simp: dec_digits.simps [of 0])
  moreover have "of_int (sint v) = v" by simp
  then have "of_int (if neg then - int n else int n) = v" unfolding int .
  moreover have "sub_slice text ?d (?d + length (dec_digits n)) = dec_digits n" using code by (rule sub_slice_code)
  ultimately show ?thesis using bound v negated_decimal [OF bound(1)]
    unfolding parse_opt_int_def Let_def sign e by (auto simp: checked_i64_def)
qed

definition opt_text :: "i64 option \<Rightarrow> bytes" where
  "opt_text x = (case x of Some v \<Rightarrow> i64_text v | None \<Rightarrow> [])"

lemma i64_text_first: "\<exists>c cs. i64_text v = c # cs \<and> (c = 0x2D \<or> is_digit c)"
proof -
  have "\<exists>c cs. dec_digits n = c # cs \<and> is_digit c" for n
    using dec_digits_digits [of n] by (cases "dec_digits n") auto
  then show ?thesis unfolding i64_text_def by (cases "sint v < 0") (simp, metis)
qed

lemma opt_int_reads:
  assumes "code_at text at (opt_text x)" and "stops text (at + length (opt_text x))"
  shows "parse_opt_int text at = Ok (x, at + length (opt_text x))" and "skip_ws text at = at"
proof -
  show "parse_opt_int text at = Ok (x, at + length (opt_text x))"
    using assms parse_opt_int_none parse_opt_int_some by (cases x) (auto simp: opt_text_def)
  show "skip_ws text at = at"
  proof (cases x)
    case None
    then show ?thesis using assms(2) stops_facts(1) by (simp add: opt_text_def)
  next
    case (Some v)
    obtain c cs where "i64_text v = c # cs" "c = 0x2D \<or> is_digit c" using i64_text_first by blast
    then show ?thesis using assms(1) Some by (intro skip_ws_stay) (auto simp: opt_text_def is_digit_def)
  qed
qed

section \<open>Brackets\<close>

definition ends :: "bytes \<Rightarrow> nat \<Rightarrow> bool" where
  "ends text i \<longleftrightarrow> index_at text i = Some 0x5D \<or> index_at text i = Some 0x2C"

lemma ends_stops: "ends text i \<Longrightarrow> stops text i \<and> index_at text i \<noteq> Some 0x3A"
  by (auto simp: ends_def stops_def)

lemma index_reads:
  assumes "code_at text at (i64_text v)" and "ends text (at + length (i64_text v))"
  shows "parse_index_or_slice text at = Ok (MIndex v, at + length (i64_text v))"
  using parse_opt_int_some [OF assms(1)] ends_stops [OF assms(2)] by (simp add: parse_index_or_slice_def)

lemma slice_reads:
  assumes "code_at text at (print_slice s)" and "ends text (at + length (print_slice s))" and "sl_step s \<noteq> Some 0"
  shows "parse_index_or_slice text at = Ok (MSlice s, at + length (print_slice s))"
proof -
  let ?i = "at + length (opt_text (sl_start s))"
  let ?j = "?i + 1 + length (opt_text (sl_end s))"
  have print: "print_slice s = opt_text (sl_start s) @ 0x3A # opt_text (sl_end s) @ (if sl_step s = None then [] else 0x3A # opt_text (sl_step s))"
    by (auto simp: print_slice_def opt_text_def split: option.splits)
  have code: "code_at text at (opt_text (sl_start s))" "index_at text ?i = Some 0x3A" "code_at text (?i + 1) (opt_text (sl_end s))"
    using assms(1) by (simp_all add: print)
  have first: "parse_opt_int text at = Ok (sl_start s, ?i)"
    using opt_int_reads(1) [OF code(1)] code(2) by (simp add: stops_def)
  show ?thesis
  proof (cases "sl_step s")
    case None
    then have j: "ends text ?j" "length (print_slice s) = length (opt_text (sl_start s)) + 1 + length (opt_text (sl_end s))"
      using assms(2) by (simp_all add: print add.assoc)
    then show ?thesis using opt_int_reads [OF code(3)] ends_stops [OF j(1)] first code(2) None
      by (simp add: parse_index_or_slice_def add.assoc)
  next
    case (Some c)
    let ?k = "?j + 1 + length (opt_text (Some c))"
    have j: "index_at text ?j = Some 0x3A" "code_at text (?j + 1) (opt_text (Some c))" "ends text ?k"
      "at + length (print_slice s) = ?k"
      using assms(1,2) Some by (simp_all add: print add.assoc)
    have "stops text ?j" using j(1) by (simp add: stops_def)
    note mid = opt_int_reads [OF code(3) this]
    have "stops text ?k" using ends_stops [OF j(3)] by simp
    note last = opt_int_reads [OF j(2) this]
    have "s = \<lparr>sl_start = sl_start s, sl_end = sl_end s, sl_step = Some c\<rparr>" using Some by (cases s) simp
    then show ?thesis using first code(2) mid last j(1) assms(3) Some unfolding parse_index_or_slice_def j(4) by (simp add: add.assoc)
  qed
qed

lemma selector_reads:
  assumes "print_member m = Some t" and "code_at text at t" and "ends text (at + length t)" and "sel_ok (member_seg m)"
  shows "parse_selector text at = Some (Ok (m, at + length t))" and "skip_ws text at = at" and "index_at text at \<noteq> Some 0x2A"
proof -
  have num: "parse_selector text at = Some (parse_index_or_slice text at) \<and> skip_ws text at = at \<and> index_at text at \<noteq> Some 0x2A"
    if "index_at text at = Some c" "c = 0x2D \<or> is_digit c \<or> c = 0x3A" for c
    using that by (auto simp: parse_selector_def is_digit_def intro!: skip_ws_stay)
  have "parse_selector text at = Some (Ok (m, at + length t)) \<and> skip_ws text at = at \<and> index_at text at \<noteq> Some 0x2A"
  proof (cases m)
    case (MName name)
    then have t: "t = 0x27 # concat (map quote_byte name) @ [0x27]" using assms(1) by (simp add: print_quoted_def split: if_splits)
    have "parse_quoted text at = Some (Ok (name, at + length t))"
      using assms(2) t quoted_loop_reads [of "text" "at + 1" name at "[]"] by (simp add: parse_quoted_def)
    then show ?thesis using assms(2) t MName by (auto simp: parse_selector_def intro!: skip_ws_stay)
  next
    case (MIndex v)
    obtain c cs where c: "i64_text v = c # cs" "c = 0x2D \<or> is_digit c" using i64_text_first by blast
    have t: "t = i64_text v" using assms(1) MIndex by simp
    then have "index_at text at = Some c" using assms(2) c(1) by simp
    then show ?thesis using num [of c] c(2) index_reads [of "text" at v] assms(2,3) MIndex t by auto
  next
    case (MSlice s)
    have "\<exists>c cs. print_slice s = c # cs \<and> (c = 0x2D \<or> is_digit c \<or> c = 0x3A)"
    proof (cases "sl_start s")
      case (Some v)
      obtain c cs where "i64_text v = c # cs" "c = 0x2D \<or> is_digit c" using i64_text_first by blast
      then show ?thesis using Some by (auto simp: print_slice_def)
    qed (simp add: print_slice_def)
    then obtain c cs where c: "print_slice s = c # cs" "c = 0x2D \<or> is_digit c \<or> c = 0x3A" by blast
    have t: "t = print_slice s" using assms(1) MSlice by simp
    then have "index_at text at = Some c" using assms(2) c(1) by simp
    then show ?thesis using num [of c] c(2) slice_reads [of "text" at s] assms(2-4) MSlice t by auto
  qed
  then show "parse_selector text at = Some (Ok (m, at + length t))" "skip_ws text at = at" "index_at text at \<noteq> Some 0x2A" by auto
qed

lemma bracket_loop_reads:
  assumes "print_members ms = Some t" and "ms \<noteq> []" and "code_at text at (t @ [0x5D])" and "\<forall>m\<in>set ms. sel_ok (member_seg m)"
    and "length acc + length ms \<le> UNION_MEMBERS_MAX"
  shows "bracket_loop text opn at acc = Some (Ok (acc @ ms, at + length t)) \<and> skip_ws text at = at \<and> index_at text at \<noteq> Some 0x2A"
  using assms
proof (induction ms arbitrary: t at acc)
  case (Cons m ms)
  obtain u where u: "print_member m = Some u" using Cons.prems(1) by (auto simp: bind_eq_Some_conv)
  have ok: "sel_ok (member_seg m)" "length acc < UNION_MEMBERS_MAX" using Cons.prems(4,5) by auto
  show ?case
  proof (cases "ms = []")
    case True
    then have t: "t = u" using Cons.prems(1) u by simp
    then have "ends text (at + length u)" "index_at text (at + length u) = Some 0x5D" using Cons.prems(3) by (auto simp: ends_def)
    note r = selector_reads [OF u _ this(1) ok(1)] this(2)
    show ?thesis using r Cons.prems(3) t ok(2) True skip_ws_stay [of "text" "at + length u"] by (subst bracket_loop.simps) (auto simp: Let_def)
  next
    case False
    then obtain rest where rest: "print_members ms = Some rest" "t = u @ 0x2C # rest" using Cons.prems(1) u by auto
    then have "ends text (at + length u)" "index_at text (at + length u) = Some 0x2C" using Cons.prems(3) by (auto simp: ends_def)
    note r = selector_reads [OF u _ this(1) ok(1)] this(2)
    have IH: "bracket_loop text opn (at + length u + 1) (acc @ [m]) = Some (Ok ((acc @ [m]) @ ms, at + length u + 1 + length rest))"
      "skip_ws text (at + length u + 1) = at + length u + 1"
      using Cons.IH [OF rest(1) False, of "at + length u + 1" "acc @ [m]"] Cons.prems(3-5) rest(2) by auto
    show ?thesis using r Cons.prems(3) rest(2) ok(2) IH skip_ws_stay [of "text" "at + length u"]
      by (subst bracket_loop.simps) (auto simp: Let_def)
  qed
qed simp

lemma bracket_reads:
  assumes "print_members ms = Some t" and "ms \<noteq> []" and "code_at text at (0x5B # t @ [0x5D])" and "\<forall>m\<in>set ms. sel_ok (member_seg m)"
    and "length ms \<le> UNION_MEMBERS_MAX"
  shows "parse_bracket text at = Some (Ok (if length ms = 1 then member_seg (hd ms) else GUnion ms, at + length t + 2))"
proof -
  note r = bracket_loop_reads [OF assms(1,2), of "text" "at + 1" "[]" at]
  have "hd ms = ms ! 0" using assms(2) by (cases ms) auto
  then show ?thesis using r assms(3-5) by (auto simp: parse_bracket_def Let_def)
qed

section \<open>Segments\<close>

text \<open>The end of the text, or the start of another segment.\<close>

definition seg_stop :: "bytes \<Rightarrow> nat \<Rightarrow> bool" where
  "seg_stop text i \<longleftrightarrow> (\<forall>b. index_at text i = Some b \<longrightarrow> b = 0x2E \<or> b = 0x5B)"

lemma shorthand_reads:
  assumes "is_shorthand name" and "code_at text at name" and "seg_stop text (at + length name)"
  shows "take_shorthand text at = Some (name, at + length name)" and "\<exists>c. index_at text at = Some c \<and> starts_shorthand c"
proof -
  obtain c cs where n: "name = c # cs" "starts_shorthand c" "list_all name_byte cs" using assms(1) by (cases name) (auto simp: is_shorthand_def)
  have "\<not> name_byte b" if "index_at text (at + 1 + length cs) = Some b" for b
    using assms(3) that n(1) by (auto simp: seg_stop_def name_byte_def is_alpha_def is_digit_def)
  then have "shorthand_end text (at + 1) = at + length name"
    using shorthand_end_code [of "text" "at + 1" cs] assms(2) n by simp
  then show "take_shorthand text at = Some (name, at + length name)"
    using assms(2) n(1) sub_slice_code [OF assms(2)] by (simp add: take_shorthand_def Let_def)
  show "\<exists>c. index_at text at = Some c \<and> starts_shorthand c" using assms(2) n by simp
qed

lemma starts_shorthand_not: "starts_shorthand c \<Longrightarrow> c \<noteq> 0x2E \<and> c \<noteq> 0x2A \<and> c \<noteq> 0x5B \<and> c \<noteq> 0x3F \<and> c \<noteq> 0x24"
  by (auto simp: starts_shorthand_def is_alpha_def)

fun members_of :: "Segment \<Rightarrow> Member list" where
  "members_of (GChild name) = [MName name]"
| "members_of (GIndex i) = [MIndex i]"
| "members_of (GSlice s) = [MSlice s]"
| "members_of (GUnion ms) = ms"
| "members_of _ = []"

fun bracketed :: "Segment \<Rightarrow> bool" where
  "bracketed (GChild name) \<longleftrightarrow> \<not> is_shorthand name"
| "bracketed GChildAny = False"
| "bracketed (GDescend s) = False"
| "bracketed _ = True"

lemma bracketed_print: "bracketed s \<Longrightarrow> print_leaf_segment s = map_option (\<lambda>t. 0x5B # t @ [0x5D]) (print_members (members_of s))"
  by (cases s) (auto simp: comp_def option.map_comp)

lemma bracketed_reads:
  assumes "bracketed s" and "leaf_ok s" and "print_leaf_segment s = Some t" and "code_at text at t"
  shows "parse_bracket text at = Some (Ok (s, at + length t))" and "\<exists>u. t = 0x5B # u"
proof -
  obtain u where u: "print_members (members_of s) = Some u" "t = 0x5B # u @ [0x5D]"
    using assms(3) bracketed_print [OF assms(1)] by auto
  have ms: "members_of s \<noteq> []" "\<forall>m\<in>set (members_of s). sel_ok (member_seg m)" "length (members_of s) \<le> UNION_MEMBERS_MAX"
    "(if length (members_of s) = 1 then member_seg (hd (members_of s)) else GUnion (members_of s)) = s"
    using assms(1,2) by (cases s; auto simp: UNION_MEMBERS_MAX_def)+
  show "parse_bracket text at = Some (Ok (s, at + length t))"
    using bracket_reads [OF u(1) ms(1) _ ms(2,3), of "text" at] assms(4) u(2) ms(4) by simp
  show "\<exists>u. t = 0x5B # u" using u(2) by blast
qed

lemma segment_reads:
  assumes "print_segment s = Some t" and "seg_ok s" and "code_at text at t" and "seg_stop text (at + length t)"
  shows "parse_segment text at = Some (Ok (s, at + length t)) \<and> (\<exists>c u. t = c # u \<and> (c = 0x2E \<or> c = 0x5B))"
proof -
  consider l where "s = GDescend l" | "s = GChildAny" | name where "s = GChild name" "is_shorthand name" | "bracketed s"
    by (cases s) auto
  then show ?thesis
  proof cases
    case (1 l)
    have ok: "leaf_ok l" using assms(2) 1 by simp
    consider "l = GChildAny" | name where "l = GChild name" "is_shorthand name" | "bracketed l" using ok by (cases l) auto
    then show ?thesis
    proof cases
      assume "l = GChildAny"
      then show ?thesis using assms 1 by (auto simp: parse_segment_def Let_def)
    next
      fix name
      assume n: "l = GChild name" "is_shorthand name"
      then have t: "t = [0x2E, 0x2E] @ name" using assms(1) 1 by (simp add: print_name_def split: if_splits)
      note r = shorthand_reads [OF n(2), of "text" "at + 2"]
      show ?thesis using r assms(3,4) t 1 n(1) starts_shorthand_not by (fastforce simp: parse_segment_def Let_def)
    next
      assume b: "bracketed l"
      then obtain u where u: "print_leaf_segment l = Some u" "t = [0x2E, 0x2E] @ u" using assms(1) 1 by (cases l) (auto split: if_splits)
      have "code_at text (at + 2) u" using assms(3) u(2) by simp
      note r = bracketed_reads [OF b ok u(1) this]
      obtain v where "u = 0x5B # v" using r(2) by blast
      then show ?thesis using r(1) assms(3) u(2) 1 by (auto simp: parse_segment_def Let_def)
    qed
  next
    case 2
    then show ?thesis using assms by (auto simp: parse_segment_def Let_def)
  next
    case (3 name)
    then have t: "t = 0x2E # name" using assms(1) by (simp add: print_name_def split: if_splits)
    note r = shorthand_reads [OF 3(2), of "text" "at + 1"]
    show ?thesis using r assms(3,4) t 3(1) starts_shorthand_not by (fastforce simp: parse_segment_def Let_def)
  next
    case 4
    then have "leaf_ok s" "print_leaf_segment s = Some t" using assms(1,2) by (cases s; simp)+
    note r = bracketed_reads [OF 4 this assms(3)]
    obtain v where "t = 0x5B # v" using r(2) by blast
    then show ?thesis using r(1) assms(3) by (simp add: parse_segment_def)
  qed
qed

lemma parse_loop_reads:
  assumes "print_segments ss = Some t" and "\<forall>s\<in>set ss. seg_ok s" and "code_at text at t" and "at + length t = length text"
    and "length acc + length ss \<le> SEGMENTS_MAX"
  shows "parse_loop text at acc = Some (Ok (acc @ ss)) \<and> seg_stop text at"
  using assms
proof (induction ss arbitrary: t at acc)
  case Nil
  then show ?case by (subst parse_loop.simps) (simp add: seg_stop_def index_at_def)
next
  case (Cons s ss)
  obtain u v where u: "print_segment s = Some u" "print_segments ss = Some v" "t = u @ v" using Cons.prems(1) by (auto simp: bind_eq_Some_conv)
  have IH: "parse_loop text (at + length u) (acc @ [s]) = Some (Ok ((acc @ [s]) @ ss))" "seg_stop text (at + length u)"
    using Cons.IH [OF u(2), of "at + length u" "acc @ [s]"] Cons.prems u(3) by auto
  have seg: "parse_segment text at = Some (Ok (s, at + length u))" "\<exists>c w. u = c # w \<and> (c = 0x2E \<or> c = 0x5B)"
    using segment_reads [OF u(1) _ _ IH(2)] Cons.prems(2,3) u(3) by auto
  then obtain c w where c: "u = c # w" "c = 0x2E \<or> c = 0x5B" by blast
  have "index_at text at = Some c" "at < length text" using Cons.prems(3,4) u(3) c(1) by auto
  then show ?case using seg(1) IH(1) Cons.prems(5) c(2) by (subst parse_loop.simps) (auto simp: seg_stop_def)
qed

lemma parse_print:
  assumes "ast_ok ast" and "path_print ast = Some text"
  shows "path_parse text = Some (Ok ast)"
proof -
  have ok: "\<forall>s\<in>set (pa_segments ast). seg_ok s" "length (pa_segments ast) \<le> SEGMENTS_MAX" using assms(1) by (auto simp: ast_ok_def)
  show ?thesis
  proof (cases "pa_legacy ast \<and> pa_segments ast = []")
    case True
    then have "text = [0x2E]" using assms(2) by (simp add: path_print_def)
    then show ?thesis using True by (cases ast) (simp add: path_parse_def Let_def)
  next
    case False
    then obtain t where t: "print_segments (pa_segments ast) = Some t" "text = (if pa_legacy ast then [] else [0x24]) @ t"
      using assms(2) by (auto simp: path_print_def)
    let ?at = "if pa_legacy ast then 0 else 1 :: nat"
    have code: "code_at text ?at t" "?at + length t = length text" using t(2) by (auto simp: code_at_def)
    note r = parse_loop_reads [OF t(1) ok(1) code, of "[]"]
    show ?thesis
    proof (cases "pa_legacy ast")
      case True
      then have l: "parse_loop text 0 [] = Some (Ok (pa_segments ast))" "seg_stop text 0" "pa_segments ast \<noteq> []"
        using r ok(2) False by auto
      have "text \<noteq> []" "text \<noteq> [0x2E]"
        using l(1,3) by (auto simp: parse_loop.simps [of "[]"] parse_loop.simps [of "[0x2E]"] parse_segment_def SEGMENTS_MAX_def index_at_def)
      moreover from this obtain b where "index_at text 0 = Some b" "b = 0x2E \<or> b = 0x5B" using l(2) by (cases "text") (auto simp: seg_stop_def)
      ultimately show ?thesis using l(1) True starts_shorthand_not [of b] by (cases ast) (auto simp: path_parse_def)
    next
      case False
      then show ?thesis using r ok(2) t(2) by (cases ast) (simp add: path_parse_def Let_def)
    qed
  qed
qed

section \<open>UTF-8 text\<close>

lemma encode_char_valid:
  assumes "char_from_u32 c = Some d"
  shows "utf8_valid (encode_char d)" and "length (encode_char d) \<le> 4"
proof -
  have c: "d = c" "c \<le> 0x10FFFF" "\<not> (0xD800 \<le> c \<and> c \<le> 0xDFFF)" using assms by (auto simp: char_from_u32_def split: if_splits)
  note w = word_le_nat_alt word_less_nat_alt word_unat_eq_iff unat_of_nat_byte
  show "length (encode_char d) \<le> 4" by (simp add: encode_char_def)
  consider "c < 0x80" | "0x80 \<le> c" "c < 0x800" | "0x800 \<le> c" "c < 0x10000" | "0x10000 \<le> c" by linarith
  then show "utf8_valid (encode_char d)"
  proof cases
    case 1
    then show ?thesis unfolding c(1) by (subst utf8_valid.simps | simp add: encode_char_def w)+
  next
    case 2
    define x y where "x = c div 0x40" and "y = c mod 0x40"
    have "x < 0x20" "2 \<le> x" "y < 0x40" using 2 by (auto simp: x_def y_def)
    then have "unat (of_nat (0xC0 + x) :: byte) = 0xC0 + x" "unat (of_nat (0x80 + y) :: byte) = 0x80 + y"
      by (intro unat_of_nat_byte; simp)+
    then show ?thesis using 2 \<open>x < 0x20\<close> \<open>2 \<le> x\<close> \<open>y < 0x40\<close> unfolding c(1) encode_char_def x_def [symmetric] y_def [symmetric]
      by (subst if_not_P, simp, subst if_P, simp, subst utf8_valid.simps)
        (simp add: is_cont_def word_le_nat_alt word_less_nat_alt del: of_nat_add)
  next
    case 3
    define x y z where "x = c div 0x1000" and "y = c div 0x40 mod 0x40" and "z = c mod 0x40"
    have y: "c div 0x40 = 0x40 * x + y" using div_mult2_eq [of c "0x40" "0x40"] by (simp add: x_def y_def)
    have r: "x < 0x10" "y < 0x40" "z < 0x40" using 3 by (auto simp: x_def y_def z_def)
    moreover have "x = 0 \<longrightarrow> 0x20 \<le> y" "x = 0xD \<longrightarrow> y < 0x20" using 3 c(3) r y by linarith+
    ultimately have r: "x < 0x10" "y < 0x40" "z < 0x40" "x = 0 \<longrightarrow> 0x20 \<le> y" "x = 0xD \<longrightarrow> y < 0x20" by blast+
    then have "unat (of_nat (0xE0 + x) :: byte) = 0xE0 + x" "unat (of_nat (0x80 + y) :: byte) = 0x80 + y" "unat (of_nat (0x80 + z) :: byte) = 0x80 + z"
      by (intro unat_of_nat_byte; simp)+
    then have "utf8_valid [of_nat (0xE0 + x), of_nat (0x80 + y), of_nat (0x80 + z)]" using r
      by (subst utf8_valid.simps)
        (auto simp: is_cont_def second_ok_def word_le_nat_alt word_less_nat_alt word_unat_eq_iff simp del: of_nat_add)
    moreover have "encode_char c = [of_nat (0xE0 + x), of_nat (0x80 + y), of_nat (0x80 + z)]"
      using 3 unfolding encode_char_def x_def y_def z_def by (simp del: of_nat_add)
    ultimately show ?thesis using c(1) by simp
  next
    case 4
    define x y z u where "x = c div 0x40000" and "y = c div 0x1000 mod 0x40" and "z = c div 0x40 mod 0x40" and "u = c mod 0x40"
    have y: "c div 0x1000 = 0x40 * x + y" using div_mult2_eq [of c "0x1000" "0x40"] by (simp add: x_def y_def)
    have r: "x < 5" "y < 0x40" "z < 0x40" "u < 0x40" using 4 c(2) by (auto simp: x_def y_def z_def u_def)
    moreover have "x = 0 \<longrightarrow> 0x10 \<le> y" "x = 4 \<longrightarrow> y < 0x10" using 4 c(2) r y by linarith+
    ultimately have r: "x < 5" "y < 0x40" "z < 0x40" "u < 0x40" "x = 0 \<longrightarrow> 0x10 \<le> y" "x = 4 \<longrightarrow> y < 0x10" by blast+
    then have "unat (of_nat (0xF0 + x) :: byte) = 0xF0 + x" "unat (of_nat (0x80 + y) :: byte) = 0x80 + y"
        "unat (of_nat (0x80 + z) :: byte) = 0x80 + z" "unat (of_nat (0x80 + u) :: byte) = 0x80 + u"
      by (intro unat_of_nat_byte; simp)+
    then have "utf8_valid [of_nat (0xF0 + x), of_nat (0x80 + y), of_nat (0x80 + z), of_nat (0x80 + u)]" using r
      by (subst utf8_valid.simps)
        (auto simp: is_cont_def second_ok_def word_le_nat_alt word_less_nat_alt word_unat_eq_iff simp del: of_nat_add)
    moreover have "encode_char c = [of_nat (0xF0 + x), of_nat (0x80 + y), of_nat (0x80 + z), of_nat (0x80 + u)]"
      using 4 unfolding encode_char_def x_def y_def z_def u_def by (simp del: of_nat_add)
    ultimately show ?thesis using c(1) by simp
  qed
qed

section \<open>What the parser accepts\<close>

text \<open>Moving over ASCII keeps the rest of a text valid.\<close>

definition moves :: "bytes \<Rightarrow> nat \<Rightarrow> nat \<Rightarrow> bool" where
  "moves text i j \<longleftrightarrow> i \<le> j \<and> (\<forall>k. i \<le> k \<and> k < j \<longrightarrow> k < length text \<and> text ! k < 0x80)"

lemma moves_refl [simp]: "moves text i i"
  by (auto simp: moves_def)

lemma moves_trans: "moves text i j \<Longrightarrow> moves text j k \<Longrightarrow> moves text i k"
  unfolding moves_def by (meson le_trans not_le)

lemma moves_Suc: "index_at text i = Some b \<Longrightarrow> b < 0x80 \<Longrightarrow> moves text (Suc i) j \<Longrightarrow> moves text i j"
  using index_at_SomeD [of "text" i b] by (auto simp: moves_def) (metis Suc_leI le_neq_implies_less)+

lemma moves_step: "index_at text i = Some b \<Longrightarrow> b < 0x80 \<Longrightarrow> moves text i (Suc i)"
  by (rule moves_Suc) simp_all

lemma moves_le: "moves text i j \<Longrightarrow> i \<le> length text \<Longrightarrow> j \<le> length text"
  by (cases "j = i") (auto simp: moves_def dest: spec [of _ "j - 1"])

lemma moves_utf8: "moves text i j \<Longrightarrow> utf8_valid (drop i text) \<Longrightarrow> utf8_valid (drop j text)"
proof (induction "j - i" arbitrary: i)
  case 0
  then show ?case by (simp add: moves_def)
next
  case (Suc n)
  then have i: "i < j" "i < length text" "text ! i < 0x80" by (auto simp: moves_def)
  then have "utf8_valid (drop (Suc i) text)" using Suc.prems(2) by (simp add: Cons_nth_drop_Suc [symmetric] utf8_Cons_ascii)
  moreover have "moves text (Suc i) j" using Suc.prems(1) i(1) by (auto simp: moves_def)
  ultimately show ?case using Suc.hyps(1) [of "Suc i"] Suc.hyps(2) by simp
qed

lemma skip_ws_moves: "moves text at (skip_ws text at)"
proof (induction "text" at rule: skip_ws.induct)
  case (1 "text" at)
  then show ?case by (subst skip_ws.simps) (auto intro: moves_Suc)
qed

lemma moves_colon: "index_at text i = Some 0x3A \<Longrightarrow> moves text i (skip_ws text (i + 1))"
  using moves_step [of "text" i "0x3A"] skip_ws_moves [of "text" "i + 1"] moves_trans by simp

lemma digits_end_moves: "moves text i (digits_end text i)"
proof (induction "text" i rule: digits_end.induct)
  case (1 "text" i)
  have "is_digit b \<Longrightarrow> b < 0x80" for b by (auto simp: is_digit_def word_le_nat_alt word_less_nat_alt)
  with 1 show ?case by (subst digits_end.simps) (auto split: option.split intro: moves_Suc)
qed

lemma parse_opt_int_moves: "parse_opt_int text at = Ok (x, j) \<Longrightarrow> moves text at j"
proof -
  assume p: "parse_opt_int text at = Ok (x, j)"
  let ?d = "at + (if index_at text at = Some 0x2D then 1 else 0)"
  have "moves text at ?d" using moves_step [of "text" at] by auto
  then have "moves text at (skip_ws text (digits_end text ?d))" using moves_trans digits_end_moves skip_ws_moves by metis
  then show ?thesis using p skip_ws_moves [of "text" at]
    by (auto simp: parse_opt_int_def Let_def split: if_splits option.splits)
qed

lemma parse_index_or_slice_sound:
  assumes "parse_index_or_slice text at = Ok (m, j)"
  shows "moves text at j" and "sel_ok (member_seg m)"
proof -
  obtain start i where a: "parse_opt_int text at = Ok (start, i)" using assms by (auto simp: parse_index_or_slice_def rbind_Ok)
  note ma = parse_opt_int_moves [OF a]
  have "moves text at j \<and> sel_ok (member_seg m)"
  proof (cases "index_at text i = Some 0x3A")
    case False
    then show ?thesis using assms a ma by (auto simp: parse_index_or_slice_def split: option.splits)
  next
    case True
    then have mi: "moves text at (skip_ws text (i + 1))" using moves_trans [OF ma moves_colon] by blast
    obtain stop k where b: "parse_opt_int text (skip_ws text (i + 1)) = Ok (stop, k)"
      using assms a True by (auto simp: parse_index_or_slice_def rbind_Ok)
    note mk = moves_trans [OF mi parse_opt_int_moves [OF b]]
    show ?thesis
    proof (cases "index_at text k = Some 0x3A")
      case False
      then show ?thesis using assms a b mk True by (auto simp: parse_index_or_slice_def)
    next
      case k: True
      have "moves text at (skip_ws text (k + 1))" using moves_trans [OF mk moves_colon [OF k]] .
      moreover obtain step l where "parse_opt_int text (skip_ws text (k + 1)) = Ok (step, l)" "step \<noteq> Some 0" "j = l"
          "m = MSlice \<lparr>sl_start = start, sl_end = stop, sl_step = step\<rparr>"
        using assms a b True k by (auto simp: parse_index_or_slice_def rbind_Ok Let_def split: if_splits)
      ultimately show ?thesis using parse_opt_int_moves moves_trans by auto
    qed
  qed
  then show "moves text at j" "sel_ok (member_seg m)" by auto
qed

lemma hex_digit_facts: "hex_digit b = Some d \<Longrightarrow> b < 0x80 \<and> d < 16"
  by (auto simp: hex_digit_def is_digit_def word_le_nat_alt word_less_nat_alt split: if_splits)

lemma hex_number_facts: "hex_number v bs = Some w \<Longrightarrow> ascii bs \<and> w < (v + 1) * 16 ^ length bs"
proof (induction bs arbitrary: v)
  case (Cons b bs)
  then obtain d where d: "hex_digit b = Some d" "hex_number (v * 16 + d) bs = Some w" by (auto simp: bind_eq_Some_conv)
  have "(v * 16 + d + 1) * 16 ^ length bs \<le> (v + 1) * 16 * 16 ^ length bs" using hex_digit_facts [OF d(1)] by (intro mult_le_mono1) simp
  then have "w < (v + 1) * 16 ^ length (b # bs)" using Cons.IH [OF d(2)] by (simp only: list.size power_Suc add_Suc_right add_0_right mult.assoc) linarith
  then show ?case using Cons.IH [OF d(2)] hex_digit_facts [OF d(1)] by simp
qed simp

lemma parse_hex4_facts: "parse_hex4 digits = Some v \<Longrightarrow> 4 \<le> length digits \<and> ascii (take 4 digits) \<and> v < 0x10000"
  using hex_number_facts [of 0 "take 4 digits" v] by (auto simp: parse_hex4_def get_range_def bind_eq_Some_conv split: if_splits)

lemma unicode_code_facts:
  assumes "unicode_code tail = Some (code, used)" and "index_at tail 0 = Some 0x5C" and "index_at tail 1 = Some 0x75"
  shows "4 \<le> used \<and> used \<le> length tail \<and> ascii (take used tail) \<and> char_from_u32 code = Some code"
proof -
  obtain rest where tail: "tail = 0x5C # 0x75 # rest"
    using assms(2,3) by (cases tail; cases "tl tail") (auto simp: index_at_def split: if_splits)
  obtain hi where hi: "parse_hex4 rest = Some hi" using assms(1) tail by (auto simp: unicode_code_def get_from_def bind_eq_Some_conv)
  note h = parse_hex4_facts [OF hi]
  show ?thesis
  proof (cases "0xD800 \<le> hi \<and> hi \<le> 0xDBFF")
    case False
    then have "code = hi" "used = 6" "\<not> (0xDC00 \<le> hi \<and> hi \<le> 0xDFFF)"
      using assms(1) tail hi by (auto simp: unicode_code_def get_from_def split: if_splits)
    then show ?thesis using h False tail by (auto simp: char_from_u32_def)
  next
    case True
    let ?low = "drop 4 rest"
    have low: "index_at ?low 0 = Some 0x5C" "index_at ?low 1 = Some 0x75"
      using assms(1) tail hi True by (auto simp: unicode_code_def get_from_def split: if_splits)
    then obtain rest' where rest': "?low = 0x5C # 0x75 # rest'"
      by (cases ?low; cases "tl ?low") (auto simp: index_at_def split: if_splits)
    obtain lo where lo: "parse_hex4 rest' = Some lo" "0xDC00 \<le> lo" "lo \<le> 0xDFFF" "code = 0x10000 + (hi - 0xD800) * 2 ^ 10 + (lo - 0xDC00)" "used = 12"
      using assms(1) tail hi True rest' by (auto simp: unicode_code_def get_from_def bind_eq_Some_conv split: if_splits)
    note l = parse_hex4_facts [OF lo(1)]
    have "rest = take 4 rest @ 0x5C # 0x75 # rest'" using rest' by (metis append_take_drop_id)
    then have t: "tail = (0x5C # 0x75 # take 4 rest @ [0x5C, 0x75] @ take 4 rest') @ drop 4 rest'" using tail by simp
    have len: "length (0x5C # 0x75 # take 4 rest @ [0x5C, 0x75] @ take 4 rest' :: bytes) = 12" using h l by simp
    have "take used tail = 0x5C # 0x75 # take 4 rest @ [0x5C, 0x75] @ take 4 rest'" "used \<le> length tail"
      unfolding lo(5) by (subst t, use len in simp)+
    moreover have "char_from_u32 code = Some code" using True lo(2-4) by (auto simp: char_from_u32_def)
    ultimately show ?thesis using h l lo(5) by simp
  qed
qed

lemma simple_escape_ascii: "simple_escape esc = Some c \<Longrightarrow> esc < 0x80 \<and> c < 0x80"
  by (auto simp: simple_escape_def split: if_splits)

lemma quoted_loop_run:
  "code_at text i cs \<Longrightarrow> list_all (\<lambda>c. \<not> c < 0x80) cs \<Longrightarrow> quot < 0x80 \<Longrightarrow>
    quoted_loop text quot opn i acc = quoted_loop text quot opn (i + length cs) (acc @ cs)"
proof (induction cs arbitrary: i acc)
  case (Cons c cs)
  have "c \<noteq> quot" "c \<noteq> 0x5C" "\<not> c < 0x20" using Cons.prems(2,3) by (auto simp: word_less_nat_alt)
  then have "quoted_loop text quot opn i acc = quoted_loop text quot opn (i + 1) (acc @ [c])"
    using Cons.prems(1) by (intro quoted_loop_plain) auto
  then show ?case using Cons.IH [of "i + 1" "acc @ [c]"] Cons.prems by simp
qed simp

lemma escape_facts:
  assumes "push_unicode_escape (drop i text) = Some (Some (used, bs))" and "index_at text i = Some 0x5C" and "index_at text (i + 1) = Some 0x75"
  shows "moves text i (i + used)" and "0 < used" and "utf8_valid bs" and "length bs \<le> used"
proof -
  obtain code d where c: "unicode_code (drop i text) = Some (code, used)" "char_from_u32 code = Some d" "bs = encode_char d"
    using assms(1) by (auto simp: push_unicode_escape_def split: option.splits)
  have "index_at (drop i text) 0 = Some 0x5C" "index_at (drop i text) 1 = Some 0x75"
    using assms(2,3) by (auto simp: index_at_def split: if_splits)
  note f = unicode_code_facts [OF c(1) this]
  show "0 < used" "utf8_valid bs" "length bs \<le> used" using f encode_char_valid [OF c(2)] c(3) by auto
  have "k < length text \<and> text ! k < 0x80" if "i \<le> k" "k < i + used" for k
  proof -
    have "take used (drop i text) ! (k - i) \<in> set (take used (drop i text))" using f that by (intro nth_mem) auto
    then show ?thesis using f that by (auto simp: list_all_iff)
  qed
  then show "moves text i (i + used)" by (auto simp: moves_def)
qed

lemma quoted_loop_escape:
  assumes "index_at text i = Some 0x5C" and "quot \<noteq> 0x5C" and "quoted_loop text quot opn i acc = Some (Ok (name, j))"
  obtains k bs where "moves text i k" "i < k" "utf8_valid bs" "length bs \<le> k - i" "quoted_loop text quot opn k (acc @ bs) = Some (Ok (name, j))"
proof -
  obtain esc where e: "index_at text (i + 1) = Some esc"
    using assms by (subst (asm) quoted_loop.simps) (auto split: option.splits)
  show thesis
  proof (cases "simple_escape esc")
    case (Some c)
    have "moves text i (i + 2)" using assms(1) e simple_escape_ascii [OF Some] moves_Suc [of "text" i] moves_step [of "text" "i + 1" esc] by simp
    moreover have "utf8_valid [c]" using simple_escape_ascii [OF Some] by (simp add: utf8_Cons_ascii)
    ultimately show ?thesis using that [of "i + 2" "[c]"] quoted_loop_simple [OF assms(1,2) e Some] assms(3) by simp
  next
    case None
    then have "esc = 0x75" using assms e by (subst (asm) quoted_loop.simps) (auto split: if_splits)
    moreover from this obtain used bs where u: "push_unicode_escape (drop i text) = Some (Some (used, bs))"
      using assms e None by (subst (asm) quoted_loop.simps) (auto split: option.splits if_splits)
    ultimately show ?thesis using that [of "i + used" bs] escape_facts [OF u assms(1)] quoted_loop_unicode [OF assms(1,2) _ u] assms(3) e by simp
  qed
qed

lemma quoted_loop_sound:
  assumes "quoted_loop text quot opn i acc = Some (Ok (name, j))" and "utf8_valid (drop i text)" and "quot < 0x80" and "quot \<noteq> 0x5C"
  shows "\<exists>ys. name = acc @ ys \<and> utf8_valid ys \<and> utf8_valid (drop j text) \<and> length ys \<le> j - i \<and> i \<le> j \<and> j \<le> length text"
  using assms(1,2)
proof (induction "length text - i" arbitrary: i acc rule: less_induct)
  case less
  obtain b where b: "index_at text i = Some b" using less.prems(1) by (subst (asm) quoted_loop.simps) (auto split: option.splits)
  then have i: "i < length text" "drop i text = b # drop (Suc i) text" using index_at_SomeD [of "text" i b] by (auto simp: Cons_nth_drop_Suc)
  have go: ?case if k: "quoted_loop text quot opn k (acc @ bs) = Some (Ok (name, j))" "i < k" "utf8_valid bs" "length bs \<le> k - i" "utf8_valid (drop k text)" for k bs
  proof -
    have "length text - k < length text - i" using k(2) i(1) by linarith
    from less.hyps [OF this k(1,5)] obtain ys where "name = (acc @ bs) @ ys" "utf8_valid ys" "utf8_valid (drop j text)" "length ys \<le> j - k" "k \<le> j" "j \<le> length text" by blast
    then show ?thesis using k(2,3,4) utf8_append [OF k(3), of ys] by (intro exI [of _ "bs @ ys"]) auto
  qed
  consider "b = quot" | "b \<noteq> quot" "b = 0x5C" | "b \<noteq> quot" "b \<noteq> 0x5C" "b < 0x80" | "b \<noteq> quot" "b \<noteq> 0x5C" "\<not> b < 0x80" by blast
  then show ?case
  proof cases
    case 1
    then have "name = acc" "j = i + 1" using less.prems(1) b by (subst (asm) quoted_loop.simps, simp)+
    then show ?thesis using less.prems(2) i 1 assms(3) by (simp add: utf8_Cons_ascii)
  next
    case 2
    then have "index_at text i = Some 0x5C" using b by simp
    then obtain k bs where k: "moves text i k" "i < k" "utf8_valid bs" "length bs \<le> k - i" "quoted_loop text quot opn k (acc @ bs) = Some (Ok (name, j))"
      using quoted_loop_escape [OF _ assms(4) less.prems(1)] by blast
    show ?thesis using go [OF k(5,2-4) moves_utf8 [OF k(1) less.prems(2)]] .
  next
    case 3
    then have "\<not> b < 0x20" using less.prems(1) b by (subst (asm) quoted_loop.simps) (auto split: if_splits)
    then have "quoted_loop text quot opn (i + 1) (acc @ [b]) = Some (Ok (name, j))" using quoted_loop_plain [OF b 3(1,2)] less.prems(1) by simp
    moreover have "utf8_valid [b]" "utf8_valid (drop (i + 1) text)" using 3(3) less.prems(2) i(2) by (simp_all add: utf8_Cons_ascii)
    ultimately show ?thesis using go [of "i + 1" "[b]"] by simp
  next
    case 4
    then obtain cs rest where r: "drop (Suc i) text = cs @ rest" "list_all (\<lambda>c. \<not> c < 0x80) cs" "utf8_valid (b # cs)" "utf8_valid rest"
      using utf8_Cons_high less.prems(2) i(2) by metis
    have "code_at text i (b # cs)" using i r(1) by (simp add: code_at_def)
    then have "quoted_loop text quot opn (i + length (b # cs)) (acc @ b # cs) = Some (Ok (name, j))"
      using quoted_loop_run [of "text" i "b # cs" quot opn acc] r(2) 4(3) assms(3) less.prems(1) by simp
    moreover have "drop (i + length (b # cs)) text = rest" using i(2) r(1) by (metis append_Cons append_eq_conv_conj drop_drop add.commute)
    ultimately show ?thesis using go [of "i + length (b # cs)" "b # cs"] r(3,4) by simp
  qed
qed

lemma push_unicode_escape_total:
  "index_at text i = Some 0x5C \<Longrightarrow> index_at text (i + 1) = Some 0x75 \<Longrightarrow> push_unicode_escape (drop i text) \<noteq> None"
  using unicode_code_facts [of "drop i text"] by (auto simp: push_unicode_escape_def index_at_def split: option.splits if_splits)

lemma quoted_loop_total: "quoted_loop text quot opn i acc \<noteq> None"
proof (induction "text" quot opn i acc rule: quoted_loop.induct)
  case (1 "text" quot opn i acc)
  show ?case
    by (subst quoted_loop.simps) (use 1 push_unicode_escape_total [of "text" i] in \<open>auto split: option.split\<close>)
qed

lemma parse_selector_sound:
  assumes "parse_selector text at = Some (Ok (m, j))" and "utf8_valid (drop at text)" and "length text < 2 ^ 64"
  shows "sel_ok (member_seg m) \<and> utf8_valid (drop j text)"
proof -
  obtain b where b: "index_at text at = Some b" using assms(1) by (auto simp: parse_selector_def split: option.splits)
  show ?thesis
  proof (cases "b = 0x27 \<or> b = 0x22")
    case True
    then obtain name where n: "parse_quoted text at = Some (Ok (name, j))" "m = MName name"
      using assms(1) b by (auto simp: parse_selector_def pbind_Ok)
    have "b < 0x80" "b \<noteq> 0x5C" using True by auto
    moreover have "utf8_valid (drop (at + 1) text)"
      using moves_utf8 [OF moves_step [OF b] assms(2)] True by auto
    ultimately obtain ys where "name = [] @ ys" "utf8_valid ys" "utf8_valid (drop j text)" "length ys \<le> j - (at + 1)" "j \<le> length text"
      using quoted_loop_sound [of "text" b at "at + 1" "[]" name j] n(1) b by (auto simp: parse_quoted_def)
    then show ?thesis using n(2) assms(3) by simp
  next
    case False
    then have "parse_index_or_slice text at = Ok (m, j)" using assms(1) b by (auto simp: parse_selector_def split: if_splits)
    then show ?thesis using parse_index_or_slice_sound moves_utf8 assms(2) by blast
  qed
qed

lemma parse_selector_total: "parse_selector text at \<noteq> None"
  using quoted_loop_total by (auto simp: parse_selector_def parse_quoted_def pbind_None split: option.splits iff del: not_None_eq)

lemma bracket_loop_sound:
  assumes "bracket_loop text opn at acc = Some (Ok (ms, j))" and "utf8_valid (drop at text)" and "length text < 2 ^ 64"
    and "\<forall>m\<in>set acc. sel_ok (member_seg m)"
  shows "(\<forall>m\<in>set ms. sel_ok (member_seg m)) \<and> length acc < length ms \<and> length ms \<le> UNION_MEMBERS_MAX \<and> utf8_valid (drop j text) \<and>
    index_at text j = Some 0x5D"
  using assms
proof (induction "UNION_MEMBERS_MAX - length acc" arbitrary: at acc rule: less_induct)
  case less
  obtain m k where m: "parse_selector text at = Some (Ok (m, k))" "length acc < UNION_MEMBERS_MAX"
    using less.prems(1) by (subst (asm) bracket_loop.simps) (auto simp: pbind_Ok split: if_splits)
  note ok = parse_selector_sound [OF m(1) less.prems(2,3)]
  let ?at = "skip_ws text k"
  have valid: "utf8_valid (drop ?at text)" using moves_utf8 [OF skip_ws_moves] ok by blast
  obtain b where b: "index_at text ?at = Some b" "b = 0x5D \<or> b = 0x2C"
    using less.prems(1) m by (subst (asm) bracket_loop.simps) (auto simp: Let_def split: if_splits option.splits)
  show ?case
  proof (cases "b = 0x5D")
    case True
    then have "ms = acc @ [m]" "j = ?at" using less.prems(1) m b by (subst (asm) bracket_loop.simps, simp add: Let_def)+
    then show ?thesis using ok less.prems(4) valid m(2) b True by auto
  next
    case False
    then have "bracket_loop text opn (skip_ws text (?at + 1)) (acc @ [m]) = Some (Ok (ms, j))"
      using less.prems(1) m b by (subst (asm) bracket_loop.simps) (simp add: Let_def)
    moreover have "utf8_valid (drop (skip_ws text (?at + 1)) text)"
      using moves_utf8 [OF skip_ws_moves] moves_utf8 [OF moves_step [OF b(1)] valid] False b(2) by auto
    moreover have "UNION_MEMBERS_MAX - length (acc @ [m]) < UNION_MEMBERS_MAX - length acc" using m(2) by simp
    moreover have "\<forall>m\<in>set (acc @ [m]). sel_ok (member_seg m)" using less.prems(4) ok by simp
    ultimately have "(\<forall>m\<in>set ms. sel_ok (member_seg m)) \<and> length (acc @ [m]) < length ms \<and> length ms \<le> UNION_MEMBERS_MAX \<and>
        utf8_valid (drop j text) \<and> index_at text j = Some 0x5D"
      using less.hyps [of "acc @ [m]" "skip_ws text (?at + 1)"] less.prems(3) by blast
    then show ?thesis by simp
  qed
qed

lemma bracket_loop_total: "bracket_loop text opn at acc \<noteq> None"
proof (induction "text" opn at acc rule: bracket_loop.induct)
  case (1 "text" opn at acc)
  show ?case
    by (subst bracket_loop.simps)
      (use 1 parse_selector_total [of "text" at] in \<open>auto simp: pbind_None Let_def split: option.splits if_splits iff del: not_None_eq\<close>)
qed

lemma parse_bracket_sound:
  assumes "parse_bracket text opn = Some (Ok (s, j))" and "utf8_valid (drop opn text)" and "length text < 2 ^ 64"
  shows "leaf_ok s \<and> utf8_valid (drop j text)"
proof -
  let ?at = "skip_ws text (opn + 1)"
  have o: "index_at text opn = Some 0x5B" using assms(1) by (auto simp: parse_bracket_def split: if_splits)
  have valid: "utf8_valid (drop ?at text)" using moves_utf8 [OF skip_ws_moves] moves_utf8 [OF moves_step [OF o] assms(2)] by auto
  show ?thesis
  proof (cases "index_at text ?at = Some 0x2A")
    case True
    let ?close = "skip_ws text (?at + 1)"
    have c: "s = GChildAny" "j = ?close + 1" "index_at text ?close = Some 0x5D"
      using assms(1) o True by (auto simp: parse_bracket_def Let_def split: option.splits if_splits)
    have "utf8_valid (drop ?close text)" using moves_utf8 [OF skip_ws_moves] moves_utf8 [OF moves_step [OF True] valid] by auto
    then show ?thesis using c moves_utf8 [OF moves_step [OF c(3)]] by auto
  next
    case False
    then obtain ms k where l: "bracket_loop text opn ?at [] = Some (Ok (ms, k))" "j = k + 1"
        "s = (if length ms = 1 then member_seg (ms ! 0) else GUnion ms)"
      using assms(1) o by (auto simp: parse_bracket_def Let_def pbind_Ok index_at_def split: if_splits)
    note ms = bracket_loop_sound [OF l(1) valid assms(3)]
    have "leaf_ok s"
    proof (cases "length ms = 1")
      case True
      then have "sel_ok s" using ms l(3) by (auto simp: nth_mem)
      then show ?thesis by (cases s) auto
    next
      case False
      moreover have "0 < length ms" using ms by auto
      ultimately have "2 \<le> length ms" by linarith
      then show ?thesis using ms l(3) False by simp
    qed
    then show ?thesis using ms l(2) moves_utf8 [OF moves_step [of "text" k]] by auto
  qed
qed

lemma parse_bracket_total: "parse_bracket text opn \<noteq> None"
  using bracket_loop_total
  by (auto simp: parse_bracket_def Let_def pbind_None index_at_def split: option.splits if_splits iff del: not_None_eq)

lemma shorthand_end_eq: "shorthand_end text i = i + length (takeWhile name_byte (drop i text))"
proof (induction "text" i rule: shorthand_end.induct)
  case (1 "text" i)
  show ?case
  proof (cases "i < length text")
    case True
    then have "drop i text = text ! i # drop (Suc i) text" by (simp add: Cons_nth_drop_Suc)
    then show ?thesis using 1 True by (subst shorthand_end.simps) auto
  qed (subst shorthand_end.simps, simp add: index_at_def)
qed

lemma take_shorthand_sound:
  assumes "take_shorthand text at = Some (name, j)" and "index_at text at = Some b" and "starts_shorthand b" and "utf8_valid (drop at text)"
  shows "utf8_valid name \<and> length name \<le> length text \<and> utf8_valid (drop j text)"
proof -
  have "name_byte b" using assms(3) by (auto simp: name_byte_def starts_shorthand_def)
  moreover have d: "drop at text = b # drop (at + 1) text" using index_at_SomeD [OF assms(2)] Cons_nth_drop_Suc [of at "text"] by auto
  ultimately have e: "shorthand_end text (at + 1) = at + length (takeWhile name_byte (drop at text))"
    by (simp add: shorthand_end_eq)
  have "name = takeWhile name_byte (drop at text)" "j = at + length name"
    using assms(1,2) e by (auto simp: take_shorthand_def Let_def sub_slice_def takeWhile_eq_take [symmetric])
  moreover have "drop (at + length (takeWhile name_byte (drop at text))) text = dropWhile name_byte (drop at text)"
    by (metis add.commute drop_drop dropWhile_eq_drop)
  moreover have "\<not> c < 0x80 \<Longrightarrow> name_byte c" for c by (simp add: name_byte_def not_less)
  ultimately show ?thesis using utf8_takeWhile [OF assms(4), of name_byte] length_takeWhile_le [of name_byte "drop at text"] by auto
qed

lemma parse_segment_sound:
  assumes "parse_segment text at = Some (Ok (s, j))" and "utf8_valid (drop at text)" and "length text < 2 ^ 64"
  shows "seg_ok s \<and> utf8_valid (drop j text)"
proof -
  obtain b where b: "index_at text at = Some b" using assms(1) by (auto simp: parse_segment_def bind_eq_Some_conv)
  have short: "leaf_ok (GChild name) \<and> utf8_valid (drop k text)"
    if "take_shorthand text i = Some (name, k)" "index_at text i = Some c" "starts_shorthand c" "utf8_valid (drop i text)" for i name k c
    using take_shorthand_sound [OF that] assms(3) by simp
  have leaf: "leaf_ok s \<Longrightarrow> seg_ok s" by (cases s) auto
  have valid1: "utf8_valid (drop (at + 1) text)" if "b < 0x80" using moves_utf8 [OF moves_step [OF b that] assms(2)] by simp
  consider "b = 0x5B" | "b = 0x2E" "index_at text (at + 1) = Some 0x2E" | "b = 0x2E" "index_at text (at + 1) \<noteq> Some 0x2E"
    using assms(1) b by (auto simp: parse_segment_def split: if_splits)
  then show ?thesis
  proof cases
    case 1
    then show ?thesis using assms(1) b parse_bracket_sound [OF _ assms(2,3)] leaf by (auto simp: parse_segment_def)
  next
    case 2
    let ?i = "at + 2"
    have valid: "utf8_valid (drop ?i text)" using moves_utf8 [OF moves_step [OF 2(2)]] valid1 2(1) by simp
    obtain c where c: "index_at text ?i = Some c" using assms(1) b 2 by (auto simp: parse_segment_def Let_def split: option.splits)
    then have v: "c < 0x80 \<Longrightarrow> utf8_valid (drop (?i + 1) text)" using moves_utf8 [OF moves_step [OF c] valid] by simp
    obtain l where l: "s = GDescend l" using assms(1) b 2 by (auto simp: parse_segment_def Let_def pbind_Ok)
    have "leaf_ok l \<and> utf8_valid (drop j text)"
      using assms(1) b 2 c v l parse_bracket_sound [OF _ valid assms(3), of l j] short [OF _ c _ valid]
      by (auto simp: parse_segment_def Let_def pbind_Ok split: if_splits)
    then show ?thesis using l by simp
  next
    case 3
    let ?i = "at + 1"
    obtain c where c: "index_at text ?i = Some c" using assms(1) b 3 by (auto simp: parse_segment_def Let_def split: option.splits)
    have valid: "utf8_valid (drop ?i text)" using valid1 3(1) by simp
    then have v: "c < 0x80 \<Longrightarrow> utf8_valid (drop (?i + 1) text)" using moves_utf8 [OF moves_step [OF c] valid] by simp
    show ?thesis using assms(1) b 3 c v short [OF _ c _ valid]
      by (auto simp: parse_segment_def Let_def split: if_splits)
  qed
qed

lemma parse_segment_total: "at < length text \<Longrightarrow> parse_segment text at \<noteq> None"
  using parse_bracket_total
  by (auto simp: parse_segment_def Let_def pbind_None take_shorthand_def split: option.splits iff del: not_None_eq)

lemma parse_loop_sound:
  assumes "parse_loop text at acc = Some (Ok ss)" and "utf8_valid (drop at text)" and "length text < 2 ^ 64"
    and "\<forall>s\<in>set acc. seg_ok s" and "length acc \<le> SEGMENTS_MAX"
  shows "(\<forall>s\<in>set ss. seg_ok s) \<and> length ss \<le> SEGMENTS_MAX"
  using assms
proof (induction "text" at acc rule: parse_loop.induct)
  case (1 "text" at acc)
  show ?case
  proof (cases "at < length text")
    case False
    then show ?thesis using "1.prems" by (subst (asm) parse_loop.simps) simp
  next
    case True
    obtain s j where s: "parse_segment text at = Some (Ok (s, j))" "\<not> length acc \<ge> SEGMENTS_MAX" "parse_loop text j (acc @ [s]) = Some (Ok ss)"
      using "1.prems"(1) True by (subst (asm) parse_loop.simps) (auto simp: pbind_Ok split: if_splits)
    note ok = parse_segment_sound [OF s(1) "1.prems"(2,3)]
    show ?thesis using "1.IH" [of j s] True s ok "1.prems"(3,4) by simp
  qed
qed

lemma parse_loop_total: "parse_loop text at acc \<noteq> None"
proof (induction "text" at acc rule: parse_loop.induct)
  case (1 "text" at acc)
  show ?case
    by (subst parse_loop.simps) (use 1 parse_segment_total [of at "text"] in \<open>auto simp: pbind_None iff del: not_None_eq\<close>)
qed

lemma path_parse_sound:
  assumes "path_parse text = Some (Ok ast)" and "utf8_valid text" and "length text < 2 ^ 64"
  shows "ast_ok ast"
proof -
  have one: "ast_ok ast" if "parse_loop text at acc = Some (Ok (pa_segments ast))" "utf8_valid (drop at text)" "\<forall>s\<in>set acc. seg_ok s" "length acc \<le> 1" for at acc
    using parse_loop_sound [OF that(1,2) assms(3) that(3)] that(4) by (simp add: ast_ok_def SEGMENTS_MAX_def)
  show ?thesis
  proof (cases "text = [] \<or> text = [0x2E]")
    case True
    then have "pa_segments ast = []" using assms(1) by (auto simp: path_parse_def Let_def index_at_def)
    then show ?thesis by (simp add: ast_ok_def)
  next
    case False
    then obtain b bs where b: "text = b # bs" by (cases "text") auto
    consider "b = 0x24" | "b \<noteq> 0x24" "starts_shorthand b" | "b \<noteq> 0x24" "\<not> starts_shorthand b" by blast
    then show ?thesis
    proof cases
      case 1
      then show ?thesis using one [of 1 "[]"] assms(1,2) b by (auto simp: path_parse_def Let_def pbind_Ok utf8_Cons_ascii)
    next
      case 2
      obtain name j where n: "take_shorthand text 0 = Some (name, j)" using b by (auto simp: take_shorthand_def Let_def)
      have "utf8_valid name \<and> length name \<le> length text \<and> utf8_valid (drop j text)"
        using take_shorthand_sound [OF n, of b] 2 b assms(2) by simp
      then show ?thesis using one [of j "[GChild name]"] assms(1,3) b 2 n False by (auto simp: path_parse_def Let_def pbind_Ok)
    next
      case 3
      then show ?thesis using one [of 0 "[]"] assms(1,2) b False by (auto simp: path_parse_def Let_def pbind_Ok)
    qed
  qed
qed

lemma path_parse_total: "path_parse text \<noteq> None"
  using parse_loop_total
  by (cases "text") (auto simp: path_parse_def Let_def pbind_None bind_eq_None_conv take_shorthand_def iff del: not_None_eq)

section \<open>What the printer writes\<close>

lemma utf8_join: "utf8_valid xs \<Longrightarrow> utf8_valid ys \<Longrightarrow> utf8_valid (xs @ ys)"
  by (simp add: utf8_append)

lemma hex_lower_ascii: "d < 16 \<Longrightarrow> hex_lower d < 0x80"
  using hex_digit_facts hex_lower_digit by blast

lemma quote_byte_ascii: "b < 0x80 \<Longrightarrow> ascii (quote_byte b)"
  by (auto simp: quote_byte_def word_less_nat_alt intro!: hex_lower_ascii [unfolded word_less_nat_alt, simplified])

lemma quoted_valid: "utf8_valid name \<Longrightarrow> utf8_valid (concat (map quote_byte name))"
proof (induction "length name" arbitrary: name rule: less_induct)
  case less
  show ?case
  proof (cases name)
    case (Cons b bs)
    show ?thesis
    proof (cases "b < 0x80")
      case True
      then show ?thesis using less.hyps [of bs] less.prems Cons ascii_utf8 [OF quote_byte_ascii]
        by (simp add: utf8_Cons_ascii utf8_join)
    next
      case False
      then obtain cs rest where r: "bs = cs @ rest" "list_all (\<lambda>c. \<not> c < 0x80) cs" "utf8_valid (b # cs)" "utf8_valid rest"
        using utf8_Cons_high less.prems Cons by metis
      have raw: "\<not> c < 0x80 \<Longrightarrow> quote_byte c = [c]" for c by (auto simp: quote_byte_def word_less_nat_alt)
      have "list_all (\<lambda>c. \<not> c < 0x80) xs \<Longrightarrow> concat (map quote_byte xs) = xs" for xs by (induction xs) (auto simp: raw)
      then have "concat (map quote_byte (b # cs)) = b # cs" using r(2) raw [OF False] by simp
      then have "concat (map quote_byte name) = (b # cs) @ concat (map quote_byte rest)" using Cons r(1) by simp
      moreover have "utf8_valid (concat (map quote_byte rest))" using less.hyps [of rest] r(1,4) Cons by simp
      ultimately show ?thesis using r(3) by (metis utf8_join)
    qed
  qed simp
qed

lemma i64_text_ascii: "ascii (i64_text v)"
proof -
  have "is_digit b \<Longrightarrow> b < 0x80" for b by (auto simp: is_digit_def word_le_nat_alt word_less_nat_alt)
  then have "ascii (dec_digits n)" for n using dec_digits_digits [of n] by (auto simp: list_all_iff)
  then show ?thesis by (simp add: i64_text_def)
qed

lemma print_slice_ascii: "ascii (print_slice s)"
  by (auto simp: print_slice_def i64_text_ascii split: option.splits)

lemma print_member_total: "sel_ok (member_seg m) \<Longrightarrow> \<exists>t. print_member m = Some t \<and> utf8_valid t"
  by (cases m) (auto simp: print_quoted_def utf8_Cons_ascii i64_text_ascii print_slice_ascii ascii_utf8 intro!: utf8_join quoted_valid)

lemma print_members_total: "\<forall>m\<in>set ms. sel_ok (member_seg m) \<Longrightarrow> \<exists>t. print_members ms = Some t \<and> utf8_valid t"
proof (induction ms)
  case (Cons m ms)
  obtain t where "print_member m = Some t" "utf8_valid t" using print_member_total Cons.prems by auto
  moreover obtain u where "print_members ms = Some u" "utf8_valid u" using Cons by auto
  ultimately show ?case by (auto simp: utf8_Cons_ascii intro!: utf8_join)
qed simp

lemma print_leaf_total: "leaf_ok s \<Longrightarrow> \<exists>t. print_leaf_segment s = Some t \<and> utf8_valid t"
proof -
  assume ok: "leaf_ok s"
  consider "s = GChildAny" | name where "s = GChild name" "is_shorthand name" | "bracketed s" using ok by (cases s) auto
  then show ?thesis
  proof cases
    case 3
    have "\<forall>m\<in>set (members_of s). sel_ok (member_seg m)" using ok by (cases s) auto
    then obtain t where "print_members (members_of s) = Some t" "utf8_valid t" using print_members_total by blast
    then show ?thesis using bracketed_print [OF 3] by (auto simp: utf8_Cons_ascii intro!: utf8_join)
  qed (use ok in \<open>auto simp: utf8_Cons_ascii print_name_def\<close>)
qed

lemma print_segment_total: "seg_ok s \<Longrightarrow> \<exists>t. print_segment s = Some t \<and> utf8_valid t"
proof -
  assume ok: "seg_ok s"
  show ?thesis
  proof (cases "\<exists>l. s = GDescend l")
    case True
    then obtain l where l: "s = GDescend l" "leaf_ok l" using ok by auto
    then obtain t where "print_leaf_segment l = Some t" "utf8_valid t" using print_leaf_total by blast
    then show ?thesis using l by (cases l) (auto simp: utf8_Cons_ascii print_name_def)
  next
    case False
    then have "leaf_ok s" "print_segment s = print_leaf_segment s" using ok by (cases s; simp)+
    then show ?thesis using print_leaf_total by simp
  qed
qed

lemma print_segments_total: "\<forall>s\<in>set ss. seg_ok s \<Longrightarrow> \<exists>t. print_segments ss = Some t \<and> utf8_valid t"
proof (induction ss)
  case (Cons s ss)
  then show ?case using print_segment_total [of s] by (auto intro!: utf8_join)
qed simp

lemma path_print_total: "ast_ok ast \<Longrightarrow> \<exists>t. path_print ast = Some t \<and> utf8_valid t"
  using print_segments_total [of "pa_segments ast"] by (auto simp: ast_ok_def path_print_def utf8_Cons_ascii)

section \<open>Text, tree and bytecode\<close>

text \<open>
  C38: the text of a path, its syntax tree and its bytecode determine each other. Every validated program decodes to a
  tree that prints, without a panic, to text the parser reads back as that tree; and within the length bound on path
  text, compiling the printed text gives the program's own bytes.
\<close>

theorem path_text_round_trip:
  assumes "path_from_bytes program = Ok program"
  shows "\<exists>ast text. path_decode program = Some ast \<and> path_print ast = Some text \<and> path_parse text = Some (Ok ast) \<and>
    (length text \<le> PATH_BYTES_CEILING \<longrightarrow>
      parse_ast text = Some (Ok ast) \<and> compile_with_max_bytes text PATH_BYTES_CEILING = Some (Ok program))"
proof -
  obtain ast where a: "ast_ok ast" "program = path_bytes ast" "length program < PATH_BYTES_CEILING"
    using assms path_validate_iff [of program] by (auto simp: path_from_bytes_def rbind_Ok)
  obtain t where t: "path_print ast = Some t" "utf8_valid t" using path_print_total [OF a(1)] by blast
  note p = parse_print [OF a(1) t(1)]
  have "path_encode ast = Some (Ok program)" using path_encode_ok [OF a(1)] a by simp
  then show ?thesis using p t path_decode_ok [OF a(1)] a(2)
    by (auto simp: parse_ast_def compile_with_max_bytes_def utf8_is_valid_def)
qed

text \<open>
  C39: compiling path text is safe. On any bytes and any length bound the compiler returns a program or an error, without
  a panic; a program it returns passes the validator that guards stored programs and decodes to the tree the parser
  read, which keeps the bounds on segments and union members, has no zero step, and names keys in valid UTF-8.
\<close>

theorem path_compile_sound:
  "compile_with_max_bytes text max_bytes \<noteq> None \<and>
   (compile_with_max_bytes text max_bytes = Some (Ok program) \<longrightarrow>
     path_from_bytes program = Ok program \<and>
     (\<exists>ast. ast_ok ast \<and> path_parse text = Some (Ok ast) \<and> path_decode program = Some ast))"
proof -
  have sound: "ast_ok ast" if "utf8_valid text" "length text \<le> PATH_BYTES_CEILING" "path_parse text = Some (Ok ast)" for ast
    using path_parse_sound [OF that(3,1)] that(2) by (simp add: PATH_BYTES_CEILING_def)
  have "compile_with_max_bytes text max_bytes \<noteq> None"
    using path_parse_total [of "text"] sound path_encode_ok
    by (auto simp: compile_with_max_bytes_def pbind_None utf8_is_valid_def iff del: not_None_eq)
  moreover have "path_from_bytes program = Ok program \<and>
      (\<exists>ast. ast_ok ast \<and> path_parse text = Some (Ok ast) \<and> path_decode program = Some ast)"
    if c: "compile_with_max_bytes text max_bytes = Some (Ok program)"
  proof -
    obtain ast where ast: "path_parse text = Some (Ok ast)" "path_encode ast = Some (Ok program)" "utf8_valid text" "length text \<le> PATH_BYTES_CEILING"
      using c by (auto simp: compile_with_max_bytes_def pbind_Ok utf8_is_valid_def split: if_splits)
    note ok = sound [OF ast(3,4,1)]
    then have b: "program = path_bytes ast" "length program < PATH_BYTES_CEILING" using path_encode_ok ast(2) by (auto split: if_splits)
    then have "path_validate program = Ok ()" using path_validate_iff ok by blast
    then show ?thesis using ok ast(1) path_decode_ok [OF ok] b(1) by (auto simp: path_from_bytes_def)
  qed
  ultimately show ?thesis by blast
qed

lemma descend_last_text: "path_print \<lparr>pa_legacy = False, pa_segments = [GDescend (GIndex (- 1))]\<rparr> = Some [0x24, 0x2E, 0x2E, 0x5B, 0x2D, 0x31, 0x5D]"
  by (simp add: path_print_def i64_text_def dec_digits.simps)

lemma descend_last_compile:
  "compile_with_max_bytes [0x24, 0x2E, 0x2E, 0x5B, 0x2D, 0x31, 0x5D] 100 = Some (Ok [1, 0, 1, 7, 4, 1])"
proof -
  let ?ast = "\<lparr>pa_legacy = False, pa_segments = [GDescend (GIndex (- 1))]\<rparr>"
  have ok: "ast_ok ?ast" by (simp add: ast_ok_def SEGMENTS_MAX_def)
  have "utf8_valid [0x24, 0x2E, 0x2E, 0x5B, 0x2D, 0x31, 0x5D]" by (simp add: utf8_Cons_ascii)
  moreover have "path_parse [0x24, 0x2E, 0x2E, 0x5B, 0x2D, 0x31, 0x5D] = Some (Ok ?ast)" using parse_print [OF ok descend_last_text] .
  moreover have "path_encode ?ast = Some (Ok [1, 0, 1, 7, 4, 1])"
    using path_encode_ok [OF ok] descend_last_bytes by (simp add: PATH_BYTES_CEILING_def)
  ultimately show ?thesis by (simp add: compile_with_max_bytes_def utf8_is_valid_def PATH_BYTES_CEILING_def)
qed

theorem path_text_round_trip_witness:
  "path_parse [0x24, 0x2E, 0x2E, 0x5B, 0x2D, 0x31, 0x5D] = Some (Ok \<lparr>pa_legacy = False, pa_segments = [GDescend (GIndex (- 1))]\<rparr>) \<and>
   compile_with_max_bytes [0x24, 0x2E, 0x2E, 0x5B, 0x2D, 0x31, 0x5D] PATH_BYTES_CEILING = Some (Ok [1, 0, 1, 7, 4, 1])"
  using path_text_round_trip [OF descend_last_program(1)] by (auto simp: descend_last_program(2) descend_last_text PATH_BYTES_CEILING_def)

theorem path_compile_sound_witness:
  "path_from_bytes [1, 0, 1, 7, 4, 1] = Ok [1, 0, 1, 7, 4, 1] \<and>
   (\<exists>ast. ast_ok ast \<and> path_parse [0x24, 0x2E, 0x2E, 0x5B, 0x2D, 0x31, 0x5D] = Some (Ok ast))"
  using path_compile_sound [of "[0x24, 0x2E, 0x2E, 0x5B, 0x2D, 0x31, 0x5D]" 100 "[1, 0, 1, 7, 4, 1]"] descend_last_compile by blast

end
