(* ===== verification/PredProgram.thy ===== *)
theory PredProgram
  imports PathProgram IndexKey
begin

text \<open>
  Predicate programs (crates/inf-query/src/predicate/program.rs): the expression tree the compilers build, its
  serialised form with an interned path pool and constant pool in front of a prefix-encoded operation tape, the
  validator that guards foreign bytes, and the trusting readers behind it.

  The work stack of the encoder, the frame stack of the validator and the build frames of the decoder are lists with
  the top first. \<open>None\<close> stands for a panic.
\<close>

definition PREDICATE_BYTES_CEILING :: nat where "PREDICATE_BYTES_CEILING = 0xFFFF"
definition PATHS_MAX :: nat where "PATHS_MAX = 64"
definition CONSTANTS_MAX :: nat where "CONSTANTS_MAX = 512"
definition OPS_MAX :: nat where "OPS_MAX = 256"
definition IN_MEMBERS_MAX :: nat where "IN_MEMBERS_MAX = 100"
definition BOOL_ARITY_MAX :: nat where "BOOL_ARITY_MAX = 64"
definition NESTING_DEPTH_MAX :: nat where "NESTING_DEPTH_MAX = 32"

definition PREDICATE_VERSION :: byte where "PREDICATE_VERSION = 1"
definition OP_AND :: byte where "OP_AND = 0x01"
definition OP_OR :: byte where "OP_OR = 0x02"
definition OP_NOT :: byte where "OP_NOT = 0x03"
definition OP_EQ :: byte where "OP_EQ = 0x10"
definition OP_NE :: byte where "OP_NE = 0x11"
definition OP_LT :: byte where "OP_LT = 0x12"
definition OP_LE :: byte where "OP_LE = 0x13"
definition OP_GT :: byte where "OP_GT = 0x14"
definition OP_GE :: byte where "OP_GE = 0x15"
definition OP_BETWEEN :: byte where "OP_BETWEEN = 0x16"
definition OP_BEGINS_WITH :: byte where "OP_BEGINS_WITH = 0x17"
definition OP_IN :: byte where "OP_IN = 0x18"
definition OP_EXISTS :: byte where "OP_EXISTS = 0x19"
definition CONST_I64 :: byte where "CONST_I64 = 0x01"
definition CONST_F64 :: byte where "CONST_F64 = 0x02"
definition CONST_BOOL :: byte where "CONST_BOOL = 0x03"
definition CONST_UTF8 :: byte where "CONST_UTF8 = 0x04"

lemmas predicate_limits = PREDICATE_BYTES_CEILING_def PATHS_MAX_def CONSTANTS_MAX_def OPS_MAX_def IN_MEMBERS_MAX_def
  BOOL_ARITY_MAX_def NESTING_DEPTH_MAX_def
lemmas predicate_ops = OP_AND_def OP_OR_def OP_NOT_def OP_EQ_def OP_NE_def OP_LT_def OP_LE_def OP_GT_def OP_GE_def
  OP_BETWEEN_def OP_BEGINS_WITH_def OP_IN_def OP_EXISTS_def
lemmas constant_tags = CONST_I64_def CONST_F64_def CONST_BOOL_def CONST_UTF8_def

datatype CmpOp = CEq | CNe | CLt | CLe | CGt | CGe

fun opcode_of :: "CmpOp \<Rightarrow> byte" where
  "opcode_of CEq = OP_EQ" | "opcode_of CNe = OP_NE" | "opcode_of CLt = OP_LT"
| "opcode_of CLe = OP_LE" | "opcode_of CGt = OP_GT" | "opcode_of CGe = OP_GE"

definition from_opcode :: "byte \<Rightarrow> CmpOp option" where
  "from_opcode opcode =
     (if opcode = OP_EQ then Some CEq else if opcode = OP_NE then Some CNe else if opcode = OP_LT then Some CLt
      else if opcode = OP_LE then Some CLe else if opcode = OP_GT then Some CGt else if opcode = OP_GE then Some CGe
      else None)"

datatype Constant = CI64 i64 | CF64 f64 | CBool bool | CUtf8 bytes

datatype ConstFamily = FamNumeric | FamBool | FamUtf8

fun family :: "Constant \<Rightarrow> ConstFamily" where
  "family (CI64 _) = FamNumeric" | "family (CF64 _) = FamNumeric" | "family (CBool _) = FamBool" | "family (CUtf8 _) = FamUtf8"

text \<open>
  The expression tree over operands: paths \<open>'p\<close>, constants \<open>'c\<close> and the prefixes \<open>'s\<close> of BEGINS_WITH. The source's
  tree has path programs, constants and strings; the tape has pool indices in their place.
\<close>

datatype ('p, 'c, 's) expr =
    EAnd "('p, 'c, 's) expr list"
  | EOr "('p, 'c, 's) expr list"
  | ENot "('p, 'c, 's) expr"
  | ECmp CmpOp 'p 'c
  | EBetween 'p 'c 'c
  | EBeginsWith 'p 's
  | EIn 'p "'c list"
  | EExists 'p

type_synonym Predicate = "(bytes, Constant, bytes) expr"

datatype PredicateErrorKind = PkTruncated | PkProgramTooLong | PkBadVersion | PkBadFlags | PkBadOpcode | PkBadVarint
  | PkBadCount | PkBadConstant | PkBadPath | PkBadPoolRef | PkNotCanonical | PkBadTypeFamily | PkTooDeep | PkTooManyOps
  | PkTrailingBytes

datatype PredicateError = PredicateError (pr_offset: nat) (pr_kind: PredicateErrorKind)

datatype PredicateBuildError = TooManyPaths | TooManyConstants | TooManyOps | TooDeep | BadArity | BadInCount
  | NonFiniteF64 | MixedBetweenFamilies | MixedInFamilies | LegacyPath | ProgramTooLong

text \<open>\<open>iter().position(..)\<close> for equality.\<close>

fun index_of :: "'a \<Rightarrow> 'a list \<Rightarrow> nat option" where
  "index_of x [] = None"
| "index_of x (y # ys) = (if x = y then Some 0 else map_option Suc (index_of x ys))"

section \<open>Encoding\<close>

record Pools =
  pl_paths :: "bytes list"
  pl_constants :: "bytes list"

definition path_id :: "Pools \<Rightarrow> bytes \<Rightarrow> (PredicateBuildError + u64 \<times> Pools) option" where
  "path_id pools path =
     Option.bind (is_legacy path) (\<lambda>legacy. Some (
       if legacy then Err LegacyPath
       else case index_of path (pl_paths pools) of
           Some i \<Rightarrow> Ok (of_nat i, pools)
         | None \<Rightarrow>
             if length (pl_paths pools) = PATHS_MAX then Err TooManyPaths
             else Ok (of_nat (length (pl_paths pools)), pools\<lparr>pl_paths := pl_paths pools @ [path]\<rparr>)))"

definition constant_id :: "Pools \<Rightarrow> bytes \<Rightarrow> PredicateBuildError + u64 \<times> Pools" where
  "constant_id pools encoded =
     (case index_of encoded (pl_constants pools) of
         Some i \<Rightarrow> Ok (of_nat i, pools)
       | None \<Rightarrow>
           if length (pl_constants pools) = CONSTANTS_MAX then Err TooManyConstants
           else Ok (of_nat (length (pl_constants pools)), pools\<lparr>pl_constants := pl_constants pools @ [encoded]\<rparr>))"

definition is_finite :: "f64 \<Rightarrow> bool" where "is_finite f \<longleftrightarrow> f64_mag f < 0x7FF0000000000000"

text \<open>The module's own zigzag pair; the shift of the signed value drops the sign bit.\<close>

definition pred_zigzag :: "i64 \<Rightarrow> u64" where
  "pred_zigzag v = push_bit 1 v XOR signed_drop_bit 63 v"

definition pred_unzigzag :: "u64 \<Rightarrow> i64" where
  "pred_unzigzag u = drop_bit 1 u XOR (if u AND 1 = 1 then - 1 else 0)"

definition utf8_constant_bytes :: "bytes \<Rightarrow> bytes" where
  "utf8_constant_bytes s = CONST_UTF8 # encode_u64 (of_nat (length s)) @ s"

fun constant_bytes :: "Constant \<Rightarrow> PredicateBuildError + bytes" where
  "constant_bytes (CI64 v) = Ok (CONST_I64 # encode_u64 (pred_zigzag v))"
| "constant_bytes (CF64 f) =
     (if \<not> is_finite f then Err NonFiniteF64
      else let canonical = if f64_eq f 0 then 0 else f in Ok (CONST_F64 # be_bytes 8 canonical))"
| "constant_bytes (CBool b) = Ok [CONST_BOOL, if b then 1 else 0]"
| "constant_bytes (CUtf8 s) = Ok (utf8_constant_bytes s)"

definition emit_ref :: "u64 \<Rightarrow> bytes \<Rightarrow> bytes" where "emit_ref i out = out @ encode_u64 i"

text \<open>\<open>emit_ref(pools.path_id(path)?, expr)\<close> and the same for an encoded constant.\<close>

definition emit_path :: "bytes \<Rightarrow> Pools \<times> bytes \<Rightarrow> (PredicateBuildError + Pools \<times> bytes) option" where
  "emit_path path st = pbind (path_id (fst st) path) (\<lambda>(i, pools). Some (Ok (pools, emit_ref i (snd st))))"

definition emit_constant :: "PredicateBuildError + bytes \<Rightarrow> Pools \<times> bytes \<Rightarrow> (PredicateBuildError + Pools \<times> bytes) option" where
  "emit_constant encoded st =
     Some (rbind encoded (\<lambda>encoded. rbind (constant_id (fst st) encoded) (\<lambda>(i, pools). Ok (pools, emit_ref i (snd st)))))"

fun emit_members :: "Constant list \<Rightarrow> Pools \<times> bytes \<Rightarrow> (PredicateBuildError + Pools \<times> bytes) option" where
  "emit_members [] st = Some (Ok st)"
| "emit_members (m # ms) st = pbind (emit_constant (constant_bytes m) st) (emit_members ms)"

definition push_byte :: "byte \<Rightarrow> Pools \<times> bytes \<Rightarrow> Pools \<times> bytes" where
  "push_byte b st = (fst st, snd st @ [b])"

fun encode_leaf :: "Predicate \<Rightarrow> Pools \<times> bytes \<Rightarrow> (PredicateBuildError + Pools \<times> bytes) option" where
  "encode_leaf (ECmp op path constant) st =
     pbind (emit_path path (push_byte (opcode_of op) st)) (emit_constant (constant_bytes constant))"
| "encode_leaf (EBetween path lo hi) st =
     (if family lo \<noteq> family hi then Some (Err MixedBetweenFamilies)
      else pbind (emit_path path (push_byte OP_BETWEEN st)) (\<lambda>st.
           pbind (emit_constant (constant_bytes lo) st) (emit_constant (constant_bytes hi))))"
| "encode_leaf (EBeginsWith path pre) st =
     pbind (emit_path path (push_byte OP_BEGINS_WITH st)) (emit_constant (Ok (utf8_constant_bytes pre)))"
| "encode_leaf (EIn path members) st =
     (if \<not> (1 \<le> length members \<and> length members \<le> IN_MEMBERS_MAX) then Some (Err BadInCount)
      else if \<exists>m\<in>set members. family m \<noteq> family (members ! 0) then Some (Err MixedInFamilies)
      else if length members \<ge> 256 then Some (Err BadInCount)
      else pbind (emit_path path (push_byte OP_IN st)) (\<lambda>st. emit_members members (push_byte (of_nat (length members)) st)))"
| "encode_leaf (EExists path) st = emit_path path (push_byte OP_EXISTS st)"
| "encode_leaf (EAnd _) st = None"
| "encode_leaf (EOr _) st = None"
| "encode_leaf (ENot _) st = None"

definition bool_arity :: "Predicate list \<Rightarrow> PredicateBuildError + byte" where
  "bool_arity children =
     (if \<not> (2 \<le> length children \<and> length children \<le> BOOL_ARITY_MAX) then Err BadArity
      else if length children \<ge> 256 then Err BadArity
      else Ok (of_nat (length children)))"

function encode_walk ::
  "(Predicate \<times> nat) list \<Rightarrow> nat \<Rightarrow> Pools \<times> bytes \<Rightarrow> (PredicateBuildError + Pools \<times> bytes) option" where
  "encode_walk [] ops st = Some (Ok st)"
| "encode_walk ((node, depth) # work) ops st =
     (if depth > NESTING_DEPTH_MAX then Some (Err TooDeep)
      else if ops + 1 > OPS_MAX then Some (Err TooManyOps)
      else case node of
          EAnd children \<Rightarrow> (case bool_arity children of
              Inl e \<Rightarrow> Some (Err e)
            | Inr arity \<Rightarrow>
                encode_walk (map (\<lambda>child. (child, depth + 1)) children @ work) (ops + 1) (push_byte arity (push_byte OP_AND st)))
        | EOr children \<Rightarrow> (case bool_arity children of
              Inl e \<Rightarrow> Some (Err e)
            | Inr arity \<Rightarrow>
                encode_walk (map (\<lambda>child. (child, depth + 1)) children @ work) (ops + 1) (push_byte arity (push_byte OP_OR st)))
        | ENot inner \<Rightarrow> encode_walk ((inner, depth + 1) # work) (ops + 1) (push_byte OP_NOT st)
        | leaf \<Rightarrow> (case encode_leaf leaf st of
              None \<Rightarrow> None
            | Some (Inl e) \<Rightarrow> Some (Err e)
            | Some (Inr st') \<Rightarrow> encode_walk work (ops + 1) st'))"
  by pat_completeness auto
termination
  by (relation "measure (\<lambda>(_, ops, _). OPS_MAX + 1 - ops)") auto

declare encode_walk.simps(2) [simp del]

definition path_entry :: "bytes \<Rightarrow> bytes" where
  "path_entry path = encode_u64 (of_nat (length path)) @ path"

definition assemble :: "Pools \<Rightarrow> bytes \<Rightarrow> PredicateBuildError + bytes" where
  "assemble pools expr =
     (let out = [PREDICATE_VERSION, 0] @ encode_u64 (of_nat (length (pl_paths pools))) @ concat (map path_entry (pl_paths pools)) @
                encode_u64 (of_nat (length (pl_constants pools))) @ concat (pl_constants pools) @ expr
      in if length out \<ge> PREDICATE_BYTES_CEILING then Err ProgramTooLong else Ok out)"

definition pred_encode :: "Predicate \<Rightarrow> (PredicateBuildError + bytes) option" where
  "pred_encode root =
     pbind (encode_walk [(root, 1)] 0 (\<lparr>pl_paths = [], pl_constants = []\<rparr>, [])) (\<lambda>(pools, expr). Some (assemble pools expr))"

section \<open>Validation\<close>

text \<open>The slice \<open>bytes[at..]\<close> panics when \<open>at\<close> is past the end.\<close>

definition read_varint_at :: "bytes \<Rightarrow> nat \<Rightarrow> (PredicateError + u64 \<times> nat) option" where
  "read_varint_at bytes at =
     (if at \<le> length bytes
      then Some (rbind (ok_or (decode_u64 (drop at bytes)) (PredicateError at PkBadVarint)) (\<lambda>(v, used). Ok (v, at + used)))
      else None)"

definition region_end :: "u64 \<Rightarrow> nat \<Rightarrow> nat \<Rightarrow> nat option" where
  "region_end len start len_all =
     Option.bind (checked_add_usize (unat len) start) (\<lambda>e. if e \<le> len_all then Some e else None)"

fun validate_path_entries :: "nat \<Rightarrow> bytes \<Rightarrow> nat \<Rightarrow> (nat \<times> nat) list \<Rightarrow> (PredicateError + (nat \<times> nat) list \<times> nat) option" where
  "validate_path_entries 0 bytes at spans = Some (Ok (spans, at))"
| "validate_path_entries (Suc n) bytes at spans =
     pbind (read_varint_at bytes at) (\<lambda>(len, start).
       case region_end len start (length bytes) of
         None \<Rightarrow> Some (Err (PredicateError start PkTruncated))
       | Some stop \<Rightarrow>
           (case path_from_bytes (sub_slice bytes start stop) of
              Inl _ \<Rightarrow> Some (Err (PredicateError start PkBadPath))
            | Inr path \<Rightarrow> Option.bind (is_legacy path) (\<lambda>legacy.
                if legacy then Some (Err (PredicateError start PkBadPath))
                else if \<exists>(s, e)\<in>set spans. sub_slice bytes s e = sub_slice bytes start stop
                then Some (Err (PredicateError start PkNotCanonical))
                else validate_path_entries n bytes stop (spans @ [(start, stop)]))))"

definition validate_paths :: "bytes \<Rightarrow> nat \<Rightarrow> (PredicateError + (nat \<times> nat) list \<times> nat) option" where
  "validate_paths bytes at =
     pbind (read_varint_at bytes at) (\<lambda>(count, at).
       if unat count > PATHS_MAX then Some (Err (PredicateError at PkBadCount))
       else validate_path_entries (unat count) bytes at [])"

definition validate_constant :: "bytes \<Rightarrow> nat \<Rightarrow> (PredicateError + ConstFamily \<times> nat) option" where
  "validate_constant bytes tag_at =
     (if tag_at < length bytes then
        let tag = bytes ! tag_at; at = tag_at + 1
        in if tag = CONST_I64 then pbind (read_varint_at bytes at) (\<lambda>(_, at). Some (Ok (FamNumeric, at)))
           else if tag = CONST_F64 then
             (case Option.bind (checked_add_usize at 8) (\<lambda>e. if e \<le> length bytes then Some e else None) of
                None \<Rightarrow> Some (Err (PredicateError at PkTruncated))
              | Some stop \<Rightarrow>
                  let bits = of_be_bytes (sub_slice bytes at stop)
                  in if \<not> is_finite bits \<or> (f64_eq bits 0 \<and> bits \<noteq> 0) then Some (Err (PredicateError at PkBadConstant))
                     else Some (Ok (FamNumeric, stop)))
           else if tag = CONST_BOOL then
             if at < length bytes then
               if bytes ! at > 1 then Some (Err (PredicateError at PkBadConstant)) else Some (Ok (FamBool, at + 1))
             else Some (Err (PredicateError at PkTruncated))
           else if tag = CONST_UTF8 then
             pbind (read_varint_at bytes at) (\<lambda>(len, start).
               case region_end len start (length bytes) of
                 None \<Rightarrow> Some (Err (PredicateError start PkTruncated))
               | Some stop \<Rightarrow>
                   if utf8_valid (sub_slice bytes start stop) then Some (Ok (FamUtf8, stop))
                   else Some (Err (PredicateError start PkBadConstant)))
           else Some (Err (PredicateError tag_at PkBadConstant))
      else Some (Err (PredicateError tag_at PkTruncated)))"

type_synonym ConstantSpans = "((nat \<times> nat) \<times> ConstFamily) list"

fun validate_constant_entries :: "nat \<Rightarrow> bytes \<Rightarrow> nat \<Rightarrow> ConstantSpans \<Rightarrow> (PredicateError + ConstantSpans \<times> nat) option" where
  "validate_constant_entries 0 bytes at constants = Some (Ok (constants, at))"
| "validate_constant_entries (Suc n) bytes start constants =
     pbind (validate_constant bytes start) (\<lambda>(fam, at).
       if \<exists>((s, e), _)\<in>set constants. sub_slice bytes s e = sub_slice bytes start at
       then Some (Err (PredicateError start PkNotCanonical))
       else validate_constant_entries n bytes at (constants @ [((start, at), fam)]))"

definition validate_constants :: "bytes \<Rightarrow> nat \<Rightarrow> (PredicateError + ConstantSpans \<times> nat) option" where
  "validate_constants bytes at =
     pbind (read_varint_at bytes at) (\<lambda>(count, at).
       if unat count > CONSTANTS_MAX then Some (Err (PredicateError at PkBadCount))
       else validate_constant_entries (unat count) bytes at [])"

record ExprCheck =
  ck_bytes :: bytes
  ck_constants :: ConstantSpans
  ck_path_count :: nat
  ck_next_path :: nat
  ck_next_constant :: nat

definition read_pool_ref :: "bytes \<Rightarrow> nat \<Rightarrow> nat \<Rightarrow> nat \<Rightarrow> (PredicateError + nat \<times> nat \<times> nat) option" where
  "read_pool_ref bytes offset pool_len next_new =
     pbind (read_varint_at bytes offset) (\<lambda>(i, at).
       if unat i \<ge> pool_len then Some (Err (PredicateError offset PkBadPoolRef))
       else if unat i > next_new then Some (Err (PredicateError offset PkNotCanonical))
       else Some (Ok (unat i, at, if unat i = next_new then next_new + 1 else next_new)))"

definition path_ref :: "ExprCheck \<Rightarrow> nat \<Rightarrow> (PredicateError + nat \<times> ExprCheck) option" where
  "path_ref check at =
     pbind (read_pool_ref (ck_bytes check) at (ck_path_count check) (ck_next_path check)) (\<lambda>(_, at, new).
       Some (Ok (at, check\<lparr>ck_next_path := new\<rparr>)))"

definition constant_ref :: "ExprCheck \<Rightarrow> nat \<Rightarrow> (PredicateError + ConstFamily \<times> nat \<times> nat \<times> ExprCheck) option" where
  "constant_ref check offset =
     pbind (read_pool_ref (ck_bytes check) offset (length (ck_constants check)) (ck_next_constant check)) (\<lambda>(i, at, new).
       map_option (\<lambda>entry. Ok (snd entry, offset, at, check\<lparr>ck_next_constant := new\<rparr>)) (index_at (ck_constants check) i))"

fun validate_in_members :: "nat \<Rightarrow> ConstFamily \<Rightarrow> nat \<Rightarrow> ExprCheck \<Rightarrow> (PredicateError + nat \<times> ExprCheck) option" where
  "validate_in_members 0 first at check = Some (Ok (at, check))"
| "validate_in_members (Suc n) first at check =
     pbind (constant_ref check at) (\<lambda>(fam, offset, at, check).
       if fam \<noteq> first then Some (Err (PredicateError offset PkBadTypeFamily)) else validate_in_members n first at check)"

definition validate_leaf :: "byte \<Rightarrow> nat \<Rightarrow> nat \<Rightarrow> ExprCheck \<Rightarrow> (PredicateError + nat \<times> ExprCheck) option" where
  "validate_leaf opcode opcode_at at check =
     (if opcode \<in> {OP_EQ, OP_NE, OP_LT, OP_LE, OP_GT, OP_GE} then
        pbind (path_ref check at) (\<lambda>(at, check). pbind (constant_ref check at) (\<lambda>(_, _, at, check). Some (Ok (at, check))))
      else if opcode = OP_BETWEEN then
        pbind (path_ref check at) (\<lambda>(at, check).
        pbind (constant_ref check at) (\<lambda>(lo, _, at, check).
        pbind (constant_ref check at) (\<lambda>(hi, offset, at, check).
          if lo \<noteq> hi then Some (Err (PredicateError offset PkBadTypeFamily)) else Some (Ok (at, check)))))
      else if opcode = OP_BEGINS_WITH then
        pbind (path_ref check at) (\<lambda>(at, check).
        pbind (constant_ref check at) (\<lambda>(fam, offset, at, check).
          if fam \<noteq> FamUtf8 then Some (Err (PredicateError offset PkBadTypeFamily)) else Some (Ok (at, check))))
      else if opcode = OP_IN then
        pbind (path_ref check at) (\<lambda>(at, check).
          if at < length (ck_bytes check) then
            let n = unat (ck_bytes check ! at)
            in if n < 1 \<or> n > IN_MEMBERS_MAX then Some (Err (PredicateError at PkBadCount))
               else pbind (constant_ref check (at + 1)) (\<lambda>(first, _, at, check). validate_in_members (n - 1) first at check)
          else Some (Err (PredicateError at PkTruncated)))
      else if opcode = OP_EXISTS then path_ref check at
      else Some (Err (PredicateError opcode_at PkBadOpcode)))"

text \<open>A completed leaf completes every open frame whose last operand it was.\<close>

fun settle :: "byte list \<Rightarrow> byte list" where
  "settle [] = []"
| "settle (t # stack) = (if t - 1 > 0 then (t - 1) # stack else settle stack)"

function validate_ops :: "bytes \<Rightarrow> nat \<Rightarrow> byte list \<Rightarrow> nat \<Rightarrow> ExprCheck \<Rightarrow> (PredicateError + nat \<times> ExprCheck) option" where
  "validate_ops bytes at stack ops check =
     (if stack = [] then Some (Ok (at, check))
      else if length stack > NESTING_DEPTH_MAX then Some (Err (PredicateError at PkTooDeep))
      else if ops + 1 > OPS_MAX then Some (Err (PredicateError at PkTooManyOps))
      else if at \<ge> length bytes then Some (Err (PredicateError at PkTruncated))
      else if bytes ! at = OP_AND \<or> bytes ! at = OP_OR then
        if at + 1 < length bytes then
          let n = bytes ! (at + 1)
          in if unat n < 2 \<or> unat n > BOOL_ARITY_MAX then Some (Err (PredicateError (at + 1) PkBadCount))
             else validate_ops bytes (at + 2) (n # stack) (ops + 1) check
        else Some (Err (PredicateError (at + 1) PkTruncated))
      else if bytes ! at = OP_NOT then validate_ops bytes (at + 1) (1 # stack) (ops + 1) check
      else case validate_leaf (bytes ! at) at (at + 1) check of
          None \<Rightarrow> None
        | Some (Inl e) \<Rightarrow> Some (Err e)
        | Some (Inr (at', check')) \<Rightarrow> validate_ops bytes at' (settle stack) (ops + 1) check')"
  by pat_completeness auto
termination
  by (relation "measure (\<lambda>(_, _, _, ops, _). OPS_MAX + 1 - ops)") auto

declare validate_ops.simps [simp del]

definition validate_expr :: "bytes \<Rightarrow> nat \<Rightarrow> nat \<Rightarrow> ConstantSpans \<Rightarrow> (PredicateError + unit) option" where
  "validate_expr bytes at path_count constants =
     pbind (validate_ops bytes at [1] 0 \<lparr>ck_bytes = bytes, ck_constants = constants, ck_path_count = path_count,
         ck_next_path = 0, ck_next_constant = 0\<rparr>) (\<lambda>(at, check).
       if at \<noteq> length bytes then Some (Err (PredicateError at PkTrailingBytes))
       else if ck_next_path check \<noteq> path_count \<or> ck_next_constant check \<noteq> length constants
       then Some (Err (PredicateError at PkNotCanonical))
       else Some (Ok ()))"

definition pred_validate :: "bytes \<Rightarrow> (PredicateError + unit) option" where
  "pred_validate bytes =
     (if length bytes < 2 then Some (Err (PredicateError (length bytes) PkTruncated))
      else if length bytes \<ge> PREDICATE_BYTES_CEILING then Some (Err (PredicateError 0 PkProgramTooLong))
      else if bytes ! 0 \<noteq> PREDICATE_VERSION then Some (Err (PredicateError 0 PkBadVersion))
      else if bytes ! 1 \<noteq> 0 then Some (Err (PredicateError 1 PkBadFlags))
      else pbind (validate_paths bytes 2) (\<lambda>(path_spans, at).
           pbind (validate_constants bytes at) (\<lambda>(constants, at).
             validate_expr bytes at (length path_spans) constants)))"

definition pred_from_bytes :: "bytes \<Rightarrow> (PredicateError + bytes) option" where
  "pred_from_bytes bytes = pbind (pred_validate bytes) (\<lambda>_. Some (Ok bytes))"

section \<open>Reading validated bytes\<close>

datatype PredOp = QAnd byte | QOr byte | QNot | QCmp CmpOp nat nat | QBetween nat nat nat | QBeginsWith nat nat
  | QIn nat nat byte | QExists nat

definition trusted_varint :: "bytes \<Rightarrow> nat \<Rightarrow> (u64 \<times> nat) option" where
  "trusted_varint bytes at = map_option (\<lambda>(v, used). (v, at + used)) (decode_u64 (drop at bytes))"

definition trusted_ref :: "bytes \<Rightarrow> nat \<Rightarrow> (nat \<times> nat) option" where
  "trusted_ref bytes at = map_option (\<lambda>(i, at). (unat (ucast i :: u32), at)) (trusted_varint bytes at)"

fun in_members :: "bytes \<Rightarrow> nat \<Rightarrow> nat \<Rightarrow> (nat list \<times> nat) option" where
  "in_members bytes at 0 = Some ([], at)"
| "in_members bytes at (Suc left) =
     Option.bind (trusted_ref bytes at) (\<lambda>(i, at). map_option (\<lambda>(is, at). (i # is, at)) (in_members bytes at left))"

definition pred_read_op :: "bytes \<Rightarrow> nat \<Rightarrow> (PredOp \<times> nat) option" where
  "pred_read_op bytes at =
     Option.bind (index_at bytes at) (\<lambda>opcode.
       if opcode = OP_AND \<or> opcode = OP_OR then
         map_option (\<lambda>arity. (if opcode = OP_AND then QAnd arity else QOr arity, at + 2)) (index_at bytes (at + 1))
       else if opcode = OP_NOT then Some (QNot, at + 1)
       else if opcode = OP_BETWEEN then
         Option.bind (trusted_ref bytes (at + 1)) (\<lambda>(path, j).
         Option.bind (trusted_ref bytes j) (\<lambda>(lo, j).
         Option.bind (trusted_ref bytes j) (\<lambda>(hi, j). Some (QBetween path lo hi, j))))
       else if opcode = OP_BEGINS_WITH then
         Option.bind (trusted_ref bytes (at + 1)) (\<lambda>(path, j).
         Option.bind (trusted_ref bytes j) (\<lambda>(pre, j). Some (QBeginsWith path pre, j)))
       else if opcode = OP_IN then
         Option.bind (trusted_ref bytes (at + 1)) (\<lambda>(path, j).
         Option.bind (index_at bytes j) (\<lambda>count.
         Option.bind (in_members bytes (j + 1) (unat count)) (\<lambda>(_, k). Some (QIn path (j + 1) count, k))))
       else if opcode = OP_EXISTS then
         Option.bind (trusted_ref bytes (at + 1)) (\<lambda>(path, j). Some (QExists path, j))
       else Option.bind (from_opcode opcode) (\<lambda>op.
         Option.bind (trusted_ref bytes (at + 1)) (\<lambda>(path, j).
         Option.bind (trusted_ref bytes j) (\<lambda>(constant, j). Some (QCmp op path constant, j)))))"

definition trusted_region :: "bytes \<Rightarrow> nat \<Rightarrow> (bytes \<times> nat) option" where
  "trusted_region bytes at =
     Option.bind (trusted_varint bytes at) (\<lambda>(len, at).
       Option.bind (region_end len at (length bytes)) (\<lambda>stop.
         map_option (\<lambda>region. (region, stop)) (get_range bytes at stop)))"

fun decode_path_entries :: "nat \<Rightarrow> bytes \<Rightarrow> nat \<Rightarrow> (bytes list \<times> nat) option" where
  "decode_path_entries 0 bytes at = Some ([], at)"
| "decode_path_entries (Suc n) bytes at =
     Option.bind (trusted_region bytes at) (\<lambda>(span, at).
       case path_from_bytes span of
         Inl _ \<Rightarrow> None
       | Inr path \<Rightarrow> map_option (\<lambda>(paths, at). (path # paths, at)) (decode_path_entries n bytes at))"

definition decode_paths :: "bytes \<Rightarrow> nat \<Rightarrow> (bytes list \<times> nat) option" where
  "decode_paths bytes at = Option.bind (trusted_varint bytes at) (\<lambda>(count, at). decode_path_entries (unat count) bytes at)"

definition decode_constant :: "bytes \<Rightarrow> nat \<Rightarrow> (Constant \<times> nat) option" where
  "decode_constant bytes tag_at =
     Option.bind (index_at bytes tag_at) (\<lambda>tag.
       let at = tag_at + 1
       in if tag = CONST_I64 then map_option (\<lambda>(v, at). (CI64 (pred_unzigzag v), at)) (trusted_varint bytes at)
          else if tag = CONST_F64 then
            if at + 8 \<le> length bytes then Some (CF64 (of_be_bytes (sub_slice bytes at (at + 8))), at + 8) else None
          else if tag = CONST_BOOL then map_option (\<lambda>b. (CBool (b = 1), at + 1)) (index_at bytes at)
          else if tag = CONST_UTF8 then
            Option.bind (trusted_region bytes at) (\<lambda>(span, at). if utf8_valid span then Some (CUtf8 span, at) else None)
          else None)"

fun decode_constant_entries :: "nat \<Rightarrow> bytes \<Rightarrow> nat \<Rightarrow> (Constant list \<times> nat) option" where
  "decode_constant_entries 0 bytes at = Some ([], at)"
| "decode_constant_entries (Suc n) bytes at =
     Option.bind (decode_constant bytes at) (\<lambda>(c, at).
       map_option (\<lambda>(cs, at). (c # cs, at)) (decode_constant_entries n bytes at))"

definition decode_constants :: "bytes \<Rightarrow> nat \<Rightarrow> (Constant list \<times> nat) option" where
  "decode_constants bytes at =
     Option.bind (trusted_varint bytes at) (\<lambda>(count, at). decode_constant_entries (unat count) bytes at)"

datatype BuildFrame = BAnd byte "Predicate list" | BOr byte "Predicate list" | BNot

text \<open>Folding a completed expression into the open frames: the root expression, or the frames that still wait.\<close>

fun fold_completed :: "Predicate \<Rightarrow> BuildFrame list \<Rightarrow> Predicate + BuildFrame list" where
  "fold_completed completed [] = Inl completed"
| "fold_completed completed (BNot # frames) = fold_completed (ENot completed) frames"
| "fold_completed completed (BAnd arity children # frames) =
     (let children = children @ [completed]
      in if length children < unat arity then Inr (BAnd arity children # frames) else fold_completed (EAnd children) frames)"
| "fold_completed completed (BOr arity children # frames) =
     (let children = children @ [completed]
      in if length children < unat arity then Inr (BOr arity children # frames) else fold_completed (EOr children) frames)"

fun index_all :: "'a list \<Rightarrow> nat list \<Rightarrow> 'a list option" where
  "index_all xs [] = Some []"
| "index_all xs (i # is) = Option.bind (index_at xs i) (\<lambda>x. map_option ((#) x) (index_all xs is))"

fun decode_leaf :: "bytes \<Rightarrow> bytes list \<Rightarrow> Constant list \<Rightarrow> PredOp \<Rightarrow> Predicate option" where
  "decode_leaf bytes paths constants (QCmp op path constant) =
     Option.bind (index_at paths path) (\<lambda>p. map_option (ECmp op p) (index_at constants constant))"
| "decode_leaf bytes paths constants (QBetween path lo hi) =
     Option.bind (index_at paths path) (\<lambda>p. Option.bind (index_at constants lo) (\<lambda>l. map_option (EBetween p l) (index_at constants hi)))"
| "decode_leaf bytes paths constants (QBeginsWith path pre) =
     Option.bind (index_at constants pre) (\<lambda>c. case c of
         CUtf8 s \<Rightarrow> map_option (\<lambda>p. EBeginsWith p s) (index_at paths path)
       | _ \<Rightarrow> None)"
| "decode_leaf bytes paths constants (QIn path members_at count) =
     Option.bind (index_at paths path) (\<lambda>p.
       Option.bind (in_members bytes members_at (unat count)) (\<lambda>(is, _). map_option (EIn p) (index_all constants is)))"
| "decode_leaf bytes paths constants (QExists path) = map_option EExists (index_at paths path)"
| "decode_leaf bytes paths constants _ = None"

partial_function (option) decode_ops ::
  "bytes \<Rightarrow> nat \<Rightarrow> bytes list \<Rightarrow> Constant list \<Rightarrow> BuildFrame list \<Rightarrow> Predicate option" where
  "decode_ops bytes at paths constants frames =
     Option.bind (pred_read_op bytes at) (\<lambda>(op, j). case op of
         QAnd arity \<Rightarrow> decode_ops bytes j paths constants (BAnd arity [] # frames)
       | QOr arity \<Rightarrow> decode_ops bytes j paths constants (BOr arity [] # frames)
       | QNot \<Rightarrow> decode_ops bytes j paths constants (BNot # frames)
       | _ \<Rightarrow> Option.bind (decode_leaf bytes paths constants op) (\<lambda>completed.
           case fold_completed completed frames of
             Inl root \<Rightarrow> Some root
           | Inr frames' \<Rightarrow> decode_ops bytes j paths constants frames'))"

definition decode_expr :: "bytes \<Rightarrow> nat \<Rightarrow> bytes list \<Rightarrow> Constant list \<Rightarrow> Predicate option" where
  "decode_expr bytes at paths constants = decode_ops bytes at paths constants []"

definition pred_decode :: "bytes \<Rightarrow> Predicate option" where
  "pred_decode bytes =
     Option.bind (decode_paths bytes 2) (\<lambda>(paths, at).
     Option.bind (decode_constants bytes at) (\<lambda>(constants, at). decode_expr bytes at paths constants))"

end
