(* ===== verification/PredVm.thy ===== *)
theory PredVm
  imports PredProgram IndexKey PathEval
begin

text \<open>
  The predicate evaluator of \<open>vm.rs\<close>: one pass over the operations of a program, with a fixed array of open
  connectives, a fuel meter and two observability flags. A path is resolved by the streaming evaluator
  \<open>eval_visit\<close>, a number compared by \<open>compare_i64_f64\<close>. An index out of range, an arithmetic underflow or an
  unreachable arm is a panic, the value \<open>None\<close>; debug assertions are left out.
\<close>

record EvalFlags =
  ef_missing :: bool
  ef_type_mismatch :: bool

record EvalOutcome =
  eo_verdict :: bool
  eo_flags :: EvalFlags
  eo_fuel_used :: nat

datatype PredicateEvalError = FuelExhausted

record PredicateVm =
  vm_program :: bytes
  vm_paths :: "bytes list"
  vm_constants :: "Constant list"
  vm_expr_at :: u32

section \<open>Fuel\<close>

text \<open>Both fields are \<open>u64\<close>; \<open>charge\<close> uses the checked addition.\<close>

record Fuel =
  fu_used :: nat
  fu_budget :: nat

definition charge :: "Fuel \<Rightarrow> nat \<Rightarrow> PredicateEvalError + Fuel" where
  "charge fuel units =
     (case checked_add_usize (fu_used fuel) units of
        Some following \<Rightarrow> if following \<le> fu_budget fuel then Ok (fuel\<lparr>fu_used := following\<rparr>) else Err FuelExhausted
      | None \<Rightarrow> Err FuelExhausted)"

definition remaining :: "Fuel \<Rightarrow> nat option" where
  "remaining fuel = (if fu_used fuel \<le> fu_budget fuel then Some (fu_budget fuel - fu_used fuel) else None)"

datatype Pending = PAnd byte | POr byte | PNot

section \<open>Preparing a program\<close>

definition vm_new :: "bytes \<Rightarrow> PredicateVm option" where
  "vm_new program =
     Option.bind (decode_paths program 2) (\<lambda>(paths, at).
     Option.bind (decode_constants program at) (\<lambda>(constants, at).
       if at < 2 ^ 32
       then Some \<lparr>vm_program = program, vm_paths = paths, vm_constants = constants, vm_expr_at = of_nat at\<rparr>
       else None))"

section \<open>Comparing a value with a constant\<close>

text \<open>\<open>Ordering::reverse\<close> and \<open>f64::partial_cmp\<close>.\<close>

fun reverse_ordering :: "Ordering \<Rightarrow> Ordering" where
  "reverse_ordering Less = Greater" | "reverse_ordering Equal = Equal" | "reverse_ordering Greater = Less"

definition f64_partial_cmp :: "f64 \<Rightarrow> f64 \<Rightarrow> Ordering option" where
  "f64_partial_cmp a b =
     (if f64_lt a b then Some Less else if f64_eq a b then Some Equal else if f64_lt b a then Some Greater else None)"

fun relation :: "DocValue \<Rightarrow> Constant \<Rightarrow> Ordering option" where
  "relation (VI64 v) (CI64 c) = Some (cmp (sint v) (sint c))"
| "relation (VI64 v) (CF64 c) = Some (compare_i64_f64 v c)"
| "relation (VF64 v) (CI64 c) = (if is_nan v then None else Some (reverse_ordering (compare_i64_f64 c v)))"
| "relation (VF64 v) (CF64 c) = f64_partial_cmp v c"
| "relation (VBool v) (CBool c) = Some (cmp v c)"
| "relation (VStr v) (CUtf8 c) = Some (bytes_cmp v c)"
| "relation _ _ = None"

fun cmp_matches :: "CmpOp \<Rightarrow> Ordering \<Rightarrow> bool" where
  "cmp_matches CEq ord \<longleftrightarrow> ord = Equal"
| "cmp_matches CNe ord \<longleftrightarrow> ord \<noteq> Equal"
| "cmp_matches CLt ord \<longleftrightarrow> ord = Less"
| "cmp_matches CLe ord \<longleftrightarrow> ord \<noteq> Greater"
| "cmp_matches CGt ord \<longleftrightarrow> ord = Greater"
| "cmp_matches CGe ord \<longleftrightarrow> ord \<noteq> Less"

section \<open>Leaves\<close>

text \<open>What a leaf asks of one value: its answer, with the fuel and the flags it leaves behind.\<close>

type_synonym value_test = "DocValue \<Rightarrow> Fuel \<Rightarrow> EvalFlags \<Rightarrow> ((PredicateEvalError + bool) \<times> Fuel \<times> EvalFlags) option"

definition mismatch :: "Fuel \<Rightarrow> EvalFlags \<Rightarrow> ((PredicateEvalError + bool) \<times> Fuel \<times> EvalFlags) option" where
  "mismatch fuel flags = Some (Ok False, fuel, flags\<lparr>ef_type_mismatch := True\<rparr>)"

definition cmp_test :: "CmpOp \<Rightarrow> Constant \<Rightarrow> value_test" where
  "cmp_test op constant v fuel flags =
     (case relation v constant of
        Some ord \<Rightarrow> Some (Ok (cmp_matches op ord), fuel, flags)
      | None \<Rightarrow> mismatch fuel flags)"

definition between_test :: "Constant \<Rightarrow> Constant \<Rightarrow> value_test" where
  "between_test lo hi v fuel flags =
     (case (relation v lo, relation v hi) of
        (Some versus_lo, Some versus_hi) \<Rightarrow> Some (Ok (versus_lo \<noteq> Less \<and> versus_hi \<noteq> Greater), fuel, flags)
      | _ \<Rightarrow> mismatch fuel flags)"

definition begins_with_test :: "bytes \<Rightarrow> value_test" where
  "begins_with_test pre v fuel flags =
     (case v of
        VStr s \<Rightarrow> Some (Ok (take (length pre) s = pre), fuel, flags)
      | _ \<Rightarrow> mismatch fuel flags)"

text \<open>The members are read from the program one at a time, from \<open>at\<close> on.\<close>

fun in_test :: "PredicateVm \<Rightarrow> nat \<Rightarrow> nat \<Rightarrow> value_test" where
  "in_test vm at 0 v fuel flags = Some (Ok False, fuel, flags)"
| "in_test vm at (Suc left) v fuel flags =
     Option.bind (trusted_ref (vm_program vm) at) (\<lambda>(member, at).
       case charge fuel 1 of
         Inl e \<Rightarrow> Some (Err e, fuel, flags)
       | Inr fuel \<Rightarrow> Option.bind (index_at (vm_constants vm) member) (\<lambda>constant.
           case relation v constant of
             Some Equal \<Rightarrow> Some (Ok True, fuel, flags)
           | Some _ \<Rightarrow> in_test vm at left v fuel flags
           | None \<Rightarrow> mismatch fuel flags))"

record LeafState =
  lf_any_match :: bool
  lf_satisfied :: bool
  lf_failed :: "PredicateEvalError option"
  lf_fuel :: Fuel
  lf_flags :: EvalFlags

text \<open>The visitor of \<open>leaf\<close>, which breaks at the first error; \<open>None\<close> is a panic inside the test.\<close>

definition leaf_visitor :: "value_test \<Rightarrow> LeafState option \<Rightarrow> DocValue \<Rightarrow> LeafState option \<times> bool" where
  "leaf_visitor test s v =
     (case s of
        None \<Rightarrow> (None, True)
      | Some st \<Rightarrow>
          (case test v (lf_fuel st) (lf_flags st) of
             None \<Rightarrow> (None, True)
           | Some (answer, fuel, flags) \<Rightarrow>
               let st = st\<lparr>lf_any_match := True, lf_fuel := fuel, lf_flags := flags\<rparr>
               in case answer of
                    Inr sat \<Rightarrow> (Some (if sat then st\<lparr>lf_satisfied := True\<rparr> else st), False)
                  | Inl e \<Rightarrow> (Some (st\<lparr>lf_failed := Some e\<rparr>), True)))"

definition leaf :: "PredicateVm \<Rightarrow> nat \<Rightarrow> DocValue \<Rightarrow> Fuel \<Rightarrow> EvalFlags \<Rightarrow> value_test \<Rightarrow> (PredicateEvalError + bool \<times> Fuel \<times> EvalFlags) option" where
  "leaf vm path root fuel flags test =
     Option.bind (remaining fuel) (\<lambda>budget_nodes.
     Option.bind (index_at (vm_paths vm) path) (\<lambda>program.
     Option.bind (eval_visit program root budget_nodes (leaf_visitor test)
         (Some \<lparr>lf_any_match = False, lf_satisfied = False, lf_failed = None, lf_fuel = fuel, lf_flags = flags\<rparr>)) (\<lambda>(s, outcome).
     Option.bind s (\<lambda>st. Some (
       rbind (charge (lf_fuel st) (vo_nodes_visited outcome)) (\<lambda>fuel.
         case lf_failed st of
           Some e \<Rightarrow> Err e
         | None \<Rightarrow>
             if vo_end outcome = Exhausted then Err FuelExhausted
             else Ok (lf_satisfied st, fuel,
                      if lf_any_match st then lf_flags st else (lf_flags st)\<lparr>ef_missing := True\<rparr>)))))))"

definition exists_leaf :: "PredicateVm \<Rightarrow> nat \<Rightarrow> DocValue \<Rightarrow> Fuel \<Rightarrow> (PredicateEvalError + bool \<times> Fuel) option" where
  "exists_leaf vm path root fuel =
     Option.bind (remaining fuel) (\<lambda>budget_nodes.
     Option.bind (index_at (vm_paths vm) path) (\<lambda>program.
     Option.bind (eval_visit program root budget_nodes (\<lambda>_ _. (True, True)) False) (\<lambda>(found, outcome). Some (
       rbind (charge fuel (vo_nodes_visited outcome)) (\<lambda>fuel.
         if vo_end outcome = Exhausted then Err FuelExhausted else Ok (found, fuel))))))"

fun eval_leaf :: "PredicateVm \<Rightarrow> PredOp \<Rightarrow> DocValue \<Rightarrow> Fuel \<Rightarrow> EvalFlags \<Rightarrow> (PredicateEvalError + bool \<times> Fuel \<times> EvalFlags) option" where
  "eval_leaf vm (QCmp op path constant) root fuel flags =
     Option.bind (index_at (vm_constants vm) constant) (\<lambda>constant. leaf vm path root fuel flags (cmp_test op constant))"
| "eval_leaf vm (QBetween path lo hi) root fuel flags =
     Option.bind (index_at (vm_constants vm) lo) (\<lambda>lo.
     Option.bind (index_at (vm_constants vm) hi) (\<lambda>hi. leaf vm path root fuel flags (between_test lo hi)))"
| "eval_leaf vm (QBeginsWith path pre) root fuel flags =
     Option.bind (index_at (vm_constants vm) pre) (\<lambda>constant. case constant of
         CUtf8 s \<Rightarrow> leaf vm path root fuel flags (begins_with_test s)
       | _ \<Rightarrow> None)"
| "eval_leaf vm (QIn path members_at count) root fuel flags = leaf vm path root fuel flags (in_test vm members_at (unat count))"
| "eval_leaf vm (QExists path) root fuel flags =
     map_option (\<lambda>r. rbind r (\<lambda>(found, fuel). Ok (found, fuel, flags))) (exists_leaf vm path root fuel)"
| "eval_leaf vm _ root fuel flags = None"

section \<open>Connectives\<close>

text \<open>\<open>open_operands\<close> is a \<open>u32\<close>; every round charges a unit, so the budget bounds the loop.\<close>

function skip_loop :: "bytes \<Rightarrow> nat \<Rightarrow> nat \<Rightarrow> Fuel \<Rightarrow> (PredicateEvalError + nat \<times> Fuel) option" where
  "skip_loop program pc open_operands fuel =
     (if open_operands = 0 then Some (Ok (pc, fuel))
      else case charge fuel 1 of
          Inl e \<Rightarrow> Some (Err e)
        | Inr fuel \<Rightarrow> Option.bind (pred_read_op program pc) (\<lambda>(op, pc).
            let open_operands = open_operands - 1 +
                  (case op of QAnd arity \<Rightarrow> unat arity | QOr arity \<Rightarrow> unat arity | QNot \<Rightarrow> 1 | _ \<Rightarrow> 0)
            in if open_operands < 2 ^ 32 then skip_loop program pc open_operands fuel else None))"
  by pat_completeness auto
termination
  by (relation "measure (\<lambda>(_, _, _, fuel). fu_budget fuel - fu_used fuel)")
    (auto simp: charge_def checked_add_usize_Some split: option.splits if_splits)

declare skip_loop.simps [simp del]

definition skip_operands :: "bytes \<Rightarrow> nat \<Rightarrow> byte \<Rightarrow> Fuel \<Rightarrow> (PredicateEvalError + nat \<times> Fuel) option" where
  "skip_operands program pc count fuel = skip_loop program pc (unat count) fuel"

text \<open>\<open>remaining - 1\<close> on a \<open>u8\<close>.\<close>

definition one_less :: "byte \<Rightarrow> byte option" where
  "one_less n = (if n = 0 then None else Some (n - 1))"

text \<open>
  \<open>fold\<close>: the verdict, if the root completed, with the program counter, the stack, its depth and the fuel. A settled
  connective decodes past its other operands.
\<close>

fun fold_verdict :: "bool \<Rightarrow> bytes \<Rightarrow> nat \<Rightarrow> Pending list \<Rightarrow> nat \<Rightarrow> Fuel \<Rightarrow>
    (PredicateEvalError + bool option \<times> nat \<times> Pending list \<times> nat \<times> Fuel) option" where
  "fold_verdict verdict program pc stack 0 fuel = Some (Ok (Some verdict, pc, stack, 0, fuel))"
| "fold_verdict verdict program pc stack (Suc depth) fuel =
     Option.bind (index_at stack depth) (\<lambda>pending. case pending of
         PNot \<Rightarrow> fold_verdict (\<not> verdict) program pc stack depth fuel
       | PAnd left \<Rightarrow>
           if \<not> verdict then
             Option.bind (one_less left) (\<lambda>others.
               pbind (skip_operands program pc others fuel) (\<lambda>(pc, fuel). fold_verdict verdict program pc stack depth fuel))
           else if left = 1 then fold_verdict verdict program pc stack depth fuel
           else Option.bind (one_less left) (\<lambda>left. Some (Ok (None, pc, stack[depth := PAnd left], Suc depth, fuel)))
       | POr left \<Rightarrow>
           if verdict then
             Option.bind (one_less left) (\<lambda>others.
               pbind (skip_operands program pc others fuel) (\<lambda>(pc, fuel). fold_verdict verdict program pc stack depth fuel))
           else if left = 1 then fold_verdict verdict program pc stack depth fuel
           else Option.bind (one_less left) (\<lambda>left. Some (Ok (None, pc, stack[depth := POr left], Suc depth, fuel))))"

section \<open>The evaluator\<close>

definition push_pending :: "Pending list \<Rightarrow> nat \<Rightarrow> Pending \<Rightarrow> Pending list option" where
  "push_pending stack depth pending = (if depth < length stack then Some (stack[depth := pending]) else None)"

partial_function (option) eval_loop ::
  "PredicateVm \<Rightarrow> DocValue \<Rightarrow> nat \<Rightarrow> Pending list \<Rightarrow> nat \<Rightarrow> Fuel \<Rightarrow> EvalFlags \<Rightarrow> (PredicateEvalError + EvalOutcome) option" where
  "eval_loop vm root pc stack depth fuel flags =
     (case charge fuel 1 of
        Inl e \<Rightarrow> Some (Err e)
      | Inr fuel \<Rightarrow> Option.bind (pred_read_op (vm_program vm) pc) (\<lambda>(op, pc).
          case op of
            QAnd arity \<Rightarrow> Option.bind (push_pending stack depth (PAnd arity)) (\<lambda>stack.
              eval_loop vm root pc stack (depth + 1) fuel flags)
          | QOr arity \<Rightarrow> Option.bind (push_pending stack depth (POr arity)) (\<lambda>stack.
              eval_loop vm root pc stack (depth + 1) fuel flags)
          | QNot \<Rightarrow> Option.bind (push_pending stack depth PNot) (\<lambda>stack.
              eval_loop vm root pc stack (depth + 1) fuel flags)
          | leaf_op \<Rightarrow> Option.bind (eval_leaf vm leaf_op root fuel flags) (\<lambda>answer. case answer of
              Inl e \<Rightarrow> Some (Err e)
            | Inr (leaf_verdict, fuel, flags) \<Rightarrow>
                Option.bind (fold_verdict leaf_verdict (vm_program vm) pc stack depth fuel) (\<lambda>folded. case folded of
                  Inl e \<Rightarrow> Some (Err e)
                | Inr (Some verdict, _, _, _, fuel) \<Rightarrow>
                    Some (Ok \<lparr>eo_verdict = verdict, eo_flags = flags, eo_fuel_used = fu_used fuel\<rparr>)
                | Inr (None, pc, stack, depth, fuel) \<Rightarrow> eval_loop vm root pc stack depth fuel flags))))"

declare eval_loop.simps [simp del]

definition vm_eval :: "PredicateVm \<Rightarrow> DocValue \<Rightarrow> u64 \<Rightarrow> (PredicateEvalError + EvalOutcome) option" where
  "vm_eval vm root fuel_budget =
     eval_loop vm root (unat (vm_expr_at vm)) (replicate NESTING_DEPTH_MAX PNot) 0
       \<lparr>fu_used = 0, fu_budget = unat fuel_budget\<rparr> \<lparr>ef_missing = False, ef_type_mismatch = False\<rparr>"

end
