(* ===== verification/PredTape.thy ===== *)
theory PredTape
  imports PredProgram
begin

text \<open>
  The tape of a predicate program as an expression over pool indices: its bytes, its operands in order, its static
  typing, and that the validator accepts a stretch of bytes exactly when it codes well-typed expressions whose
  references come in the order of first use.
\<close>

section \<open>Tapes\<close>

type_synonym tape = "(nat, nat, nat) expr"

definition ref_bytes :: "nat \<Rightarrow> bytes" where "ref_bytes i = encode_u64 (of_nat i)"

fun expr_bytes :: "tape \<Rightarrow> bytes" where
  "expr_bytes (EAnd es) = OP_AND # of_nat (length es) # concat (map expr_bytes es)"
| "expr_bytes (EOr es) = OP_OR # of_nat (length es) # concat (map expr_bytes es)"
| "expr_bytes (ENot e) = OP_NOT # expr_bytes e"
| "expr_bytes (ECmp op p c) = opcode_of op # ref_bytes p @ ref_bytes c"
| "expr_bytes (EBetween p l h) = OP_BETWEEN # ref_bytes p @ ref_bytes l @ ref_bytes h"
| "expr_bytes (EBeginsWith p s) = OP_BEGINS_WITH # ref_bytes p @ ref_bytes s"
| "expr_bytes (EIn p ms) = OP_IN # ref_bytes p @ of_nat (length ms) # concat (map ref_bytes ms)"
| "expr_bytes (EExists p) = OP_EXISTS # ref_bytes p"

text \<open>The operands in the order of the tape, the number of operations and the nesting bound.\<close>

fun expr_paths :: "('p, 'c, 's) expr \<Rightarrow> 'p list" where
  "expr_paths (EAnd es) = concat (map expr_paths es)"
| "expr_paths (EOr es) = concat (map expr_paths es)"
| "expr_paths (ENot e) = expr_paths e"
| "expr_paths (ECmp op p c) = [p]"
| "expr_paths (EBetween p l h) = [p]"
| "expr_paths (EBeginsWith p s) = [p]"
| "expr_paths (EIn p ms) = [p]"
| "expr_paths (EExists p) = [p]"

fun expr_consts :: "('p, 'c, 'c) expr \<Rightarrow> 'c list" where
  "expr_consts (EAnd es) = concat (map expr_consts es)"
| "expr_consts (EOr es) = concat (map expr_consts es)"
| "expr_consts (ENot e) = expr_consts e"
| "expr_consts (ECmp op p c) = [c]"
| "expr_consts (EBetween p l h) = [l, h]"
| "expr_consts (EBeginsWith p s) = [s]"
| "expr_consts (EIn p ms) = ms"
| "expr_consts (EExists p) = []"

fun ops_of :: "('p, 'c, 's) expr \<Rightarrow> nat" where
  "ops_of (EAnd es) = Suc (sum_list (map ops_of es))"
| "ops_of (EOr es) = Suc (sum_list (map ops_of es))"
| "ops_of (ENot e) = Suc (ops_of e)"
| "ops_of _ = 1"

fun within_depth :: "nat \<Rightarrow> ('p, 'c, 's) expr \<Rightarrow> bool" where
  "within_depth l (EAnd es) \<longleftrightarrow> l \<le> NESTING_DEPTH_MAX \<and> (\<forall>e\<in>set es. within_depth (Suc l) e)"
| "within_depth l (EOr es) \<longleftrightarrow> l \<le> NESTING_DEPTH_MAX \<and> (\<forall>e\<in>set es. within_depth (Suc l) e)"
| "within_depth l (ENot e) \<longleftrightarrow> l \<le> NESTING_DEPTH_MAX \<and> within_depth (Suc l) e"
| "within_depth l _ \<longleftrightarrow> l \<le> NESTING_DEPTH_MAX"

text \<open>The static typing of an expression: arities, and operands of one family where the operation asks for it.\<close>

fun well_typed :: "('c \<Rightarrow> ConstFamily) \<Rightarrow> ('s \<Rightarrow> ConstFamily) \<Rightarrow> ('p, 'c, 's) expr \<Rightarrow> bool" where
  "well_typed f g (EAnd es) \<longleftrightarrow> 2 \<le> length es \<and> length es \<le> BOOL_ARITY_MAX \<and> (\<forall>e\<in>set es. well_typed f g e)"
| "well_typed f g (EOr es) \<longleftrightarrow> 2 \<le> length es \<and> length es \<le> BOOL_ARITY_MAX \<and> (\<forall>e\<in>set es. well_typed f g e)"
| "well_typed f g (ENot e) \<longleftrightarrow> well_typed f g e"
| "well_typed f g (ECmp op p c) \<longleftrightarrow> True"
| "well_typed f g (EBetween p l h) \<longleftrightarrow> f l = f h"
| "well_typed f g (EBeginsWith p s) \<longleftrightarrow> g s = FamUtf8"
| "well_typed f g (EIn p ms) \<longleftrightarrow> 1 \<le> length ms \<and> length ms \<le> IN_MEMBERS_MAX \<and> (\<forall>m\<in>set ms. f m = f (hd ms))"
| "well_typed f g (EExists p) \<longleftrightarrow> True"

fun is_leaf :: "('p, 'c, 's) expr \<Rightarrow> bool" where
  "is_leaf (EAnd _) = False" | "is_leaf (EOr _) = False" | "is_leaf (ENot _) = False" | "is_leaf _ = True"

lemma ops_of_pos [simp]: "0 < ops_of e"
  by (cases e) auto

lemma within_depth_le: "within_depth l e \<Longrightarrow> l \<le> NESTING_DEPTH_MAX"
  by (cases e) auto

lemma leaf_ops: "is_leaf e \<Longrightarrow> ops_of e = 1" "is_leaf e \<Longrightarrow> within_depth l e \<longleftrightarrow> l \<le> NESTING_DEPTH_MAX"
  by (cases e; simp)+

lemma op_distinct:
  "opcode_of op \<notin> {OP_AND, OP_OR, OP_NOT, OP_BETWEEN, OP_BEGINS_WITH, OP_IN, OP_EXISTS}"
  by (cases op) (simp_all add: predicate_ops)

lemma opcode_of_range: "op \<in> {OP_EQ, OP_NE, OP_LT, OP_LE, OP_GT, OP_GE} \<longleftrightarrow> (\<exists>c. op = opcode_of c)"
proof
  assume "op \<in> {OP_EQ, OP_NE, OP_LT, OP_LE, OP_GT, OP_GE}"
  then show "\<exists>c. op = opcode_of c" by (metis insertE opcode_of.simps singletonD)
next
  assume "\<exists>c. op = opcode_of c"
  then obtain c where "op = opcode_of c" ..
  then show "op \<in> {OP_EQ, OP_NE, OP_LT, OP_LE, OP_GT, OP_GE}" by (cases c) simp_all
qed

lemma from_opcode_of [simp]: "from_opcode (opcode_of op) = Some op"
  by (cases op) (simp_all add: from_opcode_def predicate_ops)

text \<open>References in order: the next new one has the next index.\<close>

fun ref_run :: "nat \<Rightarrow> nat \<Rightarrow> nat list \<Rightarrow> nat option" where
  "ref_run len n [] = Some n"
| "ref_run len n (i # is) = (if i < len \<and> i \<le> n then ref_run len (if i = n then Suc n else n) is else None)"

lemma ref_run_append: "ref_run len n (xs @ ys) = Option.bind (ref_run len n xs) (\<lambda>m. ref_run len m ys)"
  by (induction xs arbitrary: n) auto

section \<open>The expression\<close>

lemma decode_ref: "decode_u64 (drop at bs) = Some (v, n) \<longleftrightarrow> n = length (ref_bytes (unat v)) \<and> code_at bs at (ref_bytes (unat v))"
  by (simp add: decode_u64_at ref_bytes_def)

lemma code_at_varint_le: "code_at bytes at (encode_u64 v) \<Longrightarrow> at + length (encode_u64 v) \<le> length bytes"
  using code_at_le [of bytes at "encode_u64 v"] encode_u64_bound [of v] by fastforce

lemma read_varint_at_iff:
  "read_varint_at bytes at = Some (Ok (v, j)) \<longleftrightarrow> j = at + length (encode_u64 v) \<and> code_at bytes at (encode_u64 v)"
  by (auto simp: read_varint_at_def rbind_Ok ok_or_Ok decode_u64_at dest: code_at_varint_le)

lemma read_pool_ref_iff:
  assumes "len < 2 ^ 64"
  shows "read_pool_ref bytes at len n = Some (Ok (i, j, m)) \<longleftrightarrow>
    code_at bytes at (ref_bytes i) \<and> j = at + length (ref_bytes i) \<and> ref_run len n [i] = Some m"
proof
  assume "read_pool_ref bytes at len n = Some (Ok (i, j, m))"
  then show "code_at bytes at (ref_bytes i) \<and> j = at + length (ref_bytes i) \<and> ref_run len n [i] = Some m"
    by (auto simp: read_pool_ref_def pbind_Ok read_varint_at_iff ref_bytes_def split: if_splits)
next
  assume r: "code_at bytes at (ref_bytes i) \<and> j = at + length (ref_bytes i) \<and> ref_run len n [i] = Some m"
  then have "i < len" by (auto split: if_splits)
  then have "unat (of_nat i :: u64) = i" using assms by (intro unat_of_nat_u64) simp
  then show "read_pool_ref bytes at len n = Some (Ok (i, j, m))"
    using r by (auto simp: read_pool_ref_def pbind_Ok read_varint_at_iff ref_bytes_def intro!: exI [of _ "of_nat i"] split: if_splits)
qed

definition check_ok :: "bytes \<Rightarrow> ExprCheck \<Rightarrow> bool" where
  "check_ok bytes ck \<longleftrightarrow> ck_bytes ck = bytes \<and> ck_path_count ck < 2 ^ 64 \<and> length (ck_constants ck) < 2 ^ 64"

abbreviation fam_of :: "ExprCheck \<Rightarrow> nat \<Rightarrow> ConstFamily" where
  "fam_of ck i \<equiv> snd (ck_constants ck ! i)"

text \<open>The references of a stretch of tape take the check from one state to the next.\<close>

definition checked :: "ExprCheck \<Rightarrow> nat list \<Rightarrow> nat list \<Rightarrow> ExprCheck \<Rightarrow> bool" where
  "checked ck ps cs ck' \<longleftrightarrow> (\<exists>np nc. ref_run (ck_path_count ck) (ck_next_path ck) ps = Some np \<and>
     ref_run (length (ck_constants ck)) (ck_next_constant ck) cs = Some nc \<and>
     ck' = ck\<lparr>ck_next_path := np, ck_next_constant := nc\<rparr>)"

lemma checked_Nil [simp]: "checked ck [] [] ck' \<longleftrightarrow> ck' = ck"
  by (auto simp: checked_def)

lemma checked_append: "checked ck (ps @ ps') (cs @ cs') ck'' \<longleftrightarrow> (\<exists>ck'. checked ck ps cs ck' \<and> checked ck' ps' cs' ck'')"
  by (auto simp: checked_def ref_run_append bind_eq_Some_conv)

lemma checked_const:
  assumes "checked ck ps cs ck'"
  shows "check_ok bytes ck' = check_ok bytes ck" "ck_constants ck' = ck_constants ck" "ck_path_count ck' = ck_path_count ck"
  using assms by (auto simp: checked_def check_ok_def)

lemma path_ref_iff:
  assumes "check_ok bytes ck"
  shows "path_ref ck at = Some (Ok (j, ck')) \<longleftrightarrow>
    (\<exists>p. code_at bytes at (ref_bytes p) \<and> j = at + length (ref_bytes p) \<and> checked ck [p] [] ck')"
  using assms by (auto simp: path_ref_def pbind_Ok read_pool_ref_iff check_ok_def checked_def)

lemma constant_ref_iff:
  assumes "check_ok bytes ck"
  shows "constant_ref ck at = Some (Ok (fam, off, j, ck')) \<longleftrightarrow> off = at \<and>
    (\<exists>c. fam = fam_of ck c \<and> code_at bytes at (ref_bytes c) \<and> j = at + length (ref_bytes c) \<and> checked ck [] [c] ck')"
proof -
  let ?ks = "ck_constants ck"
  have b: "ck_bytes ck = bytes" and len: "length ?ks < 2 ^ 64" using assms by (simp_all add: check_ok_def)
  have "constant_ref ck at = Some (Ok (fam, off, j, ck')) \<longleftrightarrow>
      (\<exists>i new. read_pool_ref bytes at (length ?ks) (ck_next_constant ck) = Some (Ok (i, j, new)) \<and> i < length ?ks \<and>
        fam = fam_of ck i \<and> off = at \<and> ck' = ck\<lparr>ck_next_constant := new\<rparr>)"
    unfolding constant_ref_def pbind_Ok index_at_def b by (fastforce split: if_splits)
  then show ?thesis by (auto simp: read_pool_ref_iff [OF len] checked_def split: if_splits)
qed

lemma validate_in_members_iff:
  assumes "check_ok bytes ck"
  shows "validate_in_members n first at ck = Some (Ok (j, ck')) \<longleftrightarrow> (\<exists>ms. length ms = n \<and> (\<forall>m\<in>set ms. fam_of ck m = first) \<and>
    code_at bytes at (concat (map ref_bytes ms)) \<and> j = at + length (concat (map ref_bytes ms)) \<and> checked ck [] ms ck')"
  using assms
proof (induction n arbitrary: at ck)
  case (Suc n)
  show ?case
  proof
    assume "validate_in_members (Suc n) first at ck = Some (Ok (j, ck'))"
    then obtain c ck1 where c: "code_at bytes at (ref_bytes c)" "checked ck [] [c] ck1" "fam_of ck c = first"
        "validate_in_members n first (at + length (ref_bytes c)) ck1 = Some (Ok (j, ck'))"
      using constant_ref_iff [OF Suc.prems] by (auto simp: pbind_Ok split: if_splits)
    then obtain ms where "length ms = n" "\<forall>m\<in>set ms. fam_of ck1 m = first" "code_at bytes (at + length (ref_bytes c)) (concat (map ref_bytes ms))"
        "j = at + length (ref_bytes c) + length (concat (map ref_bytes ms))" "checked ck1 [] ms ck'"
      using Suc.IH [of ck1] checked_const(1) [OF c(2)] Suc.prems by blast
    then show "\<exists>ms. length ms = Suc n \<and> (\<forall>m\<in>set ms. fam_of ck m = first) \<and> code_at bytes at (concat (map ref_bytes ms)) \<and>
        j = at + length (concat (map ref_bytes ms)) \<and> checked ck [] ms ck'"
      using c checked_const(2) [OF c(2)] checked_append [of ck "[]" "[]" "[c]" ms ck'] by (intro exI [of _ "c # ms"]) auto
  next
    assume "\<exists>ms. length ms = Suc n \<and> (\<forall>m\<in>set ms. fam_of ck m = first) \<and> code_at bytes at (concat (map ref_bytes ms)) \<and>
        j = at + length (concat (map ref_bytes ms)) \<and> checked ck [] ms ck'"
    then obtain c ms where c: "length ms = n" "fam_of ck c = first" "\<forall>m\<in>set ms. fam_of ck m = first" "code_at bytes at (ref_bytes c)"
        "code_at bytes (at + length (ref_bytes c)) (concat (map ref_bytes ms))"
        "j = at + length (ref_bytes c) + length (concat (map ref_bytes ms))" "checked ck [] (c # ms) ck'"
      by (auto simp: length_Suc_conv)
    then obtain ck1 where ck1: "checked ck [] [c] ck1" "checked ck1 [] ms ck'"
      using checked_append [of ck "[]" "[]" "[c]" ms ck'] by auto
    have "constant_ref ck at = Some (Ok (first, at, at + length (ref_bytes c), ck1))"
      using constant_ref_iff [OF Suc.prems] c(2,4) ck1(1) by metis
    moreover have "validate_in_members n first (at + length (ref_bytes c)) ck1 = Some (Ok (j, ck'))"
      using Suc.IH [of ck1] checked_const [OF ck1(1)] Suc.prems c ck1(2) by auto
    ultimately show "validate_in_members (Suc n) first at ck = Some (Ok (j, ck'))" by simp
  qed
qed auto

text \<open>The code of a leaf behind its operation code.\<close>

definition leaf_run :: "bytes \<Rightarrow> nat \<Rightarrow> ExprCheck \<Rightarrow> tape \<Rightarrow> nat \<Rightarrow> ExprCheck \<Rightarrow> bool" where
  "leaf_run bytes at ck t j ck' \<longleftrightarrow> is_leaf t \<and> well_typed (fam_of ck) (fam_of ck) t \<and> code_at bytes at (tl (expr_bytes t)) \<and>
     j = at + length (tl (expr_bytes t)) \<and> checked ck (expr_paths t) (expr_consts t) ck'"

lemma checked_split:
  "checked ck [p] (c # cs) ck' \<longleftrightarrow> (\<exists>ck1. checked ck [p] [] ck1 \<and> checked ck1 [] (c # cs) ck')"
  "checked ck [] (c # c' # cs) ck' \<longleftrightarrow> (\<exists>ck1. checked ck [] [c] ck1 \<and> checked ck1 [] (c' # cs) ck')"
  using checked_append [of ck "[p]" "[]" "[]" "c # cs" ck'] checked_append [of ck "[]" "[]" "[c]" "c' # cs" ck'] by simp_all

lemma validate_leaf_simps:
  "validate_leaf (opcode_of op) opat at ck =
    pbind (path_ref ck at) (\<lambda>(at, ck). pbind (constant_ref ck at) (\<lambda>(_, _, at, ck). Some (Ok (at, ck))))"
  "validate_leaf OP_BETWEEN opat at ck =
    pbind (path_ref ck at) (\<lambda>(at, ck). pbind (constant_ref ck at) (\<lambda>(lo, _, at, ck). pbind (constant_ref ck at) (\<lambda>(hi, offset, at, ck).
      if lo \<noteq> hi then Some (Err (PredicateError offset PkBadTypeFamily)) else Some (Ok (at, ck)))))"
  "validate_leaf OP_BEGINS_WITH opat at ck =
    pbind (path_ref ck at) (\<lambda>(at, ck). pbind (constant_ref ck at) (\<lambda>(fam, offset, at, ck).
      if fam \<noteq> FamUtf8 then Some (Err (PredicateError offset PkBadTypeFamily)) else Some (Ok (at, ck))))"
  "validate_leaf OP_IN opat at ck =
    pbind (path_ref ck at) (\<lambda>(at, ck).
      if at < length (ck_bytes ck) then
        let n = unat (ck_bytes ck ! at)
        in if n < 1 \<or> n > IN_MEMBERS_MAX then Some (Err (PredicateError at PkBadCount))
           else pbind (constant_ref ck (at + 1)) (\<lambda>(first, _, at, ck). validate_in_members (n - 1) first at ck)
      else Some (Err (PredicateError at PkTruncated)))"
  "validate_leaf OP_EXISTS opat at ck = path_ref ck at"
  by (cases op) (simp_all add: validate_leaf_def predicate_ops)

lemma validate_leaf_cases:
  assumes "validate_leaf opcode opat at ck = Some (Ok r)"
  obtains (cmp) op where "opcode = opcode_of op" | (between) "opcode = OP_BETWEEN" | (begins) "opcode = OP_BEGINS_WITH"
    | (mem) "opcode = OP_IN" | (exists) "opcode = OP_EXISTS"
  using assms opcode_of_range [of opcode] by (auto simp: validate_leaf_def split: if_splits)

lemma checked_ok: "checked ck ps cs ck' \<Longrightarrow> check_ok bytes ck \<Longrightarrow> check_ok bytes ck'"
  by (simp add: checked_const(1))

lemma path_refE:
  assumes "path_ref ck at = Some (Ok r)" and "check_ok bytes ck"
  obtains p ck' where "code_at bytes at (ref_bytes p)" "r = (at + length (ref_bytes p), ck')" "checked ck [p] [] ck'" "check_ok bytes ck'"
proof -
  obtain j ck' where r: "r = (j, ck')" by (cases r)
  then obtain p where "code_at bytes at (ref_bytes p)" "j = at + length (ref_bytes p)" "checked ck [p] [] ck'"
    using assms path_ref_iff [OF assms(2)] by auto
  then show thesis using that checked_ok [OF _ assms(2)] r by metis
qed

lemma constant_refE:
  assumes "constant_ref ck at = Some (Ok r)" and "check_ok bytes ck"
  obtains c ck' where "code_at bytes at (ref_bytes c)" "r = (fam_of ck c, at, at + length (ref_bytes c), ck')" "checked ck [] [c] ck'"
    "check_ok bytes ck'"
proof -
  obtain fam off j ck' where r: "r = (fam, off, j, ck')" by (cases r)
  then obtain c where "fam = fam_of ck c" "off = at" "code_at bytes at (ref_bytes c)" "j = at + length (ref_bytes c)" "checked ck [] [c] ck'"
    using assms constant_ref_iff [OF assms(2)] by auto
  then show thesis using that checked_ok [OF _ assms(2)] r by metis
qed

lemma validate_leaf_sound:
  assumes "check_ok bytes ck" and "validate_leaf opcode opat at ck = Some (Ok (j, ck'))"
  shows "\<exists>t. hd (expr_bytes t) = opcode \<and> leaf_run bytes at ck t j ck'"
  using assms(2)
proof (cases rule: validate_leaf_cases)
  case (cmp op)
  with assms(2) obtain r r' where r: "path_ref ck at = Some (Ok r)" "constant_ref (snd r) (fst r) = Some (Ok r')" "(j, ck') = snd (snd r')"
    by (auto simp: validate_leaf_simps pbind_Ok)
  obtain p ck1 where p: "code_at bytes at (ref_bytes p)" "r = (at + length (ref_bytes p), ck1)" "checked ck [p] [] ck1" "check_ok bytes ck1"
    using path_refE [OF r(1) assms(1)] .
  let ?at = "at + length (ref_bytes p)"
  have "constant_ref ck1 ?at = Some (Ok r')" using r(2) p(2) by simp
  then obtain c ck2 where c: "code_at bytes ?at (ref_bytes c)" "r' = (fam_of ck1 c, ?at, ?at + length (ref_bytes c), ck2)" "checked ck1 [] [c] ck2"
    by (rule constant_refE [OF _ p(4)])
  show ?thesis using cmp p c r(3) by (intro exI [of _ "ECmp op p c"]) (auto simp: leaf_run_def checked_split(1))
next
  case between
  with assms(2) obtain r r1 r2 where r: "path_ref ck at = Some (Ok r)" "constant_ref (snd r) (fst r) = Some (Ok r1)"
      "constant_ref (snd (snd (snd r1))) (fst (snd (snd r1))) = Some (Ok r2)" "(j, ck') = snd (snd r2)" "fst r1 = fst r2"
    by (auto simp: validate_leaf_simps pbind_Ok split: if_splits)
  obtain p ck1 where p: "code_at bytes at (ref_bytes p)" "r = (at + length (ref_bytes p), ck1)" "checked ck [p] [] ck1" "check_ok bytes ck1"
    using path_refE [OF r(1) assms(1)] .
  let ?at = "at + length (ref_bytes p)"
  have "constant_ref ck1 ?at = Some (Ok r1)" using r(2) p(2) by simp
  then obtain c ck2 where c: "code_at bytes ?at (ref_bytes c)" "r1 = (fam_of ck1 c, ?at, ?at + length (ref_bytes c), ck2)" "checked ck1 [] [c] ck2"
      "check_ok bytes ck2"
    by (rule constant_refE [OF _ p(4)])
  let ?at2 = "?at + length (ref_bytes c)"
  have "constant_ref ck2 ?at2 = Some (Ok r2)" using r(3) c(2) by simp
  then obtain d ck3 where d: "code_at bytes ?at2 (ref_bytes d)" "r2 = (fam_of ck2 d, ?at2, ?at2 + length (ref_bytes d), ck3)" "checked ck2 [] [d] ck3"
    by (rule constant_refE [OF _ c(4)])
  show ?thesis using between p c d r(4,5) checked_const(2) [OF p(3)] checked_const(2) [OF c(3)]
    by (intro exI [of _ "EBetween p c d"]) (auto simp: leaf_run_def checked_split)
next
  case begins
  with assms(2) obtain r r' where r: "path_ref ck at = Some (Ok r)" "constant_ref (snd r) (fst r) = Some (Ok r')" "(j, ck') = snd (snd r')" "fst r' = FamUtf8"
    by (auto simp: validate_leaf_simps pbind_Ok split: if_splits)
  obtain p ck1 where p: "code_at bytes at (ref_bytes p)" "r = (at + length (ref_bytes p), ck1)" "checked ck [p] [] ck1" "check_ok bytes ck1"
    using path_refE [OF r(1) assms(1)] .
  let ?at = "at + length (ref_bytes p)"
  have "constant_ref ck1 ?at = Some (Ok r')" using r(2) p(2) by simp
  then obtain c ck2 where c: "code_at bytes ?at (ref_bytes c)" "r' = (fam_of ck1 c, ?at, ?at + length (ref_bytes c), ck2)" "checked ck1 [] [c] ck2"
    by (rule constant_refE [OF _ p(4)])
  show ?thesis using begins p c r(3,4) checked_const(2) [OF p(3)]
    by (intro exI [of _ "EBeginsWith p c"]) (auto simp: leaf_run_def checked_split(1))
next
  case mem
  with assms(2) obtain r r1 where r: "path_ref ck at = Some (Ok r)" "fst r < length (ck_bytes (snd r))"
      "\<not> (unat (ck_bytes (snd r) ! fst r) < 1 \<or> unat (ck_bytes (snd r) ! fst r) > IN_MEMBERS_MAX)"
      "constant_ref (snd r) (fst r + 1) = Some (Ok r1)"
      "validate_in_members (unat (ck_bytes (snd r) ! fst r) - 1) (fst r1) (fst (snd (snd r1))) (snd (snd (snd r1))) = Some (Ok (j, ck'))"
    by (auto simp: validate_leaf_simps pbind_Ok Let_def split: if_splits)
  obtain p ck1 where p: "code_at bytes at (ref_bytes p)" "r = (at + length (ref_bytes p), ck1)" "checked ck [p] [] ck1" "check_ok bytes ck1"
    using path_refE [OF r(1) assms(1)] .
  let ?at = "at + length (ref_bytes p)"
  have b: "ck_bytes ck1 = bytes" using p(4) by (simp add: check_ok_def)
  have "constant_ref ck1 (?at + 1) = Some (Ok r1)" using r(4) p(2) by simp
  then obtain c ck2 where c: "code_at bytes (?at + 1) (ref_bytes c)" "r1 = (fam_of ck1 c, ?at + 1, ?at + 1 + length (ref_bytes c), ck2)" "checked ck1 [] [c] ck2"
      "check_ok bytes ck2"
    by (rule constant_refE [OF _ p(4)])
  obtain ms where ms: "length ms = unat (bytes ! ?at) - 1" "\<forall>m\<in>set ms. fam_of ck2 m = fam_of ck1 c"
      "code_at bytes (?at + 1 + length (ref_bytes c)) (concat (map ref_bytes ms))"
      "j = ?at + 1 + length (ref_bytes c) + length (concat (map ref_bytes ms))" "checked ck2 [] ms ck'"
    using r(5) validate_in_members_iff [OF c(4)] p(2) b c(2) by auto
  have n: "length (c # ms) = unat (bytes ! ?at)" using ms(1) r(3) p(2) b by simp
  then have "of_nat (length (c # ms)) = bytes ! ?at" by (simp only: of_nat_unat ucast_id)
  moreover have "checked ck1 [] (c # ms) ck'" using checked_append [of ck1 "[]" "[]" "[c]" ms ck'] c(3) ms(5) by auto
  ultimately show ?thesis using mem p c ms n r(2,3) b checked_const(2) [OF p(3)] checked_const(2) [OF c(3)]
    by (intro exI [of _ "EIn p (c # ms)"]) (auto simp: leaf_run_def checked_split(1))
next
  case exists
  with assms(2) have "path_ref ck at = Some (Ok (j, ck'))" by (simp add: validate_leaf_simps)
  then obtain p where "code_at bytes at (ref_bytes p)" "j = at + length (ref_bytes p)" "checked ck [p] [] ck'"
    by (rule path_refE [OF _ assms(1)]) auto
  then show ?thesis using exists by (intro exI [of _ "EExists p"]) (auto simp: leaf_run_def)
qed

lemma validate_leaf_complete:
  assumes "check_ok bytes ck" and "leaf_run bytes at ck t j ck'"
  shows "validate_leaf (hd (expr_bytes t)) opat at ck = Some (Ok (j, ck'))"
proof -
  have p: "path_ref ck at = Some (Ok (at + length (ref_bytes p), ck1))" if "code_at bytes at (ref_bytes p)" "checked ck [p] [] ck1" for p ck1
    using path_ref_iff [OF assms(1)] that by blast
  have c: "constant_ref ck1 at' = Some (Ok (fam_of ck1 c, at', at' + length (ref_bytes c), ck2))"
    if "check_ok bytes ck1" "code_at bytes at' (ref_bytes c)" "checked ck1 [] [c] ck2" for at' c ck1 ck2
    using constant_ref_iff [OF that(1)] that(2,3) by blast
  show ?thesis
  proof (cases t)
    case (ECmp op q d)
    then obtain ck1 where "checked ck [q] [] ck1" "checked ck1 [] [d] ck'"
      using assms(2) by (auto simp: leaf_run_def checked_split(1))
    then show ?thesis using ECmp assms p [of q ck1] c [of ck1 _ d ck'] checked_const(1) [of ck "[q]" "[]" ck1 bytes]
      by (auto simp: leaf_run_def validate_leaf_simps)
  next
    case (EBetween q d e)
    then obtain ck1 ck2 where ck: "checked ck [q] [] ck1" "checked ck1 [] [d] ck2" "checked ck2 [] [e] ck'"
      using assms(2) by (auto simp: leaf_run_def checked_split)
    then show ?thesis using EBetween assms p [of q ck1] c [of ck1 _ d ck2] c [of ck2 _ e ck'] checked_const(2) [OF ck(1)] checked_ok [OF ck(1), of bytes]
        checked_const(2) [OF ck(2)] checked_ok [OF ck(2), of bytes]
      by (auto simp: leaf_run_def validate_leaf_simps)
  next
    case (EBeginsWith q d)
    then obtain ck1 where ck: "checked ck [q] [] ck1" "checked ck1 [] [d] ck'"
      using assms(2) by (auto simp: leaf_run_def checked_split(1))
    then show ?thesis using EBeginsWith assms p [of q ck1] c [of ck1 _ d ck'] checked_const(2) [OF ck(1)] checked_ok [OF ck(1), of bytes]
      by (auto simp: leaf_run_def validate_leaf_simps)
  next
    case (EIn q ms)
    then obtain d ms' where ms: "ms = d # ms'" using assms(2) by (cases ms) (auto simp: leaf_run_def)
    obtain ck1 ck2 where ck: "checked ck [q] [] ck1" "checked ck1 [] [d] ck2" "checked ck2 [] ms' ck'"
      using assms(2) EIn ms checked_append [of _ "[]" "[]" "[d]" ms' ck'] by (auto simp: leaf_run_def checked_split(1))
    have "unat (of_nat (length ms) :: byte) = length ms" using assms(2) EIn by (intro unat_of_nat_byte) (simp add: leaf_run_def predicate_limits)
    moreover have "check_ok bytes ck1" "check_ok bytes ck2" "ck_bytes ck1 = bytes"
      using checked_ok [OF ck(1) assms(1)] checked_ok [OF ck(2), of bytes] by (auto simp: check_ok_def)
    ultimately show ?thesis using EIn ms assms(2) p [of q ck1] c [of ck1 _ d ck2] ck checked_const(2) [OF ck(1)] checked_ok [OF ck(1), of bytes]
        checked_const(2) [OF ck(2)] checked_ok [OF ck(2), of bytes] validate_in_members_iff [of bytes ck2 "length ms'" "fam_of ck d"]
      by (auto simp: leaf_run_def validate_leaf_simps Let_def)
  next
    case (EExists q)
    then show ?thesis using assms p [of q ck'] by (auto simp: leaf_run_def validate_leaf_simps)
  qed (use assms(2) in \<open>auto simp: leaf_run_def\<close>)
qed

text \<open>
  The levels of the operands a frame stack still waits for: one on the level of the top frame, then what every frame
  waits for beyond the operand under way.
\<close>

fun waiting :: "byte list \<Rightarrow> nat list" where
  "waiting [] = []"
| "waiting (n # stack) = replicate (unat n - 1) (Suc (length stack)) @ waiting stack"

fun pending :: "byte list \<Rightarrow> nat list" where
  "pending [] = []"
| "pending (n # stack) = Suc (length stack) # waiting (n # stack)"

lemma settle_pending: "0 \<notin> set stack \<Longrightarrow> pending (settle stack) = waiting stack \<and> 0 \<notin> set (settle stack)"
proof (induction stack)
  case (Cons t stack)
  show ?case
  proof (cases "t - 1 > 0")
    case True
    then have "0 < unat (t - 1)" by (simp add: word_less_nat_alt)
    then show ?thesis using Cons.prems True unat_minus_one [of t] by (cases "unat t - 1") auto
  next
    case False
    then have "t = 1" by (metis right_minus_eq word_neq_0_conv)
    then show ?thesis using Cons False by simp
  qed
qed simp

lemma pending_push: "n \<noteq> 0 \<Longrightarrow> pending (n # stack) = replicate (unat n) (Suc (length stack)) @ waiting stack"
  by (cases "unat n") (auto simp: unat_eq_0)

lemma pending_one: "pending (1 # stack) = Suc (length stack) # waiting stack"
  by simp

declare pending.simps(2) [simp del] waiting.simps(2) [simp del]

text \<open>A stretch of tape that codes expressions, each on its level.\<close>

definition forest_run :: "bytes \<Rightarrow> nat \<Rightarrow> ExprCheck \<Rightarrow> tape list \<Rightarrow> nat list \<Rightarrow> nat \<Rightarrow> nat \<Rightarrow> ExprCheck \<Rightarrow> bool" where
  "forest_run bytes at ck ts ls ops j ck' \<longleftrightarrow>
     list_all2 (\<lambda>t l. well_typed (fam_of ck) (fam_of ck) t \<and> within_depth l t) ts ls \<and>
     code_at bytes at (concat (map expr_bytes ts)) \<and> j = at + length (concat (map expr_bytes ts)) \<and>
     ops + sum_list (map ops_of ts) \<le> OPS_MAX \<and> checked ck (concat (map expr_paths ts)) (concat (map expr_consts ts)) ck'"

lemma list_all2_replicate: "list_all2 P xs (replicate n y) \<longleftrightarrow> length xs = n \<and> (\<forall>x\<in>set xs. P x y)"
proof (induction xs arbitrary: n)
  case (Cons x xs)
  then show ?case by (cases n) auto
qed auto

lemma list_all2_replicate_append:
  "list_all2 P (xs @ ts) (replicate (length xs) y @ ls) \<longleftrightarrow> (\<forall>x\<in>set xs. P x y) \<and> list_all2 P ts ls"
  by (auto simp: list_all2_append list_all2_replicate)

lemma forest_and: "forest_run bytes at ck (EAnd es # ts) (l # ls) ops j ck' \<longleftrightarrow> l \<le> NESTING_DEPTH_MAX \<and>
    2 \<le> length es \<and> length es \<le> BOOL_ARITY_MAX \<and> code_at bytes at [OP_AND, of_nat (length es)] \<and>
    forest_run bytes (at + 2) ck (es @ ts) (replicate (length es) (Suc l) @ ls) (ops + 1) j ck'"
  by (auto simp: forest_run_def list_all2_replicate_append)

lemma forest_or: "forest_run bytes at ck (EOr es # ts) (l # ls) ops j ck' \<longleftrightarrow> l \<le> NESTING_DEPTH_MAX \<and>
    2 \<le> length es \<and> length es \<le> BOOL_ARITY_MAX \<and> code_at bytes at [OP_OR, of_nat (length es)] \<and>
    forest_run bytes (at + 2) ck (es @ ts) (replicate (length es) (Suc l) @ ls) (ops + 1) j ck'"
  by (auto simp: forest_run_def list_all2_replicate_append)

lemma forest_not: "forest_run bytes at ck (ENot e # ts) (l # ls) ops j ck' \<longleftrightarrow> l \<le> NESTING_DEPTH_MAX \<and>
    code_at bytes at [OP_NOT] \<and> forest_run bytes (at + 1) ck (e # ts) (Suc l # ls) (ops + 1) j ck'"
  by (auto simp: forest_run_def)

lemma leaf_bytes: "is_leaf t \<Longrightarrow> expr_bytes t = hd (expr_bytes t) # tl (expr_bytes t)"
  by (cases t) simp_all

lemma forest_leaf:
  assumes "is_leaf t"
  shows "forest_run bytes at ck (t # ts) (l # ls) ops j ck' \<longleftrightarrow> l \<le> NESTING_DEPTH_MAX \<and> code_at bytes at [hd (expr_bytes t)] \<and>
    (\<exists>k ck1. leaf_run bytes (at + 1) ck t k ck1 \<and> forest_run bytes k ck1 ts ls (ops + 1) j ck')"
proof -
  obtain b code where c: "expr_bytes t = b # code" using leaf_bytes [OF assms] by blast
  let ?ps = "concat (map expr_paths ts)" and ?cs = "concat (map expr_consts ts)"
  have split: "checked ck (expr_paths t @ ?ps) (expr_consts t @ ?cs) ck' \<longleftrightarrow>
      (\<exists>ck1. checked ck (expr_paths t) (expr_consts t) ck1 \<and> checked ck1 ?ps ?cs ck')" by (rule checked_append)
  show ?thesis
  proof
    assume "forest_run bytes at ck (t # ts) (l # ls) ops j ck'"
    moreover from this obtain ck1 where "checked ck (expr_paths t) (expr_consts t) ck1" "checked ck1 ?ps ?cs ck'"
      using split by (auto simp: forest_run_def)
    ultimately show "l \<le> NESTING_DEPTH_MAX \<and> code_at bytes at [hd (expr_bytes t)] \<and>
        (\<exists>k ck1. leaf_run bytes (at + 1) ck t k ck1 \<and> forest_run bytes k ck1 ts ls (ops + 1) j ck')"
      using c assms leaf_ops [OF assms] checked_const(2) [of ck _ _ ck1]
      by (auto simp: forest_run_def leaf_run_def intro!: exI [of _ ck1])
  next
    assume "l \<le> NESTING_DEPTH_MAX \<and> code_at bytes at [hd (expr_bytes t)] \<and>
        (\<exists>k ck1. leaf_run bytes (at + 1) ck t k ck1 \<and> forest_run bytes k ck1 ts ls (ops + 1) j ck')"
    moreover from this obtain k ck1 where "leaf_run bytes (at + 1) ck t k ck1" "forest_run bytes k ck1 ts ls (ops + 1) j ck'" by blast
    moreover from this have "checked ck (expr_paths t @ ?ps) (expr_consts t @ ?cs) ck'" "ck_constants ck1 = ck_constants ck"
      using split checked_const(2) by (auto simp: forest_run_def leaf_run_def)
    ultimately show "forest_run bytes at ck (t # ts) (l # ls) ops j ck'"
      using c assms leaf_ops [OF assms] by (auto simp: forest_run_def leaf_run_def)
  qed
qed

text \<open>What the validator accepts codes expressions on the levels its stack waits for.\<close>

lemma validate_ops_sound:
  assumes "validate_ops bytes at stack ops ck = Some (Ok (j, ck'))" and "check_ok bytes ck" and "0 \<notin> set stack" and "ops \<le> OPS_MAX"
  shows "\<exists>ts. forest_run bytes at ck ts (pending stack) ops j ck'"
  using assms
proof (induction bytes at stack ops ck rule: validate_ops.induct)
  case (1 bytes at stack ops ck)
  show ?case
  proof (cases stack)
    case Nil
    then have "j = at \<and> ck' = ck" using "1.prems"(1) by (auto simp: validate_ops.simps [of bytes at "[]"])
    then show ?thesis using Nil "1.prems"(4) by (intro exI [of _ "[]"]) (simp add: forest_run_def)
  next
    case (Cons m ms)
    then have p: "pending stack = length stack # waiting stack" by (simp add: pending.simps(2))
    note run = "1.prems"(1) [unfolded validate_ops.simps [of bytes at stack]]
    have g: "length stack \<le> NESTING_DEPTH_MAX" "ops + 1 \<le> OPS_MAX" "at < length bytes"
      using run Cons by (auto split: if_splits)
    consider (bool) "bytes ! at = OP_AND \<or> bytes ! at = OP_OR" | (neg) "bytes ! at = OP_NOT"
      | (leaf) "bytes ! at \<notin> {OP_AND, OP_OR, OP_NOT}" by auto
    then show ?thesis
    proof cases
      case bool
      then have n: "at + 1 < length bytes" "2 \<le> unat (bytes ! (at + 1))" "unat (bytes ! (at + 1)) \<le> BOOL_ARITY_MAX"
          "validate_ops bytes (at + 2) (bytes ! (at + 1) # stack) (ops + 1) ck = Some (Ok (j, ck'))"
        using run Cons g by (auto simp: Let_def split: if_splits)
      let ?n = "bytes ! (at + 1)"
      have "?n \<noteq> 0" using n(2) by auto
      then obtain ts where ts: "forest_run bytes (at + 2) ck ts (replicate (unat ?n) (Suc (length stack)) @ waiting stack) (ops + 1) j ck'"
        unfolding pending_push [OF \<open>?n \<noteq> 0\<close>, symmetric] using "1.IH"(1) [OF _ _ _ _ bool n(1) refl] n g Cons "1.prems"(2,3) by auto
      define es rest where "es = take (unat ?n) ts" and "rest = drop (unat ?n) ts"
      have "length ts \<ge> unat ?n" using ts by (auto simp: forest_run_def dest: list_all2_lengthD)
      then have e: "ts = es @ rest" "length es = unat ?n" by (simp_all add: es_def rest_def)
      have c: "of_nat (length es) = ?n" by (simp only: e(2) of_nat_unat ucast_id)
      show ?thesis
      proof (cases "bytes ! at = OP_AND")
        case True
        then have "forest_run bytes at ck (EAnd es # rest) (pending stack) ops j ck'"
          using ts e c n(1-3) g unfolding p forest_and by auto
        then show ?thesis by blast
      next
        case False
        then have "forest_run bytes at ck (EOr es # rest) (pending stack) ops j ck'"
          using ts e c n(1-3) g bool unfolding p forest_or by auto
        then show ?thesis by blast
      qed
    next
      case neg
      then have n: "validate_ops bytes (at + 1) (1 # stack) (ops + 1) ck = Some (Ok (j, ck'))" "bytes ! at \<noteq> OP_AND" "bytes ! at \<noteq> OP_OR"
        using run Cons g by (auto simp: predicate_ops)
      then obtain ts where ts: "forest_run bytes (at + 1) ck ts (Suc (length stack) # waiting stack) (ops + 1) j ck'"
        using "1.IH"(2) [OF _ _ _ _ _ neg] g Cons "1.prems"(2,3) pending_one [of stack] by auto
      then obtain e rest where "ts = e # rest" by (cases ts) (auto simp: forest_run_def)
      then have "forest_run bytes at ck (ENot e # rest) (pending stack) ops j ck'" using ts g neg unfolding p forest_not by auto
      then show ?thesis by blast
    next
      case leaf
      then obtain k ck1 where n: "validate_leaf (bytes ! at) at (at + 1) ck = Some (Ok (k, ck1))"
          "validate_ops bytes k (settle stack) (ops + 1) ck1 = Some (Ok (j, ck'))"
        using run Cons g by (auto split: option.splits sum.splits)
      obtain t where t: "hd (expr_bytes t) = bytes ! at" "leaf_run bytes (at + 1) ck t k ck1"
        using validate_leaf_sound [OF "1.prems"(2) n(1)] by blast
      then have "check_ok bytes ck1" "is_leaf t" using checked_ok [OF _ "1.prems"(2)] by (auto simp: leaf_run_def)
      then obtain ts where "forest_run bytes k ck1 ts (waiting stack) (ops + 1) j ck'"
        using "1.IH"(3) [OF _ _ _ _ _ _ n(1) refl refl] n(2) g Cons leaf settle_pending [OF "1.prems"(3)] by auto
      then have "forest_run bytes at ck (t # ts) (pending stack) ops j ck'"
        using t g unfolding p forest_leaf [OF \<open>is_leaf t\<close>] by auto
      then show ?thesis by blast
    qed
  qed
qed

lemma validate_ops_complete:
  assumes "forest_run bytes at ck ts (pending stack) ops j ck'" and "check_ok bytes ck" and "0 \<notin> set stack"
  shows "validate_ops bytes at stack ops ck = Some (Ok (j, ck'))"
  using assms
proof (induction bytes at stack ops ck arbitrary: ts rule: validate_ops.induct)
  case (1 bytes at stack ops ck)
  show ?case
  proof (cases stack)
    case Nil
    then show ?thesis using "1.prems"(1) by (auto simp: forest_run_def validate_ops.simps [of bytes at "[]"])
  next
    case (Cons m ms)
    then have p: "pending stack = length stack # waiting stack" by (simp add: pending.simps(2))
    then obtain t rest where ts: "ts = t # rest" using "1.prems"(1) by (cases ts) (auto simp: forest_run_def)
    note f = "1.prems"(1) [unfolded p ts]
    have "ops + ops_of t \<le> OPS_MAX" using f by (simp add: forest_run_def)
    then have ops: "ops + 1 \<le> OPS_MAX" using ops_of_pos [of t] by linarith
    have lv: "length stack \<le> NESTING_DEPTH_MAX" using f within_depth_le by (auto simp: forest_run_def)
    have bool: "validate_ops bytes at stack ops ck = Some (Ok (j, ck'))"
      if "op = OP_AND \<or> op = OP_OR" "code_at bytes at [op, of_nat (length es)]" "2 \<le> length es" "length es \<le> BOOL_ARITY_MAX"
        "forest_run bytes (at + 2) ck (es @ rest) (replicate (length es) (Suc (length stack)) @ waiting stack) (ops + 1) j ck'" for op es
    proof -
      have n: "unat (of_nat (length es) :: byte) = length es" using that(4) by (intro unat_of_nat_byte) (simp add: predicate_limits)
      then have "(of_nat (length es) :: byte) \<noteq> 0" using that(3) by auto
      then have "validate_ops bytes (at + 2) (of_nat (length es) # stack) (ops + 1) ck = Some (Ok (j, ck'))"
        using "1.IH"(1) [of "of_nat (length es)" "es @ rest"] that n Cons ops lv "1.prems"(2,3) pending_push [of "of_nat (length es)" stack]
        by auto
      then show ?thesis using that n Cons ops lv by (subst validate_ops.simps) (auto simp: Let_def)
    qed
    show ?thesis
    proof (cases "is_leaf t")
      case True
      then obtain k ck1 where k: "code_at bytes at [hd (expr_bytes t)]" "leaf_run bytes (at + 1) ck t k ck1"
          "forest_run bytes k ck1 rest (waiting stack) (ops + 1) j ck'"
        using f unfolding forest_leaf [OF True] by blast
      then have v: "validate_leaf (bytes ! at) at (at + 1) ck = Some (Ok (k, ck1))" and ck1: "check_ok bytes ck1"
        using validate_leaf_complete [OF "1.prems"(2) k(2), of at] checked_ok [OF _ "1.prems"(2)] by (auto simp: leaf_run_def)
      have b: "bytes ! at \<notin> {OP_AND, OP_OR, OP_NOT}" "at < length bytes"
        using k(1) True op_distinct by (cases t; auto simp: predicate_ops)+
      have "validate_ops bytes k (settle stack) (ops + 1) ck1 = Some (Ok (j, ck'))"
        using "1.IH"(3) [OF _ _ _ _ _ _ v refl refl, of rest] b ops lv Cons k(3) ck1 settle_pending [OF "1.prems"(3)] by auto
      then show ?thesis using v b ops lv Cons by (subst validate_ops.simps) auto
    next
      case False
      then consider (conj) es where "t = EAnd es" | (disj) es where "t = EOr es" | (neg) e where "t = ENot e" by (cases t) auto
      then show ?thesis
      proof cases
        case conj
        then show ?thesis using bool [of OP_AND es] f by (simp add: forest_and)
      next
        case disj
        then show ?thesis using bool [of OP_OR es] f by (simp add: forest_or)
      next
        case neg
        then have n: "bytes ! at = OP_NOT" "at < length bytes" "forest_run bytes (at + 1) ck (e # rest) (Suc (length stack) # waiting stack) (ops + 1) j ck'"
          using f by (auto simp: forest_not)
        then have "validate_ops bytes (at + 1) (1 # stack) (ops + 1) ck = Some (Ok (j, ck'))"
          using "1.IH"(2) [of "e # rest"] ops lv Cons "1.prems"(2,3) pending_one [of stack] by (auto simp: predicate_ops)
        then show ?thesis using n ops lv Cons by (subst validate_ops.simps) (auto simp: predicate_ops)
      qed
    qed
  qed
qed

end
