(* ===== verification/PredCodec.thy ===== *)
theory PredCodec
  imports PredTape
begin

text \<open>
  The shape of a valid predicate program: the validator accepts exactly the byte strings made of a pool of distinct
  valid paths, a pool of distinct canonical constants and a well-typed tape that refers to them in the order of first use.
\<close>

section \<open>Constants\<close>

lemma pred_zigzag_eq: "pred_zigzag = zigzag"
  by (rule ext) (simp add: pred_zigzag_def zigzag_def)

lemma pred_unzigzag_eq: "pred_unzigzag = unzigzag"
  by (rule ext) (simp add: pred_unzigzag_def unzigzag_def low_bit)

fun const_code :: "Constant \<Rightarrow> bytes" where
  "const_code (CI64 v) = CONST_I64 # encode_u64 (zigzag v)"
| "const_code (CF64 f) = CONST_F64 # be_bytes 8 f"
| "const_code (CBool b) = [CONST_BOOL, if b then 1 else 0]"
| "const_code (CUtf8 s) = CONST_UTF8 # path_entry s"

fun const_ok :: "Constant \<Rightarrow> bool" where
  "const_ok (CF64 f) \<longleftrightarrow> is_finite f \<and> (f64_eq f 0 \<longrightarrow> f = 0)"
| "const_ok (CUtf8 s) \<longleftrightarrow> utf8_valid s \<and> length s < 2 ^ 64"
| "const_ok _ \<longleftrightarrow> True"

text \<open>The strings of the source are valid UTF-8 by type. A zero constant loses its sign.\<close>

fun const_typed :: "Constant \<Rightarrow> bool" where
  "const_typed (CUtf8 s) \<longleftrightarrow> utf8_valid s \<and> length s < 2 ^ 64"
| "const_typed _ \<longleftrightarrow> True"

fun norm_const :: "Constant \<Rightarrow> Constant" where
  "norm_const (CF64 f) = CF64 (if f64_eq f 0 then 0 else f)"
| "norm_const c = c"

lemma constant_bytes_ok: "const_ok c \<Longrightarrow> constant_bytes c = Ok (const_code c)"
  by (cases c) (auto simp: pred_zigzag_eq utf8_constant_bytes_def path_entry_def)

lemma f64_zero: "f64_eq 0 0" "is_finite 0"
  by (simp_all add: f64_eq_zero is_nan_def is_finite_def f64_mag_def)

lemma f64_eq_zero_finite: "f64_eq f 0 \<Longrightarrow> is_finite f"
proof -
  assume eq: "f64_eq f 0"
  then have "\<not> is_nan f" by (simp add: f64_eq_def)
  then show ?thesis using f64_eq_zero eq by (simp add: is_finite_def)
qed

lemma constant_bytes_norm: "constant_bytes (norm_const c) = constant_bytes c"
  using f64_zero f64_eq_zero_finite by (cases c) (auto simp: Let_def)

lemma norm_const_family [simp]: "family (norm_const c) = family c"
  by (cases c) auto

lemma norm_const_ok: "const_typed c \<Longrightarrow> constant_bytes c = Ok bs \<Longrightarrow> const_ok (norm_const c)"
  using f64_zero by (cases c) (auto split: if_splits)

lemma const_ok_norm: "const_ok c \<Longrightarrow> norm_const c = c"
  by (cases c) auto

text \<open>A region behind its length.\<close>

lemma region_end_Some: "region_end len start n = Some e \<longleftrightarrow> unat len + start < 2 ^ 64 \<and> e = unat len + start \<and> e \<le> n"
  by (auto simp: region_end_def bind_eq_Some_conv checked_add_usize_Some)

lemma region_sound:
  assumes "code_at bytes at (encode_u64 len)" and "region_end len (at + length (encode_u64 len)) (length bytes) = Some stop"
  defines "xs \<equiv> sub_slice bytes (at + length (encode_u64 len)) stop"
  shows "code_at bytes at (path_entry xs)" and "stop = at + length (path_entry xs)" and "length xs < 2 ^ 64"
proof -
  have n: "length xs = unat len" using assms(2) by (auto simp: xs_def region_end_Some)
  then show "length xs < 2 ^ 64" using unsigned_less [of len] by simp
  have "code_at bytes (at + length (encode_u64 len)) xs" unfolding xs_def sub_slice_def by (rule code_at_self)
  then show "code_at bytes at (path_entry xs)" "stop = at + length (path_entry xs)"
    using assms(1,2) n by (auto simp: path_entry_def region_end_Some)
qed

lemma region_complete:
  assumes "code_at bytes at (path_entry xs)" and "length bytes < 2 ^ 64"
  defines "len \<equiv> of_nat (length xs) :: u64"
  shows "code_at bytes at (encode_u64 len)"
    and "region_end len (at + length (encode_u64 len)) (length bytes) = Some (at + length (path_entry xs))"
    and "sub_slice bytes (at + length (encode_u64 len)) (at + length (path_entry xs)) = xs"
proof -
  let ?at = "at + length (encode_u64 len)"
  have "path_entry xs \<noteq> []" using encode_u64_bound [of "of_nat (length xs)"] by (auto simp: path_entry_def)
  then have le: "at + length (path_entry xs) \<le> length bytes" using code_at_le [OF assms(1)] by simp
  then have "unat len = length xs" using assms(2) unfolding len_def by (intro unat_of_nat_u64) (simp add: path_entry_def)
  then show "region_end len ?at (length bytes) = Some (at + length (path_entry xs))"
    using le assms(2) by (simp add: region_end_Some path_entry_def len_def)
  show "code_at bytes at (encode_u64 len)" using assms(1) by (simp add: path_entry_def len_def)
  have "code_at bytes ?at xs" using assms(1) by (simp add: path_entry_def len_def)
  then show "sub_slice bytes ?at (at + length (path_entry xs)) = xs"
    using code_at_take by (simp add: sub_slice_def path_entry_def len_def)
qed

lemma trusted_varint_at: "code_at bytes at (encode_u64 v) \<Longrightarrow> trusted_varint bytes at = Some (v, at + length (encode_u64 v))"
  using decode_u64_at [of at bytes v] by (simp add: trusted_varint_def)

lemma trusted_region_at:
  assumes "code_at bytes at (path_entry xs)" and "length bytes < 2 ^ 64"
  shows "trusted_region bytes at = Some (xs, at + length (path_entry xs))"
proof -
  note r = region_complete [OF assms]
  let ?start = "at + length (encode_u64 (of_nat (length xs)))"
  have "get_range bytes ?start (at + length (path_entry xs)) = Some xs"
    using r(2,3) by (simp add: get_range_Some region_end_Some path_entry_def)
  then show ?thesis using trusted_varint_at [OF r(1)] r(2) by (simp add: trusted_region_def)
qed

lemma bool_byte: "b \<le> 1 \<Longrightarrow> b = (if b = 1 then 1 else 0)" for b :: byte
  by (auto simp: word_le_nat_alt word_unat_eq_iff)

lemma validate_constant_sound:
  assumes "validate_constant bytes at = Some (Ok (fam, j))" and "length bytes < 2 ^ 64"
  shows "\<exists>c. const_ok c \<and> fam = family c \<and> code_at bytes at (const_code c) \<and> j = at + length (const_code c)"
proof -
  have at: "at < length bytes" using assms(1) by (auto simp: validate_constant_def split: if_splits)
  consider (int) "bytes ! at = CONST_I64" | (float) "bytes ! at = CONST_F64" | (bool) "bytes ! at = CONST_BOOL" | (utf) "bytes ! at = CONST_UTF8"
    using assms(1) by (auto simp: validate_constant_def Let_def split: if_splits)
  then show ?thesis
  proof cases
    case int
    then obtain u where "code_at bytes (at + 1) (encode_u64 u)" "j = at + 1 + length (encode_u64 u)" "fam = FamNumeric"
      using assms(1) at by (auto simp: validate_constant_def Let_def pbind_Ok read_varint_at_iff)
    then show ?thesis using int at by (intro exI [of _ "CI64 (unzigzag u)"]) auto
  next
    case float
    let ?stop = "at + 1 + 8"
    let ?f = "of_be_bytes (sub_slice bytes (at + 1) ?stop) :: f64"
    have "validate_constant bytes at = (if ?stop \<le> length bytes then
        if \<not> is_finite ?f \<or> (f64_eq ?f 0 \<and> ?f \<noteq> 0) then Some (Err (PredicateError (at + 1) PkBadConstant)) else Some (Ok (FamNumeric, ?stop))
        else Some (Err (PredicateError (at + 1) PkTruncated)))"
      using float at assms(2) by (simp add: validate_constant_def constant_tags checked_add_usize_def Let_def)
    then have f: "?stop \<le> length bytes" "is_finite ?f" "f64_eq ?f 0 \<longrightarrow> ?f = 0" "j = ?stop" "fam = FamNumeric"
      using assms(1) by (auto split: if_splits)
    then have "be_bytes 8 ?f = sub_slice bytes (at + 1) ?stop" by (intro be_bytes_of_be_bytes) auto
    then have "code_at bytes (at + 1) (be_bytes 8 ?f)" using code_at_self [of bytes "at + 1" 8] by (simp add: sub_slice_def)
    then show ?thesis using f float at by (intro exI [of _ "CF64 ?f"]) auto
  next
    case bool
    then have b: "at + 1 < length bytes" "bytes ! (at + 1) \<le> 1" "j = at + 2" "fam = FamBool"
      using assms(1) at by (auto simp: validate_constant_def Let_def constant_tags split: if_splits)
    then show ?thesis using bool at bool_byte [OF b(2)] by (intro exI [of _ "CBool (bytes ! (at + 1) = 1)"]) auto
  next
    case utf
    then obtain len stop where l: "code_at bytes (at + 1) (encode_u64 len)"
        "region_end len (at + 1 + length (encode_u64 len)) (length bytes) = Some stop" "j = stop" "fam = FamUtf8"
        "utf8_valid (sub_slice bytes (at + 1 + length (encode_u64 len)) stop)"
      using assms(1) at
      by (auto simp: validate_constant_def Let_def pbind_Ok read_varint_at_iff constant_tags split: if_splits option.splits)
    then show ?thesis using utf at region_sound [OF l(1,2)]
      by (intro exI [of _ "CUtf8 (sub_slice bytes (at + 1 + length (encode_u64 len)) stop)"]) auto
  qed
qed

lemma validate_constant_complete:
  assumes "const_ok c" and "code_at bytes at (const_code c)" and "length bytes < 2 ^ 64"
  shows "validate_constant bytes at = Some (Ok (family c, at + length (const_code c)))"
    and "decode_constant bytes at = Some (c, at + length (const_code c))"
proof -
  have "validate_constant bytes at = Some (Ok (family c, at + length (const_code c))) \<and>
    decode_constant bytes at = Some (c, at + length (const_code c))"
  proof (cases c)
    case (CI64 v)
    then have "read_varint_at bytes (at + 1) = Some (Ok (zigzag v, at + 1 + length (encode_u64 (zigzag v))))"
        "trusted_varint bytes (at + 1) = Some (zigzag v, at + 1 + length (encode_u64 (zigzag v)))"
      using assms(2) by (auto simp: read_varint_at_iff trusted_varint_def decode_u64_at)
    then show ?thesis using CI64 assms(2) by (simp add: validate_constant_def decode_constant_def pred_unzigzag_eq)
  next
    case (CF64 f)
    have c: "code_at bytes (at + 1) (be_bytes 8 f)" using CF64 assms(2) by simp
    let ?stop = "at + 1 + 8"
    have b: "sub_slice bytes (at + 1) ?stop = be_bytes 8 f" using code_at_take [OF c] by (simp add: sub_slice_def)
    have "be_bytes 8 f \<noteq> []" by (metis length_be_bytes list.size(3) zero_neq_numeral)
    then have "?stop \<le> length bytes" using code_at_le [OF c] by simp
    moreover have "of_be_bytes (be_bytes 8 f) = f" by (rule of_be_bytes_be_bytes) simp
    ultimately show ?thesis using CF64 assms b
      by (simp add: validate_constant_def decode_constant_def constant_tags Let_def checked_add_usize_def)
  next
    case (CBool b)
    then show ?thesis using assms(2) by (auto simp: validate_constant_def decode_constant_def constant_tags Let_def word_le_nat_alt)
  next
    case (CUtf8 s)
    then have s: "code_at bytes (at + 1) (path_entry s)" "at < length bytes" "bytes ! at = CONST_UTF8" "utf8_valid s" using assms by auto
    note r = region_complete [OF s(1) assms(3)]
    have "read_varint_at bytes (at + 1) = Some (Ok (of_nat (length s), at + 1 + length (encode_u64 (of_nat (length s)))))"
      using r(1) by (simp add: read_varint_at_iff)
    moreover have "trusted_region bytes (at + 1) = Some (s, at + 1 + length (path_entry s))" by (rule trusted_region_at [OF s(1) assms(3)])
    ultimately show ?thesis using CUtf8 s r by (simp add: validate_constant_def decode_constant_def constant_tags)
  qed
  then show "validate_constant bytes at = Some (Ok (family c, at + length (const_code c)))"
    and "decode_constant bytes at = Some (c, at + length (const_code c))" by blast+
qed

section \<open>Pools\<close>

definition path_ok :: "bytes \<Rightarrow> bool" where
  "path_ok p \<longleftrightarrow> path_from_bytes p = Ok p \<and> is_legacy p = Some False"

abbreviation texts :: "bytes \<Rightarrow> (nat \<times> nat) list \<Rightarrow> bytes list" where
  "texts bytes spans \<equiv> map (\<lambda>(s, e). sub_slice bytes s e) spans"

lemma path_from_bytes_same: "path_from_bytes p = Ok q \<Longrightarrow> q = p"
  by (auto simp: path_from_bytes_def rbind_Ok)

lemma validate_path_entries_sound:
  assumes "validate_path_entries n bytes at spans = Some (Ok (spans', j))" and "distinct (texts bytes spans)"
  shows "\<exists>ps. length ps = n \<and> code_at bytes at (concat (map path_entry ps)) \<and> j = at + length (concat (map path_entry ps)) \<and>
    (\<forall>p\<in>set ps. path_ok p) \<and> texts bytes spans' = texts bytes spans @ ps \<and> distinct (texts bytes spans')"
  using assms
proof (induction n arbitrary: at spans)
  case (Suc n)
  then obtain len stop where l: "code_at bytes at (encode_u64 len)"
      "region_end len (at + length (encode_u64 len)) (length bytes) = Some stop" (is "region_end len ?start _ = _")
    by (auto simp: pbind_Ok read_varint_at_iff split: option.splits)
  let ?p = "sub_slice bytes ?start stop"
  have v: "read_varint_at bytes at = Some (Ok (len, ?start))" using l(1) by (simp add: read_varint_at_iff)
  obtain q where q: "path_from_bytes ?p = Ok q" using Suc.prems(1) v l(2) by (auto split: sum.splits)
  then have q': "q = ?p" by (rule path_from_bytes_same)
  have ok: "path_ok ?p" and new: "?p \<notin> set (texts bytes spans)"
      and rest: "validate_path_entries n bytes stop (spans @ [(?start, stop)]) = Some (Ok (spans', j))"
    using Suc.prems(1) v l(2) q q' by (auto simp: path_ok_def bind_eq_Some_conv split: if_splits)
  obtain ps where "length ps = n" "code_at bytes stop (concat (map path_entry ps))" "j = stop + length (concat (map path_entry ps))"
      "\<forall>p\<in>set ps. path_ok p" "texts bytes spans' = texts bytes (spans @ [(?start, stop)]) @ ps" "distinct (texts bytes spans')"
    using Suc.IH [OF rest] Suc.prems(2) new by auto
  then show ?case using region_sound [OF l] ok by (intro exI [of _ "?p # ps"]) auto
qed simp

lemma validate_path_entries_complete:
  assumes "code_at bytes at (concat (map path_entry ps))" and "\<forall>p\<in>set ps. path_ok p" and "distinct (texts bytes spans @ ps)"
    and "length bytes < 2 ^ 64"
  shows "(\<exists>spans'. validate_path_entries (length ps) bytes at spans = Some (Ok (spans', at + length (concat (map path_entry ps)))) \<and>
      length spans' = length spans + length ps) \<and>
    decode_path_entries (length ps) bytes at = Some (ps, at + length (concat (map path_entry ps)))"
  using assms(1-3)
proof (induction ps arbitrary: at spans)
  case (Cons p ps)
  let ?start = "at + length (encode_u64 (of_nat (length p)))" and ?stop = "at + length (path_entry p)"
  have "code_at bytes at (path_entry p)" using Cons.prems(1) by simp
  note r = region_complete [OF this assms(4)] and t = trusted_region_at [OF this assms(4)]
  have v: "read_varint_at bytes at = Some (Ok (of_nat (length p), ?start))" using r(1) by (simp add: read_varint_at_iff)
  have ok: "path_from_bytes p = Ok p" "is_legacy p = Some False" using Cons.prems(2) by (auto simp: path_ok_def)
  have "p \<notin> set (texts bytes spans)" using Cons.prems(3) by auto
  then have step: "validate_path_entries (Suc (length ps)) bytes at spans = validate_path_entries (length ps) bytes ?stop (spans @ [(?start, ?stop)])"
    using v r(2,3) ok by auto
  have "distinct (texts bytes (spans @ [(?start, ?stop)]) @ ps)" using Cons.prems(3) r(3) by auto
  from Cons.IH [OF _ _ this, of ?stop] Cons.prems(1,2) show ?case using step t ok by (auto simp: add.assoc)
qed simp

lemma encode_u64_prefix_inj: "encode_u64 v @ xs = encode_u64 w @ ys \<Longrightarrow> v = w \<and> xs = ys"
  using decode_encode_u64 [of v xs] decode_encode_u64 [of w ys] by simp

lemma const_code_inj: "const_ok c \<Longrightarrow> const_ok d \<Longrightarrow> const_code c = const_code d \<Longrightarrow> c = d"
proof (cases c)
  case (CI64 v)
  assume "const_code c = const_code d"
  then obtain w where "d = CI64 w" "encode_u64 (zigzag v) @ [] = encode_u64 (zigzag w) @ []"
    using CI64 by (cases d) (auto simp: constant_tags)
  then show ?thesis using CI64 encode_u64_prefix_inj unzigzag_zigzag by metis
next
  case (CF64 f)
  assume "const_code c = const_code d"
  then obtain g where "d = CF64 g" "be_bytes 8 f = be_bytes 8 g" using CF64 by (cases d) (auto simp: constant_tags)
  moreover have "of_be_bytes (be_bytes 8 h) = h" for h :: u64 by (rule of_be_bytes_be_bytes) simp
  ultimately show ?thesis using CF64 by metis
next
  case (CUtf8 s)
  assume "const_code c = const_code d"
  then obtain r where "d = CUtf8 r" "encode_u64 (of_nat (length s)) @ s = encode_u64 (of_nat (length r)) @ r"
    using CUtf8 by (cases d) (auto simp: constant_tags path_entry_def)
  then show ?thesis using CUtf8 encode_u64_prefix_inj by blast
next
  case (CBool b)
  assume "const_code c = const_code d"
  then show ?thesis using CBool by (cases d) (auto simp: constant_tags split: if_splits)
qed

lemma validate_constant_entries_sound:
  assumes "validate_constant_entries n bytes at ks = Some (Ok (ks', j))" and "length bytes < 2 ^ 64"
    and "distinct (texts bytes (map fst ks))"
  shows "\<exists>cs. length cs = n \<and> code_at bytes at (concat (map const_code cs)) \<and> j = at + length (concat (map const_code cs)) \<and>
    (\<forall>c\<in>set cs. const_ok c) \<and> texts bytes (map fst ks') = texts bytes (map fst ks) @ map const_code cs \<and>
    map snd ks' = map snd ks @ map family cs \<and> distinct (texts bytes (map fst ks'))"
  using assms(1,3)
proof (induction n arbitrary: at ks)
  case (Suc n)
  then obtain fam k where k: "validate_constant bytes at = Some (Ok (fam, k))" by (auto simp: pbind_Ok)
  then obtain c where c: "const_ok c" "fam = family c" "code_at bytes at (const_code c)" "k = at + length (const_code c)"
    using validate_constant_sound [OF k assms(2)] by blast
  have s: "sub_slice bytes at k = const_code c" using code_at_take [OF c(3)] c(4) by (simp add: sub_slice_def)
  have new: "const_code c \<notin> set (texts bytes (map fst ks))"
      and rest: "validate_constant_entries n bytes k (ks @ [((at, k), fam)]) = Some (Ok (ks', j))"
    using Suc.prems(1) k s by (auto split: if_splits)
  have "distinct (texts bytes (map fst (ks @ [((at, k), fam)])))" using Suc.prems(2) new s by auto
  then obtain cs where "length cs = n" "code_at bytes k (concat (map const_code cs))" "j = k + length (concat (map const_code cs))"
      "\<forall>c\<in>set cs. const_ok c" "texts bytes (map fst ks') = texts bytes (map fst (ks @ [((at, k), fam)])) @ map const_code cs"
      "map snd ks' = map snd (ks @ [((at, k), fam)]) @ map family cs" "distinct (texts bytes (map fst ks'))"
    using Suc.IH [OF rest] by blast
  then show ?case using c s by (intro exI [of _ "c # cs"]) auto
qed simp

lemma validate_constant_entries_complete:
  assumes "code_at bytes at (concat (map const_code cs))" and "\<forall>c\<in>set cs. const_ok c"
    and "distinct (texts bytes (map fst ks) @ map const_code cs)" and "length bytes < 2 ^ 64"
  shows "(\<exists>ks'. validate_constant_entries (length cs) bytes at ks = Some (Ok (ks', at + length (concat (map const_code cs)))) \<and>
      map snd ks' = map snd ks @ map family cs) \<and>
    decode_constant_entries (length cs) bytes at = Some (cs, at + length (concat (map const_code cs)))"
  using assms(1-3)
proof (induction cs arbitrary: at ks)
  case (Cons c cs)
  let ?k = "at + length (const_code c)"
  have at: "code_at bytes at (const_code c)" and ok: "const_ok c" using Cons.prems(1,2) by simp_all
  note v = validate_constant_complete [OF ok at assms(4)]
  have s: "sub_slice bytes at ?k = const_code c" using code_at_take [OF at] by (simp add: sub_slice_def)
  have "const_code c \<notin> set (texts bytes (map fst ks))" using Cons.prems(3) by auto
  then have step: "validate_constant_entries (Suc (length cs)) bytes at ks = validate_constant_entries (length cs) bytes ?k (ks @ [((at, ?k), family c)])"
    using v(1) s by (force simp: image_iff)
  have "distinct (texts bytes (map fst (ks @ [((at, ?k), family c)])) @ map const_code cs)" using Cons.prems(3) s by auto
  from Cons.IH [OF _ _ this, of ?k] Cons.prems(1,2) show ?case using step v(2) by (auto simp: add.assoc)
qed simp

section \<open>Programs\<close>

definition program_bytes :: "bytes list \<Rightarrow> Constant list \<Rightarrow> tape \<Rightarrow> bytes" where
  "program_bytes ps cs t = [PREDICATE_VERSION, 0] @ encode_u64 (of_nat (length ps)) @ concat (map path_entry ps) @
     encode_u64 (of_nat (length cs)) @ concat (map const_code cs) @ expr_bytes t"

abbreviation pool_fam :: "Constant list \<Rightarrow> nat \<Rightarrow> ConstFamily" where
  "pool_fam cs i \<equiv> family (cs ! i)"

definition program_ok :: "bytes list \<Rightarrow> Constant list \<Rightarrow> tape \<Rightarrow> bool" where
  "program_ok ps cs t \<longleftrightarrow> length ps \<le> PATHS_MAX \<and> length cs \<le> CONSTANTS_MAX \<and> (\<forall>p\<in>set ps. path_ok p) \<and> (\<forall>c\<in>set cs. const_ok c) \<and>
     distinct ps \<and> distinct cs \<and> well_typed (pool_fam cs) (pool_fam cs) t \<and> within_depth 1 t \<and> ops_of t \<le> OPS_MAX \<and>
     ref_run (length ps) 0 (expr_paths t) = Some (length ps) \<and> ref_run (length cs) 0 (expr_consts t) = Some (length cs)"

text \<open>Only the families of the constants a tape refers to matter.\<close>

lemma well_typed_cong:
  "\<forall>i\<in>set (expr_consts t). f i = g i \<Longrightarrow> well_typed f f t = well_typed g g t"
proof (induction t)
  case (EIn p ms)
  then show ?case by (cases ms) auto
qed auto

lemma ref_run_less: "ref_run len n is = Some m \<Longrightarrow> \<forall>i\<in>set is. i < len"
  by (induction "is" arbitrary: n) (auto split: if_splits)

lemma ref_run_le: "ref_run len n is = Some m \<Longrightarrow> n \<le> len \<Longrightarrow> n \<le> m \<and> m \<le> len"
proof (induction "is" arbitrary: n)
  case (Cons i "is")
  then show ?case by (cases "i = n") (fastforce split: if_splits)+
qed simp

lemma checked_next:
  "checked ck is js ck' \<Longrightarrow> ref_run (ck_path_count ck) (ck_next_path ck) is = Some (ck_next_path ck') \<and>
    ref_run (length (ck_constants ck)) (ck_next_constant ck) js = Some (ck_next_constant ck')"
  by (auto simp: checked_def)

lemma validate_expr_iff:
  assumes "length bytes < 2 ^ 64" and "np \<le> PATHS_MAX" and "length ks \<le> CONSTANTS_MAX"
  shows "validate_expr bytes at np ks = Some (Ok ()) \<longleftrightarrow> (\<exists>t. code_at bytes at (expr_bytes t) \<and> length bytes = at + length (expr_bytes t) \<and>
    well_typed (\<lambda>i. snd (ks ! i)) (\<lambda>i. snd (ks ! i)) t \<and> within_depth 1 t \<and> ops_of t \<le> OPS_MAX \<and>
    ref_run np 0 (expr_paths t) = Some np \<and> ref_run (length ks) 0 (expr_consts t) = Some (length ks))"
proof -
  let ?ck = "\<lparr>ck_bytes = bytes, ck_constants = ks, ck_path_count = np, ck_next_path = 0, ck_next_constant = 0\<rparr>"
  have ok: "check_ok bytes ?ck" using assms(2,3) by (simp add: check_ok_def predicate_limits)
  have p: "pending [1] = [1]" by (simp add: pending_one)
  have "validate_expr bytes at np ks = Some (Ok ()) \<longleftrightarrow> (\<exists>ck'. validate_ops bytes at [1] 0 ?ck = Some (Ok (length bytes, ck')) \<and>
      ck_next_path ck' = np \<and> ck_next_constant ck' = length ks)"
    by (auto simp: validate_expr_def pbind_Ok split: if_splits)
  also have "\<dots> \<longleftrightarrow> (\<exists>ck' t. forest_run bytes at ?ck [t] [1] 0 (length bytes) ck' \<and> ck_next_path ck' = np \<and> ck_next_constant ck' = length ks)"
  proof -
    have "(\<exists>t. forest_run bytes at ?ck [t] [1] 0 j ck') \<longleftrightarrow> validate_ops bytes at [1] 0 ?ck = Some (Ok (j, ck'))" for j ck'
    proof
      assume "\<exists>t. forest_run bytes at ?ck [t] [1] 0 j ck'"
      then show "validate_ops bytes at [1] 0 ?ck = Some (Ok (j, ck'))" using validate_ops_complete [OF _ ok, of at _ "[1]"] p by auto
    next
      assume "validate_ops bytes at [1] 0 ?ck = Some (Ok (j, ck'))"
      then obtain ts where "forest_run bytes at ?ck ts [1] 0 j ck'" using validate_ops_sound [OF _ ok] p by fastforce
      moreover from this have "length ts = 1" by (auto simp: forest_run_def dest: list_all2_lengthD)
      ultimately show "\<exists>t. forest_run bytes at ?ck [t] [1] 0 j ck'" by (auto simp: length_Suc_conv)
    qed
    then show ?thesis by blast
  qed
  also have "\<dots> \<longleftrightarrow> (\<exists>t. code_at bytes at (expr_bytes t) \<and> length bytes = at + length (expr_bytes t) \<and>
    well_typed (\<lambda>i. snd (ks ! i)) (\<lambda>i. snd (ks ! i)) t \<and> within_depth 1 t \<and> ops_of t \<le> OPS_MAX \<and>
    ref_run np 0 (expr_paths t) = Some np \<and> ref_run (length ks) 0 (expr_consts t) = Some (length ks))"
  proof -
    have A: "(\<exists>ck'. checked ?ck is js ck' \<and> ck_next_path ck' = np \<and> ck_next_constant ck' = length ks) \<longleftrightarrow>
        ref_run np 0 is = Some np \<and> ref_run (length ks) 0 js = Some (length ks)" for "is" js
    proof
      assume "ref_run np 0 is = Some np \<and> ref_run (length ks) 0 js = Some (length ks)"
      then have "checked ?ck is js (?ck\<lparr>ck_next_path := np, ck_next_constant := length ks\<rparr>)" by (simp add: checked_def)
      then show "\<exists>ck'. checked ?ck is js ck' \<and> ck_next_path ck' = np \<and> ck_next_constant ck' = length ks" by force
    qed (use checked_next in force)
    have B: "forest_run bytes at ?ck [t] [1] 0 (length bytes) ck' \<longleftrightarrow> (code_at bytes at (expr_bytes t) \<and>
        length bytes = at + length (expr_bytes t) \<and> well_typed (\<lambda>i. snd (ks ! i)) (\<lambda>i. snd (ks ! i)) t \<and> within_depth 1 t \<and>
        ops_of t \<le> OPS_MAX) \<and> checked ?ck (expr_paths t) (expr_consts t) ck'" for t ck'
      by (auto simp: forest_run_def)
    have "(\<exists>ck' t. forest_run bytes at ?ck [t] [1] 0 (length bytes) ck' \<and> ck_next_path ck' = np \<and> ck_next_constant ck' = length ks) \<longleftrightarrow>
        (\<exists>t. (code_at bytes at (expr_bytes t) \<and>
        length bytes = at + length (expr_bytes t) \<and> well_typed (\<lambda>i. snd (ks ! i)) (\<lambda>i. snd (ks ! i)) t \<and> within_depth 1 t \<and>
        ops_of t \<le> OPS_MAX) \<and> (\<exists>ck'. checked ?ck (expr_paths t) (expr_consts t) ck' \<and> ck_next_path ck' = np \<and> ck_next_constant ck' = length ks))"
      unfolding B by blast
    then show ?thesis unfolding A by blast
  qed
  finally show ?thesis .
qed

lemma pred_validate_sound:
  assumes "pred_validate bytes = Some (Ok ())"
  obtains ps cs t where "program_ok ps cs t" "bytes = program_bytes ps cs t" "length bytes < PREDICATE_BYTES_CEILING"
proof -
  have b: "2 \<le> length bytes" "length bytes < PREDICATE_BYTES_CEILING" "bytes ! 0 = PREDICATE_VERSION" "bytes ! 1 = 0"
    using assms by (auto simp: pred_validate_def split: if_splits)
  then have len: "length bytes < 2 ^ 64" by (simp add: predicate_limits)
  obtain spans at1 ks at2 where v: "validate_paths bytes 2 = Some (Ok (spans, at1))" "validate_constants bytes at1 = Some (Ok (ks, at2))"
      "validate_expr bytes at2 (length spans) ks = Some (Ok ())"
    using assms b by (auto simp: pred_validate_def pbind_Ok)
  obtain np where np: "code_at bytes 2 (encode_u64 np)" "unat np \<le> PATHS_MAX"
      "validate_path_entries (unat np) bytes (2 + length (encode_u64 np)) [] = Some (Ok (spans, at1))"
    using v(1) by (auto simp: validate_paths_def pbind_Ok read_varint_at_iff split: if_splits)
  obtain ps where ps: "length ps = unat np" "code_at bytes (2 + length (encode_u64 np)) (concat (map path_entry ps))"
      "at1 = 2 + length (encode_u64 np) + length (concat (map path_entry ps))" "\<forall>p\<in>set ps. path_ok p" "texts bytes spans = ps" "distinct ps"
    using validate_path_entries_sound [OF np(3)] by (metis append_Nil list.simps(8) distinct.simps(1))
  obtain nc where nc: "code_at bytes at1 (encode_u64 nc)" "unat nc \<le> CONSTANTS_MAX"
      "validate_constant_entries (unat nc) bytes (at1 + length (encode_u64 nc)) [] = Some (Ok (ks, at2))"
    using v(2) by (auto simp: validate_constants_def pbind_Ok read_varint_at_iff split: if_splits)
  obtain cs where cs: "length cs = unat nc" "code_at bytes (at1 + length (encode_u64 nc)) (concat (map const_code cs))"
      "at2 = at1 + length (encode_u64 nc) + length (concat (map const_code cs))" "\<forall>c\<in>set cs. const_ok c"
      "texts bytes (map fst ks) = map const_code cs" "map snd ks = map family cs" "distinct (map const_code cs)"
    using validate_constant_entries_sound [OF nc(3) len] by (metis append_Nil list.simps(8) distinct.simps(1))
  have n: "length spans = length ps" "length ks = length cs" using ps(5) cs(6) by (metis length_map)+
  obtain t where t: "code_at bytes at2 (expr_bytes t)" "length bytes = at2 + length (expr_bytes t)"
      "well_typed (\<lambda>i. snd (ks ! i)) (\<lambda>i. snd (ks ! i)) t" "within_depth 1 t" "ops_of t \<le> OPS_MAX"
      "ref_run (length ps) 0 (expr_paths t) = Some (length ps)" "ref_run (length cs) 0 (expr_consts t) = Some (length cs)"
    using v(3) validate_expr_iff [OF len, of "length ps" ks at2] np(2) nc(2) ps(1) cs(1) n by auto
  have "snd (ks ! i) = family (cs ! i)" if "i < length cs" for i using cs(6) n(2) that by (metis nth_map)
  then have "well_typed (pool_fam cs) (pool_fam cs) t" using t(3) well_typed_cong [of t "\<lambda>i. snd (ks ! i)" "pool_fam cs"] ref_run_less [OF t(7)] by auto
  moreover have "distinct cs" using cs(7) by (simp add: distinct_map)
  ultimately have "program_ok ps cs t" using ps cs np nc t by (simp add: program_ok_def)
  moreover have "bytes = program_bytes ps cs t"
  proof (rule code_at_whole)
    have "of_nat (length ps) = np" "of_nat (length cs) = nc" by (simp_all only: ps(1) cs(1) of_nat_unat ucast_id)
    then show "code_at bytes 0 (program_bytes ps cs t)" "length bytes = length (program_bytes ps cs t)"
      using b np(1) ps(2,3) nc(1) cs(2,3) t(1,2) by (auto simp: program_bytes_def numeral_2_eq_2)
  qed
  ultimately show thesis using that b(2) by blast
qed

text \<open>Where the parts of a program stand.\<close>

definition consts_at :: "bytes list \<Rightarrow> nat" where
  "consts_at ps = 2 + length (encode_u64 (of_nat (length ps))) + length (concat (map path_entry ps))"

definition expr_at :: "bytes list \<Rightarrow> Constant list \<Rightarrow> nat" where
  "expr_at ps cs = consts_at ps + length (encode_u64 (of_nat (length cs))) + length (concat (map const_code cs))"

lemma program_layout:
  fixes ps cs t
  defines "bytes \<equiv> program_bytes ps cs t"
  shows "code_at bytes 2 (encode_u64 (of_nat (length ps)))"
    and "code_at bytes (2 + length (encode_u64 (of_nat (length ps)))) (concat (map path_entry ps))"
    and "code_at bytes (consts_at ps) (encode_u64 (of_nat (length cs)))"
    and "code_at bytes (consts_at ps + length (encode_u64 (of_nat (length cs)))) (concat (map const_code cs))"
    and "code_at bytes (expr_at ps cs) (expr_bytes t)"
    and "length bytes = expr_at ps cs + length (expr_bytes t)"
proof -
  have "code_at bytes 0 bytes" using code_at_self [of bytes 0 "length bytes"] by simp
  then have "code_at bytes 0 (program_bytes ps cs t)" by (simp add: bytes_def)
  note c = this [unfolded program_bytes_def]
  show "code_at bytes 2 (encode_u64 (of_nat (length ps)))"
    and "code_at bytes (2 + length (encode_u64 (of_nat (length ps)))) (concat (map path_entry ps))"
    and "code_at bytes (consts_at ps) (encode_u64 (of_nat (length cs)))"
    and "code_at bytes (consts_at ps + length (encode_u64 (of_nat (length cs)))) (concat (map const_code cs))"
    and "code_at bytes (expr_at ps cs) (expr_bytes t)"
    using c by (simp_all add: consts_at_def expr_at_def numeral_2_eq_2 add.assoc)
  show "length bytes = expr_at ps cs + length (expr_bytes t)"
    by (simp add: bytes_def program_bytes_def consts_at_def expr_at_def)
qed

lemma program_pools:
  assumes "program_ok ps cs t" and "length (program_bytes ps cs t) < 2 ^ 64"
  defines "bytes \<equiv> program_bytes ps cs t"
  shows "\<exists>spans. validate_paths bytes 2 = Some (Ok (spans, consts_at ps)) \<and> length spans = length ps"
    and "\<exists>ks. validate_constants bytes (consts_at ps) = Some (Ok (ks, expr_at ps cs)) \<and> map snd ks = map family cs"
    and "decode_paths bytes 2 = Some (ps, consts_at ps)"
    and "decode_constants bytes (consts_at ps) = Some (cs, expr_at ps cs)"
proof -
  note l = program_layout [of ps cs t, folded bytes_def]
  have n: "unat (of_nat (length ps) :: u64) = length ps" "unat (of_nat (length cs) :: u64) = length cs"
    using assms(1) by (auto simp: program_ok_def predicate_limits intro!: unat_of_nat_u64)
  have d: "distinct (texts bytes [] @ ps)" "distinct (texts bytes (map fst []) @ map const_code cs)"
    using assms(1) const_code_inj by (auto simp: program_ok_def distinct_map inj_on_def)
  have len: "length bytes < 2 ^ 64" using assms(2) by (simp add: bytes_def)
  have ok: "\<forall>p\<in>set ps. path_ok p" "\<forall>c\<in>set cs. const_ok c" using assms(1) by (auto simp: program_ok_def)
  note p = validate_path_entries_complete [OF l(2) ok(1) d(1) len]
  note c = validate_constant_entries_complete [OF l(4) ok(2) d(2) len]
  have r: "read_varint_at bytes 2 = Some (Ok (of_nat (length ps), 2 + length (encode_u64 (of_nat (length ps)))))"
      "read_varint_at bytes (consts_at ps) = Some (Ok (of_nat (length cs), consts_at ps + length (encode_u64 (of_nat (length cs)))))"
    using l(1,3) by (simp_all add: read_varint_at_iff)
  show "\<exists>spans. validate_paths bytes 2 = Some (Ok (spans, consts_at ps)) \<and> length spans = length ps"
    using p r(1) n(1) assms(1) by (auto simp: validate_paths_def program_ok_def consts_at_def)
  show "\<exists>ks. validate_constants bytes (consts_at ps) = Some (Ok (ks, expr_at ps cs)) \<and> map snd ks = map family cs"
    using c r(2) n(2) assms(1) by (auto simp: validate_constants_def program_ok_def expr_at_def)
  show "decode_paths bytes 2 = Some (ps, consts_at ps)"
    using p trusted_varint_at [OF l(1)] n(1) by (simp add: decode_paths_def consts_at_def)
  show "decode_constants bytes (consts_at ps) = Some (cs, expr_at ps cs)"
    using c trusted_varint_at [OF l(3)] n(2) by (simp add: decode_constants_def expr_at_def)
qed

lemma pred_validate_complete:
  assumes "program_ok ps cs t" and "length (program_bytes ps cs t) < PREDICATE_BYTES_CEILING"
  shows "pred_validate (program_bytes ps cs t) = Some (Ok ())"
proof -
  let ?b = "program_bytes ps cs t"
  have len: "length ?b < 2 ^ 64" using assms(2) by (simp add: predicate_limits)
  obtain spans where s: "validate_paths ?b 2 = Some (Ok (spans, consts_at ps))" "length spans = length ps"
    using program_pools(1) [OF assms(1) len] by blast
  obtain ks where k: "validate_constants ?b (consts_at ps) = Some (Ok (ks, expr_at ps cs))" "map snd ks = map family cs"
    using program_pools(2) [OF assms(1) len] by blast
  have n: "length ks = length cs" using k(2) by (metis length_map)
  have f: "snd (ks ! i) = family (cs ! i)" if "i < length cs" for i using k(2) n that by (metis nth_map)
  note t = assms(1) [unfolded program_ok_def]
  have "well_typed (\<lambda>i. snd (ks ! i)) (\<lambda>i. snd (ks ! i)) t"
    using t well_typed_cong [of t "\<lambda>i. snd (ks ! i)" "pool_fam cs"] ref_run_less [of "length cs" 0 "expr_consts t"] f by auto
  then have "validate_expr ?b (expr_at ps cs) (length spans) ks = Some (Ok ())"
    using validate_expr_iff [OF len, of "length spans" ks] program_layout(5,6) [of ps cs t] t s(2) n by auto
  moreover have "2 \<le> length ?b" "?b ! 0 = PREDICATE_VERSION" "?b ! 1 = 0" by (simp_all add: program_bytes_def)
  ultimately show ?thesis using assms(2) s(1) k(1) by (simp add: pred_validate_def)
qed

end
