(* ===== verification/PredRound.thy ===== *)
theory PredRound
  imports PredCodec
begin

text \<open>
  Decoding gives back the tree of a valid program, and encoding that tree the same bytes.
\<close>

section \<open>Reading the tape\<close>

text \<open>References within the pools; what an operation at an offset reads as, and how far reading it moves.\<close>

definition refs_in :: "nat \<Rightarrow> nat \<Rightarrow> tape \<Rightarrow> bool" where
  "refs_in np nc t \<longleftrightarrow> (\<forall>i\<in>set (expr_paths t). i < np) \<and> (\<forall>i\<in>set (expr_consts t). i < nc)"

fun tape_op :: "nat \<Rightarrow> tape \<Rightarrow> PredOp" where
  "tape_op at (EAnd es) = QAnd (of_nat (length es))"
| "tape_op at (EOr es) = QOr (of_nat (length es))"
| "tape_op at (ENot e) = QNot"
| "tape_op at (ECmp op p c) = QCmp op p c"
| "tape_op at (EBetween p l h) = QBetween p l h"
| "tape_op at (EBeginsWith p s) = QBeginsWith p s"
| "tape_op at (EIn p ms) = QIn p (at + 1 + length (ref_bytes p) + 1) (of_nat (length ms))"
| "tape_op at (EExists p) = QExists p"

fun head_len :: "tape \<Rightarrow> nat" where
  "head_len (EAnd es) = 2"
| "head_len (EOr es) = 2"
| "head_len (ENot e) = 1"
| "head_len t = length (expr_bytes t)"

lemma trusted_ref_at:
  assumes "code_at bytes at (ref_bytes i)" and "i < 2 ^ 32"
  shows "trusted_ref bytes at = Some (i, at + length (ref_bytes i))"
proof -
  have "unat (ucast (of_nat i :: u64) :: u32) = i"
    using assms(2) by (simp add: unsigned_ucast_eq unsigned_of_nat take_bit_nat_eq_self)
  then show ?thesis using trusted_varint_at [OF assms(1) [unfolded ref_bytes_def]] by (simp add: trusted_ref_def ref_bytes_def)
qed

lemma in_members_at:
  "code_at bytes at (concat (map ref_bytes ms)) \<Longrightarrow> \<forall>m\<in>set ms. m < 2 ^ 32 \<Longrightarrow>
    in_members bytes at (length ms) = Some (ms, at + length (concat (map ref_bytes ms)))"
  by (induction ms arbitrary: at) (auto simp: trusted_ref_at)

lemma pred_read_op_at:
  assumes "code_at bytes at (expr_bytes t)" and "refs_in np nc t" and "np \<le> 2 ^ 32" and "nc \<le> 2 ^ 32" and "well_typed f g t"
  shows "pred_read_op bytes at = Some (tape_op at t, at + head_len t)"
proof -
  have r: "trusted_ref bytes i = Some (k, i + length (ref_bytes k))"
    if "code_at bytes i (ref_bytes k)" "k \<in> set (expr_paths t) \<union> set (expr_consts t)" for i k
    using trusted_ref_at [OF that(1)] that(2) assms(2-4) by (auto simp: refs_in_def)
  show ?thesis
  proof (cases t)
    case (ECmp op p c)
    then show ?thesis using assms(1) r [of "at + 1" p] r [of "at + 1 + length (ref_bytes p)" c] op_distinct [of op]
      by (simp add: pred_read_op_def)
  next
    case (EBetween p l h)
    then show ?thesis using assms(1) r [of "at + 1" p] r [of "at + 1 + length (ref_bytes p)" l]
        r [of "at + 1 + length (ref_bytes p) + length (ref_bytes l)" h]
      by (simp add: pred_read_op_def predicate_ops)
  next
    case (EBeginsWith p c)
    then show ?thesis using assms(1) r [of "at + 1" p] r [of "at + 1 + length (ref_bytes p)" c]
      by (simp add: pred_read_op_def predicate_ops)
  next
    case (EIn p ms)
    let ?at = "at + 1 + length (ref_bytes p) + 1"
    have "unat (of_nat (length ms) :: byte) = length ms" using assms(5) EIn by (intro unat_of_nat_byte) (simp add: predicate_limits)
    moreover have "in_members bytes ?at (length ms) = Some (ms, ?at + length (concat (map ref_bytes ms)))"
      using assms(1-4) EIn by (intro in_members_at) (auto simp: refs_in_def)
    ultimately show ?thesis using assms(1) r [of "at + 1" p] EIn by (simp add: pred_read_op_def predicate_ops)
  next
    case (EExists p)
    then show ?thesis using assms(1) r [of "at + 1" p] by (simp add: pred_read_op_def predicate_ops)
  qed (use assms(1) in \<open>auto simp: pred_read_op_def predicate_ops\<close>)
qed

fun utf8_text :: "Constant \<Rightarrow> bytes" where
  "utf8_text (CUtf8 s) = s" | "utf8_text _ = []"

definition dec :: "bytes list \<Rightarrow> Constant list \<Rightarrow> tape \<Rightarrow> Predicate" where
  "dec ps cs t = map_expr ((!) ps) ((!) cs) (\<lambda>i. utf8_text (cs ! i)) t"

lemma dec_simps [simp]:
  "dec ps cs (EAnd es) = EAnd (map (dec ps cs) es)"
  "dec ps cs (EOr es) = EOr (map (dec ps cs) es)"
  "dec ps cs (ENot e) = ENot (dec ps cs e)"
  "dec ps cs (ECmp op p c) = ECmp op (ps ! p) (cs ! c)"
  "dec ps cs (EBetween p l h) = EBetween (ps ! p) (cs ! l) (cs ! h)"
  "dec ps cs (EBeginsWith p s) = EBeginsWith (ps ! p) (utf8_text (cs ! s))"
  "dec ps cs (EIn p ms) = EIn (ps ! p) (map ((!) cs) ms)"
  "dec ps cs (EExists p) = EExists (ps ! p)"
  by (simp_all add: dec_def)

lemma index_all_nth: "\<forall>i\<in>set is. i < length xs \<Longrightarrow> index_all xs is = Some (map ((!) xs) is)"
  by (induction "is") auto

lemma family_utf8: "family c = FamUtf8 \<longleftrightarrow> c = CUtf8 (utf8_text c)"
  by (cases c) auto

lemma decode_leaf_at:
  assumes "is_leaf t" and "code_at bytes at (expr_bytes t)" and "refs_in (length ps) (length cs) t" and "length cs \<le> 2 ^ 32"
    and "well_typed (pool_fam cs) (pool_fam cs) t"
  shows "decode_leaf bytes ps cs (tape_op at t) = Some (dec ps cs t)"
proof (cases t)
  case (EBeginsWith p s)
  then have "cs ! s = CUtf8 (utf8_text (cs ! s))" using assms(5) family_utf8 by simp
  then show ?thesis using EBeginsWith assms(3) by (auto simp: refs_in_def split: Constant.splits)
next
  case (EIn p ms)
  have "unat (of_nat (length ms) :: byte) = length ms" using assms(5) EIn by (intro unat_of_nat_byte) (simp add: predicate_limits)
  moreover have "in_members bytes (at + 1 + length (ref_bytes p) + 1) (length ms) =
      Some (ms, at + 1 + length (ref_bytes p) + 1 + length (concat (map ref_bytes ms)))"
    using assms(2-4) EIn by (intro in_members_at) (auto simp: refs_in_def)
  ultimately show ?thesis using EIn assms(3) by (simp add: refs_in_def index_all_nth)
qed (use assms in \<open>auto simp: refs_in_def\<close>)

section \<open>Decoding\<close>

text \<open>Decoding an expression folds it into the open frames and goes on behind it.\<close>

definition resume_decode :: "bytes \<Rightarrow> nat \<Rightarrow> bytes list \<Rightarrow> Constant list \<Rightarrow> BuildFrame list \<Rightarrow> Predicate \<Rightarrow> Predicate option" where
  "resume_decode bytes at ps cs frames p = (case fold_completed p frames of
       Inl root \<Rightarrow> Some root
     | Inr frames' \<Rightarrow> decode_ops bytes at ps cs frames')"

lemma decode_operands:
  assumes "\<And>e at frames. e \<in> set es \<Longrightarrow> code_at bytes at (expr_bytes e) \<Longrightarrow>
      decode_ops bytes at ps cs frames = resume_decode bytes (at + length (expr_bytes e)) ps cs frames (dec ps cs e)"
    and "code_at bytes at (concat (map expr_bytes es))" and "es \<noteq> []" and "length ds + length es = unat n"
    and "frame = BAnd n \<and> con = EAnd \<or> frame = BOr n \<and> con = EOr"
  shows "decode_ops bytes at ps cs (frame ds # frames) =
    resume_decode bytes (at + length (concat (map expr_bytes es))) ps cs frames (con (ds @ map (dec ps cs) es))"
  using assms
proof (induction es arbitrary: at ds)
  case (Cons e es)
  let ?at = "at + length (expr_bytes e)"
  have e: "decode_ops bytes at ps cs (frame ds # frames) = resume_decode bytes ?at ps cs (frame ds # frames) (dec ps cs e)"
    using Cons.prems(1,2) by simp
  show ?case
  proof (cases es)
    case Nil
    then show ?thesis using e Cons.prems(4,5) by (auto simp: resume_decode_def)
  next
    case (Cons e' es')
    then have "resume_decode bytes ?at ps cs (frame ds # frames) (dec ps cs e) =
        decode_ops bytes ?at ps cs (frame (ds @ [dec ps cs e]) # frames)"
      using Cons.prems(4,5) by (auto simp: resume_decode_def)
    also have "\<dots> = resume_decode bytes (?at + length (concat (map expr_bytes es))) ps cs frames (con ((ds @ [dec ps cs e]) @ map (dec ps cs) es))"
      using Cons.prems Cons by (intro Cons.IH) auto
    finally show ?thesis using e by (simp add: add.assoc)
  qed
qed simp

lemma refs_in_sub: "refs_in np nc (EAnd es) \<Longrightarrow> e \<in> set es \<Longrightarrow> refs_in np nc e" "refs_in np nc (EOr es) \<Longrightarrow> e \<in> set es \<Longrightarrow> refs_in np nc e"
  by (auto simp: refs_in_def)

lemma decode_ops_leaf:
  assumes "is_leaf t" and "code_at bytes at (expr_bytes t)" and "refs_in (length ps) (length cs) t" and "well_typed (pool_fam cs) (pool_fam cs) t"
    and "length ps \<le> 2 ^ 32" and "length cs \<le> 2 ^ 32"
  shows "decode_ops bytes at ps cs frames = resume_decode bytes (at + length (expr_bytes t)) ps cs frames (dec ps cs t)"
proof -
  have "pred_read_op bytes at = Some (tape_op at t, at + head_len t)" by (rule pred_read_op_at [OF assms(2,3,5,6,4)])
  moreover have "decode_leaf bytes ps cs (tape_op at t) = Some (dec ps cs t)" by (rule decode_leaf_at [OF assms(1-3,6,4)])
  ultimately show ?thesis using assms(1) by (subst decode_ops.simps, cases t) (auto simp: resume_decode_def)
qed

lemma decode_ops_at:
  assumes "code_at bytes at (expr_bytes t)" and "refs_in (length ps) (length cs) t" and "well_typed (pool_fam cs) (pool_fam cs) t"
    and "length ps \<le> 2 ^ 32" and "length cs \<le> 2 ^ 32"
  shows "decode_ops bytes at ps cs frames = resume_decode bytes (at + length (expr_bytes t)) ps cs frames (dec ps cs t)"
  using assms(1-3)
proof (induction t arbitrary: at frames)
  case (EAnd es)
  let ?n = "of_nat (length es) :: byte"
  have n: "unat ?n = length es" using EAnd.prems(3) by (intro unat_of_nat_byte) (simp add: predicate_limits)
  have "decode_ops bytes at ps cs frames = decode_ops bytes (at + 2) ps cs (BAnd ?n [] # frames)"
    using pred_read_op_at [OF EAnd.prems(1,2) assms(4,5) EAnd.prems(3)] by (subst decode_ops.simps) simp
  also have "\<dots> = resume_decode bytes (at + 2 + length (concat (map expr_bytes es))) ps cs frames (EAnd ([] @ map (dec ps cs) es))"
  proof (rule decode_operands [where frame = "BAnd ?n" and con = EAnd and n = ?n])
    show "decode_ops bytes at' ps cs fs = resume_decode bytes (at' + length (expr_bytes e)) ps cs fs (dec ps cs e)"
      if "e \<in> set es" "code_at bytes at' (expr_bytes e)" for e at' fs
      using EAnd.IH [OF that] refs_in_sub(1) [OF EAnd.prems(2) that(1)] EAnd.prems(3) that(1) by simp
  qed (use EAnd.prems n in auto)
  finally show ?case by simp
next
  case (EOr es)
  let ?n = "of_nat (length es) :: byte"
  have n: "unat ?n = length es" using EOr.prems(3) by (intro unat_of_nat_byte) (simp add: predicate_limits)
  have "decode_ops bytes at ps cs frames = decode_ops bytes (at + 2) ps cs (BOr ?n [] # frames)"
    using pred_read_op_at [OF EOr.prems(1,2) assms(4,5) EOr.prems(3)] by (subst decode_ops.simps) simp
  also have "\<dots> = resume_decode bytes (at + 2 + length (concat (map expr_bytes es))) ps cs frames (EOr ([] @ map (dec ps cs) es))"
  proof (rule decode_operands [where frame = "BOr ?n" and con = EOr and n = ?n])
    show "decode_ops bytes at' ps cs fs = resume_decode bytes (at' + length (expr_bytes e)) ps cs fs (dec ps cs e)"
      if "e \<in> set es" "code_at bytes at' (expr_bytes e)" for e at' fs
      using EOr.IH [OF that] refs_in_sub(2) [OF EOr.prems(2) that(1)] EOr.prems(3) that(1) by simp
  qed (use EOr.prems n in auto)
  finally show ?case by simp
next
  case (ENot e)
  have "decode_ops bytes at ps cs frames = decode_ops bytes (at + 1) ps cs (BNot # frames)"
    using pred_read_op_at [OF ENot.prems(1,2) assms(4,5) ENot.prems(3)] by (subst decode_ops.simps) simp
  also have "\<dots> = resume_decode bytes (at + 1 + length (expr_bytes e)) ps cs (BNot # frames) (dec ps cs e)"
    using ENot by (intro ENot.IH) (auto simp: refs_in_def)
  finally show ?case by (simp add: resume_decode_def)
qed (use decode_ops_leaf [OF _ _ _ _ assms(4,5)] in \<open>simp_all only: is_leaf.simps\<close>)

lemma program_refs:
  assumes "program_ok ps cs t"
  shows "refs_in (length ps) (length cs) t" "length ps \<le> 2 ^ 32" "length cs \<le> 2 ^ 32" "well_typed (pool_fam cs) (pool_fam cs) t"
  using assms ref_run_less by (auto simp: program_ok_def refs_in_def predicate_limits)

lemma pred_decode_program:
  assumes "program_ok ps cs t" and "length (program_bytes ps cs t) < 2 ^ 64"
  shows "pred_decode (program_bytes ps cs t) = Some (dec ps cs t)"
proof -
  have "decode_expr (program_bytes ps cs t) (expr_at ps cs) ps cs = Some (dec ps cs t)"
    unfolding decode_expr_def using decode_ops_at [OF program_layout(5) program_refs(1) [OF assms(1)] program_refs(4) [OF assms(1)]]
      program_refs(2,3) [OF assms(1)] by (simp add: resume_decode_def)
  then show ?thesis using program_pools(3,4) [OF assms] by (simp add: pred_decode_def)
qed

section \<open>Encoding\<close>

lemma index_of_None [simp]: "index_of x xs = None \<longleftrightarrow> x \<notin> set xs"
  by (induction xs) auto

lemma index_of_SomeD: "index_of x xs = Some i \<Longrightarrow> i < length xs \<and> xs ! i = x"
  by (induction xs arbitrary: i) (auto split: if_splits)

lemma index_of_nth: "distinct xs \<Longrightarrow> i < length xs \<Longrightarrow> index_of (xs ! i) xs = Some i"
  by (cases "index_of (xs ! i) xs") (auto dest!: index_of_SomeD simp: nth_eq_iff_index_eq)

lemma index_of_take:
  assumes "distinct xs" and "i < length xs" and "i \<le> n" and "n \<le> length xs"
  shows "index_of (xs ! i) (take n xs) = (if i < n then Some i else None)"
proof (cases "i < n")
  case True
  then show ?thesis using index_of_nth [of "take n xs" i] assms by simp
next
  case False
  then have "i = n" using assms(3) by simp
  then have "xs ! i \<notin> set (take n xs)" using assms(1,2) by (auto simp: in_set_conv_nth nth_eq_iff_index_eq)
  then show ?thesis using False by simp
qed

text \<open>The pools after the first references: the first \<open>np\<close> paths and the first \<open>nc\<close> constants.\<close>

definition pools_ok :: "bytes list \<Rightarrow> Constant list \<Rightarrow> bool" where
  "pools_ok ps cs \<longleftrightarrow> length ps \<le> PATHS_MAX \<and> length cs \<le> CONSTANTS_MAX \<and> (\<forall>p\<in>set ps. path_ok p) \<and> (\<forall>c\<in>set cs. const_ok c) \<and>
     distinct ps \<and> distinct cs"

definition pools_at :: "bytes list \<Rightarrow> Constant list \<Rightarrow> nat \<Rightarrow> nat \<Rightarrow> Pools" where
  "pools_at ps cs np nc = \<lparr>pl_paths = take np ps, pl_constants = take nc (map const_code cs)\<rparr>"

lemma emit_path_at:
  assumes "pools_ok ps cs" and "ref_run (length ps) np [i] = Some np'" and "np \<le> length ps"
  shows "emit_path (ps ! i) (pools_at ps cs np nc, out) = Some (Ok (pools_at ps cs np' nc, out @ ref_bytes i))"
proof -
  have i: "i < length ps" "i \<le> np" "np' = (if i = np then Suc np else np)" using assms(2) by (auto split: if_splits)
  have ok: "is_legacy (ps ! i) = Some False" "length ps \<le> PATHS_MAX" "distinct ps"
    using assms(1) i(1) by (auto simp: pools_ok_def path_ok_def)
  then have "index_of (ps ! i) (take np ps) = (if i < np then Some i else None)" using index_of_take i assms(3) by blast
  then show ?thesis using i ok assms(3)
    by (auto simp: emit_path_def path_id_def pools_at_def emit_ref_def ref_bytes_def take_Suc_conv_app_nth)
qed

lemma emit_constant_at:
  assumes "pools_ok ps cs" and "ref_run (length cs) nc [i] = Some nc'" and "nc \<le> length cs"
  shows "emit_constant (Ok (const_code (cs ! i))) (pools_at ps cs np nc, out) = Some (Ok (pools_at ps cs np nc', out @ ref_bytes i))"
proof -
  let ?ks = "map const_code cs"
  have i: "i < length cs" "i \<le> nc" "nc' = (if i = nc then Suc nc else nc)" using assms(2) by (auto split: if_splits)
  have "distinct ?ks" using assms(1) const_code_inj by (auto simp: pools_ok_def distinct_map inj_on_def)
  then have "index_of (?ks ! i) (take nc ?ks) = (if i < nc then Some i else None)" using index_of_take [of ?ks i nc] i assms(3) by simp
  moreover have "length cs \<le> CONSTANTS_MAX" using assms(1) by (simp add: pools_ok_def)
  ultimately show ?thesis using i assms(3)
    by (auto simp: emit_constant_def constant_id_def pools_at_def emit_ref_def ref_bytes_def take_Suc_conv_app_nth)
qed

lemma constant_bytes_pool: "pools_ok ps cs \<Longrightarrow> i < length cs \<Longrightarrow> constant_bytes (cs ! i) = Ok (const_code (cs ! i))"
  by (auto simp: pools_ok_def intro: constant_bytes_ok)

lemma emit_members_at:
  assumes "pools_ok ps cs" and "ref_run (length cs) nc ms = Some nc'" and "nc \<le> length cs"
  shows "emit_members (map ((!) cs) ms) (pools_at ps cs np nc, out) = Some (Ok (pools_at ps cs np nc', out @ concat (map ref_bytes ms)))"
  using assms(2,3)
proof (induction ms arbitrary: nc out)
  case (Cons i ms)
  then obtain nc1 where nc1: "ref_run (length cs) nc [i] = Some nc1" "ref_run (length cs) nc1 ms = Some nc'" by (auto split: if_splits)
  have i: "i < length cs" using ref_run_less [OF nc1(1)] by simp
  have n: "nc1 \<le> length cs" using ref_run_le [OF nc1(1) Cons.prems(2)] by simp
  show ?case using emit_constant_at [OF assms(1) nc1(1) Cons.prems(2)] constant_bytes_pool [OF assms(1) i] Cons.IH [OF nc1(2) n] by simp
qed simp

lemma encode_leaf_at:
  assumes "pools_ok ps cs" and "is_leaf t" and "well_typed (pool_fam cs) (pool_fam cs) t"
    and "ref_run (length ps) np (expr_paths t) = Some np'" and "np \<le> length ps"
    and "ref_run (length cs) nc (expr_consts t) = Some nc'" and "nc \<le> length cs"
  shows "encode_leaf (dec ps cs t) (pools_at ps cs np nc, out) = Some (Ok (pools_at ps cs np' nc', out @ expr_bytes t))"
proof -
  have p: "emit_path (ps ! i) (pools_at ps cs np nc, out) = Some (Ok (pools_at ps cs np' nc, out @ ref_bytes i))"
    if "expr_paths t = [i]" for i out
    using emit_path_at [OF assms(1) _ assms(5)] assms(4) that by simp
  have cb: "constant_bytes (cs ! i) = Ok (const_code (cs ! i))" if "i \<in> set (expr_consts t)" for i
    using constant_bytes_pool [OF assms(1)] ref_run_less [OF assms(6)] that by simp
  note c = emit_constant_at [OF assms(1) _ assms(7)]
  show ?thesis
  proof (cases t)
    case (ECmp op i j)
    then show ?thesis using p c [of j nc'] cb assms(6) by (simp add: push_byte_def)
  next
    case (EBetween i j k)
    then obtain nc1 where nc1: "ref_run (length cs) nc [j] = Some nc1" "ref_run (length cs) nc1 [k] = Some nc'"
      using assms(6) by (auto split: if_splits)
    then have "nc1 \<le> length cs" using ref_run_le [OF nc1(1) assms(7)] by simp
    then show ?thesis using EBetween p c [OF nc1(1)] emit_constant_at [OF assms(1) nc1(2)] cb assms(3) by (simp add: push_byte_def)
  next
    case (EBeginsWith i j)
    then have "cs ! j = CUtf8 (utf8_text (cs ! j))" using assms(3) family_utf8 by simp
    then have "utf8_constant_bytes (utf8_text (cs ! j)) = const_code (cs ! j)"
      by (metis const_code.simps(4) path_entry_def utf8_constant_bytes_def)
    then show ?thesis using EBeginsWith p c [of j nc'] assms(6) by (simp add: push_byte_def)
  next
    case (EIn i ms)
    then have ms: "1 \<le> length ms" "length ms \<le> IN_MEMBERS_MAX" "\<forall>m\<in>set ms. family (cs ! m) = family (cs ! hd ms)" using assms(3) by auto
    then have "map ((!) cs) ms ! 0 = cs ! hd ms" by (cases ms) auto
    then have "\<not> (\<exists>m\<in>set (map ((!) cs) ms). family m \<noteq> family (map ((!) cs) ms ! 0))" using ms(3) by simp
    moreover have "length ms < 256" using ms(2) by (simp add: predicate_limits)
    ultimately have "encode_leaf (dec ps cs t) (pools_at ps cs np nc, out) =
        pbind (emit_path (ps ! i) (push_byte OP_IN (pools_at ps cs np nc, out))) (\<lambda>st.
          emit_members (map ((!) cs) ms) (push_byte (of_nat (length ms)) st))"
      using ms(1,2) by (simp only: EIn dec_simps encode_leaf.simps length_map if_False not_less) simp
    then show ?thesis using EIn p emit_members_at [OF assms(1) _ assms(7), of ms nc'] assms(6) by (simp add: push_byte_def)
  next
    case (EExists i)
    then show ?thesis using p assms(6) by (simp add: push_byte_def)
  qed (use assms(2) in simp_all)
qed

lemma bool_arity_ok: "2 \<le> length es \<Longrightarrow> length es \<le> BOOL_ARITY_MAX \<Longrightarrow> bool_arity es = Ok (of_nat (length es))"
  by (simp add: bool_arity_def predicate_limits)

lemma encode_walk_leaf:
  "is_leaf e \<Longrightarrow> encode_walk ((e, d) # work) ops st =
    (if d > NESTING_DEPTH_MAX then Some (Err TooDeep) else if ops + 1 > OPS_MAX then Some (Err TooManyOps)
     else pbind (encode_leaf e st) (encode_walk work (ops + 1)))"
  by (cases "encode_leaf e st"; cases e) (auto simp: encode_walk.simps(2) split: sum.splits)

lemma encode_walk_at:
  assumes "pools_ok ps cs" and "\<forall>(t, d)\<in>set tds. well_typed (pool_fam cs) (pool_fam cs) t \<and> within_depth d t"
    and "ops + sum_list (map (ops_of \<circ> fst) tds) \<le> OPS_MAX"
    and "ref_run (length ps) np (concat (map (expr_paths \<circ> fst) tds)) = Some np'" and "np \<le> length ps"
    and "ref_run (length cs) nc (concat (map (expr_consts \<circ> fst) tds)) = Some nc'" and "nc \<le> length cs"
  shows "encode_walk (map (\<lambda>(t, d). (dec ps cs t, d)) tds) ops (pools_at ps cs np nc, out) =
    Some (Ok (pools_at ps cs np' nc', out @ concat (map (expr_bytes \<circ> fst) tds)))"
  using assms(2-7)
proof (induction "sum_list (map (ops_of \<circ> fst) tds)" arbitrary: tds ops np nc out rule: less_induct)
  case less
  show ?case
  proof (cases tds)
    case Nil
    then show ?thesis using less.prems by simp
  next
    case (Cons td rest)
    obtain t d where td: "td = (t, d)" by (cases td)
    have t: "well_typed (pool_fam cs) (pool_fam cs) t" "within_depth d t" using less.prems(1) Cons td by auto
    have "ops + ops_of t \<le> OPS_MAX" using less.prems(2) Cons td by simp
    then have g: "\<not> d > NESTING_DEPTH_MAX" "\<not> ops + 1 > OPS_MAX" using within_depth_le [OF t(2)] ops_of_pos [of t] by linarith+
    have sub: "map (\<lambda>child. (child, d + 1)) (map (dec ps cs) es) @ map (\<lambda>(t, d). (dec ps cs t, d)) rest =
        map (\<lambda>(t, d). (dec ps cs t, d)) (map (\<lambda>e. (e, d + 1)) es @ rest)" for es by simp
    have bool: "encode_walk (map (\<lambda>(t, d). (dec ps cs t, d)) (map (\<lambda>e. (e, d + 1)) es @ rest)) (ops + 1) (pools_at ps cs np nc, out @ code) =
        Some (Ok (pools_at ps cs np' nc', (out @ code) @ concat (map (expr_bytes \<circ> fst) (map (\<lambda>e. (e, d + 1)) es @ rest))))"
      if "t = EAnd es \<or> t = EOr es \<or> (\<exists>e. t = ENot e \<and> es = [e])" for es code
      using that less.prems Cons td t by (intro less.hyps) (auto simp: comp_def)
    have leaf: ?thesis if "is_leaf t"
    proof -
      obtain np1 where np1: "ref_run (length ps) np (expr_paths t) = Some np1"
          "ref_run (length ps) np1 (concat (map (expr_paths \<circ> fst) rest)) = Some np'"
        using less.prems(3) Cons td by (auto simp: ref_run_append bind_eq_Some_conv)
      obtain nc1 where nc1: "ref_run (length cs) nc (expr_consts t) = Some nc1"
          "ref_run (length cs) nc1 (concat (map (expr_consts \<circ> fst) rest)) = Some nc'"
        using less.prems(5) Cons td by (auto simp: ref_run_append bind_eq_Some_conv)
      have "encode_leaf (dec ps cs t) (pools_at ps cs np nc, out) = Some (Ok (pools_at ps cs np1 nc1, out @ expr_bytes t))"
        using encode_leaf_at [OF assms(1) that t(1) np1(1) less.prems(4) nc1(1) less.prems(6)] .
      moreover have "encode_walk (map (\<lambda>(t, d). (dec ps cs t, d)) rest) (ops + 1) (pools_at ps cs np1 nc1, out @ expr_bytes t) =
          Some (Ok (pools_at ps cs np' nc', (out @ expr_bytes t) @ concat (map (expr_bytes \<circ> fst) rest)))"
        using less.prems Cons td leaf_ops(1) [OF that] np1 nc1 ref_run_le [OF np1(1)] ref_run_le [OF nc1(1)] by (intro less.hyps) auto
      moreover have "is_leaf (dec ps cs t)" using that by (cases t) auto
      ultimately show ?thesis using Cons td g by (simp add: encode_walk_leaf)
    qed
    show ?thesis
    proof (cases t)
      case (EAnd es)
      then show ?thesis using Cons td g t bool_arity_ok [of "map (dec ps cs) es"] bool [of es "[OP_AND, of_nat (length es)]"]
        by (simp add: encode_walk.simps(2) push_byte_def comp_def flip: sub)
    next
      case (EOr es)
      then show ?thesis using Cons td g t bool_arity_ok [of "map (dec ps cs) es"] bool [of es "[OP_OR, of_nat (length es)]"]
        by (simp add: encode_walk.simps(2) push_byte_def comp_def flip: sub)
    next
      case (ENot e)
      then show ?thesis using Cons td g t bool [of "[e]" "[OP_NOT]"] by (simp add: encode_walk.simps(2) push_byte_def comp_def)
    qed (use leaf in simp_all)
  qed
qed

lemma program_pools_ok: "program_ok ps cs t \<Longrightarrow> pools_ok ps cs"
  by (simp add: program_ok_def pools_ok_def)

text \<open>Encoding the tree of a valid program writes its tape and its pools.\<close>

lemma encode_program:
  assumes "program_ok ps cs t"
  shows "pred_encode (dec ps cs t) = Some (if length (program_bytes ps cs t) \<ge> PREDICATE_BYTES_CEILING then Err ProgramTooLong
    else Ok (program_bytes ps cs t))"
proof -
  have "encode_walk (map (\<lambda>(t, d). (dec ps cs t, d)) [(t, 1)]) 0 (pools_at ps cs 0 0, []) =
      Some (Ok (pools_at ps cs (length ps) (length cs), [] @ concat (map (expr_bytes \<circ> fst) [(t, 1 :: nat)])))"
    by (rule encode_walk_at [OF program_pools_ok [OF assms]]) (use assms in \<open>auto simp: program_ok_def\<close>)
  then have "encode_walk [(dec ps cs t, 1)] 0 (\<lparr>pl_paths = [], pl_constants = []\<rparr>, []) =
      Some (Ok (\<lparr>pl_paths = ps, pl_constants = map const_code cs\<rparr>, expr_bytes t))"
    by (simp add: pools_at_def)
  then show ?thesis by (simp add: pred_encode_def assemble_def program_bytes_def Let_def)
qed

section \<open>Zero constants\<close>

text \<open>The tree with the sign of zero constants dropped, which encodes to the same bytes.\<close>

definition normalise :: "Predicate \<Rightarrow> Predicate" where
  "normalise = map_expr id norm_const id"

lemma normalise_simps [simp]:
  "normalise (EAnd es) = EAnd (map normalise es)"
  "normalise (EOr es) = EOr (map normalise es)"
  "normalise (ENot e) = ENot (normalise e)"
  "normalise (ECmp op p c) = ECmp op p (norm_const c)"
  "normalise (EBetween p l h) = EBetween p (norm_const l) (norm_const h)"
  "normalise (EBeginsWith p s) = EBeginsWith p s"
  "normalise (EIn p ms) = EIn p (map norm_const ms)"
  "normalise (EExists p) = EExists p"
  by (simp_all add: normalise_def)

lemma emit_members_norm: "emit_members (map norm_const ms) = emit_members ms"
proof (induction ms)
  case (Cons m ms)
  show ?case by (rule ext) (simp add: Cons constant_bytes_norm)
qed simp

lemma encode_leaf_norm: "encode_leaf (normalise e) st = encode_leaf e st"
proof (cases e)
  case (EIn p ms)
  show ?thesis
  proof (cases ms)
    case Nil
    then show ?thesis using EIn by simp
  next
    case (Cons m ms')
    then have "family (map norm_const ms ! 0) = family (ms ! 0)" by simp
    then show ?thesis using EIn by (simp add: emit_members_norm)
  qed
qed (simp_all add: constant_bytes_norm)

lemma bool_arity_map: "bool_arity (map f es) = bool_arity es"
  by (simp add: bool_arity_def)

lemma pbind_cong: "(\<And>x. r = Some (Ok x) \<Longrightarrow> f x = g x) \<Longrightarrow> pbind r f = pbind r g"
  by (cases r rule: pbind.cases [of "(r, f)" for r, simplified]) auto

lemma encode_walk_norm: "encode_walk (map (\<lambda>(e, d). (normalise e, d)) work) ops st = encode_walk work ops st"
proof (induction work ops st rule: encode_walk.induct)
  case (2 node depth work ops st)
  show ?case
  proof (cases "is_leaf node")
    case True
    have "pbind (encode_leaf node st) (encode_walk (map (\<lambda>(e, d). (normalise e, d)) work) (ops + 1)) =
        pbind (encode_leaf node st) (encode_walk work (ops + 1))"
      if "depth \<le> NESTING_DEPTH_MAX" "ops + 1 \<le> OPS_MAX"
      by (rule pbind_cong) (use that True 2 in \<open>cases node; auto\<close>)
    moreover have "is_leaf (normalise node)" using True by (cases node) auto
    ultimately show ?thesis using True by (simp add: encode_walk_leaf encode_leaf_norm)
  next
    case False
    then show ?thesis using 2 by (cases node) (auto simp: encode_walk.simps(2) bool_arity_map comp_def split: sum.splits)
  qed
qed simp

lemma pred_encode_norm: "pred_encode (normalise p) = pred_encode p"
  using encode_walk_norm [of "[(p, 1)]"] by (simp add: pred_encode_def)

section \<open>What an encoded tree satisfies\<close>

definition add_new :: "'a \<Rightarrow> 'a list \<Rightarrow> 'a list" where
  "add_new x pool = (if x \<in> set pool then pool else pool @ [x])"

definition pool_after :: "'a list \<Rightarrow> 'a list \<Rightarrow> 'a list" where
  "pool_after pool xs = fold add_new xs pool"

lemma pool_after_simps [simp]:
  "pool_after pool [] = pool"
  "pool_after pool (x # xs) = pool_after (add_new x pool) xs"
  "pool_after pool (xs @ ys) = pool_after (pool_after pool xs) ys"
  by (simp_all add: pool_after_def)

lemma pool_after_set: "set (pool_after pool xs) = set pool \<union> set xs"
  by (induction xs arbitrary: pool) (auto simp: add_new_def)

lemma pool_after_distinct: "distinct pool \<Longrightarrow> distinct (pool_after pool xs)"
  by (induction xs arbitrary: pool) (auto simp: add_new_def)

lemma pool_after_prefix: "\<exists>ys. pool_after pool xs = pool @ ys"
proof (induction xs arbitrary: pool)
  case (Cons x xs)
  obtain ys where "pool_after (add_new x pool) xs = add_new x pool @ ys" using Cons by blast
  then show ?case by (auto simp: add_new_def)
qed simp

lemma pool_after_map:
  "inj_on f (set pool \<union> set xs) \<Longrightarrow> map f (pool_after pool xs) = pool_after (map f pool) (map f xs)"
proof (induction xs arbitrary: pool)
  case (Cons x xs)
  have "map f (add_new x pool) = add_new (f x) (map f pool)" using Cons.prems by (auto simp: add_new_def inj_on_def)
  moreover have "inj_on f (set (add_new x pool) \<union> set xs)" using Cons.prems by (rule inj_on_subset) (auto simp: add_new_def)
  ultimately show ?case using Cons.IH [of "add_new x pool"] by simp
qed simp

abbreviation idx :: "'a list \<Rightarrow> 'a \<Rightarrow> nat" where "idx pool x \<equiv> the (index_of x pool)"

lemma idx_nth: "x \<in> set pool \<Longrightarrow> idx pool x < length pool \<and> pool ! idx pool x = x"
  using index_of_None [of x pool] index_of_SomeD [of x pool] by (cases "index_of x pool") auto

lemma idx_at: "x \<in> set pool \<Longrightarrow> pool ! idx pool x = x"
  using idx_nth [of x pool] by simp

lemma ref_run_pool_after:
  assumes "distinct pool"
  shows "ref_run (length (pool_after pool xs)) (length pool) (map (idx (pool_after pool xs)) xs) = Some (length (pool_after pool xs))"
  using assms
proof (induction xs arbitrary: pool)
  case (Cons x xs)
  let ?all = "pool_after (add_new x pool) xs"
  obtain ys where ys: "?all = add_new x pool @ ys" using pool_after_prefix by blast
  have d: "distinct (add_new x pool)" using Cons.prems by (simp add: add_new_def)
  then have da: "distinct ?all" by (rule pool_after_distinct)
  have at: "idx ?all x = (if x \<in> set pool then idx pool x else length pool)"
  proof (cases "x \<in> set pool")
    case True
    then have "?all ! idx pool x = x" "idx pool x < length ?all" using idx_nth [OF True] ys by (auto simp: add_new_def nth_append)
    then show ?thesis using True index_of_nth [OF da] by fastforce
  next
    case False
    then have "?all ! length pool = x" "length pool < length ?all" using ys by (auto simp: add_new_def nth_append)
    then show ?thesis using False index_of_nth [OF da] by fastforce
  qed
  have "idx ?all x < length ?all" using idx_nth [of x ?all] pool_after_set [of "add_new x pool" xs] by (auto simp: add_new_def split: if_splits)
  moreover have "x \<in> set pool \<Longrightarrow> idx pool x < length pool" using idx_nth [of x pool] by simp
  ultimately show ?case using Cons.IH [OF d] at by (auto simp: add_new_def)
qed simp

definition grow :: "Pools \<Rightarrow> bytes list \<Rightarrow> bytes list \<Rightarrow> Pools" where
  "grow pools ps ks = \<lparr>pl_paths = pool_after (pl_paths pools) ps, pl_constants = pool_after (pl_constants pools) ks\<rparr>"

lemma grow_simps [simp]: "grow pools [] [] = pools" "grow (grow pools ps ks) ps' ks' = grow pools (ps @ ps') (ks @ ks')"
  by (simp_all add: grow_def)

definition small :: "Pools \<Rightarrow> bool" where
  "small pools \<longleftrightarrow> length (pl_paths pools) \<le> PATHS_MAX \<and> length (pl_constants pools) \<le> CONSTANTS_MAX"

lemma emit_path_Ok:
  assumes "emit_path path (pools, out) = Some (Ok st)"
  shows "is_legacy path = Some False \<and> fst st = grow pools [path] [] \<and> (small pools \<longrightarrow> small (fst st))"
proof -
  obtain i pools' where i: "path_id pools path = Some (Ok (i, pools'))" "fst st = pools'"
    using assms by (auto simp: emit_path_def pbind_Ok)
  show ?thesis unfolding i(2) using i(1)
    by (cases pools) (auto simp: path_id_def bind_eq_Some_conv grow_def add_new_def small_def split: if_splits option.splits dest!: index_of_SomeD)
qed

lemma emit_constant_Ok:
  assumes "emit_constant r (pools, out) = Some (Ok st)"
  shows "\<exists>k. r = Ok k \<and> fst st = grow pools [] [k] \<and> (small pools \<longrightarrow> small (fst st))"
proof -
  obtain k i pools' where i: "r = Ok k" "constant_id pools k = Ok (i, pools')" "fst st = pools'"
    using assms by (auto simp: emit_constant_def rbind_Ok)
  show ?thesis unfolding i(1,3) using i(2)
    by (cases pools) (auto simp: constant_id_def grow_def add_new_def small_def split: if_splits option.splits dest!: index_of_SomeD)
qed

text \<open>The constants of a tree, the prefix of BEGINS_WITH being one, and the static typing of the tree.\<close>

definition pred_consts :: "Predicate \<Rightarrow> Constant list" where
  "pred_consts p = expr_consts (map_expr id id CUtf8 p)"

lemma pred_consts_simps [simp]:
  "pred_consts (EAnd es) = concat (map pred_consts es)"
  "pred_consts (EOr es) = concat (map pred_consts es)"
  "pred_consts (ENot e) = pred_consts e"
  "pred_consts (ECmp op p c) = [c]"
  "pred_consts (EBetween p l h) = [l, h]"
  "pred_consts (EBeginsWith p s) = [CUtf8 s]"
  "pred_consts (EIn p ms) = ms"
  "pred_consts (EExists p) = []"
  by (simp_all add: pred_consts_def [abs_def] comp_def)

abbreviation pred_well_typed :: "Predicate \<Rightarrow> bool" where
  "pred_well_typed \<equiv> well_typed family (\<lambda>_. FamUtf8)"

definition emitted :: "Pools \<Rightarrow> bytes list \<Rightarrow> Constant list \<Rightarrow> Pools \<Rightarrow> bool" where
  "emitted pools ps cs pools' \<longleftrightarrow> (\<forall>p\<in>set ps. is_legacy p = Some False) \<and>
     (\<exists>ks. map constant_bytes cs = map Ok ks \<and> pools' = grow pools ps ks) \<and> (small pools \<longrightarrow> small pools')"

lemma emitted_Nil: "emitted pools [] [] pools"
  by (simp add: emitted_def)

lemma emitted_trans: "emitted pools ps cs pools1 \<Longrightarrow> emitted pools1 ps' cs' pools2 \<Longrightarrow> emitted pools (ps @ ps') (cs @ cs') pools2"
  unfolding emitted_def by (auto intro!: exI [of _ "_ @ _"])

lemma emit_path_emitted: "emit_path path st = Some (Ok st') \<Longrightarrow> emitted (fst st) [path] [] (fst st')"
  using emit_path_Ok [of path "fst st" "snd st" st'] by (auto simp: emitted_def)

lemma emit_constant_emitted: "emit_constant (constant_bytes c) st = Some (Ok st') \<Longrightarrow> emitted (fst st) [] [c] (fst st')"
  using emit_constant_Ok [of "constant_bytes c" "fst st" "snd st" st'] by (auto simp: emitted_def intro!: exI [of _ "[_]"])

lemma emit_members_emitted: "emit_members ms st = Some (Ok st') \<Longrightarrow> emitted (fst st) [] ms (fst st')"
proof (induction ms arbitrary: st)
  case (Cons m ms)
  then obtain st1 where "emit_constant (constant_bytes m) st = Some (Ok st1)" "emit_members ms st1 = Some (Ok st')" by (auto simp: pbind_Ok)
  then show ?case using Cons.IH emit_constant_emitted emitted_trans [of "fst st" "[]" "[m]" "fst st1" "[]" ms "fst st'"] by simp
qed (simp add: emitted_Nil)

lemma encode_leaf_success:
  assumes "encode_leaf e st = Some (Ok st')"
  shows "pred_well_typed e \<and> emitted (fst st) (expr_paths e) (pred_consts e) (fst st')"
proof -
  have two: "emitted (fst st) [p] cs (fst st')"
    if "emit_path p st0 = Some (Ok st1)" "fst st0 = fst st" "emitted (fst st1) [] cs (fst st')" for p st0 st1 cs
    using emitted_trans [OF emit_path_emitted [OF that(1)] that(3)] that(2) by simp
  show ?thesis
  proof (cases e)
    case (ECmp op p c)
    then obtain st1 where "emit_path p (push_byte (opcode_of op) st) = Some (Ok st1)" "emit_constant (constant_bytes c) st1 = Some (Ok st')"
      using assms by (auto simp: pbind_Ok)
    then show ?thesis using ECmp two [OF _ _ emit_constant_emitted] by (simp add: push_byte_def)
  next
    case (EBetween p l h)
    then obtain st1 st2 where "emit_path p (push_byte OP_BETWEEN st) = Some (Ok st1)" "emit_constant (constant_bytes l) st1 = Some (Ok st2)"
        "emit_constant (constant_bytes h) st2 = Some (Ok st')" "family l = family h"
      using assms by (auto simp: pbind_Ok split: if_splits)
    moreover from this have "emitted (fst st1) ([] @ []) ([l] @ [h]) (fst st')"
      by (intro emitted_trans [OF emit_constant_emitted emit_constant_emitted])
    ultimately show ?thesis using EBetween two by (simp add: push_byte_def)
  next
    case (EBeginsWith p s)
    then obtain st1 where "emit_path p (push_byte OP_BEGINS_WITH st) = Some (Ok st1)" "emit_constant (constant_bytes (CUtf8 s)) st1 = Some (Ok st')"
      using assms by (auto simp: pbind_Ok)
    then show ?thesis using EBeginsWith two [OF _ _ emit_constant_emitted] by (simp add: push_byte_def)
  next
    case (EIn p ms)
    then have ms: "1 \<le> length ms" "length ms \<le> IN_MEMBERS_MAX" "\<forall>m\<in>set ms. family m = family (ms ! 0)"
      using assms by (auto split: if_splits)
    obtain st1 where "emit_path p (push_byte OP_IN st) = Some (Ok st1)" "emit_members ms (push_byte (of_nat (length ms)) st1) = Some (Ok st')"
      using assms EIn by (auto simp: pbind_Ok split: if_splits)
    moreover from this have "emitted (fst st1) [] ms (fst st')" using emit_members_emitted [of ms "push_byte (of_nat (length ms)) st1"] by (simp add: push_byte_def)
    moreover have "ms ! 0 = hd ms" using ms(1) by (cases ms) auto
    ultimately show ?thesis using EIn two ms by (simp add: push_byte_def)
  next
    case (EExists p)
    then show ?thesis using assms emit_path_emitted [of p "push_byte OP_EXISTS st" st'] by (simp add: push_byte_def)
  qed (use assms in simp_all)
qed

lemma encode_walk_success:
  assumes "encode_walk work ops st = Some (Ok st')" and "ops \<le> OPS_MAX"
  shows "(\<forall>(e, d)\<in>set work. pred_well_typed e \<and> within_depth d e) \<and> ops + sum_list (map (ops_of \<circ> fst) work) \<le> OPS_MAX \<and>
    emitted (fst st) (concat (map (expr_paths \<circ> fst) work)) (concat (map (pred_consts \<circ> fst) work)) (fst st')"
  using assms
proof (induction "OPS_MAX + 1 - ops" arbitrary: work ops st rule: less_induct)
  case less
  show ?case
  proof (cases work)
    case Nil
    then show ?thesis using less.prems by (simp add: emitted_Nil)
  next
    case (Cons nd rest)
    obtain node depth where nd: "nd = (node, depth)" by (cases nd)
    note run = less.prems(1) [unfolded Cons nd]
    have g: "\<not> depth > NESTING_DEPTH_MAX" "\<not> ops + 1 > OPS_MAX" using run by (auto simp: encode_walk.simps(2) split: if_splits)
    have IH: "(\<forall>(e, d)\<in>set work'. pred_well_typed e \<and> within_depth d e) \<and> ops + 1 + sum_list (map (ops_of \<circ> fst) work') \<le> OPS_MAX \<and>
        emitted (fst st1) (concat (map (expr_paths \<circ> fst) work')) (concat (map (pred_consts \<circ> fst) work')) (fst st')"
      if "encode_walk work' (ops + 1) st1 = Some (Ok st')" for work' st1
      using less.hyps [OF _ that] g(2) by simp
    have ar: "2 \<le> length es \<and> length es \<le> BOOL_ARITY_MAX" if "bool_arity es = Ok n" for es n
      using that by (auto simp: bool_arity_def split: if_splits)
    show ?thesis
    proof (cases "is_leaf node")
      case True
      then obtain st1 where st1: "encode_leaf node st = Some (Ok st1)" "encode_walk rest (ops + 1) st1 = Some (Ok st')"
        using run g by (auto simp: encode_walk_leaf pbind_Ok)
      then show ?thesis using IH [OF st1(2)] encode_leaf_success [OF st1(1)] leaf_ops [OF True] g Cons nd by (auto intro: emitted_trans)
    next
      case False
      then consider (conj) es n where "node = EAnd es" "bool_arity es = Ok n"
            "encode_walk (map (\<lambda>child. (child, depth + 1)) es @ rest) (ops + 1) (push_byte n (push_byte OP_AND st)) = Some (Ok st')"
        | (disj) es n where "node = EOr es" "bool_arity es = Ok n"
            "encode_walk (map (\<lambda>child. (child, depth + 1)) es @ rest) (ops + 1) (push_byte n (push_byte OP_OR st)) = Some (Ok st')"
        | (neg) e where "node = ENot e" "encode_walk ((e, depth + 1) # rest) (ops + 1) (push_byte OP_NOT st) = Some (Ok st')"
        using run g by (cases node) (auto simp: encode_walk.simps(2) split: sum.splits)
      then show ?thesis
      proof cases
        case conj
        then show ?thesis using IH [OF conj(3)] g Cons nd ar [OF conj(2)] by (auto simp: comp_def push_byte_def)
      next
        case disj
        then show ?thesis using IH [OF disj(3)] g Cons nd ar [OF disj(2)] by (auto simp: comp_def push_byte_def)
      next
        case neg
        then show ?thesis using IH [OF neg(2)] g Cons nd by (auto simp: push_byte_def)
      qed
    qed
  qed
qed

section \<open>One encoding\<close>

text \<open>The tape of a tree over given pools.\<close>

definition tape_of :: "bytes list \<Rightarrow> Constant list \<Rightarrow> Predicate \<Rightarrow> tape" where
  "tape_of ps cs p = map_expr (idx ps) (idx cs) (\<lambda>s. idx cs (CUtf8 s)) p"

lemma tape_of_simps [simp]:
  "tape_of ps cs (EAnd es) = EAnd (map (tape_of ps cs) es)"
  "tape_of ps cs (EOr es) = EOr (map (tape_of ps cs) es)"
  "tape_of ps cs (ENot e) = ENot (tape_of ps cs e)"
  "tape_of ps cs (ECmp op p c) = ECmp op (idx ps p) (idx cs c)"
  "tape_of ps cs (EBetween p l h) = EBetween (idx ps p) (idx cs l) (idx cs h)"
  "tape_of ps cs (EBeginsWith p s) = EBeginsWith (idx ps p) (idx cs (CUtf8 s))"
  "tape_of ps cs (EIn p ms) = EIn (idx ps p) (map (idx cs) ms)"
  "tape_of ps cs (EExists p) = EExists (idx ps p)"
  by (simp_all add: tape_of_def)

lemma tape_of_shape:
  "expr_paths (tape_of ps cs p) = map (idx ps) (expr_paths p)"
  "expr_consts (tape_of ps cs p) = map (idx cs) (pred_consts p)"
  "ops_of (tape_of ps cs p) = ops_of p"
  "within_depth d (tape_of ps cs p) = within_depth d p"
  by (induction p arbitrary: d) (simp_all add: map_concat comp_def cong: map_cong)

lemma tape_of_dec:
  assumes "set (expr_paths p) \<subseteq> set ps" and "set (pred_consts p) \<subseteq> set cs"
  shows "dec ps cs (tape_of ps cs p) = p" and "well_typed (pool_fam cs) (pool_fam cs) (tape_of ps cs p) = pred_well_typed p"
proof -
  have "dec ps cs (tape_of ps cs p) = p \<and> well_typed (pool_fam cs) (pool_fam cs) (tape_of ps cs p) = pred_well_typed p"
    using assms
  proof (induction p)
    case (EAnd es)
    then have "\<forall>e\<in>set es. dec ps cs (tape_of ps cs e) = e \<and> well_typed (pool_fam cs) (pool_fam cs) (tape_of ps cs e) = pred_well_typed e" by (simp add: UN_subset_iff)
    then show ?case by (simp add: map_idI)
  next
    case (EOr es)
    then have "\<forall>e\<in>set es. dec ps cs (tape_of ps cs e) = e \<and> well_typed (pool_fam cs) (pool_fam cs) (tape_of ps cs e) = pred_well_typed e" by (simp add: UN_subset_iff)
    then show ?case by (simp add: map_idI)
  next
    case (EIn p ms)
    then have "\<forall>m\<in>set ms. cs ! idx cs m = m" by (auto intro!: idx_at)
    moreover from this have "ms \<noteq> [] \<Longrightarrow> cs ! idx cs (hd ms) = hd ms" by simp
    moreover have "ps ! idx ps p = p" using EIn by (auto intro: idx_at)
    ultimately show ?case by (cases ms) (auto simp: map_idI)
  qed (auto simp: idx_at)
  then show "dec ps cs (tape_of ps cs p) = p" and "well_typed (pool_fam cs) (pool_fam cs) (tape_of ps cs p) = pred_well_typed p" by blast+
qed

definition pred_typed :: "Predicate \<Rightarrow> bool" where
  "pred_typed p \<longleftrightarrow> (\<forall>path\<in>set (expr_paths p). path_from_bytes path = Ok path) \<and> (\<forall>c\<in>set (pred_consts p). const_typed c)"

lemma normalise_shape:
  "expr_paths (normalise p) = expr_paths p"
  "pred_consts (normalise p) = map norm_const (pred_consts p)"
  "ops_of (normalise p) = ops_of p"
  "within_depth d (normalise p) = within_depth d p"
  "pred_well_typed (normalise p) = pred_well_typed p"
proof -
  show "expr_paths (normalise p) = expr_paths p" "pred_consts (normalise p) = map norm_const (pred_consts p)"
    "ops_of (normalise p) = ops_of p" "within_depth d (normalise p) = within_depth d p"
    by (induction p arbitrary: d) (simp_all add: map_concat comp_def cong: map_cong)
  show "pred_well_typed (normalise p) = pred_well_typed p"
  proof (induction p)
    case (EIn p ms)
    then show ?case by (cases ms) auto
  qed simp_all
qed

lemma encoded_program:
  assumes "pred_typed p" and "pred_encode p = Some (Ok bytes)"
  obtains ps cs t where "program_ok ps cs t" "bytes = program_bytes ps cs t" "dec ps cs t = normalise p" "length bytes < PREDICATE_BYTES_CEILING"
proof -
  let ?p = "normalise p" and ?empty = "\<lparr>pl_paths = [], pl_constants = []\<rparr>"
  obtain st where "encode_walk [(?p, 1)] 0 (?empty, []) = Some (Ok st)"
    using assms(2) pred_encode_norm [of p] by (auto simp: pred_encode_def pbind_Ok)
  from encode_walk_success [OF this] have w: "pred_well_typed ?p" "within_depth 1 ?p" "ops_of ?p \<le> OPS_MAX"
      "emitted ?empty (expr_paths ?p) (pred_consts ?p) (fst st)" by auto
  define ps cs where "ps = pool_after [] (expr_paths ?p)" and "cs = pool_after [] (pred_consts ?p)"
  define t where "t = tape_of ps cs ?p"
  have cok: "const_ok c" if "c \<in> set (pred_consts ?p)" for c
  proof -
    have "c \<in> norm_const ` set (pred_consts p)" using that by (simp add: normalise_shape(2))
    then obtain d where d: "c = norm_const d" "d \<in> set (pred_consts p)" by blast
    obtain ks where "map constant_bytes (pred_consts ?p) = map Ok ks" using w(4) by (auto simp: emitted_def)
    then have "constant_bytes c \<in> Ok ` set ks" using that by (metis image_eqI list.set_map)
    then obtain k where "constant_bytes d = Ok k" using d(1) constant_bytes_norm [of d] by auto
    then show ?thesis using norm_const_ok [of d k] d assms(1) by (auto simp: pred_typed_def)
  qed
  have ks: "map constant_bytes (pred_consts ?p) = map Ok (map const_code (pred_consts ?p))" using cok constant_bytes_ok by simp
  obtain ks' where "map constant_bytes (pred_consts ?p) = map Ok ks'" "fst st = grow ?empty (expr_paths ?p) ks'" "small (fst st)"
    using w(4) by (auto simp: emitted_def small_def)
  moreover from this have "ks' = map const_code (pred_consts ?p)" using ks by (metis list.inj_map_strong sum.inject(2))
  moreover have inj: "inj_on const_code (set [] \<union> set (pred_consts ?p))" using cok const_code_inj by (auto simp: inj_on_def)
  ultimately have "length ps \<le> PATHS_MAX \<and> length cs \<le> CONSTANTS_MAX"
    using pool_after_map [OF inj] by (metis (no_types, lifting) Pools.select_convs grow_def length_map list.simps(8) ps_def cs_def small_def)
  moreover have "path_ok q" if "q \<in> set ps" for q
    using that w(4) assms(1) by (auto simp: ps_def pool_after_set path_ok_def emitted_def pred_typed_def normalise_shape)
  moreover have sub: "set (expr_paths ?p) \<subseteq> set ps" "set (pred_consts ?p) \<subseteq> set cs" by (simp_all add: ps_def cs_def pool_after_set)
  ultimately have "program_ok ps cs t"
    using w(1-3) cok tape_of_dec(2) [OF sub] ref_run_pool_after [of "[]" "expr_paths ?p"] ref_run_pool_after [of "[]" "pred_consts ?p"]
    by (auto simp: program_ok_def t_def tape_of_shape ps_def cs_def pool_after_set pool_after_distinct)
  moreover have "dec ps cs t = ?p" unfolding t_def by (rule tape_of_dec(1) [OF sub])
  ultimately show thesis using that encode_program [of ps cs t] assms(2) pred_encode_norm [of p] by (auto split: if_splits)
qed

text \<open>Neither the encoder, on trees of validated paths, nor the validator panics.\<close>

lemma path_from_bytes_legacy: "path_from_bytes p = Ok q \<Longrightarrow> is_legacy p \<noteq> None"
  by (auto simp: path_from_bytes_def rbind_Ok path_validate_def is_legacy_def split: if_splits)

lemma path_from_bytes_legacy_value: "path_from_bytes p = Ok q \<Longrightarrow> \<exists>b. is_legacy q = Some b"
  using path_from_bytes_legacy [of p q] path_from_bytes_same [of p q] by auto

text \<open>A call that does not panic and whose result, if it is one, satisfies \<open>P\<close>.\<close>

definition no_panic :: "('a \<Rightarrow> bool) \<Rightarrow> ('e + 'a) option \<Rightarrow> bool" where
  "no_panic P r \<longleftrightarrow> r \<noteq> None \<and> (\<forall>x. r = Some (Ok x) \<longrightarrow> P x)"

lemma no_panic_simps [simp]: "no_panic P (Some (Err e))" "no_panic P (Some (Ok x)) \<longleftrightarrow> P x" "\<not> no_panic P None"
  by (simp_all add: no_panic_def)

lemma no_panic_pbind: "no_panic P r \<Longrightarrow> (\<And>x. P x \<Longrightarrow> no_panic Q (f x)) \<Longrightarrow> no_panic Q (pbind r f)"
  by (cases "(r, f)" rule: pbind.cases) simp_all

lemma no_panic_mono: "no_panic P r \<Longrightarrow> (\<And>x. P x \<Longrightarrow> Q x) \<Longrightarrow> no_panic Q r"
  by (simp add: no_panic_def)

lemma no_panic_cases:
  obtains (panic) "r = None" | (err) e where "r = Some (Err e)" | (ok) x where "r = Some (Ok x)"
  by (metis option.exhaust sum.exhaust)

lemma read_varint_at_safe: "at \<le> length bytes \<Longrightarrow> no_panic (\<lambda>(v, j). j \<le> length bytes) (read_varint_at bytes at)"
proof -
  assume "at \<le> length bytes"
  then have "read_varint_at bytes at \<noteq> None" by (simp add: read_varint_at_def)
  then show ?thesis by (auto simp: no_panic_def read_varint_at_iff dest: code_at_varint_le)
qed

lemma read_pool_ref_safe:
  "at \<le> length bytes \<Longrightarrow> no_panic (\<lambda>(i, j, m). i < len \<and> j \<le> length bytes) (read_pool_ref bytes at len n)"
  unfolding read_pool_ref_def by (rule no_panic_pbind [OF read_varint_at_safe]) (auto split: prod.splits)

lemma path_ref_safe:
  "at \<le> length (ck_bytes ck) \<Longrightarrow>
    no_panic (\<lambda>(j, ck'). j \<le> length (ck_bytes ck) \<and> ck_bytes ck' = ck_bytes ck) (path_ref ck at)"
  unfolding path_ref_def by (rule no_panic_pbind [OF read_pool_ref_safe]) (auto split: prod.splits)

lemma constant_ref_safe:
  "at \<le> length (ck_bytes ck) \<Longrightarrow>
    no_panic (\<lambda>(fam, off, j, ck'). j \<le> length (ck_bytes ck) \<and> ck_bytes ck' = ck_bytes ck) (constant_ref ck at)"
  unfolding constant_ref_def by (rule no_panic_pbind [OF read_pool_ref_safe]) (auto split: prod.splits)

lemma validate_in_members_safe:
  "at \<le> length (ck_bytes ck) \<Longrightarrow> no_panic (\<lambda>(j, ck'). ck_bytes ck' = ck_bytes ck) (validate_in_members n first at ck)"
proof (induction n arbitrary: at ck)
  case (Suc n)
  have "no_panic (\<lambda>(j, ck'). ck_bytes ck' = ck_bytes ck) (validate_in_members n first j ck1)"
    if "j \<le> length (ck_bytes ck)" "ck_bytes ck1 = ck_bytes ck" for j ck1
    using Suc.IH [of j ck1] that by simp
  then show ?case unfolding validate_in_members.simps
    by (intro no_panic_pbind [OF constant_ref_safe [OF Suc.prems]]) auto
qed simp

lemma validate_leaf_safe:
  assumes "at \<le> length (ck_bytes ck)"
  shows "no_panic (\<lambda>(j, ck'). ck_bytes ck' = ck_bytes ck) (validate_leaf opcode opat at ck)"
proof -
  have const: "no_panic (\<lambda>(j, ck'). ck_bytes ck' = ck_bytes ck) (pbind (constant_ref ck1 at1) f)"
    if "at1 \<le> length (ck_bytes ck)" "ck_bytes ck1 = ck_bytes ck"
      "\<And>fam off j ck2. j \<le> length (ck_bytes ck) \<Longrightarrow> ck_bytes ck2 = ck_bytes ck \<Longrightarrow>
        no_panic (\<lambda>(j, ck'). ck_bytes ck' = ck_bytes ck) (f (fam, off, j, ck2))" for at1 ck1 f
  proof (rule no_panic_pbind)
    show "no_panic (\<lambda>(fam, off, j, ck'). j \<le> length (ck_bytes ck) \<and> ck_bytes ck' = ck_bytes ck) (constant_ref ck1 at1)"
      using constant_ref_safe [of at1 ck1] that(1,2) by simp
  qed (use that(3) in auto)
  have path: "no_panic (\<lambda>(j, ck'). ck_bytes ck' = ck_bytes ck) (pbind (path_ref ck at) f)"
    if "\<And>j ck1. j \<le> length (ck_bytes ck) \<Longrightarrow> ck_bytes ck1 = ck_bytes ck \<Longrightarrow>
        no_panic (\<lambda>(j, ck'). ck_bytes ck' = ck_bytes ck) (f (j, ck1))" for f
    by (rule no_panic_pbind [OF path_ref_safe [OF assms]]) (use that in auto)
  have members: "no_panic (\<lambda>(j, ck'). ck_bytes ck' = ck_bytes ck) (validate_in_members n first at1 ck1)"
    if "at1 \<le> length (ck_bytes ck)" "ck_bytes ck1 = ck_bytes ck" for n first at1 ck1
    using validate_in_members_safe [of at1 ck1] that by simp
  have "no_panic (\<lambda>(j, ck'). ck_bytes ck' = ck_bytes ck) (path_ref ck at)"
    by (rule no_panic_mono [OF path_ref_safe [OF assms]]) auto
  then show ?thesis unfolding validate_leaf_def by (auto simp: Let_def intro!: path const members)
qed

lemma validate_ops_total: "ck_bytes ck = bytes \<Longrightarrow> validate_ops bytes at stack ops ck \<noteq> None"
proof (induction bytes at stack ops ck rule: validate_ops.induct)
  case (1 bytes at stack ops ck)
  show ?case
  proof (cases "at < length bytes")
    case True
    then have "no_panic (\<lambda>(j, ck'). ck_bytes ck' = bytes) (validate_leaf (bytes ! at) at (at + 1) ck)"
      using validate_leaf_safe [of "at + 1" ck] "1.prems" by simp
    then consider (err) e where "validate_leaf (bytes ! at) at (at + 1) ck = Some (Err e)"
      | (ok) k ck1 where "validate_leaf (bytes ! at) at (at + 1) ck = Some (Ok (k, ck1))" "ck_bytes ck1 = bytes"
      by (cases "validate_leaf (bytes ! at) at (at + 1) ck" rule: no_panic_cases) auto
    then show ?thesis
    proof cases
      case err
      then show ?thesis using "1.IH"(1,2) "1.prems" by (subst validate_ops.simps) (simp add: Let_def del: not_None_eq)
    next
      case ok
      then show ?thesis using "1.IH" "1.prems" by (subst validate_ops.simps) (simp add: Let_def del: not_None_eq)
    qed
  next
    case False
    then show ?thesis by (subst validate_ops.simps) auto
  qed
qed

lemma validate_path_entries_safe:
  "at \<le> length bytes \<Longrightarrow> no_panic (\<lambda>(spans', j). j \<le> length bytes) (validate_path_entries n bytes at spans)"
proof (induction n arbitrary: at spans)
  case (Suc n)
  have "no_panic (\<lambda>(spans', j). j \<le> length bytes) (validate_path_entries n bytes stop spans')"
    if "region_end len start (length bytes) = Some stop" for len start stop spans'
    using that Suc.IH by (simp add: region_end_Some)
  then show ?case unfolding validate_path_entries.simps
    by (intro no_panic_pbind [OF read_varint_at_safe [OF Suc.prems]])
      (auto dest!: path_from_bytes_legacy_value split: option.splits sum.splits)
qed simp

lemma validate_constant_safe: "no_panic (\<lambda>_. True) (validate_constant bytes at)"
proof -
  have "no_panic (\<lambda>_. True) (pbind (read_varint_at bytes (at + 1)) f)"
    if "at < length bytes" "\<And>v j. no_panic (\<lambda>_. True) (f (v, j))" for f :: "u64 \<times> nat \<Rightarrow> (PredicateError + ConstFamily \<times> nat) option"
    by (rule no_panic_pbind [OF read_varint_at_safe]) (use that in auto)
  then show ?thesis unfolding validate_constant_def by (auto simp: Let_def split: option.splits)
qed

lemma validate_constant_entries_safe: "no_panic (\<lambda>_. True) (validate_constant_entries n bytes at ks)"
proof (induction n arbitrary: at ks)
  case (Suc n)
  then show ?case unfolding validate_constant_entries.simps
    by (intro no_panic_pbind [OF validate_constant_safe]) (auto split: prod.splits)
qed simp

text \<open>The slices and indices of the validator are in range, whatever the bytes.\<close>

lemma pred_validate_total: "pred_validate bytes \<noteq> None"
proof (cases "length bytes < 2")
  case True
  then show ?thesis by (simp add: pred_validate_def)
next
  case False
  have paths: "no_panic (\<lambda>(spans, j). j \<le> length bytes) (validate_paths bytes 2)"
    unfolding validate_paths_def using False
    by (intro no_panic_pbind [OF read_varint_at_safe]) (auto simp: validate_path_entries_safe)
  have pool: "no_panic (\<lambda>_. True) (validate_constants bytes j)" if "j \<le> length bytes" for j
    unfolding validate_constants_def using that
    by (intro no_panic_pbind [OF read_varint_at_safe]) (auto simp: validate_constant_entries_safe)
  have expr: "no_panic (\<lambda>_. True) (validate_expr bytes j n ks)" for j n ks
    by (auto simp: no_panic_def validate_expr_def pbind_None validate_ops_total split: if_splits iff del: not_None_eq)
  have "no_panic (\<lambda>_. True) (pbind (validate_paths bytes 2) (\<lambda>(path_spans, at).
      pbind (validate_constants bytes at) (\<lambda>(constants, at). validate_expr bytes at (length path_spans) constants)))"
    by (intro no_panic_pbind [OF paths]) (auto intro!: no_panic_pbind [OF pool] expr)
  then show ?thesis by (auto simp: pred_validate_def no_panic_def)
qed

lemma emit_path_total: "is_legacy path \<noteq> None \<Longrightarrow> emit_path path st \<noteq> None"
  by (auto simp: emit_path_def path_id_def pbind_None Option.bind_eq_None_conv split: option.splits iff del: not_None_eq)

lemma emit_members_total: "emit_members ms st \<noteq> None"
  by (induction ms arbitrary: st) (auto simp: emit_constant_def pbind_None iff del: not_None_eq)

lemma encode_leaf_total: "is_leaf e \<Longrightarrow> \<forall>p\<in>set (expr_paths e). is_legacy p \<noteq> None \<Longrightarrow> encode_leaf e st \<noteq> None"
  by (cases e) (auto simp: emit_constant_def emit_path_total emit_members_total pbind_None iff del: not_None_eq)

lemma encode_walk_total:
  assumes "\<forall>(e, d)\<in>set work. \<forall>p\<in>set (expr_paths e). is_legacy p \<noteq> None"
  shows "encode_walk work ops st \<noteq> None"
  using assms
proof (induction "OPS_MAX + 1 - ops" arbitrary: work ops st rule: less_induct)
  case less
  show ?case
  proof (cases work)
    case (Cons nd rest)
    obtain node depth where nd: "nd = (node, depth)" by (cases nd)
    have IH: "encode_walk work' (ops + 1) st' \<noteq> None"
      if "\<not> ops + 1 > OPS_MAX" "\<forall>(e, d)\<in>set work'. \<forall>p\<in>set (expr_paths e). is_legacy p \<noteq> None" for work' st'
      using less.hyps [of "ops + 1" work' st'] that by simp
    show ?thesis
    proof (cases "is_leaf node")
      case True
      then show ?thesis using Cons nd less.prems encode_leaf_total [of node st] IH [of rest]
        by (auto simp: encode_walk_leaf pbind_None iff del: not_None_eq)
    next
      case False
      have kids: "encode_walk (map (\<lambda>child. (child, Suc depth)) es @ rest) (Suc ops) st' \<noteq> None"
        if "\<not> OPS_MAX < Suc ops" "\<forall>e\<in>set es. \<forall>p\<in>set (expr_paths e). is_legacy p \<noteq> None" for es st'
        using IH [of "map (\<lambda>child. (child, Suc depth)) es @ rest" st'] that less.prems unfolding Cons by fastforce
      have one: "encode_walk ((e, Suc depth) # rest) (Suc ops) st' \<noteq> None"
        if "\<not> OPS_MAX < Suc ops" "\<forall>p\<in>set (expr_paths e). is_legacy p \<noteq> None" for e st'
        using kids [of "[e]"] that by simp
      show ?thesis using False less.prems unfolding Cons nd
        by (subst encode_walk.simps(2)) (cases node; auto simp: kids one split: sum.splits iff del: not_None_eq)
    qed
  qed simp
qed

lemma pred_encode_total: "pred_typed p \<Longrightarrow> pred_encode p \<noteq> None"
  using encode_walk_total [of "[(p, 1)]"] path_from_bytes_legacy
  by (auto simp: pred_encode_def pred_typed_def pbind_None iff del: not_None_eq)

text \<open>What a valid program decodes to is a well-typed tree whose zero constants have no sign.\<close>

lemma dec_shape:
  assumes "program_ok ps cs t"
  shows "pred_typed (dec ps cs t)" and "pred_well_typed (dec ps cs t)" and "within_depth 1 (dec ps cs t)" and "ops_of (dec ps cs t) \<le> OPS_MAX"
proof -
  note r = program_refs [OF assms]
  have "expr_paths (dec ps cs t) = map ((!) ps) (expr_paths t) \<and> pred_consts (dec ps cs t) = map ((!) cs) (expr_consts t) \<and>
      pred_well_typed (dec ps cs t) \<and> ops_of (dec ps cs t) = ops_of t"
    using r(1,4)
  proof (induction t)
    case (EAnd es)
    then show ?case using refs_in_sub(1) [OF EAnd.prems(1)] by (auto simp: map_concat comp_def cong: map_cong)
  next
    case (EOr es)
    then show ?case using refs_in_sub(2) [OF EOr.prems(1)] by (auto simp: map_concat comp_def cong: map_cong)
  next
    case (ENot e)
    then show ?case by (auto simp: refs_in_def)
  next
    case (EIn p ms)
    then show ?case by (cases ms) auto
  next
    case (EBeginsWith p s)
    then show ?case using family_utf8 [of "cs ! s"] by simp
  qed auto
  note d = this
  have "within_depth l (dec ps cs t) = within_depth l t" for l by (induction t arbitrary: l) simp_all
  then show "within_depth 1 (dec ps cs t)" "ops_of (dec ps cs t) \<le> OPS_MAX" "pred_well_typed (dec ps cs t)"
    using assms d by (simp_all add: program_ok_def)
  have "const_ok c \<Longrightarrow> const_typed c" for c by (cases c) auto
  then show "pred_typed (dec ps cs t)" using d r(1) assms by (auto simp: pred_typed_def refs_in_def program_ok_def path_ok_def)
qed

text \<open>What the encoder writes validates, and what validates is a valid program.\<close>

lemma encoded_validates:
  assumes "pred_typed p" and "pred_encode p = Some (Ok bytes)"
  shows "pred_from_bytes bytes = Some (Ok bytes)" and "pred_decode bytes = Some (normalise p)"
proof -
  obtain ps cs t where t: "program_ok ps cs t" "bytes = program_bytes ps cs t" "dec ps cs t = normalise p"
      "length bytes < PREDICATE_BYTES_CEILING"
    using encoded_program [OF assms] by metis
  then have "length (program_bytes ps cs t) < 2 ^ 64" by (simp add: predicate_limits)
  then show "pred_from_bytes bytes = Some (Ok bytes)" "pred_decode bytes = Some (normalise p)"
    using pred_validate_complete [of ps cs t] pred_decode_program [of ps cs t] t by (simp_all add: pred_from_bytes_def)
qed

lemma validated_program:
  assumes "pred_from_bytes bytes = Some (Ok program)"
  obtains ps cs t where "program = bytes" "program_ok ps cs t" "bytes = program_bytes ps cs t" "length bytes < PREDICATE_BYTES_CEILING"
proof -
  have "pred_validate bytes = Some (Ok ())" "program = bytes" using assms by (auto simp: pred_from_bytes_def pbind_Ok)
  then show thesis using pred_validate_sound [of bytes] that by metis
qed

text \<open>
  C35: predicate programs have one encoding. The encoder, on a tree of validated paths and UTF-8 strings, does not
  panic, and what it writes validates and decodes to that tree up to the sign of zero constants. The validator does not
  panic on any bytes, and what it accepts decodes to a tree that encodes to exactly those bytes.
\<close>

theorem predicate_program_canonical:
  assumes "pred_typed p"
  shows "pred_encode p \<noteq> None \<and> pred_from_bytes bytes \<noteq> None \<and>
    (pred_encode p = Some (Ok bytes) \<longrightarrow> pred_from_bytes bytes = Some (Ok bytes) \<and> pred_decode bytes = Some (normalise p)) \<and>
    (pred_from_bytes bytes = Some (Ok program) \<longrightarrow>
      (\<exists>q. pred_typed q \<and> pred_decode bytes = Some q \<and> pred_encode q = Some (Ok bytes)))"
proof (intro conjI impI)
  show "pred_encode p \<noteq> None" by (rule pred_encode_total [OF assms])
  show "pred_from_bytes bytes \<noteq> None"
    using pred_validate_total [of bytes] by (auto simp: pred_from_bytes_def pbind_None iff del: not_None_eq)
next
  assume "pred_encode p = Some (Ok bytes)"
  from encoded_validates [OF assms this] show "pred_from_bytes bytes = Some (Ok bytes)" "pred_decode bytes = Some (normalise p)" .
next
  assume "pred_from_bytes bytes = Some (Ok program)"
  then obtain ps cs t where t: "program = bytes" "program_ok ps cs t" "bytes = program_bytes ps cs t" "length bytes < PREDICATE_BYTES_CEILING"
    by (rule validated_program)
  then have "length (program_bytes ps cs t) < 2 ^ 64" by (simp add: predicate_limits)
  then show "\<exists>q. pred_typed q \<and> pred_decode bytes = Some q \<and> pred_encode q = Some (Ok bytes)"
    using pred_decode_program [of ps cs t] encode_program [of ps cs t] dec_shape(1) [of ps cs t] t by auto
qed

lemma negative_zero: "f64_eq 0x8000000000000000 0" "is_finite 0x8000000000000000"
  by (simp_all add: f64_eq_def is_finite_def is_nan_def f64_num_def f64_mag_def mag_val_def)

lemma field_a_zero:
  "pred_typed (ECmp CEq [1, 0, 1, 2, 1, 0x61] (CF64 0x8000000000000000))"
  "pred_encode (ECmp CEq [1, 0, 1, 2, 1, 0x61] (CF64 0x8000000000000000)) =
    Some (Ok [1, 0, 1, 6, 1, 0, 1, 2, 1, 0x61, 1, 2, 0, 0, 0, 0, 0, 0, 0, 0, 0x10, 0, 0])"
  "normalise (ECmp CEq [1, 0, 1, 2, 1, 0x61] (CF64 0x8000000000000000)) = ECmp CEq [1, 0, 1, 2, 1, 0x61] (CF64 0)"
proof -
  have varints: "encode_u64 0 = [0]" "encode_u64 1 = [1]" "encode_u64 6 = [6]" by (simp_all add: encode_u64.simps)
  have zeros: "be_bytes 8 (0 :: u64) = [0, 0, 0, 0, 0, 0, 0, 0]" by (simp add: be_bytes_def eval_nat_numeral)
  show "pred_encode (ECmp CEq [1, 0, 1, 2, 1, 0x61] (CF64 0x8000000000000000)) =
      Some (Ok [1, 0, 1, 6, 1, 0, 1, 2, 1, 0x61, 1, 2, 0, 0, 0, 0, 0, 0, 0, 0, 0x10, 0, 0])"
    by (simp add: pred_encode_def encode_walk.simps(2) negative_zero emit_path_def path_id_def is_legacy_def FLAG_LEGACY_def
        emit_constant_def constant_id_def push_byte_def emit_ref_def assemble_def path_entry_def varints zeros
        predicate_limits predicate_ops constant_tags PREDICATE_VERSION_def)
qed (simp_all add: pred_typed_def field_a_program negative_zero)

theorem predicate_program_canonical_witness:
  "pred_decode [1, 0, 1, 6, 1, 0, 1, 2, 1, 0x61, 1, 2, 0, 0, 0, 0, 0, 0, 0, 0, 0x10, 0, 0] =
    Some (ECmp CEq [1, 0, 1, 2, 1, 0x61] (CF64 0))"
  using predicate_program_canonical [OF field_a_zero(1),
      of "[1, 0, 1, 6, 1, 0, 1, 2, 1, 0x61, 1, 2, 0, 0, 0, 0, 0, 0, 0, 0, 0x10, 0, 0]"] field_a_zero(2,3) by simp

end
