(* ===== verification/PredEval.thy ===== *)
theory PredEval
  imports PredVm PredRound PathResume
begin

text \<open>
  What a predicate means on a document, and that the evaluator computes it: the verdict is the plain boolean reading of
  the tree, the flags come from the leaves a left-to-right reading with short circuits looks at, and the fuel is one
  unit for every operation of the program, every node those leaves visit and every member they test.
\<close>

section \<open>The meaning of a predicate\<close>

text \<open>Numbers compare as numbers, in units of \<open>2 ^ -1074\<close>; nothing compares across types.\<close>

fun value_number :: "DocValue \<Rightarrow> int option" where
  "value_number (VI64 v) = Some (sint v * 2 ^ 1074)"
| "value_number (VF64 f) = (if is_nan f then None else Some (f64_num f))"
| "value_number _ = None"

fun constant_number :: "Constant \<Rightarrow> int option" where
  "constant_number (CI64 c) = Some (sint c * 2 ^ 1074)"
| "constant_number (CF64 f) = Some (f64_num f)"
| "constant_number _ = None"

definition compares :: "DocValue \<Rightarrow> Constant \<Rightarrow> Ordering option" where
  "compares v c =
     (case (value_number v, constant_number c) of
        (Some a, Some b) \<Rightarrow> Some (cmp a b)
      | _ \<Rightarrow> (case (v, c) of
            (VBool a, CBool b) \<Rightarrow> Some (cmp a b)
          | (VStr a, CUtf8 b) \<Rightarrow> Some (bytes_cmp a b)
          | _ \<Rightarrow> None))"

definition path_events :: "bytes \<Rightarrow> DocValue \<Rightarrow> event list" where
  "path_events path root = trace (pa_segments (the (path_decode path))) root []"

definition path_values :: "bytes \<Rightarrow> DocValue \<Rightarrow> DocValue list" where
  "path_values path root = map snd (hits (path_events path root))"

fun truth :: "DocValue \<Rightarrow> Predicate \<Rightarrow> bool" where
  "truth root (EAnd es) \<longleftrightarrow> (\<forall>e\<in>set es. truth root e)"
| "truth root (EOr es) \<longleftrightarrow> (\<exists>e\<in>set es. truth root e)"
| "truth root (ENot e) \<longleftrightarrow> \<not> truth root e"
| "truth root (ECmp op path c) \<longleftrightarrow> (\<exists>v\<in>set (path_values path root). \<exists>r. compares v c = Some r \<and> cmp_matches op r)"
| "truth root (EBetween path lo hi) \<longleftrightarrow> (\<exists>v\<in>set (path_values path root).
     \<exists>r s. compares v lo = Some r \<and> compares v hi = Some s \<and> r \<noteq> Less \<and> s \<noteq> Greater)"
| "truth root (EBeginsWith path pre) \<longleftrightarrow> (\<exists>s. VStr (pre @ s) \<in> set (path_values path root))"
| "truth root (EIn path ms) \<longleftrightarrow> (\<exists>v\<in>set (path_values path root). \<exists>m\<in>set ms. compares v m = Some Equal)"
| "truth root (EExists path) \<longleftrightarrow> path_values path root \<noteq> []"

text \<open>The leaves a left-to-right reading looks at: up to the operand that settles a connective.\<close>

fun upto_first :: "('a \<Rightarrow> bool) \<Rightarrow> 'a list \<Rightarrow> 'a list" where
  "upto_first P [] = []"
| "upto_first P (x # xs) = x # (if P x then [] else upto_first P xs)"

lemma upto_first_cong [fundef_cong]:
  "xs = ys \<Longrightarrow> (\<And>x. x \<in> set ys \<Longrightarrow> P x = Q x) \<Longrightarrow> upto_first P xs = upto_first Q ys"
  by (induction xs arbitrary: ys) auto

lemma upto_first_subset: "x \<in> set (upto_first P xs) \<Longrightarrow> x \<in> set xs"
  by (induction xs) (auto split: if_splits)

lemma upto_first_size: "x \<in> set (upto_first P xs) \<Longrightarrow> size x < Suc (size_list size xs)"
  by (auto dest!: upto_first_subset intro: le_imp_less_Suc size_list_estimation')

function reached :: "DocValue \<Rightarrow> Predicate \<Rightarrow> Predicate list" where
  "reached root (EAnd es) = concat (map (reached root) (upto_first (\<lambda>e. \<not> truth root e) es))"
| "reached root (EOr es) = concat (map (reached root) (upto_first (truth root) es))"
| "reached root (ENot e) = reached root e"
| "reached root (ECmp op path c) = [ECmp op path c]"
| "reached root (EBetween path lo hi) = [EBetween path lo hi]"
| "reached root (EBeginsWith path pre) = [EBeginsWith path pre]"
| "reached root (EIn path ms) = [EIn path ms]"
| "reached root (EExists path) = [EExists path]"
  by pat_completeness auto
termination
  by (relation "measure (\<lambda>(_, e). size e)") (auto intro: upto_first_size)

text \<open>The values a leaf cannot compare, and the members it tests on a value.\<close>

fun incomparable :: "Predicate \<Rightarrow> DocValue \<Rightarrow> bool" where
  "incomparable (ECmp op path c) v \<longleftrightarrow> compares v c = None"
| "incomparable (EBetween path lo hi) v \<longleftrightarrow> compares v lo = None"
| "incomparable (EBeginsWith path pre) v \<longleftrightarrow> (\<forall>s. v \<noteq> VStr s)"
| "incomparable (EIn path ms) v \<longleftrightarrow> compares v (hd ms) = None"
| "incomparable _ v \<longleftrightarrow> False"

fun tests :: "Predicate \<Rightarrow> DocValue \<Rightarrow> nat" where
  "tests (EIn path ms) v = (if compares v (hd ms) = None then 1 else length (upto_first (\<lambda>m. compares v m = Some Equal) ms))"
| "tests _ v = 0"

fun leaf_path :: "Predicate \<Rightarrow> bytes" where
  "leaf_path (ECmp op path c) = path"
| "leaf_path (EBetween path lo hi) = path"
| "leaf_path (EBeginsWith path pre) = path"
| "leaf_path (EIn path ms) = path"
| "leaf_path (EExists path) = path"
| "leaf_path _ = []"

fun is_exists :: "Predicate \<Rightarrow> bool" where
  "is_exists (EExists path) = True" | "is_exists _ = False"

text \<open>An existence test stops at its first value; the other leaves look at all of them.\<close>

fun visits_to_hit :: "event list \<Rightarrow> nat" where
  "visits_to_hit [] = 0"
| "visits_to_hit (Visit # es) = Suc (visits_to_hit es)"
| "visits_to_hit (Hit loc v # es) = 0"

definition leaf_cost :: "DocValue \<Rightarrow> Predicate \<Rightarrow> nat" where
  "leaf_cost root e =
     (if is_exists e then visits_to_hit (path_events (leaf_path e) root)
      else visits (path_events (leaf_path e) root) + sum_list (map (tests e) (path_values (leaf_path e) root)))"

definition cost :: "DocValue \<Rightarrow> Predicate \<Rightarrow> nat" where
  "cost root p = ops_of p + sum_list (map (leaf_cost root) (reached root p))"

definition flags_of :: "DocValue \<Rightarrow> Predicate list \<Rightarrow> EvalFlags" where
  "flags_of root leaves =
     \<lparr>ef_missing = (\<exists>e\<in>set leaves. \<not> is_exists e \<and> path_values (leaf_path e) root = []),
      ef_type_mismatch = (\<exists>e\<in>set leaves. \<exists>v\<in>set (path_values (leaf_path e) root). incomparable e v)\<rparr>"

section \<open>Comparing\<close>

lemma reverse_cmp: "reverse_ordering (cmp a b) = cmp b a"
  by (auto simp: cmp_def)

lemma finite_not_nan: "is_finite f \<Longrightarrow> \<not> is_nan f"
  by (simp add: is_finite_def is_nan_def)

lemma relation_compares: "const_ok c \<Longrightarrow> relation v c = compares v c"
  by (cases "(v, c)" rule: relation.cases)
    (auto simp: compares_def compare_i64_f64_num finite_not_nan reverse_cmp f64_partial_cmp_def f64_lt_def f64_eq_def cmp_def
      mult_le_cancel_right split: option.splits)

lemma compares_family: "family c = family d \<Longrightarrow> compares v c = None \<longleftrightarrow> compares v d = None"
  by (cases v; cases c; cases d) (simp_all add: compares_def)

section \<open>Fuel\<close>

definition fuel_ok :: "Fuel \<Rightarrow> bool" where
  "fuel_ok fuel \<longleftrightarrow> fu_used fuel \<le> fu_budget fuel \<and> fu_budget fuel < 2 ^ 64"

definition spend :: "nat \<Rightarrow> Fuel \<Rightarrow> Fuel" where
  "spend n fuel = fuel\<lparr>fu_used := fu_used fuel + n\<rparr>"

definition affords :: "Fuel \<Rightarrow> nat \<Rightarrow> bool" where
  "affords fuel n \<longleftrightarrow> fu_used fuel + n \<le> fu_budget fuel"

lemma charge_eq: "fuel_ok fuel \<Longrightarrow> charge fuel n = (if affords fuel n then Ok (spend n fuel) else Err FuelExhausted)"
  by (auto simp: charge_def checked_add_usize_def fuel_ok_def affords_def spend_def)

lemma affords_more: "affords fuel (m + n) \<Longrightarrow> affords fuel m"
  by (simp add: affords_def)

lemma affords_spend [simp]: "affords (spend m fuel) n \<longleftrightarrow> affords fuel (m + n)"
  by (simp add: affords_def spend_def add.assoc)

lemma spend_spend [simp]: "spend n (spend m fuel) = spend (m + n) fuel" "spend 0 fuel = fuel"
  by (simp_all add: spend_def add.assoc)

lemma fuel_ok_spend [simp]: "fuel_ok fuel \<Longrightarrow> fuel_ok (spend n fuel) \<longleftrightarrow> affords fuel n"
  by (auto simp: fuel_ok_def affords_def spend_def)

lemma fuel_ok_affords [simp]: "fuel_ok fuel \<Longrightarrow> affords fuel 0"
  by (simp add: fuel_ok_def affords_def)

lemma remaining_eq: "fuel_ok fuel \<Longrightarrow> remaining fuel = Some (fu_budget fuel - fu_used fuel)"
  by (simp add: remaining_def fuel_ok_def)

section \<open>Leaves\<close>

definition raise :: "bool \<Rightarrow> EvalFlags \<Rightarrow> EvalFlags" where
  "raise b flags = flags\<lparr>ef_type_mismatch := ef_type_mismatch flags \<or> b\<rparr>"

lemma raise_raise [simp]: "raise b (raise a flags) = raise (a \<or> b) flags" "raise False flags = flags"
  by (auto simp: raise_def)

text \<open>A test that spends \<open>c v\<close> units on a value, answers \<open>sat v\<close> and raises the flag on \<open>mis v\<close>.\<close>

definition answers :: "value_test \<Rightarrow> (DocValue \<Rightarrow> nat) \<Rightarrow> (DocValue \<Rightarrow> bool) \<Rightarrow> (DocValue \<Rightarrow> bool) \<Rightarrow> bool" where
  "answers test c sat mis \<longleftrightarrow> (\<forall>v fuel flags. fuel_ok fuel \<longrightarrow>
     (if affords fuel (c v) then test v fuel flags = Some (Ok (sat v), spend (c v) fuel, raise (mis v) flags)
      else \<exists>fuel' flags'. test v fuel flags = Some (Err FuelExhausted, fuel', flags')))"

lemma answers_ok: "answers test c sat mis \<Longrightarrow> fuel_ok fuel \<Longrightarrow> affords fuel (c v) \<Longrightarrow>
    test v fuel flags = Some (Ok (sat v), spend (c v) fuel, raise (mis v) flags)"
  unfolding answers_def by metis

lemma answers_err: "answers test c sat mis \<Longrightarrow> fuel_ok fuel \<Longrightarrow> \<not> affords fuel (c v) \<Longrightarrow>
    \<exists>fuel' flags'. test v fuel flags = Some (Err FuelExhausted, fuel', flags')"
  unfolding answers_def by metis

abbreviation hit_values :: "event list \<Rightarrow> DocValue list" where
  "hit_values es \<equiv> map snd (hits es)"

lemma leaf_visitor_ok:
  "test v (lf_fuel st) (lf_flags st) = Some (Ok b, fuel, flags) \<Longrightarrow> leaf_visitor test (Some st) v =
    (Some (st\<lparr>lf_any_match := True, lf_satisfied := lf_satisfied st \<or> b, lf_fuel := fuel, lf_flags := flags\<rparr>), False)"
  by (simp add: leaf_visitor_def Let_def)

lemma leaf_visitor_err:
  "test v (lf_fuel st) (lf_flags st) = Some (Err e, fuel, flags) \<Longrightarrow> leaf_visitor test (Some st) v =
    (Some (st\<lparr>lf_any_match := True, lf_failed := Some e, lf_fuel := fuel, lf_flags := flags\<rparr>), True)"
  by (simp add: leaf_visitor_def Let_def)

lemma deliver_leaf:
  assumes "answers test c sat mis" and "fuel_ok (lf_fuel st)" and "lf_failed st = None"
    and "visits es \<le> budget" and "affords (lf_fuel st) (sum_list (map c (hit_values es)))"
  shows "deliver (leaf_visitor test) es budget nodes (Some st) =
    (Some (st\<lparr>lf_any_match := lf_any_match st \<or> hits es \<noteq> [], lf_satisfied := lf_satisfied st \<or> (\<exists>v\<in>set (hit_values es). sat v),
       lf_fuel := spend (sum_list (map c (hit_values es))) (lf_fuel st),
       lf_flags := raise (\<exists>v\<in>set (hit_values es). mis v) (lf_flags st)\<rparr>), \<lparr>vo_end = Complete, vo_nodes_visited = nodes + visits es\<rparr>)"
  using assms(2-)
proof (induction es arbitrary: st budget nodes rule: visits.induct)
  case (3 loc v es)
  have a: "affords (lf_fuel st) (c v)" using 3(5) affords_more by simp
  note t = answers_ok [OF assms(1) 3(2) a]
  show ?case using 3 a by (simp add: leaf_visitor_ok [of test v st, OF t] disj_assoc)
qed simp_all

lemma deliver_leaf_fails:
  assumes "answers test c sat mis" and "fuel_ok (lf_fuel st)" and "lf_failed st = None"
    and "\<not> (visits es \<le> budget \<and> affords (lf_fuel st) (sum_list (map c (hit_values es))))"
  shows "\<exists>st' out. deliver (leaf_visitor test) es budget nodes (Some st) = (Some st', out) \<and>
    (lf_failed st' = Some FuelExhausted \<or> vo_end out = Exhausted)"
  using assms(2-)
proof (induction es arbitrary: st budget nodes rule: visits.induct)
  case (3 loc v es)
  show ?case
  proof (cases "affords (lf_fuel st) (c v)")
    case True
    note t = answers_ok [OF assms(1) 3(2) True]
    show ?thesis using 3 True by (simp add: leaf_visitor_ok [of test v st, OF t])
  next
    case False
    obtain fuel' flags' where "test v (lf_fuel st) (lf_flags st) = Some (Err FuelExhausted, fuel', flags')"
      using answers_err [OF assms(1) 3(2) False] by blast
    from leaf_visitor_err [of test v st, OF this] show ?thesis by simp
  qed
qed auto

definition joined :: "EvalFlags \<Rightarrow> EvalFlags \<Rightarrow> EvalFlags" where
  "joined f g = \<lparr>ef_missing = ef_missing f \<or> ef_missing g, ef_type_mismatch = ef_type_mismatch f \<or> ef_type_mismatch g\<rparr>"

lemma path_events_visit:
  assumes "path_from_bytes path = Ok path" and "doc_ok root"
  shows "eval_visit path root budget f s = Some (deliver f (path_events path root) budget 0 s)"
proof -
  obtain ast where "ast_ok ast" "path = path_bytes ast" "path_decode path = Some ast" using validated_path [OF assms(1)] .
  then show ?thesis using eval_visit_delivers [OF _ assms(2), of ast budget f s] by (simp add: path_events_def)
qed

lemma leaf_runs:
  assumes "answers test c sat mis" and "fuel_ok fuel" and "index_at (vm_paths vm) i = Some path" and "path_from_bytes path = Ok path"
    and "doc_ok root"
  defines "values \<equiv> path_values path root"
  defines "n \<equiv> visits (path_events path root) + sum_list (map c values)"
  shows "leaf vm i root fuel flags test = Some (if affords fuel n
    then Ok (\<exists>v\<in>set values. sat v, spend n fuel, joined flags \<lparr>ef_missing = (values = []), ef_type_mismatch = (\<exists>v\<in>set values. mis v)\<rparr>)
    else Err FuelExhausted)"
proof -
  let ?es = "path_events path root" and ?R = "fu_budget fuel - fu_used fuel"
  let ?st = "\<lparr>lf_any_match = False, lf_satisfied = False, lf_failed = None, lf_fuel = fuel, lf_flags = flags\<rparr>"
  have vals: "hit_values ?es = values" by (simp add: values_def path_values_def)
  have leaf: "leaf vm i root fuel flags test = Option.bind (Some (deliver (leaf_visitor test) ?es ?R 0 (Some ?st))) (\<lambda>(s, outcome).
      Option.bind s (\<lambda>st. Some (rbind (charge (lf_fuel st) (vo_nodes_visited outcome)) (\<lambda>fuel.
        case lf_failed st of Some e \<Rightarrow> Err e | None \<Rightarrow> if vo_end outcome = Exhausted then Err FuelExhausted
          else Ok (lf_satisfied st, fuel, if lf_any_match st then lf_flags st else (lf_flags st)\<lparr>ef_missing := True\<rparr>)))))"
    using assms(3) by (simp add: leaf_def remaining_eq [OF assms(2)] path_events_visit [OF assms(4,5)])
  show ?thesis
  proof (cases "visits ?es \<le> ?R \<and> affords fuel (sum_list (map c values))")
    case True
    have d: "deliver (leaf_visitor test) ?es ?R 0 (Some ?st) =
      (Some (?st\<lparr>lf_any_match := values \<noteq> [], lf_satisfied := (\<exists>v\<in>set values. sat v),
         lf_fuel := spend (sum_list (map c values)) fuel, lf_flags := raise (\<exists>v\<in>set values. mis v) flags\<rparr>),
       \<lparr>vo_end = Complete, vo_nodes_visited = visits ?es\<rparr>)"
      using deliver_leaf [OF assms(1), of ?st ?es ?R 0] assms(2) True by (simp add: vals flip: vals)
    show ?thesis unfolding leaf d using assms(2) True
      by (auto simp: charge_eq n_def joined_def raise_def add.commute)
  next
    case False
    then have "\<not> affords fuel n" using assms(2) by (auto simp: affords_def n_def fuel_ok_def)
    moreover obtain st' out where "deliver (leaf_visitor test) ?es ?R 0 (Some ?st) = (Some st', out)"
        "lf_failed st' = Some FuelExhausted \<or> vo_end out = Exhausted"
      using deliver_leaf_fails [OF assms(1), of ?st ?es ?R 0] assms(2) False vals by auto
    ultimately show ?thesis unfolding leaf
      by (cases "charge (lf_fuel st') (vo_nodes_visited out)") (auto split: option.splits intro: PredicateEvalError.exhaust)
  qed
qed

lemma mismatch_raise: "mismatch fuel flags = Some (Ok False, fuel, raise True flags)"
  by (simp add: mismatch_def raise_def)

lemma cmp_answers:
  "const_ok k \<Longrightarrow> answers (cmp_test op k) (\<lambda>_. 0) (\<lambda>v. \<exists>r. compares v k = Some r \<and> cmp_matches op r) (\<lambda>v. compares v k = None)"
  by (auto simp: answers_def cmp_test_def relation_compares mismatch_raise split: option.splits)

lemma between_answers:
  assumes "const_ok lo" and "const_ok hi" and "family lo = family hi"
  shows "answers (between_test lo hi) (\<lambda>_. 0)
    (\<lambda>v. \<exists>r s. compares v lo = Some r \<and> compares v hi = Some s \<and> r \<noteq> Less \<and> s \<noteq> Greater) (\<lambda>v. compares v lo = None)"
  using compares_family [OF assms(3)] assms(1,2)
  by (auto simp: answers_def between_test_def relation_compares mismatch_raise split: option.splits)

lemma begins_with_answers:
  "answers (begins_with_test pre) (\<lambda>_. 0) (\<lambda>v. \<exists>s. v = VStr (pre @ s)) (\<lambda>v. \<forall>s. v \<noteq> VStr s)"
  unfolding answers_def
proof (intro allI impI)
  fix v fuel flags
  assume ok: "fuel_ok fuel"
  have "take (length pre) s = pre \<longleftrightarrow> (\<exists>s'. s = pre @ s')" for s by (metis append_eq_conv_conj append_take_drop_id)
  then show "if affords fuel 0 then begins_with_test pre v fuel flags =
        Some (Ok (\<exists>s. v = VStr (pre @ s)), spend 0 fuel, raise (\<forall>s. v \<noteq> VStr s) flags)
      else \<exists>fuel' flags'. begins_with_test pre v fuel flags = Some (Err FuelExhausted, fuel', flags')"
    using ok by (cases v) (simp_all add: begins_with_test_def mismatch_raise)
qed

text \<open>The members of a list in a program: read in place, of one family.\<close>

lemma in_test_comparable:
  assumes "code_at (vm_program vm) at (concat (map ref_bytes ms))" and "\<forall>m\<in>set ms. m < length (vm_constants vm) \<and> m < 2 ^ 32"
    and "\<forall>c\<in>set (vm_constants vm). const_ok c" and "\<forall>m\<in>set ms. compares v (vm_constants vm ! m) \<noteq> None" and "fuel_ok fuel"
  defines "n \<equiv> length (upto_first (\<lambda>m. compares v m = Some Equal) (map ((!) (vm_constants vm)) ms))"
  shows "if affords fuel n
    then in_test vm at (length ms) v fuel flags = Some (Ok (\<exists>m\<in>set ms. compares v (vm_constants vm ! m) = Some Equal), spend n fuel, flags)
    else \<exists>fuel' flags'. in_test vm at (length ms) v fuel flags = Some (Err FuelExhausted, fuel', flags')"
  using assms(1,2,4,5) unfolding n_def
proof (induction ms arbitrary: at fuel)
  case (Cons m ms)
  let ?c = "vm_constants vm ! m" and ?n = "length (upto_first (\<lambda>m. compares v m = Some Equal) (map ((!) (vm_constants vm)) ms))"
  have m: "m < length (vm_constants vm)" "m < 2 ^ 32" using Cons.prems(2) by auto
  have ref: "trusted_ref (vm_program vm) at = Some (m, at + length (ref_bytes m))"
    using Cons.prems(1) m(2) trusted_ref_at by simp
  have rel: "relation v ?c = compares v ?c" using assms(3) m(1) by (simp add: relation_compares)
  show ?case
  proof (cases "affords fuel 1")
    case False
    then have "\<not> affords fuel (Suc k)" for k by (simp add: affords_def)
    with False show ?thesis using ref Cons.prems(4) by (simp add: charge_eq)
  next
    case True
    have step: "in_test vm at (length (m # ms)) v fuel flags = (case compares v ?c of
        Some Equal \<Rightarrow> Some (Ok True, spend 1 fuel, flags)
      | Some _ \<Rightarrow> in_test vm (at + length (ref_bytes m)) (length ms) v (spend 1 fuel) flags
      | None \<Rightarrow> mismatch (spend 1 fuel) flags)"
      using ref m(1) True Cons.prems(4) rel by (simp add: charge_eq del: One_nat_def)
    show ?thesis
    proof (cases "compares v ?c = Some Equal")
      case True
      then show ?thesis using step \<open>affords fuel 1\<close> by simp
    next
      case False
      then obtain r where r: "compares v ?c = Some r" "r \<noteq> Equal" using Cons.prems(3) by fastforce
      have "if affords (spend 1 fuel) ?n
        then in_test vm (at + length (ref_bytes m)) (length ms) v (spend 1 fuel) flags =
          Some (Ok (\<exists>m\<in>set ms. compares v (vm_constants vm ! m) = Some Equal), spend ?n (spend 1 fuel), flags)
        else \<exists>fuel' flags'. in_test vm (at + length (ref_bytes m)) (length ms) v (spend 1 fuel) flags = Some (Err FuelExhausted, fuel', flags')"
        using Cons.prems \<open>affords fuel 1\<close> by (intro Cons.IH) auto
      then show ?thesis using step r by (cases r) (auto split: if_splits)
    qed
  qed
qed simp

lemma in_answers:
  assumes "code_at (vm_program vm) at (concat (map ref_bytes ms))" and "\<forall>m\<in>set ms. m < length (vm_constants vm) \<and> m < 2 ^ 32"
    and "\<forall>c\<in>set (vm_constants vm). const_ok c" and "ms \<noteq> []"
    and "\<forall>m\<in>set ms. family (vm_constants vm ! m) = family (vm_constants vm ! hd ms)"
  defines "cs \<equiv> map ((!) (vm_constants vm)) ms"
  shows "answers (in_test vm at (length ms)) (tests (EIn path cs)) (\<lambda>v. \<exists>m\<in>set cs. compares v m = Some Equal)
    (\<lambda>v. compares v (hd cs) = None)"
  unfolding answers_def
proof (intro allI impI)
  fix v fuel flags
  assume ok: "fuel_ok fuel"
  obtain m ms' where ms: "ms = m # ms'" using assms(4) by (cases ms) auto
  have m: "m < length (vm_constants vm)" "m < 2 ^ 32" using assms(2) ms by auto
  have all: "compares v (vm_constants vm ! k) = None \<longleftrightarrow> compares v (hd cs) = None" if "k \<in> set ms" for k
    using compares_family [OF bspec [OF assms(5) that]] assms(4) by (simp add: cs_def hd_map)
  show "if affords fuel (tests (EIn path cs) v)
    then in_test vm at (length ms) v fuel flags =
      Some (Ok (\<exists>m\<in>set cs. compares v m = Some Equal), spend (tests (EIn path cs) v) fuel, raise (compares v (hd cs) = None) flags)
    else \<exists>fuel' flags'. in_test vm at (length ms) v fuel flags = Some (Err FuelExhausted, fuel', flags')"
  proof (cases "compares v (hd cs) = None")
    case True
    have "trusted_ref (vm_program vm) at = Some (m, at + length (ref_bytes m))" using assms(1) m(2) trusted_ref_at ms by simp
    moreover have "relation v (vm_constants vm ! m) = None" using all [of m] True m(1) assms(3) ms by (simp add: relation_compares)
    moreover have "\<not> (\<exists>m\<in>set cs. compares v m = Some Equal)" using all True by (auto simp: cs_def)
    ultimately show ?thesis using True m(1) ok ms by (simp add: charge_eq mismatch_raise)
  next
    case False
    then have "\<forall>k\<in>set ms. compares v (vm_constants vm ! k) \<noteq> None" using all by (simp del: not_None_eq)
    moreover obtain r where "compares v (hd cs) = Some r" using False by blast
    ultimately show ?thesis using in_test_comparable [OF assms(1-3) _ ok, of v flags] by (simp add: cs_def)
  qed
qed

text \<open>One leaf of a valid program.\<close>

lemma tests_none [simp]: "tests (ECmp op path c) = (\<lambda>_. 0)" "tests (EBetween path lo hi) = (\<lambda>_. 0)" "tests (EBeginsWith path pre) = (\<lambda>_. 0)"
  by (simp_all add: fun_eq_iff)

lemma deliver_exists:
  "deliver (\<lambda>_ _. (True, True)) es budget nodes False =
    (if visits_to_hit es \<le> budget
     then (hits es \<noteq> [], \<lparr>vo_end = if hits es = [] then Complete else Stopped, vo_nodes_visited = nodes + visits_to_hit es\<rparr>)
     else (False, \<lparr>vo_end = Exhausted, vo_nodes_visited = nodes + budget\<rparr>))"
  by (induction es arbitrary: budget nodes rule: visits_to_hit.induct) (auto simp: Suc_le_eq)

lemma exists_runs:
  assumes "fuel_ok fuel" and "index_at (vm_paths vm) i = Some path" and "path_from_bytes path = Ok path" and "doc_ok root"
  defines "n \<equiv> visits_to_hit (path_events path root)"
  shows "exists_leaf vm i root fuel =
    Some (if affords fuel n then Ok (path_values path root \<noteq> [], spend n fuel) else Err FuelExhausted)"
proof -
  have "n \<le> fu_budget fuel - fu_used fuel \<longleftrightarrow> affords fuel n" using assms(1) by (auto simp: affords_def fuel_ok_def)
  then show ?thesis using assms(1)
    by (auto simp: exists_leaf_def remaining_eq [OF assms(1)] assms(2) path_events_visit [OF assms(3,4)] deliver_exists
        charge_eq n_def [symmetric] path_values_def)
qed

definition prepared :: "bytes list \<Rightarrow> Constant list \<Rightarrow> PredicateVm \<Rightarrow> bool" where
  "prepared ps cs vm \<longleftrightarrow> vm_paths vm = ps \<and> vm_constants vm = cs \<and> length ps \<le> 2 ^ 32 \<and> length cs \<le> 2 ^ 32 \<and>
     (\<forall>p\<in>set ps. path_from_bytes p = Ok p) \<and> (\<forall>c\<in>set cs. const_ok c)"

definition on_tape :: "bytes list \<Rightarrow> Constant list \<Rightarrow> tape \<Rightarrow> bool" where
  "on_tape ps cs t \<longleftrightarrow> refs_in (length ps) (length cs) t \<and> well_typed (pool_fam cs) (pool_fam cs) t"

lemma eval_leaf_runs:
  assumes "prepared ps cs vm" and "on_tape ps cs t" and "is_leaf t" and "code_at (vm_program vm) at (expr_bytes t)"
    and "fuel_ok fuel" and "doc_ok root"
  defines "q \<equiv> dec ps cs t"
  shows "eval_leaf vm (tape_op at t) root fuel flags = Some (if affords fuel (leaf_cost root q)
    then Ok (truth root q, spend (leaf_cost root q) fuel, joined flags (flags_of root [q])) else Err FuelExhausted)"
proof -
  have vm: "vm_paths vm = ps" "vm_constants vm = cs" "\<forall>c\<in>set cs. const_ok c" using assms(1) by (auto simp: prepared_def)
  have path: "index_at (vm_paths vm) i = Some (ps ! i)" "path_from_bytes (ps ! i) = Ok (ps ! i)" if "i \<in> set (expr_paths t)" for i
    using that assms(1,2) by (auto simp: prepared_def on_tape_def refs_in_def)
  have const: "i < length cs" "const_ok (cs ! i)" "i < 2 ^ 32" if "i \<in> set (expr_consts t)" for i
    using that assms(1,2) by (force simp: prepared_def on_tape_def refs_in_def)+
  show ?thesis
  proof (cases t)
    case (ECmp op p c)
    then show ?thesis using leaf_runs [OF cmp_answers [of "cs ! c" op] assms(5) path(1) [of p] path(2) [of p] assms(6), where flags = flags] const [of c]
      by (simp add: vm q_def leaf_cost_def flags_of_def)
  next
    case (EBetween p l h)
    then show ?thesis using leaf_runs [OF between_answers [of "cs ! l" "cs ! h"] assms(5) path(1) [of p] path(2) [of p] assms(6), where flags = flags] const [of l] const [of h] assms(2)
      by (simp add: vm q_def leaf_cost_def flags_of_def on_tape_def)
  next
    case (EBeginsWith p k)
    have "cs ! k = CUtf8 (utf8_text (cs ! k))" using EBeginsWith assms(2) family_utf8 by (simp add: on_tape_def)
    then obtain s where "cs ! k = CUtf8 s" by blast
    then show ?thesis using EBeginsWith leaf_runs [OF begins_with_answers [of s] assms(5) path(1) [of p] path(2) [of p] assms(6), where flags = flags] const [of k]
      by (auto simp add: vm q_def leaf_cost_def flags_of_def)
  next
    case (EIn p ms)
    have a: "answers (in_test vm (at + 1 + length (ref_bytes p) + 1) (length ms)) (tests (EIn (ps ! p) (map ((!) cs) ms)))
        (\<lambda>v. \<exists>m\<in>set (map ((!) cs) ms). compares v m = Some Equal) (\<lambda>v. compares v (hd (map ((!) cs) ms)) = None)"
      unfolding vm(2) [symmetric] using assms(2,4) EIn const vm(3) by (intro in_answers) (auto simp: vm on_tape_def)
    have "unat (of_nat (length ms) :: byte) = length ms"
      using assms(2) EIn by (intro unat_of_nat_byte) (simp add: predicate_limits on_tape_def)
    then show ?thesis using EIn leaf_runs [OF a assms(5) path(1) [of p] path(2) [of p] assms(6), where flags = flags] by (simp add: vm q_def leaf_cost_def flags_of_def)
  next
    case (EExists p)
    then show ?thesis using exists_runs [OF assms(5) path(1) [of p] path(2) [of p] assms(6)]
      by (auto simp: q_def leaf_cost_def flags_of_def joined_def)
  qed (use assms(3) in simp_all)
qed

section \<open>Skipping operands\<close>

fun kids :: "tape \<Rightarrow> tape list" where
  "kids (EAnd es) = es" | "kids (EOr es) = es" | "kids (ENot e) = [e]" | "kids _ = []"

lemma kids_facts:
  "ops_of t = Suc (sum_list (map ops_of (kids t)))"
  "length (expr_bytes t) = head_len t + length (concat (map expr_bytes (kids t)))"
  "code_at bytes pc (expr_bytes t) \<Longrightarrow> code_at bytes (pc + head_len t) (concat (map expr_bytes (kids t)))"
  "on_tape ps cs t \<Longrightarrow> e \<in> set (kids t) \<Longrightarrow> on_tape ps cs e"
  "on_tape ps cs t \<Longrightarrow>
    (case tape_op at t of QAnd arity \<Rightarrow> unat arity | QOr arity \<Rightarrow> unat arity | QNot \<Rightarrow> 1 | _ \<Rightarrow> 0) = length (kids t)"
proof -
  have arity: "unat (of_nat (length es) :: byte) = length es" if "length es \<le> BOOL_ARITY_MAX" for es :: "tape list"
    using that by (intro unat_of_nat_byte) (simp add: predicate_limits)
  show "ops_of t = Suc (sum_list (map ops_of (kids t)))"
    "length (expr_bytes t) = head_len t + length (concat (map expr_bytes (kids t)))"
    "code_at bytes pc (expr_bytes t) \<Longrightarrow> code_at bytes (pc + head_len t) (concat (map expr_bytes (kids t)))"
    "on_tape ps cs t \<Longrightarrow> e \<in> set (kids t) \<Longrightarrow> on_tape ps cs e"
    "on_tape ps cs t \<Longrightarrow>
      (case tape_op at t of QAnd arity \<Rightarrow> unat arity | QOr arity \<Rightarrow> unat arity | QNot \<Rightarrow> 1 | _ \<Rightarrow> 0) = length (kids t)"
    by (cases t; auto simp: numeral_2_eq_2 on_tape_def refs_in_def arity)+
qed

lemma length_ops: "length ts \<le> sum_list (map ops_of ts)"
proof (induction ts)
  case (Cons t ts)
  then show ?case using ops_of_pos [of t] by (simp del: ops_of_pos)
qed simp

lemma skip_loop_runs:
  assumes "length ps \<le> 2 ^ 32" and "length cs \<le> 2 ^ 32" and "\<forall>t\<in>set ts. on_tape ps cs t"
    and "code_at program pc (concat (map expr_bytes ts))" and "fuel_ok fuel" and "sum_list (map ops_of ts) < 2 ^ 32"
  shows "skip_loop program pc (length ts) fuel = Some (if affords fuel (sum_list (map ops_of ts))
    then Ok (pc + length (concat (map expr_bytes ts)), spend (sum_list (map ops_of ts)) fuel) else Err FuelExhausted)"
  using assms(3-)
proof (induction "sum_list (map ops_of ts)" arbitrary: ts pc fuel rule: less_induct)
  case less
  show ?case
  proof (cases ts)
    case Nil
    then show ?thesis using less.prems(3) by (simp add: skip_loop.simps)
  next
    case (Cons t rest)
    let ?ts = "kids t @ rest"
    have t: "on_tape ps cs t" "code_at program pc (expr_bytes t)" using less.prems(1,2) Cons by auto
    have read: "pred_read_op program pc = Some (tape_op pc t, pc + head_len t)"
      using t pred_read_op_at [OF t(2) _ assms(1,2)] by (auto simp: on_tape_def)
    have ops: "sum_list (map ops_of ts) = Suc (sum_list (map ops_of ?ts))" using Cons kids_facts(1) [of t] by simp
    have len: "length ?ts < 2 ^ 32" using length_ops [of ?ts] ops less.prems(4) by linarith
    have bytes: "length (concat (map expr_bytes ts)) = head_len t + length (concat (map expr_bytes ?ts))"
      using Cons kids_facts(2) [of t] by simp
    have step: "skip_loop program pc (length ts) fuel =
        (if affords fuel 1 then skip_loop program (pc + head_len t) (length ?ts) (spend 1 fuel) else Some (Err FuelExhausted))"
      using Cons less.prems(3) len read kids_facts(5) [OF t(1), of pc] by (subst skip_loop.simps) (simp add: charge_eq add.commute)
    show ?thesis
    proof (cases "affords fuel 1")
      case True
      have "skip_loop program (pc + head_len t) (length ?ts) (spend 1 fuel) = Some (if affords (spend 1 fuel) (sum_list (map ops_of ?ts))
          then Ok (pc + head_len t + length (concat (map expr_bytes ?ts)), spend (sum_list (map ops_of ?ts)) (spend 1 fuel))
          else Err FuelExhausted)"
        using less.prems Cons ops True kids_facts(3) [OF t(2)] kids_facts(2) [of t] kids_facts(4) [OF t(1)]
        by (intro less.hyps) (auto simp: add.assoc)
      then show ?thesis using step True ops bytes by (simp add: add.assoc)
    next
      case False
      then show ?thesis using step ops by (simp add: affords_def)
    qed
  qed
qed

section \<open>The loop\<close>

text \<open>How evaluation goes on when an operand has a verdict.\<close>

definition resume :: "PredicateVm \<Rightarrow> DocValue \<Rightarrow> bool \<Rightarrow> nat \<Rightarrow> Pending list \<Rightarrow> nat \<Rightarrow> Fuel \<Rightarrow> EvalFlags \<Rightarrow>
    (PredicateEvalError + EvalOutcome) option" where
  "resume vm root verdict pc stack depth fuel flags =
     Option.bind (fold_verdict verdict (vm_program vm) pc stack depth fuel) (\<lambda>folded. case folded of
         Inl e \<Rightarrow> Some (Err e)
       | Inr (Some verdict, _, _, _, fuel) \<Rightarrow>
           Some (Ok \<lparr>eo_verdict = verdict, eo_flags = flags, eo_fuel_used = fu_used fuel\<rparr>)
       | Inr (None, pc, stack, depth, fuel) \<Rightarrow> eval_loop vm root pc stack depth fuel flags)"

text \<open>A run that spends \<open>n\<close> units and arrives with a verdict, leaving the frames below \<open>depth\<close> alone, or runs out of fuel.\<close>

definition reaches :: "PredicateVm \<Rightarrow> DocValue \<Rightarrow> (PredicateEvalError + EvalOutcome) option \<Rightarrow> Pending list \<Rightarrow> nat \<Rightarrow> Fuel \<Rightarrow>
    nat \<Rightarrow> bool \<Rightarrow> nat \<Rightarrow> EvalFlags \<Rightarrow> bool" where
  "reaches vm root res stack depth fuel n verdict pc flags \<longleftrightarrow>
     (if affords fuel n
      then \<exists>stack'. length stack' = length stack \<and> take depth stack' = take depth stack \<and>
             res = resume vm root verdict pc stack' depth (spend n fuel) flags
      else res = Some (Err FuelExhausted))"

text \<open>Both connectives at once: \<open>b\<close> is the verdict of an operand that does not settle them.\<close>

definition frame_of :: "bool \<Rightarrow> byte \<Rightarrow> Pending" where
  "frame_of b n = (if b then PAnd n else POr n)"

lemma fold_frame:
  assumes "depth < length stack" and "stack ! depth = frame_of b left"
  shows "fold_verdict v program pc stack (Suc depth) fuel =
    (if v \<noteq> b then Option.bind (one_less left) (\<lambda>others.
        pbind (skip_operands program pc others fuel) (\<lambda>(pc, fuel). fold_verdict v program pc stack depth fuel))
     else if left = 1 then fold_verdict v program pc stack depth fuel
     else Option.bind (one_less left) (\<lambda>left. Some (Ok (None, pc, stack[depth := frame_of b left], Suc depth, fuel))))"
  using assms by (auto simp: frame_of_def)

declare fold_verdict.simps(2) [simp del]

lemma one_less_of_nat: "n < 255 \<Longrightarrow> one_less (of_nat (Suc n)) = Some (of_nat n)"
proof -
  assume "n < 255"
  then have "unat (of_nat (Suc n) :: byte) = Suc n" by (intro unat_of_nat_byte) simp
  then have "of_nat (Suc n) \<noteq> (0 :: byte)" by (metis nat.simps(3) unat_0)
  then show ?thesis by (simp add: one_less_def)
qed

lemma resume_settled:
  assumes "depth < length stack" and "stack ! depth = frame_of b (of_nat (Suc (length ts)))" and "length ts < 255" and "v \<noteq> b"
    and "length ps \<le> 2 ^ 32" and "length cs \<le> 2 ^ 32" and "\<forall>t\<in>set ts. on_tape ps cs t"
    and "code_at (vm_program vm) pc (concat (map expr_bytes ts))" and "fuel_ok fuel" and "sum_list (map ops_of ts) < 2 ^ 32"
  shows "resume vm root v pc stack (Suc depth) fuel flags = (if affords fuel (sum_list (map ops_of ts))
    then resume vm root v (pc + length (concat (map expr_bytes ts))) stack depth (spend (sum_list (map ops_of ts)) fuel) flags
    else Some (Err FuelExhausted))"
proof -
  have "unat (of_nat (length ts) :: byte) = length ts" using assms(3) by (intro unat_of_nat_byte) simp
  then have "skip_operands (vm_program vm) pc (of_nat (length ts)) fuel = Some (if affords fuel (sum_list (map ops_of ts))
    then Ok (pc + length (concat (map expr_bytes ts)), spend (sum_list (map ops_of ts)) fuel) else Err FuelExhausted)"
    using skip_loop_runs [OF assms(5-10)] by (simp add: skip_operands_def)
  then show ?thesis using assms(4) by (simp add: resume_def fold_frame [OF assms(1,2)] one_less_of_nat [OF assms(3)] del: of_nat_Suc)
qed

lemma resume_last:
  "depth < length stack \<Longrightarrow> stack ! depth = frame_of b 1 \<Longrightarrow>
    resume vm root b pc stack (Suc depth) fuel flags = resume vm root b pc stack depth fuel flags"
  by (simp add: resume_def fold_frame)

lemma resume_next:
  assumes "depth < length stack" and "stack ! depth = frame_of b (of_nat (Suc n))" and "n < 255" and "n \<noteq> 0"
  shows "resume vm root b pc stack (Suc depth) fuel flags =
    eval_loop vm root pc (stack[depth := frame_of b (of_nat n)]) (Suc depth) fuel flags"
proof -
  have "unat (of_nat (Suc n) :: byte) = Suc n" using assms(3) by (intro unat_of_nat_byte) simp
  then have "of_nat (Suc n) \<noteq> (1 :: byte)" using assms(4) by (metis Suc_inject One_nat_def unat_1)
  then show ?thesis by (simp add: resume_def fold_frame [OF assms(1,2)] one_less_of_nat [OF assms(3)] del: of_nat_Suc)
qed

lemma joined_flags: "joined (joined flags (flags_of root xs)) (flags_of root ys) = joined flags (flags_of root (xs @ ys))"
  by (auto simp: joined_def flags_of_def)

text \<open>The leaves and the price of the operands of a connective.\<close>

definition leaves_of :: "DocValue \<Rightarrow> bool \<Rightarrow> Predicate list \<Rightarrow> Predicate list" where
  "leaves_of root b qs = concat (map (reached root) (upto_first (\<lambda>e. truth root e \<noteq> b) qs))"

definition operands_cost :: "DocValue \<Rightarrow> bool \<Rightarrow> Predicate list \<Rightarrow> nat" where
  "operands_cost root b qs = sum_list (map ops_of qs) + sum_list (map (leaf_cost root) (leaves_of root b qs))"

lemma operands_Nil [simp]: "leaves_of root b [] = []" "operands_cost root b [] = 0"
  by (simp_all add: leaves_of_def operands_cost_def)

lemma leaves_of_Cons: "leaves_of root b (q # qs) = reached root q @ (if truth root q \<noteq> b then [] else leaves_of root b qs)"
  by (simp add: leaves_of_def)

lemma operands_cost_Cons: "operands_cost root b (q # qs) =
    cost root q + (if truth root q \<noteq> b then sum_list (map ops_of qs) else operands_cost root b qs)"
  by (simp add: operands_cost_def leaves_of_Cons cost_def)

lemma ops_of_dec [simp]: "ops_of (dec ps cs t) = ops_of t"
  by (induction t) (simp_all add: comp_def cong: map_cong)

lemma reaches_stack:
  "reaches vm root res stack depth fuel n v pc flags \<Longrightarrow> length stack = length stack0 \<Longrightarrow> take depth stack = take depth stack0 \<Longrightarrow>
    reaches vm root res stack0 depth fuel n v pc flags"
  by (auto simp: reaches_def split: if_splits)

lemma reaches_spend:
  assumes "reaches vm root res stack depth (spend m fuel) n v pc flags" and "affords fuel m"
  shows "reaches vm root res stack depth fuel (m + n) v pc flags"
  using assms by (auto simp: reaches_def split: if_splits)

definition evaluates :: "PredicateVm \<Rightarrow> DocValue \<Rightarrow> bytes list \<Rightarrow> Constant list \<Rightarrow> nat \<Rightarrow> tape \<Rightarrow> bool" where
  "evaluates vm root ps cs depth t \<longleftrightarrow> (\<forall>pc stack fuel flags. code_at (vm_program vm) pc (expr_bytes t) \<longrightarrow>
     length stack = NESTING_DEPTH_MAX \<longrightarrow> fuel_ok fuel \<longrightarrow>
     reaches vm root (eval_loop vm root pc stack depth fuel flags) stack depth fuel (cost root (dec ps cs t)) (truth root (dec ps cs t))
       (pc + length (expr_bytes t)) (joined flags (flags_of root (reached root (dec ps cs t)))))"

lemma evaluatesD:
  "evaluates vm root ps cs depth t \<Longrightarrow> code_at (vm_program vm) pc (expr_bytes t) \<Longrightarrow> length stack = NESTING_DEPTH_MAX \<Longrightarrow> fuel_ok fuel \<Longrightarrow>
    reaches vm root (eval_loop vm root pc stack depth fuel flags) stack depth fuel (cost root (dec ps cs t)) (truth root (dec ps cs t))
       (pc + length (expr_bytes t)) (joined flags (flags_of root (reached root (dec ps cs t))))"
  by (simp add: evaluates_def)

lemma operands_run:
  assumes "\<forall>t\<in>set ts. evaluates vm root ps cs (Suc depth) t" and "ts \<noteq> []" and "length ts \<le> 255"
    and "\<forall>t\<in>set ts. on_tape ps cs t" and "length ps \<le> 2 ^ 32" and "length cs \<le> 2 ^ 32" and "sum_list (map ops_of ts) < 2 ^ 32"
    and "code_at (vm_program vm) pc (concat (map expr_bytes ts))" and "length stack = NESTING_DEPTH_MAX" and "depth < NESTING_DEPTH_MAX"
    and "stack ! depth = frame_of b (of_nat (length ts))" and "fuel_ok fuel"
  shows "reaches vm root (eval_loop vm root pc stack (Suc depth) fuel flags) stack depth fuel (operands_cost root b (map (dec ps cs) ts))
    (if \<exists>t\<in>set ts. truth root (dec ps cs t) \<noteq> b then \<not> b else b) (pc + length (concat (map expr_bytes ts)))
    (joined flags (flags_of root (leaves_of root b (map (dec ps cs) ts))))"
  using assms
proof (induction ts arbitrary: pc stack fuel flags)
  case (Cons t ts)
  let ?q = "dec ps cs t" and ?pc = "pc + length (expr_bytes t)" and ?n = "cost root (dec ps cs t)"
  let ?flags = "joined flags (flags_of root (reached root ?q))" and ?res = "eval_loop vm root pc stack (Suc depth) fuel flags"
  have e: "reaches vm root ?res stack (Suc depth) fuel ?n (truth root ?q) ?pc ?flags"
    using Cons.prems(1,8,9,12) by (intro evaluatesD) simp_all
  show ?case
  proof (cases "affords fuel ?n")
    case False
    then show ?thesis using e by (auto simp: reaches_def operands_cost_Cons dest: affords_more)
  next
    case True
    then obtain stack' where s: "length stack' = length stack" "take (Suc depth) stack' = take (Suc depth) stack"
        "?res = resume vm root (truth root ?q) ?pc stack' (Suc depth) (spend ?n fuel) ?flags"
      using e by (auto simp: reaches_def)
    have d: "depth < length stack'" "depth < length stack" using s(1) Cons.prems(9,10) by simp_all
    have top: "stack' ! depth = frame_of b (of_nat (Suc (length ts)))" "take depth stack' = take depth stack"
      using s(2) Cons.prems(11) d by (auto simp: take_Suc_conv_app_nth)
    have ok: "fuel_ok (spend ?n fuel)" using True Cons.prems(12) by simp
    have small: "length ts < 255" "sum_list (map ops_of ts) < 2 ^ 32" using Cons.prems(3,7) by auto
    have rest: "\<forall>t\<in>set ts. on_tape ps cs t" "code_at (vm_program vm) ?pc (concat (map expr_bytes ts))" using Cons.prems(4,8) by auto
    consider "truth root ?q \<noteq> b" | "truth root ?q = b" "ts = []" | "truth root ?q = b" "ts \<noteq> []" by blast
    then show ?thesis
    proof cases
      case 1
      have "?res = (if affords (spend ?n fuel) (sum_list (map ops_of ts))
          then resume vm root (truth root ?q) (?pc + length (concat (map expr_bytes ts))) stack' depth
            (spend (sum_list (map ops_of ts)) (spend ?n fuel)) ?flags
          else Some (Err FuelExhausted))"
        unfolding s(3) using resume_settled [OF d(1) top(1) small(1) 1 Cons.prems(5,6) rest ok small(2)] .
      then show ?thesis using 1 s(1) top(2) by (auto simp: reaches_def operands_cost_Cons leaves_of_Cons comp_def add.assoc)
    next
      case 2
      then have "?res = resume vm root b ?pc stack' depth (spend ?n fuel) ?flags"
        unfolding s(3) using resume_last [OF d(1), of b] top(1) by simp
      then show ?thesis using 2 True s(1) top(2)
        by (auto simp: reaches_def operands_cost_Cons leaves_of_Cons)
    next
      case 3
      let ?stack = "stack'[depth := frame_of b (of_nat (length ts))]"
      have "?res = eval_loop vm root ?pc ?stack (Suc depth) (spend ?n fuel) ?flags"
        unfolding s(3) using 3 resume_next [OF d(1) top(1) small(1)] by simp
      moreover have "reaches vm root (eval_loop vm root ?pc ?stack (Suc depth) (spend ?n fuel) ?flags) ?stack depth (spend ?n fuel)
          (operands_cost root b (map (dec ps cs) ts)) (if \<exists>t\<in>set ts. truth root (dec ps cs t) \<noteq> b then \<not> b else b)
          (?pc + length (concat (map expr_bytes ts))) (joined ?flags (flags_of root (leaves_of root b (map (dec ps cs) ts))))"
        using Cons.prems 3 small rest ok d s(1) by (intro Cons.IH) auto
      ultimately show ?thesis using reaches_stack [OF reaches_spend [OF _ True], of vm root ?res ?stack depth _ _ _ _ stack] 3 s(1) top(2)
        by (simp add: operands_cost_Cons leaves_of_Cons joined_flags add.assoc)
    qed
  qed
qed simp

lemma eval_loop_exhausted: "fuel_ok fuel \<Longrightarrow> \<not> affords fuel 1 \<Longrightarrow> eval_loop vm root pc stack depth fuel flags = Some (Err FuelExhausted)"
  by (subst eval_loop.simps) (simp add: charge_eq)

lemma eval_loop_leaf:
  assumes "fuel_ok fuel" and "affords fuel 1" and "is_leaf t" and "pred_read_op (vm_program vm) pc = Some (tape_op pc t, next_pc)"
  shows "eval_loop vm root pc stack depth fuel flags =
    Option.bind (eval_leaf vm (tape_op pc t) root (spend 1 fuel) flags) (\<lambda>answer. case answer of
        Inl e \<Rightarrow> Some (Err e)
      | Inr (v, fuel, flags) \<Rightarrow> resume vm root v next_pc stack depth fuel flags)"
  unfolding resume_def using assms by (subst eval_loop.simps) (cases t; simp add: charge_eq del: One_nat_def eval_leaf.simps)

lemma eval_loop_connective:
  assumes "fuel_ok fuel" and "affords fuel 1" and "depth < length stack"
  shows "pred_read_op (vm_program vm) pc = Some (QAnd n, next_pc) \<Longrightarrow>
      eval_loop vm root pc stack depth fuel flags = eval_loop vm root next_pc (stack[depth := frame_of True n]) (Suc depth) (spend 1 fuel) flags"
    and "pred_read_op (vm_program vm) pc = Some (QOr n, next_pc) \<Longrightarrow>
      eval_loop vm root pc stack depth fuel flags = eval_loop vm root next_pc (stack[depth := frame_of False n]) (Suc depth) (spend 1 fuel) flags"
    and "pred_read_op (vm_program vm) pc = Some (QNot, next_pc) \<Longrightarrow>
      eval_loop vm root pc stack depth fuel flags = eval_loop vm root next_pc (stack[depth := PNot]) (Suc depth) (spend 1 fuel) flags"
  using assms by (subst eval_loop.simps, simp add: charge_eq push_pending_def frame_of_def)+

lemma reaches_exhausted:
  assumes "fuel_ok fuel" and "\<not> affords fuel 1"
  shows "reaches vm root (eval_loop vm root pc stack depth fuel flags) stack depth fuel (cost root (dec ps cs t)) v pc' flags'"
proof -
  have "\<not> affords fuel (cost root (dec ps cs t))" using assms(2) ops_of_pos [of t] by (simp add: affords_def cost_def del: ops_of_pos)
  then show ?thesis using eval_loop_exhausted [OF assms] by (simp add: reaches_def)
qed

lemma evaluates_leaf:
  assumes "prepared ps cs vm" and "doc_ok root" and "on_tape ps cs t" and "is_leaf t"
  shows "evaluates vm root ps cs depth t"
  unfolding evaluates_def
proof (intro allI impI)
  fix pc and stack :: "Pending list" and fuel flags
  assume code: "code_at (vm_program vm) pc (expr_bytes t)" and "length stack = NESTING_DEPTH_MAX" and ok: "fuel_ok fuel"
  let ?q = "dec ps cs t"
  have q: "reached root ?q = [?q]" "cost root ?q = 1 + leaf_cost root ?q" "head_len t = length (expr_bytes t)"
    using assms(4) by (cases t; simp add: cost_def)+
  show "reaches vm root (eval_loop vm root pc stack depth fuel flags) stack depth fuel (cost root ?q) (truth root ?q)
      (pc + length (expr_bytes t)) (joined flags (flags_of root (reached root ?q)))"
  proof (cases "affords fuel 1")
    case True
    have "pred_read_op (vm_program vm) pc = Some (tape_op pc t, pc + length (expr_bytes t))"
      using pred_read_op_at [OF code] assms(1,3) q(3) by (auto simp: prepared_def on_tape_def)
    note e = eval_loop_leaf [OF ok True assms(4) this]
    have "eval_leaf vm (tape_op pc t) root (spend 1 fuel) flags = Some (if affords (spend 1 fuel) (leaf_cost root ?q)
        then Ok (truth root ?q, spend (leaf_cost root ?q) (spend 1 fuel), joined flags (flags_of root [?q])) else Err FuelExhausted)"
      using ok True by (intro eval_leaf_runs [OF assms(1,3,4) code _ assms(2)]) simp
    then show ?thesis unfolding e by (auto simp: reaches_def q)
  qed (use reaches_exhausted [OF ok] in blast)
qed

lemma evaluates_connective:
  assumes "prepared ps cs vm" and "\<forall>e\<in>set es. evaluates vm root ps cs (Suc depth) e" and "on_tape ps cs t" and "depth < NESTING_DEPTH_MAX"
    and "ops_of t < 2 ^ 32" and "t = (if b then EAnd es else EOr es)"
  shows "evaluates vm root ps cs depth t"
  unfolding evaluates_def
proof (intro allI impI)
  fix pc and stack :: "Pending list" and fuel flags
  assume code: "code_at (vm_program vm) pc (expr_bytes t)" and stack: "length stack = NESTING_DEPTH_MAX" and ok: "fuel_ok fuel"
  let ?qs = "map (dec ps cs) es" and ?stack = "stack[depth := frame_of b (of_nat (length es))]"
  have kids: "kids t = es" "head_len t = 2" using assms(6) by auto
  have es: "2 \<le> length es" "length es \<le> BOOL_ARITY_MAX" using assms(3,6) by (auto simp: on_tape_def split: if_splits)
  have sizes: "es \<noteq> []" "length es \<le> 255" "sum_list (map ops_of es) < 2 ^ 32" "length ps \<le> 2 ^ 32" "length cs \<le> 2 ^ 32"
    using es assms(1,5) kids_facts(1) [of t] by (auto simp: predicate_limits kids prepared_def)
  have cost: "cost root (dec ps cs t) = 1 + operands_cost root b ?qs" "reached root (dec ps cs t) = leaves_of root b ?qs"
    "truth root (dec ps cs t) = (if \<exists>t\<in>set es. truth root (dec ps cs t) \<noteq> b then \<not> b else b)"
    using assms(6) by (cases b; auto simp: cost_def operands_cost_def leaves_of_def comp_def)+
  show "reaches vm root (eval_loop vm root pc stack depth fuel flags) stack depth fuel (cost root (dec ps cs t)) (truth root (dec ps cs t))
      (pc + length (expr_bytes t)) (joined flags (flags_of root (reached root (dec ps cs t))))"
  proof (cases "affords fuel 1")
    case True
    have read: "pred_read_op (vm_program vm) pc = Some (tape_op pc t, pc + 2)"
      using pred_read_op_at [OF code] assms(1,3) kids(2) by (auto simp: prepared_def on_tape_def)
    have e: "eval_loop vm root pc stack depth fuel flags = eval_loop vm root (pc + 2) ?stack (Suc depth) (spend 1 fuel) flags"
      using eval_loop_connective(1,2) [OF ok True] read assms(4,6) stack by (cases b) auto
    have "reaches vm root (eval_loop vm root (pc + 2) ?stack (Suc depth) (spend 1 fuel) flags) ?stack depth (spend 1 fuel) (operands_cost root b ?qs)
        (if \<exists>t\<in>set es. truth root (dec ps cs t) \<noteq> b then \<not> b else b) (pc + 2 + length (concat (map expr_bytes es)))
        (joined flags (flags_of root (leaves_of root b ?qs)))"
      using assms(2,4) sizes kids_facts(3) [OF code] kids_facts(4) [OF assms(3)] kids stack ok True by (intro operands_run) auto
    then have "reaches vm root (eval_loop vm root pc stack depth fuel flags) stack depth (spend 1 fuel) (operands_cost root b ?qs)
        (truth root (dec ps cs t)) (pc + length (expr_bytes t)) (joined flags (flags_of root (leaves_of root b ?qs)))"
      using reaches_stack kids_facts(2) [of t] unfolding e cost(3) kids by (simp add: reaches_stack add.assoc)
    then show ?thesis unfolding cost(1,2) using True by (rule reaches_spend)
  qed (use reaches_exhausted [OF ok] in blast)
qed

lemma evaluates_not:
  assumes "prepared ps cs vm" and "evaluates vm root ps cs (Suc depth) e" and "on_tape ps cs (ENot e)" and "depth < NESTING_DEPTH_MAX"
  shows "evaluates vm root ps cs depth (ENot e)"
  unfolding evaluates_def
proof (intro allI impI)
  fix pc and stack :: "Pending list" and fuel flags
  assume code: "code_at (vm_program vm) pc (expr_bytes (ENot e))" and stack: "length stack = NESTING_DEPTH_MAX" and ok: "fuel_ok fuel"
  let ?q = "dec ps cs e" and ?stack = "stack[depth := PNot]" and ?flags = "joined flags (flags_of root (reached root (dec ps cs e)))"
  let ?res = "eval_loop vm root pc stack depth fuel flags"
  show "reaches vm root ?res stack depth fuel (cost root (dec ps cs (ENot e))) (truth root (dec ps cs (ENot e)))
      (pc + length (expr_bytes (ENot e))) (joined flags (flags_of root (reached root (dec ps cs (ENot e)))))"
  proof (cases "affords fuel 1")
    case True
    have "pred_read_op (vm_program vm) pc = Some (QNot, pc + 1)"
      using pred_read_op_at [OF code] assms(1,3) by (auto simp: prepared_def on_tape_def)
    from eval_loop_connective(3) [OF ok True _ this] assms(4) stack
    have e: "?res = eval_loop vm root (pc + 1) ?stack (Suc depth) (spend 1 fuel) flags" by simp
    have r: "reaches vm root ?res ?stack (Suc depth) (spend 1 fuel) (cost root ?q) (truth root ?q) (pc + 1 + length (expr_bytes e)) ?flags"
      unfolding e using assms(2) code stack ok True by (intro evaluatesD) simp_all
    have flip: "resume vm root v pc' stack' (Suc depth) f g = resume vm root (\<not> v) pc' stack' depth f g"
      if "length stack' = length stack" "take (Suc depth) stack' = take (Suc depth) ?stack" for v pc' stack' f g
    proof -
      have "stack' ! depth = PNot" using arg_cong [OF that(2), of "\<lambda>xs. xs ! depth"] stack assms(4) by simp
      then show ?thesis using that(1) stack assms(4) by (simp add: resume_def fold_verdict.simps(2))
    qed
    have below: "take depth stack' = take depth stack" if "take (Suc depth) stack' = take (Suc depth) ?stack" for stack'
      using arg_cong [OF that, of "take depth"] by simp
    have "reaches vm root ?res stack depth (spend 1 fuel) (cost root ?q) (\<not> truth root ?q) (pc + 1 + length (expr_bytes e)) ?flags"
    proof (cases "affords (spend 1 fuel) (cost root ?q)")
      case yes: True
      then obtain stack' where s: "length stack' = length stack" "take (Suc depth) stack' = take (Suc depth) ?stack"
          "?res = resume vm root (truth root ?q) (pc + 1 + length (expr_bytes e)) stack' (Suc depth) (spend (cost root ?q) (spend 1 fuel)) ?flags"
        using r unfolding reaches_def by (simp only: if_True length_list_update) blast
      show ?thesis unfolding reaches_def s(3) flip [OF s(1,2)] using yes s(1) below [OF s(2)] by (simp only: if_True) blast
    next
      case False
      then show ?thesis using r unfolding reaches_def by (simp only: if_False)
    qed
    from reaches_spend [OF this True] show ?thesis by (simp add: cost_def)
  qed (use reaches_exhausted [OF ok] in blast)
qed

lemma ops_of_member: "e \<in> set es \<Longrightarrow> ops_of e \<le> sum_list (map ops_of es)"
  by (induction es) auto

lemma evaluates_tape:
  assumes "prepared ps cs vm" and "doc_ok root" and "on_tape ps cs t" and "within_depth (Suc depth) t" and "ops_of t < 2 ^ 32"
  shows "evaluates vm root ps cs depth t"
  using assms(3-)
proof (induction t arbitrary: depth)
  case (EAnd es)
  have "evaluates vm root ps cs (Suc depth) e" if "e \<in> set es" for e
    using EAnd.IH [OF that] EAnd.prems(2,3) kids_facts(4) [OF EAnd.prems(1)] ops_of_member [OF that] that by simp
  then show ?case using EAnd.prems evaluates_connective [OF assms(1), of es root depth "EAnd es" True] by simp
next
  case (EOr es)
  have "evaluates vm root ps cs (Suc depth) e" if "e \<in> set es" for e
    using EOr.IH [OF that] EOr.prems(2,3) kids_facts(4) [OF EOr.prems(1)] ops_of_member [OF that] that by simp
  then show ?case using EOr.prems evaluates_connective [OF assms(1), of es root depth "EOr es" False] by simp
next
  case (ENot e)
  then have "evaluates vm root ps cs (Suc depth) e" "depth < NESTING_DEPTH_MAX" by (auto simp: on_tape_def refs_in_def)
  then show ?case using evaluates_not [OF assms(1)] ENot.prems(1) by blast
qed (use evaluates_leaf [OF assms(1,2)] in \<open>simp_all only: is_leaf.simps\<close>)

section \<open>Whole programs\<close>

lemma vm_new_program:
  assumes "program_ok ps cs t" and "length (program_bytes ps cs t) < PREDICATE_BYTES_CEILING"
  shows "vm_new (program_bytes ps cs t) =
      Some \<lparr>vm_program = program_bytes ps cs t, vm_paths = ps, vm_constants = cs, vm_expr_at = of_nat (expr_at ps cs)\<rparr>"
    and "unat (of_nat (expr_at ps cs) :: u32) = expr_at ps cs"
proof -
  have len: "length (program_bytes ps cs t) < 2 ^ 64" "expr_at ps cs < 2 ^ 32"
    using assms(2) program_layout(6) [of ps cs t] by (simp_all add: predicate_limits)
  then show "vm_new (program_bytes ps cs t) =
      Some \<lparr>vm_program = program_bytes ps cs t, vm_paths = ps, vm_constants = cs, vm_expr_at = of_nat (expr_at ps cs)\<rparr>"
    using program_pools(3,4) [OF assms(1) len(1)] by (simp add: vm_new_def)
  show "unat (of_nat (expr_at ps cs) :: u32) = expr_at ps cs"
    using len(2) by (simp add: unsigned_of_nat take_bit_nat_eq_self)
qed

lemma eval_program:
  assumes "program_ok ps cs t" and "length (program_bytes ps cs t) < PREDICATE_BYTES_CEILING" and "doc_ok root"
    and "vm_new (program_bytes ps cs t) = Some vm"
  defines "p \<equiv> dec ps cs t"
  shows "vm_eval vm root budget = Some (if cost root p \<le> unat budget
    then Ok \<lparr>eo_verdict = truth root p, eo_flags = flags_of root (reached root p), eo_fuel_used = cost root p\<rparr>
    else Err FuelExhausted)"
proof -
  note r = program_refs [OF assms(1)]
  have vm: "vm = \<lparr>vm_program = program_bytes ps cs t, vm_paths = ps, vm_constants = cs, vm_expr_at = of_nat (expr_at ps cs)\<rparr>"
    using vm_new_program(1) [OF assms(1,2)] assms(4) by simp
  have "prepared ps cs vm" "on_tape ps cs t" using assms(1) r by (auto simp: vm prepared_def on_tape_def program_ok_def path_ok_def)
  moreover have "within_depth (Suc 0) t" "ops_of t < 2 ^ 32" using assms(1) by (simp_all add: program_ok_def predicate_limits)
  ultimately have "evaluates vm root ps cs 0 t" using assms(3) by (intro evaluates_tape)
  let ?fuel = "\<lparr>fu_used = 0, fu_budget = unat budget\<rparr>" and ?flags = "\<lparr>ef_missing = False, ef_type_mismatch = False\<rparr>"
  have "reaches vm root (vm_eval vm root budget) (replicate NESTING_DEPTH_MAX PNot) 0 ?fuel (cost root p) (truth root p)
      (expr_at ps cs + length (expr_bytes t)) (joined ?flags (flags_of root (reached root p)))"
    using evaluatesD [OF \<open>evaluates vm root ps cs 0 t\<close>, of "expr_at ps cs" "replicate NESTING_DEPTH_MAX PNot" ?fuel ?flags]
      program_layout(5) [of ps cs t] vm_new_program(2) [OF assms(1,2)] unsigned_less [of budget]
    by (simp add: vm vm_eval_def fuel_ok_def p_def)
  then show ?thesis by (auto simp: reaches_def resume_def affords_def spend_def joined_def flags_of_def split: if_splits)
qed

text \<open>
  C36: programs that pass validation are well typed, and well-typed programs do not go wrong. A validated program decodes
  to a tree of validated paths and finite constants whose connectives have an admitted arity, whose \<open>BETWEEN\<close> and
  \<open>IN\<close> operands are of one family and whose prefixes are strings, within the bounds on nesting and size; the evaluator
  can be built from it, and on every document and budget it returns, without a panic, an outcome within the budget or
  the exhaustion of the fuel.
\<close>

theorem predicate_types_sound:
  assumes "pred_from_bytes bytes = Some (Ok program)"
  shows "\<exists>p vm. pred_decode program = Some p \<and> pred_typed p \<and> pred_well_typed p \<and> within_depth 1 p \<and> ops_of p \<le> OPS_MAX \<and>
    vm_new program = Some vm \<and>
    (\<forall>root budget. doc_ok root \<longrightarrow> vm_eval vm root budget = Some (Err FuelExhausted) \<or>
       (\<exists>out. vm_eval vm root budget = Some (Ok out) \<and> eo_fuel_used out \<le> unat budget))"
proof -
  obtain ps cs t where t: "program = bytes" "program_ok ps cs t" "bytes = program_bytes ps cs t" "length bytes < PREDICATE_BYTES_CEILING"
    using validated_program [OF assms] .
  then have "pred_decode program = Some (dec ps cs t)" using pred_decode_program [OF t(2)] by (simp add: predicate_limits)
  moreover obtain vm where vm: "vm_new program = Some vm" using vm_new_program(1) [OF t(2)] t by auto
  moreover have "vm_eval vm root budget = Some (Err FuelExhausted) \<or>
      (\<exists>out. vm_eval vm root budget = Some (Ok out) \<and> eo_fuel_used out \<le> unat budget)" if "doc_ok root" for root budget
    using eval_program [OF t(2) _ that] vm t by auto
  ultimately show ?thesis using dec_shape [OF t(2)] by blast
qed

text \<open>
  C37: predicate evaluation is correct. On every document, a validated program evaluates to the boolean reading of its
  tree, where a comparison holds if some value of its path compares so, numbers compare as numbers and nothing compares
  across types; the flags report the absent and the incomparable values met by the leaves that a left-to-right reading
  with short circuits looks at; the fuel used is one unit for each operation of the program plus the nodes and list
  members those leaves look at; and the evaluation fails, with the exhaustion of the fuel, exactly when the budget is
  below that.
\<close>

theorem predicate_eval_correct:
  assumes "pred_from_bytes bytes = Some (Ok program)" and "doc_ok root"
  shows "\<exists>vm p. vm_new program = Some vm \<and> pred_decode program = Some p \<and>
    vm_eval vm root budget = Some (if cost root p \<le> unat budget
      then Ok \<lparr>eo_verdict = truth root p, eo_flags = flags_of root (reached root p), eo_fuel_used = cost root p\<rparr>
      else Err FuelExhausted)"
proof -
  obtain ps cs t where t: "program = bytes" "program_ok ps cs t" "bytes = program_bytes ps cs t" "length bytes < PREDICATE_BYTES_CEILING"
    using validated_program [OF assms(1)] .
  then have "pred_decode program = Some (dec ps cs t)" using pred_decode_program [OF t(2)] by (simp add: predicate_limits)
  moreover obtain vm where "vm_new program = Some vm" using vm_new_program(1) [OF t(2)] t by auto
  ultimately show ?thesis using eval_program [OF t(2) _ assms(2)] t by blast
qed

text \<open>The predicate \<open>$.a = 0.0\<close> on the document \<open>{"a": 0}\<close>.\<close>

lemma field_a_document:
  "doc_ok (VObj [([0x61], VI64 0)])"
  "path_events [1, 0, 1, 2, 1, 0x61] (VObj [([0x61], VI64 0)]) = [Visit, Hit [0] (VI64 0)]"
  by (simp_all add: doc_ok.simps [of "VObj vs" for vs] doc_ok.simps [of "VI64 i" for i] path_events_def field_a_program(2) sel_nodes.simps)

lemma field_a_validated:
  "pred_from_bytes [1, 0, 1, 6, 1, 0, 1, 2, 1, 0x61, 1, 2, 0, 0, 0, 0, 0, 0, 0, 0, 0x10, 0, 0] =
    Some (Ok [1, 0, 1, 6, 1, 0, 1, 2, 1, 0x61, 1, 2, 0, 0, 0, 0, 0, 0, 0, 0, 0x10, 0, 0])"
  "pred_decode [1, 0, 1, 6, 1, 0, 1, 2, 1, 0x61, 1, 2, 0, 0, 0, 0, 0, 0, 0, 0, 0x10, 0, 0] = Some (ECmp CEq [1, 0, 1, 2, 1, 0x61] (CF64 0))"
  using encoded_validates [OF field_a_zero(1,2)] field_a_zero(3) by simp_all

lemma field_a_meaning:
  "cost (VObj [([0x61], VI64 0)]) (ECmp CEq [1, 0, 1, 2, 1, 0x61] (CF64 0)) = 2"
  "truth (VObj [([0x61], VI64 0)]) (ECmp CEq [1, 0, 1, 2, 1, 0x61] (CF64 0))"
  "flags_of (VObj [([0x61], VI64 0)]) (reached (VObj [([0x61], VI64 0)]) (ECmp CEq [1, 0, 1, 2, 1, 0x61] (CF64 0))) =
    \<lparr>ef_missing = False, ef_type_mismatch = False\<rparr>"
  by (simp_all add: cost_def leaf_cost_def path_values_def field_a_document compares_def f64_num_def f64_mag_def mag_val_def cmp_def flags_of_def)

theorem predicate_types_sound_witness:
  "\<exists>vm. vm_new [1, 0, 1, 6, 1, 0, 1, 2, 1, 0x61, 1, 2, 0, 0, 0, 0, 0, 0, 0, 0, 0x10, 0, 0] = Some vm \<and>
    vm_eval vm (VObj [([0x61], VI64 0)]) 1 \<noteq> None"
  using predicate_types_sound [OF field_a_validated(1)] field_a_document(1) by fastforce

theorem predicate_eval_correct_witness:
  "\<exists>vm. vm_new [1, 0, 1, 6, 1, 0, 1, 2, 1, 0x61, 1, 2, 0, 0, 0, 0, 0, 0, 0, 0, 0x10, 0, 0] = Some vm \<and>
    vm_eval vm (VObj [([0x61], VI64 0)]) 2 =
      Some (Ok \<lparr>eo_verdict = True, eo_flags = \<lparr>ef_missing = False, ef_type_mismatch = False\<rparr>, eo_fuel_used = 2\<rparr>) \<and>
    vm_eval vm (VObj [([0x61], VI64 0)]) 1 = Some (Err FuelExhausted)"
  using predicate_eval_correct [OF field_a_validated(1) field_a_document(1), of 2]
    predicate_eval_correct [OF field_a_validated(1) field_a_document(1), of 1]
  by (auto simp: field_a_validated(2) field_a_meaning simp del: truth.simps reached.simps)

end
