(* ===== verification/Spec2Isabelle.thy ===== *)
theory Spec2Isabelle
  imports LogFrame SpscRing RespPipeline IndexKey Capped PathResume PathCanonical PathGrammar PredEval
begin

text \<open>
  \<^bold>\<open>A verification library for InfinityDB.\<close>

  InfinityDB is a multi-model in-memory database: a process runs one \<^emph>\<open>cell\<close> per core, clients speak RESP to a cell,
  cells exchange messages over lock-free rings, changes are appended to a checksummed log, and JSON documents are
  queried by paths and predicates that are compiled to bytecode and backed by ordered indexes. This library models
  the parts whose behaviour is determined by their values: wire protocol, log formats, the ring, capped containers,
  index keys, and the compilers, validators and evaluators of paths and predicates.

  \<^bold>\<open>Conventions.\<close> The target is 64-bit. Fixed-width integers are words where their width matters; \<open>usize\<close> positions,
  lengths and counters of operations are naturals, with the source's checks against the width written out. Byte
  slices, strings and vectors are lists. \<open>Result\<close> is a sum (\<open>Ok\<close> is \<open>Inr\<close>, \<open>Err\<close> is \<open>Inl\<close>), a possible panic is the
  value \<open>None\<close> of an outer option, and \<open>pbind\<close> is the \<open>?\<close> operator on such values. Debug assertions, \<open>Display\<close> and
  \<open>Debug\<close> text and heap accounting are left out. Names are those of the source; a name that two modules share carries a
  prefix (\<open>lsn_advance\<close> is \<open>Lsn::advance\<close>, \<open>advance\<close> the step of a path frame).

  \<^bold>\<open>Shared theories.\<close> \<open>Prelude\<close>: machine types, results, checked slices, little-endian bytes. \<open>Decimal\<close>: canonical
  decimal digits. \<open>Utf8\<close>: well-formed UTF-8. \<open>ByteOrder\<close>: \<open>Ordering\<close> and the order of byte slices. \<open>Float64\<close>: IEEE
  doubles as bits, with the casts and comparisons of the language. \<open>Fifo\<close>: the locale \<open>bounded_fifo\<close>, the
  contract of a bounded queue, interpreted on the ring (\<open>spsc\<close>) and on the capped deque (\<open>capped\<close>).

  \<^bold>\<open>The log\<close> (\<^verbatim>\<open>crates/inf-log\<close>, with \<^verbatim>\<open>inf-foundation/src/varint.rs\<close> and \<^verbatim>\<open>inf-simd/src/crc32c.rs\<close>).
  \<^item> \<open>Varint\<close>: \<open>encode_u64\<close> and the decoder; decoding succeeds exactly on canonical encodings.
  \<^item> \<open>Crc32c\<close>: the slicing-by-8 tables and loops; equal to polynomial division bit by bit, composable over
    concatenation, and sensitive to every burst within four bytes.
  \<^item> \<open>LogRecord\<close> (\<^verbatim>\<open>record.rs\<close>): all record types; encoding and decoding are inverse in both directions.
  \<^item> \<open>Lsn\<close> (\<^verbatim>\<open>lsn.rs\<close>): the packing into 64 bits is an order isomorphism.
  \<^item> \<open>LogFrame\<close> (\<^verbatim>\<open>frame.rs\<close>) composes the four: a sealed frame decodes to the appended records at their LSNs, any
    accepted frame can be walked without a panic, damage of a frame is reported, and a segment image of sealed frames
    followed by zeros iterates to its end.

  \<^bold>\<open>The ring\<close> (\<^verbatim>\<open>crates/inf-fabric/src/ring.rs\<close>). \<open>SpscRing\<close> has both handles and the shared words. The two threads
  are the inductive relation \<open>ring_step\<close>, one step per access to shared memory. The accesses are interleaved under
  sequential consistency; weaker orders are outside the model. In every interleaving the consumer gets a prefix of what was
  sent and no slot is misused; run to completion, the operations refine the bounded queue.

  \<^bold>\<open>Capped containers\<close> (\<^verbatim>\<open>crates/inf-foundation/src/bounded\<close>). \<open>Capped\<close> has caps, the census and the deque; the
  census of every reachable state tells the truth about the live deques, the deque refines the bounded queue, and merging keeps
  exactly the last entry of each run.

  \<^bold>\<open>RESP\<close> (\<^verbatim>\<open>crates/inf-wire\<close>, \<^verbatim>\<open>inf-simd/src/swar.rs\<close>, \<open>find_crlf\<close> of \<^verbatim>\<open>crlf.rs\<close>).
  \<^item> \<open>Swar\<close>: the integer parser equals the scalar reference of its tests on inputs of at most nineteen digits and
    refuses longer ones, leading zeros included, where the reference does not.
  \<^item> \<open>RespParser\<close> (\<^verbatim>\<open>parser.rs\<close>): the parser, its limits and its lending iterator. \<open>RespStream\<close>: whole connections; the
    cut of the stream into reads does not matter as long as at most the last read meets a protocol error, no input
    panics, and the carried bytes are bounded. Whether an inline line at the cap is an error does depend on the cut,
    and a property shows it.
  \<^item> \<open>RespWriter\<close> (\<^verbatim>\<open>writer.rs\<close>): every reply; integer replies read back, a line reply is one line, a patched bulk is a
    bulk. The text of a double is an argument.
  \<^item> \<open>RespPipeline\<close> joins both ends: commands that are written are read back.

  \<^bold>\<open>Index keys\<close> (\<^verbatim>\<open>crates/inf-store/src/index_key.rs\<close>). \<open>IndexKey\<close>: the byte order of keys is the order of values, the
  decoder is strict, mixed comparisons and coercions are exact, and the bounds built on a prefix image are exact, also when
  the image is cut at the key cap.

  \<^bold>\<open>Paths\<close> (\<^verbatim>\<open>crates/inf-doc/src/path\<close>). Path text, syntax tree and bytecode are three forms of one path.
  \<^item> \<open>PathText\<close> (\<^verbatim>\<open>parse.rs\<close>, the printer of \<^verbatim>\<open>ast.rs\<close>, \<open>compile\<close> of \<^verbatim>\<open>mod.rs\<close>) and \<open>PathGrammar\<close>: printing and parsing
    round trip, and whatever compiles is valid.
  \<^item> \<open>PathProgram\<close> (\<^verbatim>\<open>program.rs\<close>): writer, validator and decoder; what is written decodes back, and it is
    valid exactly when the tree is well-formed, which the writer does not check.
  \<^item> \<open>PathEval\<close> (\<^verbatim>\<open>eval.rs\<close>): the frame machine, the plain-chain lane, budgeted runs and the document-order view. \<open>PathTrace\<close>
    says by recursion on the tree which nodes a path visits and matches. \<open>PathVisit\<close>, \<open>PathResume\<close> and \<open>PathCanonical\<close>
    show that streaming delivers these matches, that slicing a run does not change its answer, and that the
    view is sorted, free of duplicates and right about overlaps.

  \<^bold>\<open>Predicates\<close> (\<^verbatim>\<open>crates/inf-query/src/predicate\<close>).
  \<^item> \<open>PredProgram\<close> (\<^verbatim>\<open>program.rs\<close>, \<^verbatim>\<open>mod.rs\<close>): encoder, validator, reader and decoder. \<open>PredTape\<close>, \<open>PredCodec\<close> and \<open>PredRound\<close>
    show that each valid program is the one encoding of its tree.
  \<^item> \<open>PredVm\<close> (\<^verbatim>\<open>vm.rs\<close>) resolves operands with \<open>eval_visit\<close> of \<open>PathEval\<close> and compares numbers with
    \<open>compare_i64_f64\<close> of \<open>IndexKey\<close>. \<open>PredEval\<close> shows that valid programs are well typed and that evaluation gives
    the truth value, the flags and the fuel use that the tree denotes.

  \<^bold>\<open>Loops and fuel.\<close> Loops that consume input are total functions with their measures. Four loops are partial functions
  whose value \<open>None\<close> also stands for divergence: \<open>visit_loop\<close> and \<open>run_loop\<close> of paths, \<open>decode_ops\<close> and \<open>eval_loop\<close> of
  predicates; for validated programs the properties give them a result. The driver \<open>drive_eval\<close> of sliced
  evaluation counts its calls, and one call more than the nodes visited is proved enough. The node budget and the
  predicate fuel are the source's own, and running out of them is one of its error values.

  \<^bold>\<open>Modelled as an argument or assumed.\<close> A document is the tree of values its cursors walk; that the two binary
  forms present such a tree is assumed. UTF-8 validation is the portable tier. Allocation results, payload sizes and the merge
  functions of capped containers are arguments.

  \<^bold>\<open>Not modelled.\<close>
  \<^item> Files and recovery (segments, commit, checkpoints, tiers, manifest of \<^verbatim>\<open>inf-log\<close>), event loop and
    drivers (\<^verbatim>\<open>inf-runtime\<close>), server, probe, binaries: system calls and process setup.
  \<^item> Arenas, regions and buffer pools (\<^verbatim>\<open>inf-alloc\<close>), and the hash tables, index pages, expiry wheel and tiers of
    \<^verbatim>\<open>inf-store\<close>: raw memory, whose contracts are about addresses.
  \<^item> Vector kernels and hardware checksums of \<^verbatim>\<open>inf-simd\<close>: processor intrinsics.
  \<^item> The document tape, JSON parser and emitter, and document deltas of \<^verbatim>\<open>inf-doc\<close>; the program cache
    (\<^verbatim>\<open>path/cache.rs\<close>), which stores results of the modelled compiler; the PartiQL front end, access planner and pages of
    \<^verbatim>\<open>inf-query\<close>; the message codec and mesh of \<^verbatim>\<open>inf-fabric\<close>; hashing, ids, histograms, clocks and the remaining value types of
    \<^verbatim>\<open>inf-foundation\<close>. These could be modelled in the same style and are left for later.
  \<^item> The static command table, simulator and benchmarks, and the reserved crates, which are empty.
\<close>

end
